(* ===== verification/SortedMap.thy ===== *)
theory SortedMap
  imports Prelude
begin

text \<open>
  The standard library's \<^verbatim>\<open>BTreeMap\<close> as the engine uses it: an association list in
  strictly ascending key order, with lookup, the entry update and the range from a
  lower bound; \<^verbatim>\<open>find_map\<close> and \<^verbatim>\<open>partition_point\<close> of slices; and the order facts
  about byte-string prefixes that prefix scans rely on.
\<close>

section \<open>Iterators and slices\<close>

primrec find_map :: "('a \<Rightarrow> 'b option) \<Rightarrow> 'a list \<Rightarrow> 'b option" where
  "find_map f [] = None"
| "find_map f (x # xs) = (case f x of Some y \<Rightarrow> Some y | None \<Rightarrow> find_map f xs)"

definition partition_point :: "('a \<Rightarrow> bool) \<Rightarrow> 'a list \<Rightarrow> nat" where
  "partition_point P xs = length (takeWhile P xs)"

definition starts_with :: "'a list \<Rightarrow> 'a list \<Rightarrow> bool" where
  "starts_with xs p \<longleftrightarrow> take (length p) xs = p"

section \<open>Ordered maps\<close>

type_synonym ('k, 'v) btree = "('k \<times> 'v) list"

primrec bt_put :: "'k::linorder \<Rightarrow> 'v \<Rightarrow> ('k, 'v) btree \<Rightarrow> ('k, 'v) btree" where
  "bt_put k v [] = [(k, v)]"
| "bt_put k v (p # ps) =
    (if k < fst p then (k, v) # p # ps
     else if k = fst p then (k, v) # ps
     else p # bt_put k v ps)"

definition bt_get :: "('k, 'v) btree \<Rightarrow> 'k \<Rightarrow> 'v option" where
  "bt_get m k = map_of m k"

definition bt_from :: "'k::linorder \<Rightarrow> ('k, 'v) btree \<Rightarrow> ('k, 'v) btree" where
  "bt_from lo m = dropWhile (\<lambda>p. fst p < lo) m"

definition bt_inv :: "('k::linorder, 'v) btree \<Rightarrow> bool" where
  "bt_inv m \<longleftrightarrow> sorted_wrt (<) (map fst m)"

section \<open>Facts\<close>

lemma find_map_append: "find_map f (xs @ ys) = (case find_map f xs of Some y \<Rightarrow> Some y | None \<Rightarrow> find_map f ys)"
  by (induction xs) (auto split: option.splits)

lemma find_map_None_iff: "find_map f xs = None \<longleftrightarrow> (\<forall>x \<in> set xs. f x = None)"
  by (induction xs) (auto split: option.splits)

lemma find_map_SomeD: "find_map f xs = Some y \<Longrightarrow> \<exists>x \<in> set xs. f x = Some y"
  by (induction xs) (auto split: option.splits)

lemma bt_inv_simps [simp]:
  "bt_inv []"
  "bt_inv (p # ps) \<longleftrightarrow> (\<forall>q \<in> set ps. fst p < fst q) \<and> bt_inv ps"
  by (auto simp: bt_inv_def)

lemma bt_inv_distinct: "bt_inv m \<Longrightarrow> distinct (map fst m)"
  by (induction m) auto

lemma set_bt_put: "set (bt_put k v m) \<subseteq> insert (k, v) (set m)"
  by (induction m) auto

lemma bt_put_keys: "fst ` set (bt_put k v m) = insert k (fst ` set m)"
  by (induction m) auto

lemma bt_inv_put: "bt_inv m \<Longrightarrow> bt_inv (bt_put k v m)"
proof (induction m)
  case (Cons p ps)
  have "fst p < fst q" if "q \<in> set (bt_put k v ps)" "\<not> k < fst p" "k \<noteq> fst p" for q
    using that set_bt_put [of k v ps] Cons.prems by force
  then show ?case using Cons by (auto intro: less_trans)
qed simp

lemma map_of_None_less: "\<forall>q \<in> set m. (k :: 'k::linorder) < fst q \<Longrightarrow> map_of m k = None"
  by (induction m) auto

lemma bt_get_put [simp]: "bt_inv m \<Longrightarrow> bt_get (bt_put k v m) k' = (if k' = k then Some v else bt_get m k')"
  by (induction m) (auto simp: bt_get_def map_of_None_less)

lemma bt_get_Some_iff: "bt_inv m \<Longrightarrow> bt_get m k = Some v \<longleftrightarrow> (k, v) \<in> set m"
  by (simp add: bt_get_def bt_inv_distinct)

lemma strict_items_equal:
  fixes xs ys :: "('k::linorder \<times> 'v) list"
  assumes "sorted_wrt (<) (map fst xs)" and "sorted_wrt (<) (map fst ys)" and "set xs = set ys"
  shows "xs = ys"
  using assms
proof (induction xs arbitrary: ys)
  case (Cons x xs)
  then obtain y ys' where ys: "ys = y # ys'" by (cases ys) auto
  have "x = y"
  proof (rule ccontr)
    assume "x \<noteq> y"
    then have "y \<in> set xs" "x \<in> set ys'" using Cons.prems(3) ys by auto
    then have "fst x < fst y" "fst y < fst x" using Cons.prems(1,2) ys by auto
    then show False by simp
  qed
  moreover have "x \<notin> set xs" "y \<notin> set ys'" using Cons.prems(1,2) ys by auto
  ultimately have "set xs = set ys'" using Cons.prems(3) ys by auto
  then show ?case using Cons ys \<open>x = y\<close> by simp
qed simp

text \<open>The order laws of a map, as the engine's components use them.\<close>

locale ordered_map =
  fixes empty :: "'m" and lookup :: "'m \<Rightarrow> 'k::linorder \<Rightarrow> 'v option"
    and update :: "'k \<Rightarrow> 'v \<Rightarrow> 'm \<Rightarrow> 'm" and items :: "'m \<Rightarrow> ('k \<times> 'v) list" and inv :: "'m \<Rightarrow> bool"
  assumes inv_empty: "inv empty"
    and lookup_empty: "lookup empty k = None"
    and inv_update: "inv m \<Longrightarrow> inv (update k v m)"
    and lookup_update: "inv m \<Longrightarrow> lookup (update k v m) k' = (if k' = k then Some v else lookup m k')"
    and items_sorted: "inv m \<Longrightarrow> sorted_wrt (<) (map fst (items m))"
    and items_lookup: "inv m \<Longrightarrow> (k, v) \<in> set (items m) \<longleftrightarrow> lookup m k = Some v"
begin

lemma build_inv: "inv (fold (\<lambda>(k, v). update k v) kvs empty)"
proof -
  have "inv m \<Longrightarrow> inv (fold (\<lambda>(k, v). update k v) kvs m)" for m
    by (induction kvs arbitrary: m) (auto simp: inv_update)
  then show ?thesis by (simp add: inv_empty)
qed

lemma build_lookup: "lookup (fold (\<lambda>(k, v). update k v) kvs empty) k = map_of (rev kvs) k"
proof (induction kvs rule: rev_induct)
  case (snoc p kvs)
  then show ?case using build_inv [of kvs] by (cases p) (simp add: lookup_update)
qed (simp add: lookup_empty)

lemma items_eqI:
  assumes "inv m" and "inv m'" and "\<And>k. lookup m k = lookup m' k"
  shows "items m = items m'"
proof (rule strict_items_equal)
  show "set (items m) = set (items m')" using assms items_lookup by auto
qed (use assms items_sorted in auto)

end

interpretation btree_map: ordered_map "[]" bt_get bt_put "\<lambda>m. m" bt_inv
  by unfold_locales (simp_all add: bt_get_Some_iff bt_inv_put, simp_all add: bt_get_def bt_inv_def)

section \<open>Prefixes in the byte order\<close>

lemma starts_with_ge: "starts_with k p \<Longrightarrow> p \<le> (k :: 'a::linorder list)"
proof (induction p arbitrary: k)
  case (Cons a p)
  then obtain b ks where "k = b # ks" by (cases k) (auto simp: starts_with_def)
  then show ?case using Cons by (auto simp: starts_with_def)
qed simp

lemma starts_with_interval:
  fixes p :: "'a::linorder list"
  assumes "p \<le> k" and "\<not> starts_with k p" and "k \<le> k'"
  shows "\<not> starts_with k' p"
  using assms
proof (induction p arbitrary: k k')
  case Nil
  then show ?case by (simp add: starts_with_def)
next
  case (Cons a p)
  from Cons.prems obtain b ks where k: "k = b # ks" by (cases k) auto
  from Cons.prems k obtain b' ks' where k': "k' = b' # ks'" by (cases k') auto
  show ?case using Cons by (auto simp: k k' starts_with_def)
qed

end
