(* ===== verification/Cursor.thy ===== *)
theory Cursor
  imports Prelude
begin

text \<open>
  The error type and the decode cursor of \<^verbatim>\<open>format.rs\<close>. An error keeps the
  constructor of the source and the fixed part of its message; the interpolated
  numbers and paths are left out. The last constructor is not a variant of the source's
  enum: \<open>Panicked\<close> is the outcome of a call that does not return an error but panics (a slice
  out of range, a failed \<^verbatim>\<open>expect\<close>, an underflow in a checked build). The reading operations return the new cursor,
  which the source updates in place.

  Two judgements carry every codec proof. \<open>adv c bs c'\<close> says that the cursor
  moved from \<open>c\<close> over exactly the bytes \<open>bs\<close> to \<open>c'\<close>. The locale \<open>reader\<close> is the
  contract of a record decoder (it reads back what the encoder wrote, wherever
  the record stands), \<open>codec\<close> adds the converse (it accepts nothing else); both
  are proved once for a counted sequence of records.
\<close>

section \<open>Errors\<close>

datatype format_error =
    Corrupt string
  | Unsupported string
  | Io string
  | Invalid string
  | Locked string
  | Stale string
  | Panicked

type_synonym 'a fres = "format_error + 'a"

section \<open>The cursor\<close>

record cursor =
  cbytes :: bytes
  cpos :: nat

type_synonym 'a parser = "cursor \<Rightarrow> format_error + ('a \<times> cursor)"

definition cursor_new :: "bytes \<Rightarrow> cursor" where
  "cursor_new bs = \<lparr>cbytes = bs, cpos = 0\<rparr>"

definition remaining :: "cursor \<Rightarrow> nat" where
  "remaining c = length (cbytes c) - cpos c"

definition cur_is_empty :: "cursor \<Rightarrow> bool" where
  "cur_is_empty c \<longleftrightarrow> remaining c = 0"

definition cur_take :: "nat \<Rightarrow> bytes parser" where
  "cur_take n c =
    (if remaining c < n then Inl (Corrupt ''truncated'')
     else Inr (take n (drop (cpos c) (cbytes c)), c\<lparr>cpos := cpos c + n\<rparr>))"

definition cur_u8 :: "byte parser" where
  "cur_u8 c = rbind (cur_take 1 c) (\<lambda>(bs, c). Inr (bs ! 0, c))"

definition cur_u16 :: "u16 parser" where
  "cur_u16 c = rbind (cur_take 2 c) (\<lambda>(bs, c). Inr (le_u16 bs, c))"

definition cur_u32 :: "u32 parser" where
  "cur_u32 c = rbind (cur_take 4 c) (\<lambda>(bs, c). Inr (le_u32 bs, c))"

definition cur_u64 :: "u64 parser" where
  "cur_u64 c = rbind (cur_take 8 c) (\<lambda>(bs, c). Inr (le_u64 bs, c))"

definition cur_vec :: "bytes parser" where
  "cur_vec c = rbind (cur_u32 c) (\<lambda>(len, c). cur_take (unat len) c)"

text \<open>The encoder's side of \<^verbatim>\<open>vec\<close>: the length as \<^verbatim>\<open>u32\<close>, then the bytes.\<close>

definition vec_le :: "bytes \<Rightarrow> bytes" where
  "vec_le bs = u32_le (word_of_nat (length bs)) @ bs"

text \<open>A \<^verbatim>\<open>for _ in 0..n\<close> loop that decodes one record per round.\<close>

primrec parse_n :: "'a parser \<Rightarrow> nat \<Rightarrow> 'a list parser" where
  "parse_n p 0 c = Inr ([], c)"
| "parse_n p (Suc n) c =
    rbind (p c) (\<lambda>(x, c). rbind (parse_n p n c) (\<lambda>(xs, c). Inr (x # xs, c)))"

section \<open>Moving over bytes\<close>

definition rest :: "cursor \<Rightarrow> bytes" where
  "rest c = drop (cpos c) (cbytes c)"

definition adv :: "cursor \<Rightarrow> bytes \<Rightarrow> cursor \<Rightarrow> bool" where
  "adv c bs c' \<longleftrightarrow> rest c = bs @ rest c' \<and> c' = c\<lparr>cpos := cpos c + length bs\<rparr>"

lemma remaining_rest: "remaining c = length (rest c)"
  by (simp add: remaining_def rest_def)

lemma rest_new [simp]: "rest (cursor_new bs) = bs"
  by (simp add: rest_def cursor_new_def)

lemma adv_rest: "adv c bs c' \<Longrightarrow> rest c = bs @ rest c'"
  by (simp add: adv_def)

lemma adv_pos: "adv c bs c' \<Longrightarrow> cpos c' = cpos c + length bs"
  by (simp add: adv_def)

lemma adv_bytes: "adv c bs c' \<Longrightarrow> cbytes c' = cbytes c"
  by (simp add: adv_def)

lemma adv_Nil [simp]: "adv c [] c' \<longleftrightarrow> c' = c"
  by (auto simp: adv_def)

lemma adv_fun: "adv c bs c' \<Longrightarrow> adv c bs c'' \<Longrightarrow> c' = c''"
  by (simp add: adv_def)

lemma adv_trans: "adv c as c' \<Longrightarrow> adv c' bs c'' \<Longrightarrow> adv c (as @ bs) c''"
  by (simp add: adv_def add.assoc)

lemma rest_skip: "rest (c\<lparr>cpos := cpos c + n\<rparr>) = drop n (rest c)"
  by (simp add: rest_def add.commute)

lemma adv_exists: "rest c = bs @ ys \<Longrightarrow> \<exists>c'. adv c bs c' \<and> rest c' = ys"
  by (simp add: adv_def rest_skip)

lemma adv_append: "adv c (as @ bs) c'' \<longleftrightarrow> (\<exists>c'. adv c as c' \<and> adv c' bs c'')"
proof
  assume a: "adv c (as @ bs) c''"
  have "rest c = as @ bs @ rest c''" using adv_rest [OF a] by simp
  from adv_exists [OF this] obtain c' where c': "adv c as c'" "rest c' = bs @ rest c''" by blast
  have "c'' = c'\<lparr>cpos := cpos c' + length bs\<rparr>"
    using a c'(1) unfolding adv_def by (simp add: add.assoc)
  with c' show "\<exists>c'. adv c as c' \<and> adv c' bs c''" unfolding adv_def by blast
qed (auto intro: adv_trans)

lemma adv_remaining: "adv c bs c' \<Longrightarrow> remaining c = length bs + remaining c'"
  by (simp add: remaining_rest adv_rest)

lemma adv_new: "adv (cursor_new (bs @ ys)) bs \<lparr>cbytes = bs @ ys, cpos = length bs\<rparr>"
  by (simp add: adv_def rest_def cursor_new_def)

lemma adv_all: "(\<exists>c c'. adv (cursor_new p) xs c \<and> adv c ys c' \<and> rest c' = []) \<longleftrightarrow> p = xs @ ys"
proof
  assume "\<exists>c c'. adv (cursor_new p) xs c \<and> adv c ys c' \<and> rest c' = []"
  then show "p = xs @ ys" by (auto dest!: adv_rest)
next
  assume "p = xs @ ys"
  then obtain c where c: "adv (cursor_new p) xs c" "rest c = ys @ []"
    using adv_exists [of "cursor_new p" xs ys] by auto
  with adv_exists [OF c(2)] show "\<exists>c c'. adv (cursor_new p) xs c \<and> adv c ys c' \<and> rest c' = []"
    by blast
qed

section \<open>The primitive readers\<close>

lemma cur_take_iff: "cur_take n c = Inr (bs, c') \<longleftrightarrow> length bs = n \<and> adv c bs c'"
proof
  assume a: "cur_take n c = Inr (bs, c')"
  then have le: "n \<le> length (rest c)" and bs: "bs = take n (rest c)"
    and c': "c' = c\<lparr>cpos := cpos c + n\<rparr>"
    by (auto simp: cur_take_def remaining_rest rest_def split: if_splits)
  then show "length bs = n \<and> adv c bs c'"
    by (simp add: adv_def rest_skip)
next
  assume "length bs = n \<and> adv c bs c'"
  then have n: "length bs = n" and r: "rest c = bs @ rest c'"
    and c': "c' = c\<lparr>cpos := cpos c + length bs\<rparr>"
    by (simp_all add: adv_def)
  then have "\<not> remaining c < n" by (simp add: remaining_rest)
  moreover have "take n (drop (cpos c) (cbytes c)) = bs"
    using r n by (simp add: rest_def [symmetric])
  ultimately show "cur_take n c = Inr (bs, c')" using c' n by (simp add: cur_take_def)
qed

lemma cur_u8_iff: "cur_u8 c = Inr (b, c') \<longleftrightarrow> adv c [b] c'"
  by (auto simp: cur_u8_def rbind_Inr_iff cur_take_iff length_Suc_conv)

lemma cur_u16_iff: "cur_u16 c = Inr (w, c') \<longleftrightarrow> adv c (u16_le w) c'"
proof -
  have "cur_u16 c = Inr (w, c') \<longleftrightarrow> (\<exists>bs. length bs = 2 \<and> adv c bs c' \<and> w = le_u16 bs)"
    by (auto simp: cur_u16_def rbind_Inr_iff cur_take_iff)
  also have "\<dots> \<longleftrightarrow> adv c (u16_le w) c'" by (metis length_uint_le le_uint_le uint_le_le)
  finally show ?thesis .
qed

lemma cur_u32_iff: "cur_u32 c = Inr (w, c') \<longleftrightarrow> adv c (u32_le w) c'"
proof -
  have "cur_u32 c = Inr (w, c') \<longleftrightarrow> (\<exists>bs. length bs = 4 \<and> adv c bs c' \<and> w = le_u32 bs)"
    by (auto simp: cur_u32_def rbind_Inr_iff cur_take_iff)
  also have "\<dots> \<longleftrightarrow> adv c (u32_le w) c'" by (metis length_uint_le le_uint_le uint_le_le)
  finally show ?thesis .
qed

lemma cur_u64_iff: "cur_u64 c = Inr (w, c') \<longleftrightarrow> adv c (u64_le w) c'"
proof -
  have "cur_u64 c = Inr (w, c') \<longleftrightarrow> (\<exists>bs. length bs = 8 \<and> adv c bs c' \<and> w = le_u64 bs)"
    by (auto simp: cur_u64_def rbind_Inr_iff cur_take_iff)
  also have "\<dots> \<longleftrightarrow> adv c (u64_le w) c'" by (metis length_uint_le le_uint_le uint_le_le)
  finally show ?thesis .
qed

lemma unat_of_nat_small: "n < 2 ^ LENGTH('a::len) \<Longrightarrow> unat (word_of_nat n :: 'a word) = n"
  by (simp add: unat_of_nat)

lemma cur_vec_iff:
  "cur_vec c = Inr (bs, c') \<longleftrightarrow> length bs < 2 ^ 32 \<and> adv c (vec_le bs) c'"
proof -
  have "cur_vec c = Inr (bs, c') \<longleftrightarrow>
      (\<exists>len c1. adv c (u32_le len) c1 \<and> length bs = unat len \<and> adv c1 bs c')"
    by (auto simp: cur_vec_def rbind_Inr_iff cur_u32_iff cur_take_iff)
  also have "\<dots> \<longleftrightarrow> length bs < 2 ^ 32 \<and> adv c (vec_le bs) c'"
    unfolding vec_le_def adv_append
    using unat_less [where 'a = 32] by (auto simp: unat_of_nat_small intro!: exI [of _ "word_of_nat (length bs) :: u32"])
  finally show ?thesis .
qed

lemma length_vec_le [simp, enc_simps]: "length (vec_le bs) = 4 + length bs"
  by (simp add: vec_le_def)

lemmas cur_iffs = cur_take_iff cur_u8_iff cur_u16_iff cur_u32_iff cur_u64_iff cur_vec_iff

text \<open>The same facts as destruction rules: what stands at the cursor decides the read.\<close>

lemma cur_reads:
  "adv c [b] c' \<Longrightarrow> cur_u8 c = Inr (b, c')"
  "adv c (u16_le h) c' \<Longrightarrow> cur_u16 c = Inr (h, c')"
  "adv c (u32_le w) c' \<Longrightarrow> cur_u32 c = Inr (w, c')"
  "adv c (u64_le d) c' \<Longrightarrow> cur_u64 c = Inr (d, c')"
  "adv c (vec_le bs) c' \<Longrightarrow> length bs < 2 ^ 32 \<Longrightarrow> cur_vec c = Inr (bs, c')"
  by (simp_all add: cur_iffs)

section \<open>The contract of a record decoder\<close>

locale reader =
  fixes enc :: "'a \<Rightarrow> bytes" and dec :: "'a parser" and valid :: "'a \<Rightarrow> bool"
  assumes dec_enc: "valid x \<Longrightarrow> adv c (enc x) c' \<Longrightarrow> dec c = Inr (x, c')"
begin

lemma parse_n_enc:
  assumes "\<forall>x \<in> set xs. valid x" and "adv c (concat (map enc xs)) c'"
  shows "parse_n dec (length xs) c = Inr (xs, c')"
  using assms
proof (induction xs arbitrary: c)
  case Nil
  then show ?case by simp
next
  case (Cons x xs)
  then obtain c1 where "adv c (enc x) c1" "adv c1 (concat (map enc xs)) c'"
    by (auto simp: adv_append)
  moreover have "valid x" "\<forall>x \<in> set xs. valid x" using Cons.prems(1) by simp_all
  ultimately show ?case using Cons.IH by (simp add: dec_enc)
qed

lemma enc_inj:
  assumes "valid x" and "valid y" and "enc x = enc y"
  shows "x = y"
proof -
  obtain c where "adv (cursor_new (enc x @ [])) (enc x) c" using adv_new by blast
  then show ?thesis using dec_enc assms by (metis Inr_inject prod.inject)
qed

end

locale codec = reader +
  assumes enc_dec: "dec c = Inr (x, c') \<Longrightarrow> valid x \<and> adv c (enc x) c'"
begin

lemma dec_iff: "dec c = Inr (x, c') \<longleftrightarrow> valid x \<and> adv c (enc x) c'"
  using dec_enc enc_dec by blast

lemma parse_n_iff:
  "parse_n dec n c = Inr (xs, c') \<longleftrightarrow>
     length xs = n \<and> (\<forall>x \<in> set xs. valid x) \<and> adv c (concat (map enc xs)) c'"
proof
  assume "parse_n dec n c = Inr (xs, c')"
  then show "length xs = n \<and> (\<forall>x \<in> set xs. valid x) \<and> adv c (concat (map enc xs)) c'"
  proof (induction n arbitrary: c xs)
    case 0
    then show ?case by simp
  next
    case (Suc n)
    then show ?case by (fastforce simp: rbind_Inr_iff dec_iff adv_append)
  qed
qed (use parse_n_enc in blast)

end

interpretation u64_codec: codec u64_le cur_u64 "\<lambda>_. True"
  by unfold_locales (simp_all add: cur_u64_iff)

end
