(* ===== verification/Ids.thy ===== *)
theory Ids
  imports Cursor
begin

text \<open>
  The identity newtypes of \<^verbatim>\<open>identity/*.rs\<close>: distinct types for the object, its
  logical identity, its local replica and the node, each with its wire form and
  its derived order. An \<^verbatim>\<open>ObjectId\<close> is a 16-byte array; the width is the predicate
  \<open>oid_ok\<close>.
\<close>

datatype object_id = ObjectId (oid_bytes: bytes)
datatype logical_id = LogicalId (lid_u64: u64)
datatype replica_id = ReplicaId (rid_u64: u64)
datatype node_id = NodeId (nid_u64: u64)

definition LOCAL_NODE_ID :: node_id where "LOCAL_NODE_ID = NodeId 1"

definition oid_ok :: "object_id \<Rightarrow> bool" where
  "oid_ok oid \<longleftrightarrow> length (oid_bytes oid) = 16"

definition lid_to_bytes :: "logical_id \<Rightarrow> bytes" where "lid_to_bytes l = u64_le (lid_u64 l)"
definition rid_to_bytes :: "replica_id \<Rightarrow> bytes" where "rid_to_bytes r = u64_le (rid_u64 r)"
definition nid_to_bytes :: "node_id \<Rightarrow> bytes" where "nid_to_bytes n = u64_le (nid_u64 n)"
definition lid_from_bytes :: "bytes \<Rightarrow> logical_id" where "lid_from_bytes b = LogicalId (le_u64 b)"
definition rid_from_bytes :: "bytes \<Rightarrow> replica_id" where "rid_from_bytes b = ReplicaId (le_u64 b)"
definition nid_from_bytes :: "bytes \<Rightarrow> node_id" where "nid_from_bytes b = NodeId (le_u64 b)"

text \<open>The read of one identifier at the cursor, as every decoder of the crate spells it.\<close>

definition cur_oid :: "object_id parser" where
  "cur_oid c = rbind (cur_take 16 c) (\<lambda>(b, c). Inr (ObjectId b, c))"

definition cur_lid :: "logical_id parser" where
  "cur_lid c = rbind (cur_take 8 c) (\<lambda>(b, c). Inr (lid_from_bytes b, c))"

definition cur_rid :: "replica_id parser" where
  "cur_rid c = rbind (cur_take 8 c) (\<lambda>(b, c). Inr (rid_from_bytes b, c))"

definition cur_nid :: "node_id parser" where
  "cur_nid c = rbind (cur_take 8 c) (\<lambda>(b, c). Inr (nid_from_bytes b, c))"

instantiation replica_id :: linorder
begin
definition less_eq_replica_id :: "replica_id \<Rightarrow> replica_id \<Rightarrow> bool" where
  "less_eq_replica_id a b \<longleftrightarrow> rid_u64 a \<le> rid_u64 b"
definition less_replica_id :: "replica_id \<Rightarrow> replica_id \<Rightarrow> bool" where
  "less_replica_id a b \<longleftrightarrow> rid_u64 a < rid_u64 b"
instance
  by standard (auto simp: less_eq_replica_id_def less_replica_id_def replica_id.expand)
end

instantiation logical_id :: linorder
begin
definition less_eq_logical_id :: "logical_id \<Rightarrow> logical_id \<Rightarrow> bool" where
  "less_eq_logical_id a b \<longleftrightarrow> lid_u64 a \<le> lid_u64 b"
definition less_logical_id :: "logical_id \<Rightarrow> logical_id \<Rightarrow> bool" where
  "less_logical_id a b \<longleftrightarrow> lid_u64 a < lid_u64 b"
instance
  by standard (auto simp: less_eq_logical_id_def less_logical_id_def logical_id.expand)
end

lemma length_id_bytes [simp, enc_simps]:
  "length (lid_to_bytes l) = 8" "length (rid_to_bytes r) = 8" "length (nid_to_bytes n) = 8"
  by (simp_all add: lid_to_bytes_def rid_to_bytes_def nid_to_bytes_def)

lemma cur_take8_iff: "cur_take 8 c = Inr (b, c') \<longleftrightarrow> (\<exists>w. b = u64_le w \<and> adv c (u64_le w) c')"
  by (metis cur_take_iff length_uint_le(3) uint_le_le(3))

lemma cur_id_iff:
  "cur_oid c = Inr (oid, c') \<longleftrightarrow> oid_ok oid \<and> adv c (oid_bytes oid) c'"
  "cur_lid c = Inr (l, c') \<longleftrightarrow> adv c (lid_to_bytes l) c'"
  "cur_rid c = Inr (r, c') \<longleftrightarrow> adv c (rid_to_bytes r) c'"
  "cur_nid c = Inr (n, c') \<longleftrightarrow> adv c (nid_to_bytes n) c'"
  by (cases oid, force simp: cur_oid_def oid_ok_def rbind_Inr_iff cur_take_iff)
    (cases l, force simp: cur_lid_def lid_from_bytes_def lid_to_bytes_def rbind_Inr_iff cur_take8_iff,
     cases r, force simp: cur_rid_def rid_from_bytes_def rid_to_bytes_def rbind_Inr_iff cur_take8_iff,
     cases n, force simp: cur_nid_def nid_from_bytes_def nid_to_bytes_def rbind_Inr_iff cur_take8_iff)

lemma cur_id_reads:
  "adv c (oid_bytes oid) c' \<Longrightarrow> oid_ok oid \<Longrightarrow> cur_oid c = Inr (oid, c')"
  "adv c (lid_to_bytes l) c' \<Longrightarrow> cur_lid c = Inr (l, c')"
  "adv c (rid_to_bytes r) c' \<Longrightarrow> cur_rid c = Inr (r, c')"
  "adv c (nid_to_bytes n) c' \<Longrightarrow> cur_nid c = Inr (n, c')"
  by (simp_all add: cur_id_iff)

end
