(* ===== verification/Memtable.thy ===== *)
theory Memtable
  imports SortedMap Ids
begin

text \<open>
  The in-memory write layer of \<^verbatim>\<open>memtable.rs\<close>: a \<^verbatim>\<open>BTreeMap\<close> from keys to version
  chains in ascending sequence order, with the byte accounting. The abstraction
  \<open>mt_abs\<close> is the flat map from (key, sequence) to rows that the chained table
  replaced; every operation is related to it.
\<close>

section \<open>Rows\<close>

definition ENTRY_OVERHEAD :: nat where "ENTRY_OVERHEAD = 24"

record byte_row =
  br_value :: "bytes option"

record object_row =
  or_value :: "bytes option"
  or_replica_id :: replica_id

datatype mem_entry = Byte byte_row | Object object_row

fun me_value :: "mem_entry \<Rightarrow> bytes option" where
  "me_value (Byte b) = br_value b"
| "me_value (Object r) = or_value r"

fun me_replica_id :: "mem_entry \<Rightarrow> replica_id" where
  "me_replica_id (Byte b) = ReplicaId 0"
| "me_replica_id (Object r) = or_replica_id r"

fun me_is_identity :: "mem_entry \<Rightarrow> bool" where
  "me_is_identity (Object r) = (or_replica_id r \<noteq> ReplicaId 0)"
| "me_is_identity (Byte b) = False"

definition me_into_parts :: "mem_entry \<Rightarrow> bytes option \<times> replica_id" where
  "me_into_parts e = (case e of Byte b \<Rightarrow> (br_value b, ReplicaId 0) | Object r \<Rightarrow> (or_value r, or_replica_id r))"

type_synonym version_chain = "(u64 \<times> mem_entry) list"

section \<open>The table\<close>

record memtable =
  mt_map :: "(bytes, version_chain) btree"
  mt_bytes :: nat

definition mt_new :: memtable where
  "mt_new = \<lparr>mt_map = [], mt_bytes = 0\<rparr>"

definition mt_is_empty :: "memtable \<Rightarrow> bool" where
  "mt_is_empty m \<longleftrightarrow> mt_map m = []"

definition mt_has_identity :: "memtable \<Rightarrow> bool" where
  "mt_has_identity m \<longleftrightarrow>
     list_ex (\<lambda>(_, e). me_is_identity e) (concat (map snd (mt_map m)))"

definition value_len :: "mem_entry \<Rightarrow> nat" where
  "value_len e = (case me_value e of None \<Rightarrow> 0 | Some v \<Rightarrow> length v)"

definition saturating_add :: "nat \<Rightarrow> nat \<Rightarrow> nat" where
  "saturating_add a b = min (a + b) (2 ^ 64 - 1)"

definition mt_insert :: "bytes \<Rightarrow> u64 \<Rightarrow> mem_entry \<Rightarrow> memtable \<Rightarrow> memtable" where
  "mt_insert key seq e m =
    (let key_len = length key; new_len = value_len e in
     case bt_get (mt_map m) key of
       None \<Rightarrow>
         m\<lparr>mt_map := bt_put key [(seq, e)] (mt_map m),
           mt_bytes := mt_bytes m + (key_len + new_len + ENTRY_OVERHEAD)\<rparr>
     | Some chain \<Rightarrow>
         let idx = partition_point (\<lambda>(s, _). s < seq) chain in
         if idx < length chain \<and> fst (chain ! idx) = seq then
           let old_len = value_len (snd (chain ! idx)) in
           m\<lparr>mt_map := bt_put key (chain[idx := (seq, e)]) (mt_map m),
             mt_bytes := saturating_add (mt_bytes m) new_len - old_len\<rparr>
         else
           m\<lparr>mt_map := bt_put key (take idx chain @ (seq, e) # drop idx chain) (mt_map m),
             mt_bytes := mt_bytes m + (key_len + new_len + ENTRY_OVERHEAD)\<rparr>)"

definition mt_apply :: "bytes \<Rightarrow> u64 \<Rightarrow> bytes option \<Rightarrow> memtable \<Rightarrow> memtable" where
  "mt_apply key seq v m = mt_insert key seq (Byte \<lparr>br_value = v\<rparr>) m"

definition mt_apply_object ::
  "bytes \<Rightarrow> u64 \<Rightarrow> bytes option \<Rightarrow> replica_id \<Rightarrow> memtable \<Rightarrow> memtable" where
  "mt_apply_object key seq v rid m =
    mt_insert key seq (Object \<lparr>or_value = v, or_replica_id = rid\<rparr>) m"

definition byte_head :: "version_chain \<Rightarrow> byte_row option" where
  "byte_head chain =
    find_map (\<lambda>(_, e). case e of Byte b \<Rightarrow> Some b | Object _ \<Rightarrow> None) (rev chain)"

definition mt_get :: "memtable \<Rightarrow> bytes \<Rightarrow> byte_row option" where
  "mt_get m key = Option.bind (bt_get (mt_map m) key) byte_head"

definition mt_get_by_rid :: "memtable \<Rightarrow> bytes \<Rightarrow> replica_id \<Rightarrow> object_row option" where
  "mt_get_by_rid m key rid =
    Option.bind (bt_get (mt_map m) key) (\<lambda>chain.
      find_map (\<lambda>(_, e). case e of
          Object r \<Rightarrow> if or_replica_id r = rid then Some r else None
        | Byte _ \<Rightarrow> None) (rev chain))"

definition mt_entries :: "memtable \<Rightarrow> (bytes \<times> u64 \<times> mem_entry) list" where
  "mt_entries m = concat (map (\<lambda>(k, chain). map (\<lambda>(s, e). (k, s, e)) chain) (mt_map m))"

definition mt_into_entries :: "memtable \<Rightarrow> ((bytes \<times> u64) \<times> mem_entry) list" where
  "mt_into_entries m = concat (map (\<lambda>(k, chain). map (\<lambda>(s, e). ((k, s), e)) chain) (mt_map m))"

fun prefix_heads_loop :: "bytes \<Rightarrow> (bytes \<times> version_chain) list \<Rightarrow> (bytes \<times> byte_row) list" where
  "prefix_heads_loop p [] = []"
| "prefix_heads_loop p ((k, chain) # kvs) =
    (if \<not> starts_with k p then []
     else case byte_head chain of
       Some b \<Rightarrow> (k, b) # prefix_heads_loop p kvs
     | None \<Rightarrow> prefix_heads_loop p kvs)"

definition mt_prefix_heads :: "memtable \<Rightarrow> bytes \<Rightarrow> (bytes \<times> byte_row) list" where
  "mt_prefix_heads m p = prefix_heads_loop p (bt_from p (mt_map m))"

section \<open>Invariant and abstraction\<close>

definition chain_inv :: "version_chain \<Rightarrow> bool" where
  "chain_inv chain \<longleftrightarrow> chain \<noteq> [] \<and> bt_inv chain"

definition mt_inv :: "memtable \<Rightarrow> bool" where
  "mt_inv m \<longleftrightarrow> bt_inv (mt_map m) \<and> list_all (\<lambda>(_, chain). chain_inv chain) (mt_map m)"

definition mt_abs :: "memtable \<Rightarrow> bytes \<times> u64 \<Rightarrow> mem_entry option" where
  "mt_abs m = (\<lambda>(k, s). Option.bind (bt_get (mt_map m) k) (\<lambda>chain. map_of chain s))"

definition entry_cost :: "bytes \<times> u64 \<times> mem_entry \<Rightarrow> nat" where
  "entry_cost = (\<lambda>(k, s, e). length k + value_len e + ENTRY_OVERHEAD)"

text \<open>The chain update of \<^verbatim>\<open>insert\<close> is the update of an ordered map.\<close>

lemma chain_insert_eq:
  assumes "bt_inv chain" and "idx = partition_point (\<lambda>(s, _). s < seq) chain"
  shows "(if idx < length chain \<and> fst (chain ! idx) = seq then chain[idx := (seq, e)]
          else take idx chain @ (seq, e) # drop idx chain) = bt_put seq e chain"
  using assms
proof (induction chain arbitrary: idx)
  case (Cons p ps)
  show ?case
  proof (cases "fst p < seq")
    case True
    then have "idx = Suc (partition_point (\<lambda>(s, _). s < seq) ps)"
      using Cons.prems(2) by (cases p) (simp add: partition_point_def)
    then show ?thesis using Cons.IH [OF _ refl] Cons.prems(1) True by auto
  next
    case False
    then have "idx = 0" using Cons.prems(2) by (cases p) (simp add: partition_point_def)
    then show ?thesis using False by auto
  qed
qed (simp add: partition_point_def)

lemma mt_insert_map:
  assumes "mt_inv m"
  shows "mt_map (mt_insert key seq e m) =
    bt_put key (bt_put seq e (case bt_get (mt_map m) key of None \<Rightarrow> [] | Some chain \<Rightarrow> chain)) (mt_map m)"
proof (cases "bt_get (mt_map m) key")
  case None
  then show ?thesis by (simp add: mt_insert_def Let_def)
next
  case (Some chain)
  then have "(key, chain) \<in> set (mt_map m)" using assms by (simp add: mt_inv_def bt_get_Some_iff)
  then have "bt_inv chain" using assms by (auto simp: mt_inv_def list_all_iff chain_inv_def)
  from chain_insert_eq [OF this refl, of seq e] Some show ?thesis
    by (auto simp: mt_insert_def Let_def split: if_splits)
qed

lemma mt_inv_chain:
  "mt_inv m \<Longrightarrow> bt_get (mt_map m) k = Some chain \<Longrightarrow> chain_inv chain"
  by (auto simp: mt_inv_def bt_get_Some_iff list_all_iff)

lemma bt_put_nonempty: "bt_put k v m \<noteq> []"
  by (cases m) auto

lemma mt_inv_new [simp]: "mt_inv mt_new"
  by (simp add: mt_inv_def mt_new_def)

lemma mt_inv_insert:
  assumes "mt_inv m"
  shows "mt_inv (mt_insert key seq e m)"
proof -
  let ?c = "bt_put seq e (case bt_get (mt_map m) key of None \<Rightarrow> [] | Some chain \<Rightarrow> chain)"
  have "chain_inv ?c"
    using mt_inv_chain [OF assms] by (auto simp: chain_inv_def bt_put_nonempty bt_inv_put split: option.splits)
  then show ?thesis
    using assms set_bt_put [of key ?c "mt_map m"]
    by (auto simp: mt_inv_def mt_insert_map [OF assms] bt_inv_put list_all_iff)
qed

lemma mt_abs_new [simp]: "mt_abs mt_new = Map.empty"
  by (auto simp: mt_abs_def mt_new_def bt_get_def)

lemma mt_abs_insert:
  assumes "mt_inv m"
  shows "mt_abs (mt_insert key seq e m) = (mt_abs m)((key, seq) \<mapsto> e)"
proof -
  have b: "bt_inv (mt_map m)" using assms by (simp add: mt_inv_def)
  have c: "bt_inv chain" if "bt_get (mt_map m) key = Some chain" for chain
    using mt_inv_chain [OF assms that] by (simp add: chain_inv_def)
  have "map_of (bt_put seq e chain) s = (if s = seq then Some e else map_of chain s)" if "bt_inv chain" for chain s
    using bt_get_put [OF that, of seq e s] by (simp add: bt_get_def)
  then show ?thesis
    using c by (auto simp: fun_eq_iff mt_abs_def mt_insert_map [OF assms] b split: option.splits)
qed

section \<open>Reads\<close>

text \<open>The last matching version of an ascending chain is the newest one.\<close>

lemma find_map_rev_newest:
  assumes "bt_inv (chain :: (u64 \<times> 'e) list)"
  shows "find_map (\<lambda>(_, e). f e) (rev chain) = Some r \<longleftrightarrow>
    (\<exists>s e. map_of chain s = Some e \<and> f e = Some r
       \<and> (\<forall>s' e'. map_of chain s' = Some e' \<longrightarrow> f e' \<noteq> None \<longrightarrow> s' \<le> s))"
  using assms
proof (induction chain arbitrary: r)
  case (Cons p ps)
  obtain s0 e0 where p: "p = (s0, e0)" by (cases p)
  have inv: "bt_inv ps" and lt: "\<forall>q \<in> set ps. s0 < fst q" using Cons.prems p by simp_all
  have above: "s0 < s" if "map_of ps s = Some e" for s e
    using lt map_of_SomeD [OF that] by auto
  have none: "map_of ps s0 = None" using map_of_None_less [OF lt] .
  show ?case
  proof (cases "find_map (\<lambda>(_, e). f e) (rev ps)")
    case None
    then have "f e = None" if "map_of ps s = Some e" for s e
      using map_of_SomeD [OF that] by (auto simp: find_map_None_iff)
    with None none show ?thesis
      by (auto simp: p find_map_append split: option.splits if_splits)
  next
    case (Some r')
    then obtain s e where h: "map_of ps s = Some e" "f e = Some r'"
      and max: "\<And>s' e'. map_of ps s' = Some e' \<Longrightarrow> f e' \<noteq> None \<Longrightarrow> s' \<le> s"
      using Cons.IH [OF inv, of r'] by blast
    have s: "s0 < s" using above [OF h(1)] .
    have "find_map (\<lambda>(_, e). f e) (rev (p # ps)) = Some r \<longleftrightarrow> r = r'"
      using Some by (auto simp: find_map_append)
    also have "\<dots> \<longleftrightarrow> (\<exists>s e. map_of (p # ps) s = Some e \<and> f e = Some r
       \<and> (\<forall>s' e'. map_of (p # ps) s' = Some e' \<longrightarrow> f e' \<noteq> None \<longrightarrow> s' \<le> s))" (is "_ \<longleftrightarrow> ?newest")
    proof
      assume "r = r'"
      then have "map_of (p # ps) s = Some e \<and> f e = Some r
          \<and> (\<forall>s' e'. map_of (p # ps) s' = Some e' \<longrightarrow> f e' \<noteq> None \<longrightarrow> s' \<le> s)"
        using h max s by (auto simp: p)
      then show ?newest by blast
    next
      assume ?newest
      then obtain s1 e1 where n: "map_of (p # ps) s1 = Some e1" "f e1 = Some r"
        and n_max: "\<And>s' e'. map_of (p # ps) s' = Some e' \<Longrightarrow> f e' \<noteq> None \<Longrightarrow> s' \<le> s1" by blast
      have "s \<noteq> s0" using s by simp
      then have "s \<le> s1" using n_max [of s e] h by (simp add: p)
      then have "map_of ps s1 = Some e1" using n(1) s by (auto simp: p split: if_splits)
      then have "s1 = s" using max [of s1 e1] n(2) \<open>s \<le> s1\<close> by simp
      then show "r = r'" using \<open>map_of ps s1 = Some e1\<close> h n(2) by simp
    qed
    finally show ?thesis .
  qed
qed simp

lemma mt_get_iff:
  assumes "mt_inv m"
  shows "mt_get m k = Some b \<longleftrightarrow> (\<exists>s. mt_abs m (k, s) = Some (Byte b)
    \<and> (\<forall>s' b'. mt_abs m (k, s') = Some (Byte b') \<longrightarrow> s' \<le> s))"
proof (cases "bt_get (mt_map m) k")
  case None
  then show ?thesis by (simp add: mt_get_def mt_abs_def)
next
  case (Some chain)
  have "bt_inv chain" using mt_inv_chain [OF assms Some] by (simp add: chain_inv_def)
  from find_map_rev_newest [OF this, of "\<lambda>e. case e of Byte b \<Rightarrow> Some b | Object _ \<Rightarrow> None" b] Some
  show ?thesis
    by (auto simp: mt_get_def mt_abs_def byte_head_def split: mem_entry.splits) (metis mem_entry.exhaust)+
qed

lemma mt_get_by_rid_iff:
  assumes "mt_inv m"
  shows "mt_get_by_rid m k rid = Some r \<longleftrightarrow> or_replica_id r = rid \<and> (\<exists>s. mt_abs m (k, s) = Some (Object r)
    \<and> (\<forall>s' r'. mt_abs m (k, s') = Some (Object r') \<longrightarrow> or_replica_id r' = rid \<longrightarrow> s' \<le> s))"
proof (cases "bt_get (mt_map m) k")
  case None
  then show ?thesis by (simp add: mt_get_by_rid_def mt_abs_def)
next
  case (Some chain)
  have "bt_inv chain" using mt_inv_chain [OF assms Some] by (simp add: chain_inv_def)
  note newest = find_map_rev_newest [OF this,
      of "\<lambda>e. case e of Object r \<Rightarrow> if or_replica_id r = rid then Some r else None | Byte _ \<Rightarrow> None" r]
  have f: "(case e of Object r \<Rightarrow> if or_replica_id r = rid then Some r else None | Byte _ \<Rightarrow> None) = Some x
      \<longleftrightarrow> e = Object x \<and> or_replica_id x = rid" for e x
    by (cases e) auto
  have g: "(case e of Object r \<Rightarrow> if or_replica_id r = rid then Some r else None | Byte _ \<Rightarrow> None) \<noteq> None
      \<longleftrightarrow> (\<exists>x. e = Object x \<and> or_replica_id x = rid)" for e
    using f [of e] by blast
  have "mt_get_by_rid m k rid = Some r \<longleftrightarrow> (\<exists>s e. map_of chain s = Some e \<and> e = Object r \<and> or_replica_id r = rid
       \<and> (\<forall>s' e'. map_of chain s' = Some e' \<longrightarrow> (\<exists>x. e' = Object x \<and> or_replica_id x = rid) \<longrightarrow> s' \<le> s))"
    using newest unfolding f g by (simp add: mt_get_by_rid_def Some)
  moreover have "mt_abs m (k, s) = map_of chain s" for s by (simp add: mt_abs_def Some)
  ultimately show ?thesis by (simp only:) blast
qed

section \<open>Iteration\<close>

lemma mt_entries_iff:
  assumes "mt_inv m"
  shows "(k, s, e) \<in> set (mt_entries m) \<longleftrightarrow> mt_abs m (k, s) = Some e"
proof -
  have "(k, s, e) \<in> set (mt_entries m) \<longleftrightarrow> (\<exists>chain. bt_get (mt_map m) k = Some chain \<and> (s, e) \<in> set chain)"
    using assms by (auto simp: mt_entries_def mt_inv_def bt_get_Some_iff)
  also have "\<dots> \<longleftrightarrow> mt_abs m (k, s) = Some e"
    using mt_inv_chain [OF assms]
    by (cases "bt_get (mt_map m) k") (auto simp: mt_abs_def chain_inv_def bt_inv_distinct)
  finally show ?thesis .
qed

lemma mt_entries_sorted:
  assumes "mt_inv m"
  shows "sorted_wrt (\<lambda>(k, s, _) (k', s', _). k < k' \<or> k = k' \<and> s < s') (mt_entries m)"
proof -
  have "bt_inv kvs \<Longrightarrow> list_all (\<lambda>(_, chain). chain_inv chain) kvs \<Longrightarrow>
    sorted_wrt (\<lambda>(k, s, _) (k', s', _). k < k' \<or> k = k' \<and> s < s')
      (concat (map (\<lambda>(k, chain). map (\<lambda>(s, e). (k, s, e)) chain) kvs))"
    for kvs :: "(bytes \<times> version_chain) list"
  proof (induction kvs)
    case (Cons p kvs)
    obtain k chain where p: "p = (k, chain)" by (cases p)
    have "bt_inv chain" using Cons.prems p by (simp add: chain_inv_def)
    then have "sorted_wrt (\<lambda>(k, s, _) (k', s', _). k < k' \<or> k = k' \<and> s < s') (map (\<lambda>(s, e). (k, s, e)) chain)"
      by (induction chain) auto
    then show ?case using Cons by (auto simp: p sorted_wrt_append)
  qed simp
  then show ?thesis using assms by (simp add: mt_inv_def mt_entries_def)
qed

lemma mt_into_entries_eq: "mt_into_entries m = map (\<lambda>(k, s, e). ((k, s), e)) (mt_entries m)"
  by (simp add: mt_into_entries_def mt_entries_def map_concat comp_def case_prod_unfold)

lemma byte_head_get: "bt_get (mt_map m) k = Some chain \<Longrightarrow> mt_get m k = byte_head chain"
  by (simp add: mt_get_def)

lemma prefix_heads_loop_iff:
  assumes "bt_inv kvs" and "list_all (\<lambda>(k, _). p \<le> k) kvs"
  shows "(k, b) \<in> set (prefix_heads_loop p kvs) \<longleftrightarrow>
    starts_with k p \<and> (\<exists>chain. (k, chain) \<in> set kvs \<and> byte_head chain = Some b)"
  using assms
proof (induction p kvs rule: prefix_heads_loop.induct)
  case (2 p k0 chain kvs)
  show ?case
  proof (cases "starts_with k0 p")
    case True
    then show ?thesis using 2 by (auto split: option.splits)
  next
    case False
    have "\<not> starts_with k' p" if "(k', c) \<in> set kvs" for k' c
    proof (rule starts_with_interval)
      show "p \<le> k0" using "2.prems"(2) by simp
      show "k0 \<le> k'" using "2.prems"(1) that by force
    qed (rule False)
    then show ?thesis using False by auto
  qed
qed simp

lemma prefix_heads_loop_keys: "(k, b) \<in> set (prefix_heads_loop p kvs) \<Longrightarrow> \<exists>chain. (k, chain) \<in> set kvs"
  by (induction p kvs rule: prefix_heads_loop.induct) (auto split: if_splits option.splits)

lemma prefix_heads_loop_sorted: "bt_inv kvs \<Longrightarrow> bt_inv (prefix_heads_loop p kvs)"
proof (induction p kvs rule: prefix_heads_loop.induct)
  case (2 p k0 chain kvs)
  have "k0 < k" if "(k, b) \<in> set (prefix_heads_loop p kvs)" for k b
    using prefix_heads_loop_keys [OF that] "2.prems" by auto
  then show ?case using 2 by (cases "byte_head chain") auto
qed simp

lemma bt_from_inv: "bt_inv m \<Longrightarrow> bt_inv (bt_from lo m)"
  by (induction m) (auto simp: bt_from_def)

lemma bt_from_iff: "bt_inv m \<Longrightarrow> (k, v) \<in> set (bt_from lo m) \<longleftrightarrow> (k, v) \<in> set m \<and> lo \<le> k"
  by (induction m) (auto simp: bt_from_def not_less dest: order.strict_trans1 less_imp_le)

lemma mt_prefix_heads_iff:
  assumes "mt_inv m"
  shows "(k, b) \<in> set (mt_prefix_heads m p) \<longleftrightarrow> starts_with k p \<and> mt_get m k = Some b"
proof -
  have inv: "bt_inv (mt_map m)" using assms by (simp add: mt_inv_def)
  have "list_all (\<lambda>(k, _). p \<le> k) (bt_from p (mt_map m))"
    using bt_from_iff [OF inv] by (auto simp: list_all_iff)
  then have "(k, b) \<in> set (mt_prefix_heads m p) \<longleftrightarrow>
      starts_with k p \<and> (\<exists>chain. (k, chain) \<in> set (mt_map m) \<and> p \<le> k \<and> byte_head chain = Some b)"
    using prefix_heads_loop_iff [OF bt_from_inv [OF inv]] bt_from_iff [OF inv]
    by (simp add: mt_prefix_heads_def)
  also have "\<dots> \<longleftrightarrow> starts_with k p \<and> mt_get m k = Some b"
    using starts_with_ge by (auto simp: bt_get_Some_iff [OF inv, symmetric] mt_get_def split: bind_split)
  finally show ?thesis .
qed

section \<open>Byte accounting\<close>

definition mt_cost :: "memtable \<Rightarrow> nat" where
  "mt_cost m = sum_list (map entry_cost (mt_entries m))"

lemma sum_bt_put:
  assumes "bt_inv m"
  shows "sum_list (map g (bt_put k v m)) + (case bt_get m k of None \<Rightarrow> 0 | Some old \<Rightarrow> g (k, old)) =
    sum_list (map g m) + (g (k, v) :: nat)"
  using assms
proof (induction m)
  case (Cons p ps)
  then show ?case
    by (cases p) (auto simp: bt_get_def map_of_None_less split: option.splits dest!: map_of_SomeD)
qed (simp add: bt_get_def)

lemma partition_point_hit:
  "bt_inv chain \<Longrightarrow> bt_get chain seq = Some old \<Longrightarrow>
     partition_point (\<lambda>(s, _). s < seq) chain < length chain
     \<and> chain ! partition_point (\<lambda>(s, _). s < seq) chain = (seq, old)"
proof (induction chain)
  case (Cons p ps)
  then show ?case
    by (cases p) (auto simp: bt_get_def partition_point_def split: if_splits dest!: map_of_SomeD bspec)
qed (simp add: bt_get_def)

definition chain_cost :: "bytes \<Rightarrow> version_chain \<Rightarrow> nat" where
  "chain_cost k chain = sum_list (map (\<lambda>(s, e). length k + value_len e + ENTRY_OVERHEAD) chain)"

lemma sum_list_concat: "sum_list (concat xss) = sum_list (map sum_list (xss :: nat list list))"
  by (induction xss) simp_all

lemma mt_cost_chains: "mt_cost m = sum_list (map (\<lambda>(k, chain). chain_cost k chain) (mt_map m))"
  by (simp add: mt_cost_def mt_entries_def map_concat sum_list_concat comp_def case_prod_unfold
      chain_cost_def entry_cost_def)

lemma mt_bytes_insert:
  assumes "mt_inv m" and "mt_bytes m = mt_cost m" and "mt_bytes m + value_len e < 2 ^ 64"
  shows "mt_bytes (mt_insert key seq e m) = mt_cost (mt_insert key seq e m)"
proof -
  have inv: "bt_inv (mt_map m)" using assms(1) by (simp add: mt_inv_def)
  let ?chain = "case bt_get (mt_map m) key of None \<Rightarrow> [] | Some chain \<Rightarrow> chain"
  let ?new = "bt_put seq e ?chain"
  have cinv: "bt_inv ?chain" using mt_inv_chain [OF assms(1)] by (auto simp: chain_inv_def split: option.splits)
  have outer: "mt_cost (mt_insert key seq e m) + chain_cost key ?chain = mt_cost m + chain_cost key ?new"
    using sum_bt_put [OF inv, of "\<lambda>(k, chain). chain_cost k chain" key ?new]
    by (auto simp: mt_cost_chains mt_insert_map [OF assms(1)] chain_cost_def split: option.splits)
  have inner: "chain_cost key ?new + (case bt_get ?chain seq of None \<Rightarrow> 0 | Some old \<Rightarrow> length key + value_len old + ENTRY_OVERHEAD)
      = chain_cost key ?chain + (length key + value_len e + ENTRY_OVERHEAD)"
    using sum_bt_put [OF cinv, of "\<lambda>(s, e). length key + value_len e + ENTRY_OVERHEAD" seq e]
    by (simp add: chain_cost_def cong: option.case_cong)
  show ?thesis
  proof (cases "bt_get (mt_map m) key")
    case None
    then show ?thesis using outer inner assms(2) by (simp add: mt_insert_def Let_def bt_get_def chain_cost_def)
  next
    case (Some chain)
    define idx where "idx = partition_point (\<lambda>(s, _). s < seq) chain"
    have c: "?chain = chain" using Some by simp
    show ?thesis
    proof (cases "idx < length chain \<and> fst (chain ! idx) = seq")
      case True
      then have "(seq, snd (chain ! idx)) \<in> set chain" by (metis nth_mem prod.collapse)
      then have "bt_get chain seq = Some (snd (chain ! idx))" using cinv c by (simp add: bt_get_Some_iff)
      moreover have "mt_bytes (mt_insert key seq e m) = mt_bytes m + value_len e - value_len (snd (chain ! idx))"
        using True Some assms(3) by (simp add: mt_insert_def Let_def idx_def saturating_add_def)
      ultimately show ?thesis using outer inner c assms(2) by simp
    next
      case False
      have "bt_get chain seq = None"
        using partition_point_hit [of chain seq] cinv c False by (cases "bt_get chain seq") (auto simp: idx_def)
      moreover have "mt_bytes (mt_insert key seq e m) = mt_bytes m + (length key + value_len e + ENTRY_OVERHEAD)"
        using False Some by (auto simp: mt_insert_def Let_def idx_def)
      ultimately show ?thesis using outer inner c assms(2) by simp
    qed
  qed
qed

section \<open>Replaying writes\<close>

text \<open>
  The contract recovery relies on: a table whose insert is an update of a map keyed
  by (key, sequence). Under it, applying a run of writes is one map update, and
  applying a run again (a log replayed over a table that already holds it) changes
  nothing.
\<close>

definition run_writes :: "('k \<Rightarrow> 's \<Rightarrow> 'e \<Rightarrow> 't \<Rightarrow> 't) \<Rightarrow> ('k \<times> 's \<times> 'e) list \<Rightarrow> 't \<Rightarrow> 't" where
  "run_writes ins ws t = fold (\<lambda>(k, s, e). ins k s e) ws t"

locale versioned_table =
  fixes vinv :: "'t \<Rightarrow> bool" and vabs :: "'t \<Rightarrow> 'k \<times> 's \<Rightarrow> 'e option"
    and vinsert :: "'k \<Rightarrow> 's \<Rightarrow> 'e \<Rightarrow> 't \<Rightarrow> 't"
  assumes vinv_vinsert: "vinv t \<Longrightarrow> vinv (vinsert k s e t)"
    and vabs_vinsert: "vinv t \<Longrightarrow> vabs (vinsert k s e t) = (vabs t)((k, s) \<mapsto> e)"
begin

lemma vinv_run: "vinv t \<Longrightarrow> vinv (run_writes vinsert ws t)"
  unfolding run_writes_def by (induction ws arbitrary: t) (auto simp: vinv_vinsert)

lemma vabs_run: "vinv t \<Longrightarrow> vabs (run_writes vinsert ws t) = vabs t ++ map_of (rev (map (\<lambda>(k, s, e). ((k, s), e)) ws))"
proof (induction ws rule: rev_induct)
  case (snoc w ws)
  then show ?case
    using vinv_run [OF snoc.prems, of ws]
    by (cases w) (auto simp: run_writes_def vabs_vinsert fun_eq_iff map_add_def split: option.splits)
qed (simp add: run_writes_def)

lemma run_again: "vinv t \<Longrightarrow> vabs (run_writes vinsert ws (run_writes vinsert ws t)) = vabs (run_writes vinsert ws t)"
  by (auto simp: vabs_run vinv_run fun_eq_iff map_add_def split: option.splits)

text \<open>Replaying any part of a history whose positions are distinct is absorbed as well.\<close>

lemma run_part_again:
  assumes "vinv t" and "distinct (map (\<lambda>(k, s, e). (k, s)) ws)" and "set vs \<subseteq> set ws"
  shows "vabs (run_writes vinsert vs (run_writes vinsert ws t)) = vabs (run_writes vinsert ws t)"
proof -
  let ?p = "\<lambda>(k, s, e). ((k, s), e)"
  let ?W = "map_of (rev (map ?p ws))" and ?V = "map_of (rev (map ?p vs))"
  have "distinct (map fst (rev (map ?p ws)))"
    using assms(2) by (simp add: rev_map [symmetric] comp_def case_prod_unfold)
  then have W: "?W x = Some e \<longleftrightarrow> (x, e) \<in> ?p ` set ws" for x e by simp
  have "?V x = Some e \<Longrightarrow> ?W x = Some e" for x e
  proof -
    assume "?V x = Some e"
    then have "(x, e) \<in> ?p ` set vs" using map_of_SomeD by fastforce
    then show "?W x = Some e" unfolding W using assms(3) by blast
  qed
  then have "vabs t ++ ?W ++ ?V = vabs t ++ ?W"
    by (auto simp: fun_eq_iff map_add_def split: option.splits)
  then show ?thesis using assms(1) by (simp add: vabs_run vinv_run)
qed

end

interpretation mt_table: versioned_table mt_inv mt_abs mt_insert
  by unfold_locales (simp_all add: mt_inv_insert mt_abs_insert)

section \<open>Properties\<close>

text \<open>
  C9. The memtable is the flat map it replaced: an insert keeps the invariant (keys
  ascending, every chain non-empty and ascending in sequence) and is exactly the
  map update at (key, sequence), replacement of a repeated position included.
\<close>

theorem memtable_insert_refines:
  assumes "mt_inv m"
  shows "mt_inv (mt_insert key seq e m) \<and> mt_abs (mt_insert key seq e m) = (mt_abs m)((key, seq) \<mapsto> e)"
  by (simp add: assms mt_inv_insert mt_abs_insert)

theorem memtable_insert_refines_witness:
  "mt_inv (mt_insert [1] 5 (Byte \<lparr>br_value = None\<rparr>) (mt_insert [1] 9 (Byte \<lparr>br_value = Some [7]\<rparr>) mt_new))
   \<and> mt_abs (mt_insert [1] 5 (Byte \<lparr>br_value = None\<rparr>) (mt_insert [1] 9 (Byte \<lparr>br_value = Some [7]\<rparr>) mt_new)) ([1], 9)
       = Some (Byte \<lparr>br_value = Some [7]\<rparr>)"
  using memtable_insert_refines [of "mt_insert [1] 9 (Byte \<lparr>br_value = Some [7]\<rparr>) mt_new" "[1]" 5 "Byte \<lparr>br_value = None\<rparr>"]
    memtable_insert_refines [OF mt_inv_new, of "[1]" 9 "Byte \<lparr>br_value = Some [7]\<rparr>"] by simp

text \<open>
  A point read on the byte surface answers with the newest byte row of the key, and
  only with one: object rows never answer it and never hide a byte row.
\<close>

lemma memtable_get_newest:
  assumes "mt_inv m"
  shows "mt_get m k = Some b \<longleftrightarrow> (\<exists>s. mt_abs m (k, s) = Some (Byte b)
    \<and> (\<forall>s' b'. mt_abs m (k, s') = Some (Byte b') \<longrightarrow> s' \<le> s))"
  by (rule mt_get_iff [OF assms])

text \<open>
  An object read answers with the newest row that carries the object's replica id;
  byte rows and rows of other replicas of the same key never answer it.
\<close>

lemma memtable_get_by_rid_newest:
  assumes "mt_inv m"
  shows "mt_get_by_rid m k rid = Some r \<longleftrightarrow> or_replica_id r = rid \<and> (\<exists>s. mt_abs m (k, s) = Some (Object r)
    \<and> (\<forall>s' r'. mt_abs m (k, s') = Some (Object r') \<longrightarrow> or_replica_id r' = rid \<longrightarrow> s' \<le> s))"
  by (rule mt_get_by_rid_iff [OF assms])

text \<open>
  The flush order: the moved-out entries are exactly the rows of the table, each once,
  in strictly ascending (key, sequence) order.
\<close>

lemma memtable_flush_order:
  assumes "mt_inv m"
  shows "sorted_wrt (\<lambda>((k, s), _) ((k', s'), _). k < k' \<or> k = k' \<and> s < s') (mt_into_entries m)
    \<and> set (mt_into_entries m) = {(p, e). mt_abs m p = Some e}"
proof
  show "sorted_wrt (\<lambda>((k, s), _) ((k', s'), _). k < k' \<or> k = k' \<and> s < s') (mt_into_entries m)"
    using mt_entries_sorted [OF assms] by (simp add: mt_into_entries_eq sorted_wrt_map case_prod_unfold)
  show "set (mt_into_entries m) = {(p, e). mt_abs m p = Some e}"
    using mt_entries_iff [OF assms] by (force simp: mt_into_entries_eq)
qed

text \<open>
  A prefix scan of the table lists, in strictly ascending key order, exactly the keys
  that start with the prefix and have a byte row, each with its newest byte row,
  although it stops at the first key past the prefix.
\<close>

lemma memtable_prefix_heads:
  assumes "mt_inv m"
  shows "sorted_wrt (<) (map fst (mt_prefix_heads m p))
    \<and> set (mt_prefix_heads m p) = {(k, b). starts_with k p \<and> mt_get m k = Some b}"
proof
  show "sorted_wrt (<) (map fst (mt_prefix_heads m p))"
    using prefix_heads_loop_sorted [OF bt_from_inv] assms
    by (simp add: mt_prefix_heads_def mt_inv_def flip: bt_inv_def)
  show "set (mt_prefix_heads m p) = {(k, b). starts_with k p \<and> mt_get m k = Some b}"
    using mt_prefix_heads_iff [OF assms] by auto
qed

text \<open>
  The byte accounting is exact, not approximate: while the total stays below the
  machine limit, the counter is the summed cost of the rows the table holds, across
  appends, out-of-order inserts and replacements.
\<close>

lemma memtable_bytes_exact:
  assumes "mt_inv m" and "mt_bytes m = mt_cost m" and "mt_bytes m + value_len e < 2 ^ 64"
  shows "mt_bytes (mt_insert key seq e m) = mt_cost (mt_insert key seq e m)"
  by (rule mt_bytes_insert [OF assms])

text \<open>
  Replaying a log over a table that already holds its writes (the crash between a
  flush and the removal of the log) is harmless: whatever part of the history is
  applied again, the table has the same rows.
\<close>

lemma memtable_replay_idempotent:
  assumes "mt_inv m" and "distinct (map (\<lambda>(k, s, e). (k, s)) ws)" and "set vs \<subseteq> set ws"
  shows "mt_abs (run_writes mt_insert vs (run_writes mt_insert ws m)) = mt_abs (run_writes mt_insert ws m)"
  by (rule mt_table.run_part_again [OF assms])

end
