(* ===== verification/Format.thy ===== *)
theory Format
  imports Cursor
begin

text \<open>
  The on-disk commit point of the storage engine: the \<^verbatim>\<open>CURRENT\<close> pointer and
  the manifest of \<^verbatim>\<open>format.rs\<close>, their codecs, the check that the pair belongs
  together and the manifest invariants. The SHA-256 of the kernel crate is the
  parameter \<open>sha\<close>; the directory that \<^verbatim>\<open>validate_manifest\<close> asks for file sizes is
  a function from segment ids.
\<close>

section \<open>Checksums\<close>

definition FORMAT_VERSION :: u16 where "FORMAT_VERSION = 1"

definition CURRENT_LEN :: nat where "CURRENT_LEN = 22"

definition CURRENT_MAGIC :: bytes where "CURRENT_MAGIC = [0x41, 0x4B, 0x43, 0x56]"

definition MANIFEST_MAGIC :: bytes where "MANIFEST_MAGIC = [0x41, 0x4B, 0x4D, 0x56]"

definition MIN_SEGMENT_RECORD :: nat where "MIN_SEGMENT_RECORD = 57"

definition checksum8 :: "digest_fn \<Rightarrow> bytes \<Rightarrow> bytes" where
  "checksum8 sha bs = take 8 (sha bs)"

definition chain_extend :: "digest_fn \<Rightarrow> u64 \<Rightarrow> u64 \<Rightarrow> u64" where
  "chain_extend sha prev gen = le_u64 (checksum8 sha (u64_le prev @ u64_le gen))"

text \<open>What the engine relies on: a digest has 32 bytes.\<close>

definition sha_ok :: "digest_fn \<Rightarrow> bool" where
  "sha_ok sha \<longleftrightarrow> (\<forall>b. length (sha b) = 32)"

lemma length_checksum8 [simp, enc_simps]: "sha_ok sha \<Longrightarrow> length (checksum8 sha b) = 8"
  by (simp add: checksum8_def sha_ok_def)

section \<open>CURRENT\<close>

record current =
  cu_format_version :: u16
  cu_manifest_generation :: u64

definition Current_encode :: "digest_fn \<Rightarrow> current \<Rightarrow> bytes" where
  "Current_encode sha c =
    (let bs = CURRENT_MAGIC @ u16_le (cu_format_version c) @ u64_le (cu_manifest_generation c)
     in bs @ checksum8 sha bs)"

definition Current_decode :: "digest_fn \<Rightarrow> bytes \<Rightarrow> current fres" where
  "Current_decode sha bs =
    (if length bs \<noteq> CURRENT_LEN then Inl (Corrupt ''CURRENT must be 22 bytes'')
     else if take 4 bs \<noteq> CURRENT_MAGIC then Inl (Corrupt ''CURRENT bad magic'')
     else let format_version = le_u16 (take 2 (drop 4 bs)) in
       if format_version \<noteq> FORMAT_VERSION then Inl (Unsupported ''CURRENT format version'')
       else if checksum8 sha (take 14 bs) \<noteq> take 8 (drop 14 bs)
       then Inl (Corrupt ''CURRENT checksum mismatch'')
       else Inr \<lparr>cu_format_version = format_version,
                 cu_manifest_generation = le_u64 (take 8 (drop 6 bs))\<rparr>)"

section \<open>The manifest\<close>

record segment_record =
  sr_segment_id :: u64
  sr_level :: byte
  sr_key_min :: bytes
  sr_key_max :: bytes
  sr_seq_lo :: u64
  sr_seq_hi :: u64
  sr_record_count :: u64
  sr_file_size :: u64
  sr_checksum :: u64

record manifest =
  mf_format_version :: u16
  mf_generation :: u64
  mf_segments :: "segment_record list"
  mf_wal_ids :: "u64 list"
  mf_identity_floor :: u64
  mf_replica_floor :: u64
  mf_placement_floor :: u64
  mf_identity_chain :: u64
  mf_replica_chain :: u64
  mf_placement_chain :: u64

definition segment_record_encode :: "segment_record \<Rightarrow> bytes" where
  "segment_record_encode s =
    u64_le (sr_segment_id s) @ [sr_level s] @ vec_le (sr_key_min s) @ vec_le (sr_key_max s)
    @ u64_le (sr_seq_lo s) @ u64_le (sr_seq_hi s) @ u64_le (sr_record_count s)
    @ u64_le (sr_file_size s) @ u64_le (sr_checksum s)"

definition segment_record_decode :: "segment_record parser" where
  "segment_record_decode c =
    rbind (cur_u64 c) (\<lambda>(segment_id, c).
    rbind (cur_u8 c) (\<lambda>(lev, c).
    rbind (cur_vec c) (\<lambda>(key_min, c).
    rbind (cur_vec c) (\<lambda>(key_max, c).
    rbind (cur_u64 c) (\<lambda>(seq_lo, c).
    rbind (cur_u64 c) (\<lambda>(seq_hi, c).
    rbind (cur_u64 c) (\<lambda>(record_count, c).
    rbind (cur_u64 c) (\<lambda>(file_size, c).
    rbind (cur_u64 c) (\<lambda>(chk, c).
    Inr (\<lparr>sr_segment_id = segment_id, sr_level = lev, sr_key_min = key_min, sr_key_max = key_max,
          sr_seq_lo = seq_lo, sr_seq_hi = seq_hi, sr_record_count = record_count,
          sr_file_size = file_size, sr_checksum = chk\<rparr>, c))))))))))"

text \<open>The fields of a manifest, everything the checksum covers.\<close>

definition manifest_body :: "manifest \<Rightarrow> bytes" where
  "manifest_body m =
    MANIFEST_MAGIC @ u16_le (mf_format_version m) @ u64_le (mf_generation m)
    @ u32_le (word_of_nat (length (mf_segments m)))
    @ concat (map segment_record_encode (mf_segments m))
    @ u32_le (word_of_nat (length (mf_wal_ids m))) @ concat (map u64_le (mf_wal_ids m))
    @ u64_le (mf_identity_floor m) @ u64_le (mf_replica_floor m) @ u64_le (mf_placement_floor m)
    @ u64_le (mf_identity_chain m) @ u64_le (mf_replica_chain m) @ u64_le (mf_placement_chain m)"

definition Manifest_encode :: "digest_fn \<Rightarrow> manifest \<Rightarrow> bytes" where
  "Manifest_encode sha m = (let bs = manifest_body m in bs @ checksum8 sha bs)"

definition manifest_fields :: "manifest parser" where
  "manifest_fields c =
    rbind (cur_take 4 c) (\<lambda>(magic, c).
    if magic \<noteq> MANIFEST_MAGIC then Inl (Corrupt ''manifest bad magic'') else
    rbind (cur_u16 c) (\<lambda>(format_version, c).
    if format_version \<noteq> FORMAT_VERSION then Inl (Unsupported ''manifest format version'') else
    rbind (cur_u64 c) (\<lambda>(gen, c).
    rbind (cur_u32 c) (\<lambda>(segment_count, c).
    if unat segment_count > remaining c div MIN_SEGMENT_RECORD
    then Inl (Corrupt ''manifest segment_count cannot fit'') else
    rbind (parse_n segment_record_decode (unat segment_count) c) (\<lambda>(segs, c).
    rbind (cur_u32 c) (\<lambda>(wal_count, c).
    if unat wal_count > remaining c div 8
    then Inl (Corrupt ''manifest wal_count cannot fit'') else
    rbind (parse_n cur_u64 (unat wal_count) c) (\<lambda>(wids, c).
    rbind (cur_u64 c) (\<lambda>(identity_floor, c).
    rbind (cur_u64 c) (\<lambda>(replica_floor, c).
    rbind (cur_u64 c) (\<lambda>(placement_floor, c).
    rbind (cur_u64 c) (\<lambda>(identity_chain, c).
    rbind (cur_u64 c) (\<lambda>(replica_chain, c).
    rbind (cur_u64 c) (\<lambda>(placement_chain, c).
    Inr (\<lparr>mf_format_version = format_version, mf_generation = gen, mf_segments = segs,
          mf_wal_ids = wids, mf_identity_floor = identity_floor,
          mf_replica_floor = replica_floor, mf_placement_floor = placement_floor,
          mf_identity_chain = identity_chain, mf_replica_chain = replica_chain,
          mf_placement_chain = placement_chain\<rparr>, c))))))))))))))"

definition Manifest_decode :: "digest_fn \<Rightarrow> bytes \<Rightarrow> manifest fres" where
  "Manifest_decode sha bs =
    rbind (manifest_fields (cursor_new bs)) (\<lambda>(m, c).
    rbind (cur_take 8 c) (\<lambda>(chk, c).
    if \<not> cur_is_empty c then Inl (Corrupt ''manifest trailing bytes'')
    else if checksum8 sha (take (length bs - 8) bs) \<noteq> chk
    then Inl (Corrupt ''manifest checksum mismatch'')
    else Inr m))"

definition verify_pair :: "current \<Rightarrow> manifest \<Rightarrow> unit fres" where
  "verify_pair cu m =
    (if cu_manifest_generation cu \<noteq> mf_generation m
     then Inl (Corrupt ''CURRENT points at another generation'') else Inr ())"

section \<open>Manifest invariants\<close>

fun validate_segments ::
  "(u64 \<Rightarrow> u64 option) \<Rightarrow> u64 list \<Rightarrow> segment_record list \<Rightarrow> unit fres" where
  "validate_segments fsize seen [] = Inr ()"
| "validate_segments fsize seen (r # rs) =
    (if sr_segment_id r \<in> set seen then Inl (Corrupt ''manifest names segment twice'')
     else if sr_level r > 1 then Inl (Corrupt ''segment has unsupported level'')
     else if sr_key_min r > sr_key_max r then Inl (Corrupt ''segment key range flipped'')
     else if sr_seq_lo r > sr_seq_hi r then Inl (Corrupt ''segment sequence range flipped'')
     else if sr_record_count r = 0 then Inl (Corrupt ''segment claims zero records'')
     else case fsize (sr_segment_id r) of
       None \<Rightarrow> Inl (Io ''segment file missing or unreadable'')
     | Some actual \<Rightarrow>
         if actual \<noteq> sr_file_size r then Inl (Corrupt ''segment size mismatch'')
         else validate_segments fsize (sr_segment_id r # seen) rs)"

definition validate_manifest :: "(u64 \<Rightarrow> u64 option) \<Rightarrow> manifest \<Rightarrow> unit fres" where
  "validate_manifest fsize m =
    (if mf_generation m = 0 then Inl (Corrupt ''manifest generation must be > 0'')
     else validate_segments fsize [] (mf_segments m))"

section \<open>Codec lemmas\<close>

definition segment_record_ok :: "segment_record \<Rightarrow> bool" where
  "segment_record_ok s \<longleftrightarrow> length (sr_key_min s) < 2 ^ 32 \<and> length (sr_key_max s) < 2 ^ 32"

definition manifest_ok :: "manifest \<Rightarrow> bool" where
  "manifest_ok m \<longleftrightarrow> mf_format_version m = FORMAT_VERSION
     \<and> length (mf_segments m) < 2 ^ 32 \<and> length (mf_wal_ids m) < 2 ^ 32
     \<and> (\<forall>s \<in> set (mf_segments m). segment_record_ok s)"

lemma segment_record_decode_iff:
  "segment_record_decode c = Inr (s, c') \<longleftrightarrow>
     segment_record_ok s \<and> adv c (segment_record_encode s) c'"
proof
  assume "segment_record_decode c = Inr (s, c')"
  then show "segment_record_ok s \<and> adv c (segment_record_encode s) c'"
    unfolding segment_record_decode_def
    by (elim rbind_InrE case_prodE)
      (fastforce simp: cur_iffs segment_record_ok_def segment_record_encode_def
        rbind_Inr_iff simp del: append_Cons append_Nil intro: adv_trans)
next
  assume "segment_record_ok s \<and> adv c (segment_record_encode s) c'"
  then show "segment_record_decode c = Inr (s, c')"
    unfolding segment_record_ok_def segment_record_encode_def adv_append
    by (auto simp: segment_record_decode_def dest!: cur_reads)
qed

interpretation segment_record_codec: codec segment_record_encode segment_record_decode segment_record_ok
  by unfold_locales (simp_all add: segment_record_decode_iff)

lemma length_segment_record_encode:
  "length (segment_record_encode s) = 57 + length (sr_key_min s) + length (sr_key_max s)"
  by (simp add: segment_record_encode_def)

lemma length_concat_segment_records:
  "57 * length ss \<le> length (concat (map segment_record_encode ss))"
  by (induction ss) (simp_all add: length_segment_record_encode)

lemma count_fits: "k * n \<le> r \<Longrightarrow> 0 < k \<Longrightarrow> \<not> r div k < (n :: nat)"
  by (simp add: less_mult_imp_div_less div_less_iff_less_mult mult.commute linorder_not_less)

lemma manifest_fields_body:
  assumes m: "manifest_ok m" and c: "adv c (manifest_body m) c'"
  shows "manifest_fields c = Inr (m, c')"
proof -
  let ?segs = "mf_segments m" and ?wals = "mf_wal_ids m"
  from c obtain c1 c2 c3 c4 c5 c6 c7 c8 c9 c10 c11 c12 where
    a: "adv c MANIFEST_MAGIC c1" "adv c1 (u16_le (mf_format_version m)) c2"
      "adv c2 (u64_le (mf_generation m)) c3" "adv c3 (u32_le (word_of_nat (length ?segs))) c4"
    and b: "adv c4 (concat (map segment_record_encode ?segs)) c5"
    and d: "adv c5 (u32_le (word_of_nat (length ?wals))) c6"
    and e: "adv c6 (concat (map u64_le ?wals)) c7"
    and f: "adv c7 (u64_le (mf_identity_floor m)) c8" "adv c8 (u64_le (mf_replica_floor m)) c9"
      "adv c9 (u64_le (mf_placement_floor m)) c10" "adv c10 (u64_le (mf_identity_chain m)) c11"
      "adv c11 (u64_le (mf_replica_chain m)) c12" "adv c12 (u64_le (mf_placement_chain m)) c'"
    unfolding manifest_body_def adv_append by blast
  have len: "length ?segs < 2 ^ 32" "length ?wals < 2 ^ 32" using m by (auto simp: manifest_ok_def)
  have segs: "parse_n segment_record_decode (length ?segs) c4 = Inr (?segs, c5)"
    using segment_record_codec.parse_n_enc b m by (simp add: manifest_ok_def)
  have wals: "parse_n cur_u64 (length ?wals) c6 = Inr (?wals, c7)"
    using u64_codec.parse_n_enc e by simp
  have "cur_take 4 c = Inr (MANIFEST_MAGIC, c1)"
    using a(1) by (simp add: cur_take_iff MANIFEST_MAGIC_def)
  moreover have "57 * length ?segs \<le> remaining c4"
    using length_concat_segment_records [of ?segs] adv_remaining [OF b] by simp
  moreover have "8 * length ?wals \<le> remaining c6"
    using adv_remaining [OF e] length_concat_const [of ?wals u64_le 8] by simp
  ultimately show ?thesis
    using m len by (simp add: manifest_fields_def manifest_ok_def MIN_SEGMENT_RECORD_def count_fits
        cur_reads(2) [OF a(2)] cur_reads(4) [OF a(3)] a(4) [THEN cur_reads(3)] d [THEN cur_reads(3)]
        segs wals f [THEN cur_reads(4)] unat_of_nat_small)
qed

lemma manifest_fields_exact:
  assumes "manifest_fields c = Inr (m, c')"
  shows "manifest_ok m \<and> adv c (manifest_body m) c'"
proof -
  have lt: "unat (w :: u32) < 4294967296" for w using unat_less [of w] by simp
  from assms show ?thesis
    unfolding manifest_body_def adv_append manifest_ok_def manifest_fields_def
    by (clarsimp simp: rbind_Inr_iff cur_iffs segment_record_codec.parse_n_iff u64_codec.parse_n_iff lt)
      blast
qed

lemma checked_body_split:
  "bs = body @ chk \<Longrightarrow> length chk = 8 \<Longrightarrow> take (length bs - 8) bs = body"
  by simp

lemma Manifest_decode_exact:
  assumes "Manifest_decode sha bs = Inr m"
  shows "manifest_ok m \<and> bs = Manifest_encode sha m"
proof -
  from assms obtain c chk c' where f: "manifest_fields (cursor_new bs) = Inr (m, c)"
    and t: "length chk = 8" "adv c chk c'" and e: "cur_is_empty c'"
    and k: "checksum8 sha (take (length bs - 8) bs) = chk"
    by (auto simp: Manifest_decode_def rbind_Inr_iff cur_take_iff)
  have "bs = manifest_body m @ chk @ rest c'"
    using manifest_fields_exact [OF f] t(2) by (metis adv_rest rest_new)
  moreover have "rest c' = []" using e by (simp add: cur_is_empty_def remaining_rest)
  ultimately have bs: "bs = manifest_body m @ chk" by simp
  with k t(1) have "checksum8 sha (manifest_body m) = chk" by simp
  then show ?thesis using manifest_fields_exact [OF f] bs by (simp add: Manifest_encode_def Let_def)
qed

lemma Manifest_decode_encode:
  assumes "sha_ok sha" and m: "manifest_ok m"
  shows "Manifest_decode sha (Manifest_encode sha m) = Inr m"
proof -
  let ?body = "manifest_body m" and ?chk = "checksum8 sha (manifest_body m)"
  let ?bs = "?body @ ?chk"
  obtain c where c: "adv (cursor_new ?bs) ?body c" "rest c = ?chk"
    using adv_exists [of "cursor_new ?bs" ?body ?chk] by auto
  obtain c' where c': "adv c ?chk c'" "rest c' = []"
    using adv_exists [of c ?chk "[]"] c(2) by auto
  have "cur_take 8 c = Inr (?chk, c')" using c'(1) assms(1) by (simp add: cur_take_iff)
  moreover have "cur_is_empty c'" using c'(2) by (simp add: cur_is_empty_def remaining_rest)
  ultimately show ?thesis
    using manifest_fields_body [OF m c(1)] assms(1)
    by (simp add: Manifest_decode_def Manifest_encode_def Let_def)
qed

lemma Current_split:
  assumes "length bs = 22"
  shows "bs = take 4 bs @ take 2 (drop 4 bs) @ take 8 (drop 6 bs) @ take 8 (drop 14 bs)"
    and "take 14 bs = take 4 bs @ take 2 (drop 4 bs) @ take 8 (drop 6 bs)"
proof -
  have *: "take (n + k) (drop i bs) = take n (drop i bs) @ take k (drop (i + n) bs)" for n k i
    by (simp only: take_add drop_drop add.commute [of n i])
  show "take 14 bs = take 4 bs @ take 2 (drop 4 bs) @ take 8 (drop 6 bs)"
    using * [of 4 10 0] * [of 2 8 4] by simp
  moreover have "bs = take 14 bs @ take 8 (drop 14 bs)"
    using assms by simp
  ultimately show "bs = take 4 bs @ take 2 (drop 4 bs) @ take 8 (drop 6 bs) @ take 8 (drop 14 bs)"
    by (metis append_assoc)
qed

lemma Current_decode_exact:
  assumes "Current_decode sha bs = Inr cu"
  shows "cu_format_version cu = FORMAT_VERSION \<and> bs = Current_encode sha cu"
proof -
  from assms have len: "length bs = 22" and magic: "take 4 bs = CURRENT_MAGIC"
    and ver: "le_u16 (take 2 (drop 4 bs)) = FORMAT_VERSION"
    and chk: "checksum8 sha (take 14 bs) = take 8 (drop 14 bs)"
    and cu: "cu = \<lparr>cu_format_version = FORMAT_VERSION,
                   cu_manifest_generation = le_u64 (take 8 (drop 6 bs))\<rparr>"
    by (auto simp: Current_decode_def Let_def CURRENT_LEN_def)
  have v: "take 2 (drop 4 bs) = u16_le FORMAT_VERSION"
    using ver len uint_le_le(1) [of "take 2 (drop 4 bs)"] by simp
  have g: "u64_le (cu_manifest_generation cu) = take 8 (drop 6 bs)"
    using len cu uint_le_le(3) [of "take 8 (drop 6 bs)"] by simp
  have body: "CURRENT_MAGIC @ u16_le (cu_format_version cu) @ u64_le (cu_manifest_generation cu) = take 14 bs"
    using Current_split(2) [OF len] magic v g cu by simp
  have "Current_encode sha cu = take 14 bs @ take 8 (drop 14 bs)"
    by (simp only: Current_encode_def Let_def body chk)
  then show ?thesis using cu len by simp
qed

lemma Current_decode_encode:
  assumes "sha_ok sha" and "cu_format_version cu = FORMAT_VERSION"
  shows "Current_decode sha (Current_encode sha cu) = Inr cu"
proof -
  have m: "length CURRENT_MAGIC = 4" by (simp add: CURRENT_MAGIC_def)
  show ?thesis
    using assms m by (simp add: Current_decode_def Current_encode_def Let_def CURRENT_LEN_def)
qed

lemma validate_segments_iff:
  "validate_segments fsize seen rs = Inr () \<longleftrightarrow>
     distinct (map sr_segment_id rs) \<and> set seen \<inter> sr_segment_id ` set rs = {}
     \<and> (\<forall>r \<in> set rs. sr_level r \<le> 1 \<and> sr_key_min r \<le> sr_key_max r \<and> sr_seq_lo r \<le> sr_seq_hi r
          \<and> sr_record_count r \<noteq> 0 \<and> fsize (sr_segment_id r) = Some (sr_file_size r))"
  by (induction fsize seen rs rule: validate_segments.induct)
    (auto split: option.splits simp: not_less)

section \<open>Properties\<close>

text \<open>
  C6. The manifest codec is a bijection between well-formed manifests and the byte
  strings the decoder accepts: decoding succeeds with \<open>m\<close> exactly when the bytes
  are the encoding of \<open>m\<close> and \<open>m\<close> is representable (this build's format version,
  counts and key lengths that fit their 32-bit fields). In particular every
  manifest reads back, no two byte strings carry the same manifest, and a
  truncated, extended or bit-flipped file with a wrong checksum is refused.
\<close>

theorem manifest_codec:
  assumes "sha_ok sha"
  shows "Manifest_decode sha bs = Inr m \<longleftrightarrow> manifest_ok m \<and> bs = Manifest_encode sha m"
  using Manifest_decode_exact Manifest_decode_encode [OF assms] by blast

theorem manifest_codec_witness:
  "sha_ok (\<lambda>b. replicate 32 (word_of_nat (length b)))
   \<and> Manifest_decode (\<lambda>b. replicate 32 (word_of_nat (length b)))
       (Manifest_encode (\<lambda>b. replicate 32 (word_of_nat (length b)))
         \<lparr>mf_format_version = 1, mf_generation = 7,
          mf_segments = [\<lparr>sr_segment_id = 3, sr_level = 1, sr_key_min = [1], sr_key_max = [2, 5],
            sr_seq_lo = 1, sr_seq_hi = 9, sr_record_count = 4, sr_file_size = 100, sr_checksum = 77\<rparr>],
          mf_wal_ids = [4, 5], mf_identity_floor = 1, mf_replica_floor = 0, mf_placement_floor = 2,
          mf_identity_chain = 11, mf_replica_chain = 0, mf_placement_chain = 12\<rparr>)
     = Inr \<lparr>mf_format_version = 1, mf_generation = 7,
          mf_segments = [\<lparr>sr_segment_id = 3, sr_level = 1, sr_key_min = [1], sr_key_max = [2, 5],
            sr_seq_lo = 1, sr_seq_hi = 9, sr_record_count = 4, sr_file_size = 100, sr_checksum = 77\<rparr>],
          mf_wal_ids = [4, 5], mf_identity_floor = 1, mf_replica_floor = 0, mf_placement_floor = 2,
          mf_identity_chain = 11, mf_replica_chain = 0, mf_placement_chain = 12\<rparr>"
  using manifest_codec [of "\<lambda>b. replicate 32 (word_of_nat (length b))"]
  by (simp add: sha_ok_def manifest_ok_def segment_record_ok_def FORMAT_VERSION_def)

text \<open>
  The CURRENT pointer codec is a bijection between pointers of this build's
  format version and the 22-byte strings the decoder accepts.
\<close>

lemma current_codec:
  assumes "sha_ok sha"
  shows "Current_decode sha bs = Inr cu \<longleftrightarrow>
    cu_format_version cu = FORMAT_VERSION \<and> bs = Current_encode sha cu"
  using Current_decode_exact Current_decode_encode [OF assms] by blast

text \<open>
  C12. \<^verbatim>\<open>validate_manifest\<close> accepts a manifest exactly when its generation is
  positive, no segment id occurs twice, and every segment has a known level,
  unflipped key and sequence ranges, at least one record, and a file of exactly
  the recorded size in the directory.
\<close>

theorem validate_manifest_iff:
  "validate_manifest fsize m = Inr () \<longleftrightarrow>
     mf_generation m \<noteq> 0 \<and> distinct (map sr_segment_id (mf_segments m))
     \<and> list_all (\<lambda>r. sr_level r \<le> 1 \<and> sr_key_min r \<le> sr_key_max r \<and> sr_seq_lo r \<le> sr_seq_hi r
          \<and> sr_record_count r \<noteq> 0 \<and> fsize (sr_segment_id r) = Some (sr_file_size r)) (mf_segments m)"
  by (simp add: validate_manifest_def validate_segments_iff list_all_iff)

end
