(* ===== verification/Wal.thy ===== *)
theory Wal
  imports Format Ids
begin

text \<open>
  The write-ahead log of \<^verbatim>\<open>wal.rs\<close>: operations, the frame codec, the in-memory
  replay, and the reader-based replay with its chunked probe. A file is its byte
  string, read without I/O faults; \<^verbatim>\<open>usize\<close> is 64 bits wide, so the checked sums
  of the source fail from \<open>2 ^ 64\<close> on.
\<close>

section \<open>Operations and frames\<close>

definition WAL_FORMAT_VERSION :: u16 where "WAL_FORMAT_VERSION = 1"
definition FRAME_BATCH :: byte where "FRAME_BATCH = 1"
definition OP_PUT :: byte where "OP_PUT = 1"
definition OP_DELETE :: byte where "OP_DELETE = 2"
definition OP_CREATE_OBJECT :: byte where "OP_CREATE_OBJECT = 3"
definition OP_PUT_OBJECT :: byte where "OP_PUT_OBJECT = 4"
definition OP_DELETE_OBJECT :: byte where "OP_DELETE_OBJECT = 5"
definition WAL_MAGIC :: bytes where "WAL_MAGIC = [0x41, 0x4B, 0x57, 0x46]"
definition FRAME_HEADER_LEN :: nat where "FRAME_HEADER_LEN = 19"

datatype op =
    Put bytes bytes
  | Delete bytes
  | CreateObject object_id logical_id replica_id u64
  | PutObject replica_id bytes bytes
  | DeleteObject replica_id bytes

fun op_key :: "op \<Rightarrow> bytes" where
  "op_key (Put k v) = k"
| "op_key (Delete k) = k"
| "op_key (PutObject r k v) = k"
| "op_key (DeleteObject r k) = k"
| "op_key (CreateObject oid lid rid pgen) = []"

record wal_frame =
  fr_seq :: u64
  fr_ops :: "op list"

section \<open>Encoding\<close>

definition checked_add :: "nat \<Rightarrow> nat \<Rightarrow> nat option" where
  "checked_add a b = (if a + b < 2 ^ 64 then Some (a + b) else None)"

primrec checked_sum :: "nat list \<Rightarrow> nat \<Rightarrow> nat fres" where
  "checked_sum [] acc = Inr acc"
| "checked_sum (n # ns) acc =
    (case checked_add acc n of
       None \<Rightarrow> Inl (Invalid ''WAL op length overflows'')
     | Some a \<Rightarrow> checked_sum ns a)"

definition checked_len :: "nat list \<Rightarrow> nat fres" where
  "checked_len parts = checked_sum parts 0"

fun op_encoded_len :: "op \<Rightarrow> nat fres" where
  "op_encoded_len (Put k v) = checked_len [1, 4, length k, 4, length v]"
| "op_encoded_len (Delete k) = checked_len [1, 4, length k]"
| "op_encoded_len (CreateObject oid lid rid pgen) = checked_len [1, 16, 8, 8, 8]"
| "op_encoded_len (PutObject r k v) = checked_len [1, 8, 4, length k, 4, length v]"
| "op_encoded_len (DeleteObject r k) = checked_len [1, 8, 4, length k]"

primrec payload_len_loop :: "op list \<Rightarrow> nat \<Rightarrow> nat fres" where
  "payload_len_loop [] n = Inr n"
| "payload_len_loop (op # ops) n =
    rbind (op_encoded_len op) (\<lambda>l.
    case checked_add n l of
      None \<Rightarrow> Inl (Invalid ''WAL frame payload overflows'')
    | Some n' \<Rightarrow> payload_len_loop ops n')"

fun op_encode :: "op \<Rightarrow> bytes" where
  "op_encode (Put k v) = [OP_PUT] @ vec_le k @ vec_le v"
| "op_encode (Delete k) = [OP_DELETE] @ vec_le k"
| "op_encode (CreateObject oid lid rid pgen) =
    [OP_CREATE_OBJECT] @ oid_bytes oid @ lid_to_bytes lid @ rid_to_bytes rid @ u64_le pgen"
| "op_encode (PutObject rid k v) = [OP_PUT_OBJECT] @ rid_to_bytes rid @ vec_le k @ vec_le v"
| "op_encode (DeleteObject rid k) = [OP_DELETE_OBJECT] @ rid_to_bytes rid @ vec_le k"

definition encode_frame :: "digest_fn \<Rightarrow> u64 \<Rightarrow> op list \<Rightarrow> bytes fres" where
  "encode_frame sha seq ops =
    (if ops = [] then Inl (Invalid ''WAL frame with no ops'') else
     rbind (payload_len_loop ops 4) (\<lambda>payload_len.
     if \<not> payload_len < 2 ^ 32
     then Inl (Invalid ''WAL frame payload exceeds the u32 field'') else
     if \<not> length ops < 2 ^ 32
     then Inl (Invalid ''WAL frame op count exceeds the u32 field'') else
     case Option.bind (checked_add FRAME_HEADER_LEN payload_len) (\<lambda>t. checked_add t 8) of
       None \<Rightarrow> Inl (Invalid ''WAL frame size overflows'')
     | Some tot \<Rightarrow>
         let frame = WAL_MAGIC @ u16_le WAL_FORMAT_VERSION @ [FRAME_BATCH] @ u64_le seq
               @ u32_le (word_of_nat payload_len) @ u32_le (word_of_nat (length ops))
               @ concat (map op_encode ops)
         in Inr (frame @ checksum8 sha frame)))"

section \<open>Decoding\<close>

definition decode_op :: "op parser" where
  "decode_op c =
    rbind (cur_u8 c) (\<lambda>(b, c).
    if b = OP_PUT then
      rbind (cur_vec c) (\<lambda>(k, c). rbind (cur_vec c) (\<lambda>(v, c). Inr (Put k v, c)))
    else if b = OP_DELETE then
      rbind (cur_vec c) (\<lambda>(k, c). Inr (Delete k, c))
    else if b = OP_CREATE_OBJECT then
      rbind (cur_oid c) (\<lambda>(oid, c).
      rbind (cur_lid c) (\<lambda>(lid, c).
      rbind (cur_rid c) (\<lambda>(rid, c).
      rbind (cur_u64 c) (\<lambda>(pgen, c). Inr (CreateObject oid lid rid pgen, c)))))
    else if b = OP_PUT_OBJECT then
      rbind (cur_rid c) (\<lambda>(rid, c).
      rbind (cur_vec c) (\<lambda>(k, c). rbind (cur_vec c) (\<lambda>(v, c). Inr (PutObject rid k v, c))))
    else if b = OP_DELETE_OBJECT then
      rbind (cur_rid c) (\<lambda>(rid, c). rbind (cur_vec c) (\<lambda>(k, c). Inr (DeleteObject rid k, c)))
    else Inl (Unsupported ''WAL op byte''))"

primrec walk_ops :: "(op \<Rightarrow> 's \<Rightarrow> 's fres) \<Rightarrow> nat \<Rightarrow> cursor \<Rightarrow> 's \<Rightarrow> ('s \<times> cursor) fres" where
  "walk_ops sink 0 c s = Inr (s, c)"
| "walk_ops sink (Suc n) c s =
    rbind (decode_op c) (\<lambda>(op, c). rbind (sink op s) (\<lambda>s. walk_ops sink n c s))"

definition walk_payload :: "(op \<Rightarrow> 's \<Rightarrow> 's fres) \<Rightarrow> bytes \<Rightarrow> 's \<Rightarrow> 's fres" where
  "walk_payload sink payload s =
    rbind (cur_u32 (cursor_new payload)) (\<lambda>(count, c).
    if count = 0 then Inl (Corrupt ''WAL frame with zero entries'') else
    rbind (walk_ops sink (unat count) c s) (\<lambda>(s, c).
    if \<not> cur_is_empty c then Inl (Corrupt ''WAL payload trailing bytes'') else Inr s))"

definition decode_payload :: "bytes \<Rightarrow> op list fres" where
  "decode_payload payload = walk_payload (\<lambda>op ops. Inr (ops @ [op])) payload []"

definition decode_frame :: "digest_fn \<Rightarrow> bytes \<Rightarrow> (wal_frame \<times> nat) fres" where
  "decode_frame sha bs =
    rbind (cur_take 4 (cursor_new bs)) (\<lambda>(magic, c).
    if magic \<noteq> WAL_MAGIC then Inl (Corrupt ''WAL frame bad magic'') else
    rbind (cur_u16 c) (\<lambda>(version, c).
    if version \<noteq> WAL_FORMAT_VERSION then Inl (Unsupported ''WAL frame format version'') else
    rbind (cur_u8 c) (\<lambda>(frame_type, c).
    if frame_type \<noteq> FRAME_BATCH then Inl (Unsupported ''WAL frame type'') else
    rbind (cur_u64 c) (\<lambda>(seq, c).
    rbind (cur_u32 c) (\<lambda>(payload_len, c).
    rbind (cur_take (unat payload_len) c) (\<lambda>(payload, c).
    rbind (cur_take 8 c) (\<lambda>(stored_ck, c).
    let tot = FRAME_HEADER_LEN + unat payload_len + 8 in
    if checksum8 sha (take (tot - 8) bs) \<noteq> stored_ck
    then Inl (Corrupt ''WAL frame checksum mismatch'') else
    rbind (decode_payload payload) (\<lambda>ops.
    Inr (\<lparr>fr_seq = seq, fr_ops = ops\<rparr>, tot)))))))))"

section \<open>Lengths\<close>

lemmas wal_tags = OP_PUT_def OP_DELETE_def OP_CREATE_OBJECT_def OP_PUT_OBJECT_def OP_DELETE_OBJECT_def

lemma length_WAL_MAGIC [simp]: "length WAL_MAGIC = 4"
  by (simp add: WAL_MAGIC_def)

text \<open>What the Rust types guarantee of an operation (the 16-byte object id) and what
  the 32-bit length fields can carry.\<close>

fun op_typed :: "op \<Rightarrow> bool" where
  "op_typed (CreateObject oid lid rid pgen) = oid_ok oid"
| "op_typed _ = True"

fun op_fits :: "op \<Rightarrow> bool" where
  "op_fits (Put k v) \<longleftrightarrow> length k < 2 ^ 32 \<and> length v < 2 ^ 32"
| "op_fits (Delete k) \<longleftrightarrow> length k < 2 ^ 32"
| "op_fits (CreateObject oid lid rid pgen) \<longleftrightarrow> oid_ok oid"
| "op_fits (PutObject r k v) \<longleftrightarrow> length k < 2 ^ 32 \<and> length v < 2 ^ 32"
| "op_fits (DeleteObject r k) \<longleftrightarrow> length k < 2 ^ 32"

definition ops_len :: "op list \<Rightarrow> nat" where
  "ops_len ops = length (concat (map op_encode ops))"

lemma checked_sum_iff:
  "checked_sum ns acc = Inr r \<longleftrightarrow> r = acc + sum_list ns \<and> (ns = [] \<or> acc + sum_list ns < 2 ^ 64)"
proof (induction ns arbitrary: acc)
  case Nil
  then show ?case by auto
next
  case (Cons n ns)
  show ?case
  proof (cases "acc + n < 2 ^ 64")
    case True
    then show ?thesis by (auto simp: checked_add_def Cons.IH add.assoc)
  next
    case False
    then show ?thesis by (simp add: checked_add_def)
  qed
qed

lemma checked_sum_Inl: "checked_sum ns acc = Inl e \<Longrightarrow> e = Invalid ''WAL op length overflows''"
  by (induction ns arbitrary: acc) (auto split: option.splits)

lemma checked_len_iff:
  "checked_len ns = Inr r \<longleftrightarrow> r = sum_list ns \<and> (ns = [] \<or> sum_list ns < 2 ^ 64)"
  by (simp add: checked_len_def checked_sum_iff)

lemma checked_len_Inl: "checked_len ns = Inl e \<Longrightarrow> e = Invalid ''WAL op length overflows''"
  by (simp add: checked_len_def checked_sum_Inl)

lemma op_encoded_len_iff:
  "op_typed op \<Longrightarrow>
     op_encoded_len op = Inr n \<longleftrightarrow> n = length (op_encode op) \<and> length (op_encode op) < 2 ^ 64"
  by (cases op) (auto simp: checked_len_iff oid_ok_def)

lemma op_encoded_len_Inl:
  "op_encoded_len op = Inl e \<Longrightarrow> e = Invalid ''WAL op length overflows''"
  by (cases op) (auto dest: checked_len_Inl)

lemma payload_len_loop_iff:
  "list_all op_typed ops \<Longrightarrow>
     payload_len_loop ops n = Inr r \<longleftrightarrow> r = n + ops_len ops \<and> (ops = [] \<or> n + ops_len ops < 2 ^ 64)"
proof (induction ops arbitrary: n)
  case Nil
  then show ?case by (auto simp: ops_len_def)
next
  case (Cons op ops)
  have len: "ops_len (op # ops) = length (op_encode op) + ops_len ops" by (simp add: ops_len_def)
  have typed: "op_typed op" "list_all op_typed ops" using Cons.prems by simp_all
  have nil: "ops_len [] = 0" by (simp add: ops_len_def)
  show ?case
  proof (cases "length (op_encode op) < 2 ^ 64 \<and> n + length (op_encode op) < 2 ^ 64")
    case True
    then have "op_encoded_len op = Inr (length (op_encode op))"
      using op_encoded_len_iff [OF typed(1)] by blast
    with True show ?thesis
      by (auto simp: checked_add_def Cons.IH [OF typed(2)] len nil add.assoc)
  next
    case False
    have "payload_len_loop (op # ops) n \<noteq> Inr r"
    proof
      assume "payload_len_loop (op # ops) n = Inr r"
      then obtain l where "op_encoded_len op = Inr l" "checked_add n l \<noteq> None"
        by (auto simp: rbind_Inr_iff split: option.splits)
      then show False using False op_encoded_len_iff [OF typed(1)]
        by (auto simp: checked_add_def split: if_splits)
    qed
    then show ?thesis using False len by auto
  qed
qed

lemma payload_len_loop_Inl:
  "payload_len_loop ops n = Inl e \<Longrightarrow>
     e \<in> {Invalid ''WAL op length overflows'', Invalid ''WAL frame payload overflows''}"
proof (induction ops arbitrary: n)
  case (Cons op ops)
  then show ?case
    by (cases "op_encoded_len op") (auto dest: op_encoded_len_Inl split: option.splits)
qed simp

lemma op_fits_of_len: "op_typed op \<Longrightarrow> length (op_encode op) < 2 ^ 32 \<Longrightarrow> op_fits op"
  by (cases op) auto

lemma op_encode_nonempty: "0 < length (op_encode op)"
  by (cases op) auto

lemma length_ops_le: "length ops \<le> ops_len ops"
proof (induction ops)
  case (Cons op ops)
  have "ops_len (op # ops) = length (op_encode op) + ops_len ops" by (simp add: ops_len_def)
  then show ?case using op_encode_nonempty [of op] Cons unfolding length_Cons by linarith
qed simp

lemma ops_fit_of_len: "list_all op_typed ops \<Longrightarrow> ops_len ops < 2 ^ 32 \<Longrightarrow> list_all op_fits ops"
  by (induction ops) (auto simp: ops_len_def op_fits_of_len)

lemma op_fits_typed: "op_fits op \<Longrightarrow> op_typed op"
  by (cases op) auto

section \<open>The operation codec\<close>

lemma decode_op_encode:
  assumes "op_fits op" and "adv c (op_encode op) c'"
  shows "decode_op c = Inr (op, c')"
  using assms
  by (cases op; simp only: op_encode.simps adv_append)
    (auto simp: decode_op_def wal_tags dest!: cur_reads cur_id_reads)

lemma decode_op_exact:
  assumes "decode_op c = Inr (op, c')"
  shows "op_fits op \<and> adv c (op_encode op) c'"
proof -
  from assms obtain b c1 where b: "adv c [b] c1"
    and r: "(if b = OP_PUT then
        rbind (cur_vec c1) (\<lambda>(k, c). rbind (cur_vec c) (\<lambda>(v, c). Inr (Put k v, c)))
      else if b = OP_DELETE then rbind (cur_vec c1) (\<lambda>(k, c). Inr (Delete k, c))
      else if b = OP_CREATE_OBJECT then
        rbind (cur_oid c1) (\<lambda>(oid, c). rbind (cur_lid c) (\<lambda>(lid, c).
        rbind (cur_rid c) (\<lambda>(rid, c).
        rbind (cur_u64 c) (\<lambda>(pgen, c). Inr (CreateObject oid lid rid pgen, c)))))
      else if b = OP_PUT_OBJECT then
        rbind (cur_rid c1) (\<lambda>(rid, c).
        rbind (cur_vec c) (\<lambda>(k, c). rbind (cur_vec c) (\<lambda>(v, c). Inr (PutObject rid k v, c))))
      else if b = OP_DELETE_OBJECT then
        rbind (cur_rid c1) (\<lambda>(rid, c). rbind (cur_vec c) (\<lambda>(k, c). Inr (DeleteObject rid k, c)))
      else Inl (Unsupported ''WAL op byte'')) = Inr (op, c')"
    by (auto simp: decode_op_def rbind_Inr_iff cur_u8_iff)
  have "op_fits op \<and> (\<exists>body. op_encode op = [b] @ body \<and> adv c1 body c')"
    using r
    by (auto simp: rbind_Inr_iff cur_iffs cur_id_iff adv_append
        split: if_splits) (blast intro: adv_trans)+
  then show ?thesis using b by (metis adv_trans)
qed

interpretation op_codec: codec op_encode decode_op op_fits
  by unfold_locales (auto dest: decode_op_encode decode_op_exact)

section \<open>The payload\<close>

definition frame_payload :: "op list \<Rightarrow> bytes" where
  "frame_payload ops = u32_le (word_of_nat (length ops)) @ concat (map op_encode ops)"

lemma length_frame_payload: "length (frame_payload ops) = 4 + ops_len ops"
  by (simp add: frame_payload_def ops_len_def)

lemma walk_ops_parse:
  "parse_n decode_op n c = Inr (ops, c') \<Longrightarrow>
     walk_ops sink n c s = rbind (rfold sink ops s) (\<lambda>s. Inr (s, c'))"
proof (induction n arbitrary: c s ops)
  case (Suc n)
  then obtain op c1 ops' where "decode_op c = Inr (op, c1)" "parse_n decode_op n c1 = Inr (ops', c')"
    "ops = op # ops'"
    by (auto simp: rbind_Inr_iff)
  then show ?case using Suc.IH by (cases "sink op s") simp_all
qed simp

lemma walk_ops_parse_Inl:
  "parse_n decode_op n c = Inl e \<Longrightarrow> \<exists>e'. walk_ops sink n c s = Inl e'"
proof (induction n arbitrary: c s e)
  case (Suc n)
  show ?case
  proof (cases "decode_op c")
    case (Inr p)
    then obtain op c1 where p: "decode_op c = Inr (op, c1)" by (cases p) auto
    have "\<exists>e. parse_n decode_op n c1 = Inl e"
      using Suc.prems p by (cases "parse_n decode_op n c1") auto
    then show ?thesis using Suc.IH p by (cases "sink op s") auto
  qed simp
qed simp

lemma rfold_collect: "rfold (\<lambda>x xs. Inr (xs @ [x])) ys acc = Inr (acc @ ys)"
  by (induction ys arbitrary: acc) simp_all

lemma walk_ops_collect:
  "walk_ops (\<lambda>op ops. Inr (ops @ [op])) n c acc = Inr (ops, c') \<longleftrightarrow>
     (\<exists>ops'. ops = acc @ ops' \<and> parse_n decode_op n c = Inr (ops', c'))"
proof (cases "parse_n decode_op n c")
  case (Inl e)
  then show ?thesis
    using walk_ops_parse_Inl [OF Inl, of "\<lambda>op ops. Inr (ops @ [op])" acc] by auto
next
  case (Inr p)
  then show ?thesis by (cases p) (auto simp: walk_ops_parse rfold_collect)
qed

lemma decode_payload_iff:
  "decode_payload p = Inr ops \<longleftrightarrow>
     ops \<noteq> [] \<and> list_all op_fits ops \<and> length ops < 2 ^ 32 \<and> p = frame_payload ops"
proof -
  have "decode_payload p = Inr ops \<longleftrightarrow>
    (\<exists>count c c'. adv (cursor_new p) (u32_le count) c \<and> count \<noteq> 0 \<and> length ops = unat count
       \<and> (\<forall>op \<in> set ops. op_fits op) \<and> adv c (concat (map op_encode ops)) c' \<and> rest c' = [])"
    by (auto simp: decode_payload_def walk_payload_def rbind_Inr_iff cur_u32_iff walk_ops_collect
        op_codec.parse_n_iff cur_is_empty_def remaining_rest)
  also have "\<dots> \<longleftrightarrow> (\<exists>count. count \<noteq> 0 \<and> length ops = unat count \<and> list_all op_fits ops
       \<and> p = u32_le count @ concat (map op_encode ops))"
    unfolding adv_all [symmetric] list_all_iff by blast
  also have "\<dots> \<longleftrightarrow> ops \<noteq> [] \<and> list_all op_fits ops \<and> length ops < 2 ^ 32 \<and> p = frame_payload ops"
  proof -
    have "(\<exists>count :: u32. count \<noteq> 0 \<and> length ops = unat count \<and> p = u32_le count @ z) \<longleftrightarrow>
        ops \<noteq> [] \<and> length ops < 2 ^ 32 \<and> p = u32_le (word_of_nat (length ops)) @ z" for z
    proof
      assume "\<exists>count :: u32. count \<noteq> 0 \<and> length ops = unat count \<and> p = u32_le count @ z"
      then obtain count :: u32 where c: "count \<noteq> 0" "length ops = unat count" "p = u32_le count @ z"
        by blast
      then show "ops \<noteq> [] \<and> length ops < 2 ^ 32 \<and> p = u32_le (word_of_nat (length ops)) @ z"
        using unat_less [of count] by (auto simp: unat_eq_0_iff)
    next
      assume "ops \<noteq> [] \<and> length ops < 2 ^ 32 \<and> p = u32_le (word_of_nat (length ops)) @ z"
      moreover from this have "unat (word_of_nat (length ops) :: u32) = length ops"
        by (intro unat_of_nat_small) simp
      ultimately show "\<exists>count :: u32. count \<noteq> 0 \<and> length ops = unat count \<and> p = u32_le count @ z"
        by (intro exI [of _ "word_of_nat (length ops)"]) (metis length_0_conv unsigned_0)
    qed
    then show ?thesis unfolding frame_payload_def by blast
  qed
  finally show ?thesis .
qed

lemma walk_payload_decoded:
  assumes "decode_payload p = Inr ops"
  shows "walk_payload sink p s = rfold sink ops s"
proof -
  from assms obtain count c c' where "cur_u32 (cursor_new p) = Inr (count, c)" "count \<noteq> 0"
    "parse_n decode_op (unat count) c = Inr (ops, c')" "cur_is_empty c'"
    by (auto simp: decode_payload_def walk_payload_def rbind_Inr_iff walk_ops_collect)
  then show ?thesis
    by (cases "rfold sink ops s") (simp_all add: walk_payload_def walk_ops_parse)
qed

lemma walk_payload_Inr:
  assumes "walk_payload sink p s = Inr s'"
  shows "\<exists>ops. decode_payload p = Inr ops"
proof -
  from assms obtain count c c' where c: "cur_u32 (cursor_new p) = Inr (count, c)" "count \<noteq> 0"
    and w: "walk_ops sink (unat count) c s = Inr (s', c')" and e: "cur_is_empty c'"
    by (auto simp: walk_payload_def rbind_Inr_iff)
  from w walk_ops_parse_Inl obtain ops c'' where p: "parse_n decode_op (unat count) c = Inr (ops, c'')"
    by (metis Inl_Inr_False old.sum.exhaust surj_pair)
  with w have "c'' = c'" by (auto simp: walk_ops_parse rbind_Inr_iff)
  with p c e show ?thesis
    by (auto simp: decode_payload_def walk_payload_def walk_ops_parse rfold_collect)
qed

section \<open>The frame codec\<close>

definition frame_head :: "u64 \<Rightarrow> nat \<Rightarrow> bytes" where
  "frame_head seq plen = WAL_MAGIC @ u16_le WAL_FORMAT_VERSION @ [FRAME_BATCH] @ u64_le seq
     @ u32_le (word_of_nat plen)"

definition frame_image :: "digest_fn \<Rightarrow> u64 \<Rightarrow> op list \<Rightarrow> bytes" where
  "frame_image sha seq ops =
    (let b = frame_head seq (4 + ops_len ops) @ frame_payload ops in b @ checksum8 sha b)"

text \<open>The frames that can be written: at least one operation, well-typed identifiers, and
  a payload that fits its 32-bit length field.\<close>

definition frame_ok :: "op list \<Rightarrow> bool" where
  "frame_ok ops \<longleftrightarrow> ops \<noteq> [] \<and> list_all op_typed ops \<and> 4 + ops_len ops < 2 ^ 32"

lemma length_frame_head [simp]: "length (frame_head seq plen) = 19"
  by (simp add: frame_head_def)

lemma length_frame_image:
  "sha_ok sha \<Longrightarrow> length (frame_image sha seq ops) = 31 + ops_len ops"
  by (simp add: frame_image_def Let_def length_frame_payload)

lemma encode_frame_iff:
  assumes "list_all op_typed ops"
  shows "encode_frame sha seq ops = Inr fr \<longleftrightarrow> frame_ok ops \<and> fr = frame_image sha seq ops"
proof -
  have *: "n < 2 ^ 32 \<Longrightarrow> Option.bind (checked_add FRAME_HEADER_LEN n) (\<lambda>t. checked_add t 8) = Some (27 + n)" for n
    by (simp add: checked_add_def FRAME_HEADER_LEN_def)
  show ?thesis
  proof (cases "ops \<noteq> [] \<and> 4 + ops_len ops < 2 ^ 32")
    case True
    then have "payload_len_loop ops 4 = Inr (4 + ops_len ops)"
      using payload_len_loop_iff [OF assms] by auto
    moreover have "length ops < 2 ^ 32" using True length_ops_le [of ops] by linarith
    ultimately show ?thesis
      using True assms * [of "4 + ops_len ops"]
      by (auto simp: encode_frame_def frame_ok_def frame_image_def frame_head_def frame_payload_def Let_def)
  next
    case False
    then show ?thesis
      using payload_len_loop_iff [OF assms] by (auto simp: encode_frame_def frame_ok_def rbind_Inr_iff)
  qed
qed

lemma frame_payload_decode:
  "frame_ok ops \<Longrightarrow> decode_payload (frame_payload ops) = Inr ops"
  using length_ops_le [of ops] by (auto simp: decode_payload_iff frame_ok_def ops_fit_of_len)

lemma decode_payload_frame_ok:
  assumes "decode_payload p = Inr ops" and "length p < 2 ^ 32"
  shows "frame_ok ops" and "p = frame_payload ops"
  using assms by (auto simp: decode_payload_iff frame_ok_def length_frame_payload list_all_iff op_fits_typed)

text \<open>What \<^verbatim>\<open>decode_frame\<close> does on bytes that have the shape of a frame: checksum, then payload.\<close>

lemma decode_frame_parts:
  assumes "length p < 2 ^ 32" and "length ck = 8"
  shows "decode_frame sha (frame_head seq (length p) @ p @ ck @ t) =
    (if checksum8 sha (frame_head seq (length p) @ p) \<noteq> ck
     then Inl (Corrupt ''WAL frame checksum mismatch'')
     else rbind (decode_payload p) (\<lambda>ops. Inr (\<lparr>fr_seq = seq, fr_ops = ops\<rparr>, 27 + length p)))"
proof -
  define b where "b = frame_head seq (length p) @ p"
  define bs where "bs = frame_head seq (length p) @ p @ ck @ t"
  have bs: "bs = b @ ck @ t" by (simp add: bs_def b_def)
  have n: "unat (word_of_nat (length p) :: u32) = length p"
    by (rule unat_of_nat_small) (use assms(1) in simp)
  obtain c where "adv (cursor_new bs) (b @ ck) c"
    using adv_exists [of "cursor_new bs" "b @ ck" t] bs by auto
  then obtain c1 c2 c3 c4 c5 c6 where
    "adv (cursor_new bs) WAL_MAGIC c1" "adv c1 (u16_le WAL_FORMAT_VERSION) c2"
    "adv c2 [FRAME_BATCH] c3" "adv c3 (u64_le seq) c4" "adv c4 (u32_le (word_of_nat (length p))) c5"
    "adv c5 p c6" "adv c6 ck c"
    unfolding b_def frame_head_def adv_append by blast
  then have "cur_take 4 (cursor_new bs) = Inr (WAL_MAGIC, c1)" "cur_u16 c1 = Inr (WAL_FORMAT_VERSION, c2)"
    "cur_u8 c2 = Inr (FRAME_BATCH, c3)" "cur_u64 c3 = Inr (seq, c4)"
    "cur_u32 c4 = Inr (word_of_nat (length p), c5)" "cur_take (length p) c5 = Inr (p, c6)"
    "cur_take 8 c6 = Inr (ck, c)"
    using assms(2) by (simp_all add: cur_iffs)
  moreover have "take (19 + length p) bs = b" unfolding bs by (simp add: b_def)
  ultimately have "decode_frame sha bs = (if checksum8 sha b \<noteq> ck
     then Inl (Corrupt ''WAL frame checksum mismatch'')
     else rbind (decode_payload p) (\<lambda>ops. Inr (\<lparr>fr_seq = seq, fr_ops = ops\<rparr>, 27 + length p)))"
    by (simp add: decode_frame_def n Let_def FRAME_HEADER_LEN_def)
  then show ?thesis by (simp only: bs_def b_def)
qed

lemma decode_frame_image:
  assumes "sha_ok sha" and ok: "frame_ok ops"
  shows "decode_frame sha (frame_image sha seq ops @ t) = Inr (\<lparr>fr_seq = seq, fr_ops = ops\<rparr>, 31 + ops_len ops)"
proof -
  have "length (frame_payload ops) < 2 ^ 32" using ok by (simp add: frame_ok_def length_frame_payload)
  from decode_frame_parts [OF this, of "checksum8 sha (frame_head seq (4 + ops_len ops) @ frame_payload ops)" sha seq t]
  show ?thesis
    using assms(1) by (simp add: frame_image_def Let_def length_frame_payload frame_payload_decode [OF ok])
qed

lemma decode_frame_exact:
  assumes "decode_frame sha bs = Inr (f, n)"
  shows "frame_ok (fr_ops f) \<and> n = 31 + ops_len (fr_ops f)
    \<and> (\<exists>t. bs = frame_image sha (fr_seq f) (fr_ops f) @ t)"
proof -
  from assms obtain seq plen c1 c2 c3 c4 c5 c6 c7 p ck ops where
    a: "adv (cursor_new bs) WAL_MAGIC c1" "adv c1 (u16_le WAL_FORMAT_VERSION) c2"
      "adv c2 [FRAME_BATCH] c3" "adv c3 (u64_le seq) c4" "adv c4 (u32_le plen) c5"
    and p: "length p = unat plen" "adv c5 p c6" and ck: "length ck = 8" "adv c6 ck c7"
    and sum: "checksum8 sha (take (19 + unat plen) bs) = ck"
    and d: "decode_payload p = Inr ops" and f: "f = \<lparr>fr_seq = seq, fr_ops = ops\<rparr>"
    and n: "n = 19 + unat plen + 8"
    by (auto simp: decode_frame_def rbind_Inr_iff cur_iffs Let_def FRAME_HEADER_LEN_def)
  have plen: "word_of_nat (length p) = plen" using p(1) by simp
  have "length p < 2 ^ 32" using p(1) unat_less [of plen] by simp
  note ok = decode_payload_frame_ok [OF d this]
  have "adv (cursor_new bs) (frame_head seq (length p) @ p @ ck) c7"
    unfolding frame_head_def plen adv_append using a p ck by blast
  then have bs: "bs = frame_head seq (length p) @ p @ ck @ rest c7" using adv_rest by fastforce
  then have "take (19 + unat plen) bs = frame_head seq (length p) @ p" using p(1) by simp
  with sum bs have "bs = frame_image sha seq ops @ rest c7"
    using ok(2) by (simp add: frame_image_def Let_def length_frame_payload)
  then show ?thesis
    using ok f n p(1) by (auto simp: length_frame_payload)
qed

end
