(* ===== verification/WalReplay.thy ===== *)
theory WalReplay
  imports Wal
begin

text \<open>
  Replaying a log: the in-memory walk of \<^verbatim>\<open>replay_frames\<close>, and the bounded-memory
  walks over a file (\<^verbatim>\<open>valid_prefix_len\<close>, \<^verbatim>\<open>replay_reader\<close> with its chunked search
  for a later valid frame). The loops carry the position and the last sequence
  number; the callback of a streaming walk threads a state.
\<close>

section \<open>The in-memory walk\<close>

definition is_ok :: "'e + 'a \<Rightarrow> bool" where
  "is_ok r = (case r of Inl _ \<Rightarrow> False | Inr _ \<Rightarrow> True)"

definition seq_regresses :: "u64 option \<Rightarrow> u64 \<Rightarrow> bool" where
  "seq_regresses last_seq seq = (case last_seq of None \<Rightarrow> False | Some prev \<Rightarrow> seq \<le> prev)"

lemma decode_frame_len:
  "decode_frame sha bs = Inr (f, n) \<Longrightarrow> 31 \<le> n"
  by (drule decode_frame_exact) simp

function replay_loop ::
  "digest_fn \<Rightarrow> (wal_frame \<Rightarrow> 's \<Rightarrow> 's fres) \<Rightarrow> bytes \<Rightarrow> nat \<Rightarrow> u64 option \<Rightarrow> 's \<Rightarrow> ('s \<times> nat) fres" where
  "replay_loop sha f bs pos last_seq s =
    (if pos < length bs then
       case decode_frame sha (drop pos bs) of
         Inr (frame, len) \<Rightarrow>
           if seq_regresses last_seq (fr_seq frame) then Inl (Corrupt ''WAL sequence must increase'')
           else rbind (f frame s) (\<lambda>s. replay_loop sha f bs (pos + len) (Some (fr_seq frame)) s)
       | Inl _ \<Rightarrow>
           if list_ex (\<lambda>probe. is_ok (decode_frame sha (drop probe bs))) [pos + 1..<length bs]
           then Inl (Corrupt ''WAL damage with valid frames after'')
           else Inr (s, pos)
     else Inr (s, pos))"
  by pat_completeness auto
termination
  by (relation "measure (\<lambda>(sha, f, bs, pos, last_seq, s). length bs - pos)")
    (auto dest: decode_frame_len)

declare replay_loop.simps [simp del]

definition replay_frames_streaming ::
  "digest_fn \<Rightarrow> (wal_frame \<Rightarrow> 's \<Rightarrow> 's fres) \<Rightarrow> bytes \<Rightarrow> 's \<Rightarrow> ('s \<times> nat) fres" where
  "replay_frames_streaming sha f bs s = replay_loop sha f bs 0 None s"

definition replay_frames :: "digest_fn \<Rightarrow> bytes \<Rightarrow> (wal_frame list \<times> nat) fres" where
  "replay_frames sha bs = replay_frames_streaming sha (\<lambda>frame frames. Inr (frames @ [frame])) bs []"

section \<open>The walks over a file\<close>

definition read_frame_bytes :: "bytes \<Rightarrow> nat \<Rightarrow> nat \<Rightarrow> (u64 \<times> bytes) option" where
  "read_frame_bytes r pos fend =
    (if pos + FRAME_HEADER_LEN > fend then None
     else if pos + FRAME_HEADER_LEN > length r then None
     else let head = take FRAME_HEADER_LEN (drop pos r) in
       if take 4 head \<noteq> WAL_MAGIC then None
       else if le_u16 (take 2 (drop 4 head)) \<noteq> WAL_FORMAT_VERSION \<or> head ! 6 \<noteq> FRAME_BATCH then None
       else let seq = le_u64 (take 8 (drop 7 head));
                payload_len = unat (le_u32 (take 4 (drop 15 head)));
                tot = FRAME_HEADER_LEN + payload_len + 8
         in if pos + tot > fend then None
            else if pos + tot > length r then None
            else Some (seq, take tot (drop pos r)))"

definition body_checks :: "digest_fn \<Rightarrow> bytes \<Rightarrow> bool" where
  "body_checks sha body \<longleftrightarrow>
     checksum8 sha (take (length body - 8) body) = drop (length body - 8) body"

definition body_payload :: "bytes \<Rightarrow> bytes" where
  "body_payload body = take (length body - 8 - FRAME_HEADER_LEN) (drop FRAME_HEADER_LEN body)"

definition validate_frame_at :: "digest_fn \<Rightarrow> bytes \<Rightarrow> nat \<Rightarrow> nat \<Rightarrow> ((u64 \<times> nat) option) fres" where
  "validate_frame_at sha r pos fend =
    (case read_frame_bytes r pos fend of
       None \<Rightarrow> Inr None
     | Some (seq, body) \<Rightarrow>
         if \<not> body_checks sha body then Inr None
         else rbind (decode_payload (body_payload body)) (\<lambda>_. Inr (Some (seq, length body))))"

lemma read_frame_bytes_len:
  "read_frame_bytes r pos fend = Some (seq, body) \<Longrightarrow> 27 \<le> length body \<and> pos + length body \<le> length r
     \<and> pos + length body \<le> fend"
  by (auto simp: read_frame_bytes_def Let_def FRAME_HEADER_LEN_def split: if_splits)

primrec probe_loop :: "digest_fn \<Rightarrow> bytes \<Rightarrow> nat \<Rightarrow> nat list \<Rightarrow> bool fres" where
  "probe_loop sha r fend [] = Inr False"
| "probe_loop sha r fend (probe # probes) =
    rbind (validate_frame_at sha r probe fend) (\<lambda>v.
    if v \<noteq> None then Inr True else probe_loop sha r fend probes)"

lemma validate_frame_at_len:
  "validate_frame_at sha r pos fend = Inr (Some (seq, n)) \<Longrightarrow> 27 \<le> n"
  by (auto simp: validate_frame_at_def rbind_Inr_iff dest!: read_frame_bytes_len split: option.splits if_splits)

function valid_prefix_loop ::
  "digest_fn \<Rightarrow> bytes \<Rightarrow> nat \<Rightarrow> nat \<Rightarrow> u64 option \<Rightarrow> nat fres" where
  "valid_prefix_loop sha r fend pos last_seq =
    (if pos < fend then
       case validate_frame_at sha r pos fend of
         Inl e \<Rightarrow> Inl e
       | Inr (Some (seq, tot)) \<Rightarrow>
           if seq_regresses last_seq seq then Inl (Corrupt ''WAL sequence must increase'')
           else valid_prefix_loop sha r fend (pos + tot) (Some seq)
       | Inr None \<Rightarrow>
           rbind (probe_loop sha r fend [pos + 1..<fend]) (\<lambda>found.
           if found then Inl (Corrupt ''WAL damage with valid frames after'') else Inr pos)
     else Inr pos)"
  by pat_completeness auto
termination
  by (relation "measure (\<lambda>(sha, r, fend, pos, last_seq). fend - pos)")
    (auto dest: validate_frame_at_len)

declare valid_prefix_loop.simps [simp del]

definition valid_prefix_len :: "digest_fn \<Rightarrow> bytes \<Rightarrow> nat fres" where
  "valid_prefix_len sha r = valid_prefix_loop sha r (length r) 0 None"

definition CHUNK :: nat where "CHUNK = 64 * 1024"

definition cand_valid :: "digest_fn \<Rightarrow> bytes \<Rightarrow> nat \<Rightarrow> nat \<Rightarrow> bool" where
  "cand_valid sha r fend cand =
    (case read_frame_bytes r cand fend of
       None \<Rightarrow> False
     | Some (_, body) \<Rightarrow> body_checks sha body \<and> is_ok (decode_payload (body_payload body)))"

function find_valid_frame_after :: "digest_fn \<Rightarrow> bytes \<Rightarrow> nat \<Rightarrow> nat \<Rightarrow> nat option" where
  "find_valid_frame_after sha r at fend =
    (if at < fend then
       let want = min (fend - at) CHUNK in
       if want < 4 then None else
       let buf = take want (drop at r); n = length buf in
       if n < 4 then None else
       case find (\<lambda>i. take 4 (drop i buf) = WAL_MAGIC \<and> cand_valid sha r fend (at + i)) [0..<n - 3] of
         Some i \<Rightarrow> Some (at + i)
       | None \<Rightarrow> if n < want then None else find_valid_frame_after sha r (at + (want - 3)) fend
     else None)"
  by pat_completeness auto
termination
  by (relation "measure (\<lambda>(sha, r, at, fend). fend - at)") (auto simp: CHUNK_def)

declare find_valid_frame_after.simps [simp del]

function replay_reader_loop ::
  "digest_fn \<Rightarrow> (u64 \<Rightarrow> op \<Rightarrow> 's \<Rightarrow> 's fres) \<Rightarrow> bytes \<Rightarrow> nat \<Rightarrow> nat \<Rightarrow> u64 option \<Rightarrow> 's
     \<Rightarrow> ('s \<times> nat \<times> nat) fres" where
  "replay_reader_loop sha f r fend pos last_seq s =
    (if pos < fend then
       case read_frame_bytes r pos fend of
         None \<Rightarrow>
           (case find_valid_frame_after sha r pos fend of
              Some _ \<Rightarrow> Inl (Corrupt ''WAL damage with valid frames after'')
            | None \<Rightarrow> Inr (s, pos, fend))
       | Some (seq, body) \<Rightarrow>
           if \<not> body_checks sha body then
             (case find_valid_frame_after sha r pos fend of
                Some _ \<Rightarrow> Inl (Corrupt ''WAL damage with valid frames after'')
              | None \<Rightarrow> Inr (s, pos, fend))
           else if seq_regresses last_seq seq then Inl (Corrupt ''WAL sequence must increase'')
           else rbind (walk_payload (f seq) (body_payload body) s) (\<lambda>s.
                replay_reader_loop sha f r fend (pos + length body) (Some seq) s)
     else Inr (s, pos, fend))"
  by pat_completeness auto
termination
  by (relation "measure (\<lambda>(sha, f, r, fend, pos, last_seq, s). fend - pos)")
    (auto dest: read_frame_bytes_len)

declare replay_reader_loop.simps [simp del]

definition replay_reader ::
  "digest_fn \<Rightarrow> (u64 \<Rightarrow> op \<Rightarrow> 's \<Rightarrow> 's fres) \<Rightarrow> bytes \<Rightarrow> 's \<Rightarrow> ('s \<times> nat \<times> nat) fres" where
  "replay_reader sha f r s = replay_reader_loop sha f r (length r) 0 None s"

end
