(* ===== verification/WalRecovery.thy ===== *)
theory WalRecovery
  imports WalReplay
begin

text \<open>
  What recovery gets out of a log. A complete description of the in-memory
  replay (the log is a run of written frames with increasing sequence numbers
  followed by bytes in which no frame starts), its behaviour on torn appends,
  and the agreement of the bounded-memory walks with it.
\<close>

section \<open>Frames at a position\<close>

definition frame_bytes :: "digest_fn \<Rightarrow> wal_frame \<Rightarrow> bytes" where
  "frame_bytes sha f = frame_image sha (fr_seq f) (fr_ops f)"

text \<open>No frame starts anywhere in \<open>t\<close>.\<close>

definition frameless :: "digest_fn \<Rightarrow> bytes \<Rightarrow> bool" where
  "frameless sha t \<longleftrightarrow> list_all (\<lambda>i. \<not> is_ok (decode_frame sha (drop i t))) [0..<length t]"

text \<open>Every checksum-valid frame image of the file has a decodable payload.\<close>

definition payloads_decode :: "digest_fn \<Rightarrow> bytes \<Rightarrow> bool" where
  "payloads_decode sha r \<longleftrightarrow> list_all (\<lambda>pos.
     case read_frame_bytes r pos (length r) of
       None \<Rightarrow> True
     | Some (seq, body) \<Rightarrow> body_checks sha body \<longrightarrow> is_ok (decode_payload (body_payload body)))
     [0..<length r]"

fun seqs_from :: "u64 option \<Rightarrow> wal_frame list \<Rightarrow> bool" where
  "seqs_from last_seq [] = True"
| "seqs_from last_seq (f # fs) = (\<not> seq_regresses last_seq (fr_seq f) \<and> seqs_from (Some (fr_seq f)) fs)"

lemma is_ok_simps [simp]: "\<not> is_ok (Inl e)" "is_ok (Inr x)"
  by (simp_all add: is_ok_def)

lemma is_ok_iff: "is_ok r \<longleftrightarrow> (\<exists>x. r = Inr x)"
  by (cases r) simp_all

lemma frameless_iff: "frameless sha t \<longleftrightarrow> (\<forall>i < length t. \<not> is_ok (decode_frame sha (drop i t)))"
  by (auto simp: frameless_def list_all_iff)

lemma seqs_from_Some: "seqs_from (Some q) fs \<longleftrightarrow> sorted_wrt (<) (q # map fr_seq fs)"
proof (induction fs arbitrary: q)
  case (Cons f fs)
  then show ?case by (fastforce simp: seq_regresses_def)
qed simp

lemma seqs_from_None: "seqs_from None fs \<longleftrightarrow> sorted_wrt (<) (map fr_seq fs)"
  by (cases fs) (simp_all add: seqs_from_Some seq_regresses_def)

lemma decode_frame_bytes:
  "sha_ok sha \<Longrightarrow> frame_ok (fr_ops f) \<Longrightarrow>
     decode_frame sha (frame_bytes sha f @ t) = Inr (f, length (frame_bytes sha f))"
  by (simp add: frame_bytes_def decode_frame_image length_frame_image)

lemma decode_frame_ok_iff:
  assumes "sha_ok sha"
  shows "decode_frame sha bs = Inr (f, n) \<longleftrightarrow>
    frame_ok (fr_ops f) \<and> n = length (frame_bytes sha f) \<and> (\<exists>t. bs = frame_bytes sha f @ t)"
proof
  assume "decode_frame sha bs = Inr (f, n)"
  from decode_frame_exact [OF this]
  show "frame_ok (fr_ops f) \<and> n = length (frame_bytes sha f) \<and> (\<exists>t. bs = frame_bytes sha f @ t)"
    using assms by (simp add: frame_bytes_def length_frame_image)
qed (use decode_frame_bytes [OF assms] in auto)

lemma decode_frame_magic: "is_ok (decode_frame sha bs) \<Longrightarrow> take 4 bs = WAL_MAGIC \<and> 23 \<le> length bs"
proof -
  assume "is_ok (decode_frame sha bs)"
  then obtain f n where "decode_frame sha bs = Inr (f, n)" by (auto simp: is_ok_iff)
  from decode_frame_exact [OF this] obtain t where "bs = frame_image sha (fr_seq f) (fr_ops f) @ t"
    by blast
  then show ?thesis
    by (auto simp: frame_image_def frame_head_def Let_def frame_payload_def)
qed

section \<open>The in-memory walk\<close>

lemma replay_loop_complete:
  assumes "sha_ok sha" and "\<forall>g \<in> set fs. frame_ok (fr_ops g)"
    and "drop pos bs = concat (map (frame_bytes sha) fs) @ t" and "seqs_from last_seq fs"
    and "frameless sha t" and "pos \<le> length bs"
  shows "replay_loop sha f bs pos last_seq s =
    rbind (rfold f fs s) (\<lambda>s. Inr (s, pos + length (concat (map (frame_bytes sha) fs))))"
  using assms
proof (induction fs arbitrary: pos last_seq s)
  case Nil
  show ?case
  proof (cases "pos < length bs")
    case True
    then have "\<not> is_ok (decode_frame sha (drop pos bs))" 
      using Nil.prems(3,5) by (auto simp: frameless_iff dest: spec [of _ 0])
    then obtain e where e: "decode_frame sha (drop pos bs) = Inl e"
      by (cases "decode_frame sha (drop pos bs)") simp_all
    have "\<not> is_ok (decode_frame sha (drop probe bs))" if "pos < probe" "probe < length bs" for probe
    proof -
      have t: "t = drop pos bs" using Nil.prems(3) by simp
      have "drop probe bs = drop (probe - pos) t" "length t = length bs - pos"
        using that by (simp_all add: t)
      then show ?thesis using Nil.prems(5) that by (simp add: frameless_iff)
    qed
    then have "\<not> list_ex (\<lambda>probe. is_ok (decode_frame sha (drop probe bs))) [pos + 1..<length bs]"
      by (auto simp: list_ex_iff)
    with True e show ?thesis by (subst replay_loop.simps) simp
  qed (subst replay_loop.simps, simp)
next
  case (Cons g fs)
  let ?n = "length (frame_bytes sha g)"
  have d: "decode_frame sha (drop pos bs) = Inr (g, ?n)"
    using Cons.prems(1,2,3) by (simp add: decode_frame_bytes)
  have lt: "pos < length bs" using decode_frame_magic [of sha "drop pos bs"] d
    by (cases "pos < length bs") auto
  have n: "pos + ?n \<le> length bs"
  proof -
    have "length (drop pos bs) \<ge> ?n" by (simp add: Cons.prems(3))
    then show ?thesis using Cons.prems(6) by simp
  qed
  have "drop ?n (drop pos bs) = concat (map (frame_bytes sha) fs) @ t"
    unfolding Cons.prems(3) by simp
  then have dr: "drop (pos + ?n) bs = concat (map (frame_bytes sha) fs) @ t"
    by (simp add: add.commute)
  have "replay_loop sha f bs (pos + ?n) (Some (fr_seq g)) s' =
      rbind (rfold f fs s') (\<lambda>s. Inr (s, pos + ?n + length (concat (map (frame_bytes sha) fs))))" for s'
    using Cons.prems dr n by (intro Cons.IH) simp_all
  then show ?case
    using lt d Cons.prems(4) by (subst replay_loop.simps) (cases "f g s"; simp add: add.assoc)
qed

lemma replay_loop_sound:
  assumes "sha_ok sha" and "replay_loop sha f bs pos last_seq s = Inr (s', n)" and "pos \<le> length bs"
  shows "\<exists>fs t. (\<forall>g \<in> set fs. frame_ok (fr_ops g)) \<and> drop pos bs = concat (map (frame_bytes sha) fs) @ t
    \<and> seqs_from last_seq fs \<and> frameless sha t \<and> rfold f fs s = Inr s'
    \<and> n = pos + length (concat (map (frame_bytes sha) fs))"
  using assms
proof (induction sha f bs pos last_seq s rule: replay_loop.induct)
  case (1 sha f bs pos last_seq s)
  note run = "1.prems"(2) [unfolded replay_loop.simps [of sha f bs pos last_seq s]]
  show ?case
  proof (cases "pos < length bs")
    case False
    then show ?thesis using run "1.prems"(3)
      by (intro exI [of _ "[]"]) (simp add: frameless_iff)
  next
    case True
    show ?thesis
    proof (cases "decode_frame sha (drop pos bs)")
      case (Inl e)
      with True run have "\<not> list_ex (\<lambda>probe. is_ok (decode_frame sha (drop probe bs))) [pos + 1..<length bs]"
        and n: "s' = s" "n = pos"
        by auto
      then have "\<not> is_ok (decode_frame sha (drop (i + pos) bs))" if "i < length bs - pos" for i
        using that Inl by (cases i) (auto simp: list_ex_iff)
      then have "frameless sha (drop pos bs)" by (simp add: frameless_iff)
      with n show ?thesis by (intro exI [of _ "[]"] exI [of _ "drop pos bs"]) simp
    next
      case (Inr p)
      then obtain g len where d: "decode_frame sha (drop pos bs) = Inr (g, len)" by (cases p) auto
      with True run obtain s1 where reg: "\<not> seq_regresses last_seq (fr_seq g)" and s1: "f g s = Inr s1"
        and run': "replay_loop sha f bs (pos + len) (Some (fr_seq g)) s1 = Inr (s', n)"
        by (auto simp: rbind_Inr_iff)
      from d obtain t0 where g: "frame_ok (fr_ops g)" "len = length (frame_bytes sha g)"
          "drop pos bs = frame_bytes sha g @ t0"
        using decode_frame_ok_iff [OF "1.prems"(1)] by blast
      have "length (drop pos bs) \<ge> len" "drop len (drop pos bs) = t0" by (simp_all add: g(2,3))
      then have len: "pos + len \<le> length bs" and t0: "drop (pos + len) bs = t0"
        using "1.prems"(3) by (simp_all add: add.commute)
      from "1.IH" [OF True d refl reg s1 "1.prems"(1) run' len] obtain fs t where
        "\<forall>g \<in> set fs. frame_ok (fr_ops g)" "drop (pos + len) bs = concat (map (frame_bytes sha) fs) @ t"
        "seqs_from (Some (fr_seq g)) fs" "frameless sha t" "rfold f fs s1 = Inr s'"
        "n = pos + len + length (concat (map (frame_bytes sha) fs))"
        by blast
      then show ?thesis using g reg s1 t0 by (intro exI [of _ "g # fs"] exI [of _ t]) simp
    qed
  qed
qed

lemma replay_streaming_iff:
  assumes "sha_ok sha"
  shows "replay_frames_streaming sha f bs s = Inr (s', n) \<longleftrightarrow>
    (\<exists>fs t. (\<forall>g \<in> set fs. frame_ok (fr_ops g)) \<and> bs = concat (map (frame_bytes sha) fs) @ t
      \<and> sorted_wrt (<) (map fr_seq fs) \<and> frameless sha t \<and> rfold f fs s = Inr s'
      \<and> n = length (concat (map (frame_bytes sha) fs)))"
proof
  assume "replay_frames_streaming sha f bs s = Inr (s', n)"
  then show "\<exists>fs t. (\<forall>g \<in> set fs. frame_ok (fr_ops g)) \<and> bs = concat (map (frame_bytes sha) fs) @ t
      \<and> sorted_wrt (<) (map fr_seq fs) \<and> frameless sha t \<and> rfold f fs s = Inr s'
      \<and> n = length (concat (map (frame_bytes sha) fs))"
    using replay_loop_sound [OF assms, of f bs 0 None s s' n]
    by (simp add: replay_frames_streaming_def seqs_from_None)
next
  assume "\<exists>fs t. (\<forall>g \<in> set fs. frame_ok (fr_ops g)) \<and> bs = concat (map (frame_bytes sha) fs) @ t
      \<and> sorted_wrt (<) (map fr_seq fs) \<and> frameless sha t \<and> rfold f fs s = Inr s'
      \<and> n = length (concat (map (frame_bytes sha) fs))"
  then obtain fs t where h: "\<forall>g \<in> set fs. frame_ok (fr_ops g)" "bs = concat (map (frame_bytes sha) fs) @ t"
      "sorted_wrt (<) (map fr_seq fs)" "frameless sha t" "rfold f fs s = Inr s'"
      "n = length (concat (map (frame_bytes sha) fs))" by blast
  then show "replay_frames_streaming sha f bs s = Inr (s', n)"
    using replay_loop_complete [OF assms h(1), of 0 bs t None f s]
    by (simp add: replay_frames_streaming_def seqs_from_None)
qed

lemma replay_frames_spec:
  assumes "sha_ok sha"
  shows "replay_frames sha bs = Inr (fs, n) \<longleftrightarrow>
    (\<forall>g \<in> set fs. frame_ok (fr_ops g)) \<and> sorted_wrt (<) (map fr_seq fs)
    \<and> n = length (concat (map (frame_bytes sha) fs))
    \<and> take n bs = concat (map (frame_bytes sha) fs) \<and> frameless sha (drop n bs)"
  unfolding replay_frames_def replay_streaming_iff [OF assms] rfold_collect
  by (auto simp: append_eq_conv_conj) (metis append_take_drop_id)

section \<open>Torn appends\<close>

lemma frame_head_inj:
  assumes "frame_head q n @ xs = frame_head q' n' @ ys" and "n < 2 ^ 32" and "n' < 2 ^ 32"
  shows "n = n'"
proof -
  have "frame_head q n = frame_head q' n'" using assms(1) by (metis append_eq_append_conv length_frame_head)
  then have "u32_le (word_of_nat n) = u32_le (word_of_nat n')" by (simp add: frame_head_def)
  from arg_cong [OF this, of "\<lambda>b. unat (le_u32 b)"]
  have eq: "unat (word_of_nat n :: u32) = unat (word_of_nat n' :: u32)" by (simp only: le_uint_le)
  have "unat (word_of_nat n :: u32) = n" by (rule unat_of_nat_small) (use assms(2) in simp)
  moreover have "unat (word_of_nat n' :: u32) = n'" by (rule unat_of_nat_small) (use assms(3) in simp)
  ultimately show ?thesis using eq by metis
qed

text \<open>Frames are prefix-free: the header fixes the length.\<close>

lemma frame_prefix_undecodable:
  assumes "sha_ok sha" and "frame_ok (fr_ops g)" and "k < length (frame_bytes sha g)"
  shows "\<not> is_ok (decode_frame sha (take k (frame_bytes sha g)))"
proof
  assume "is_ok (decode_frame sha (take k (frame_bytes sha g)))"
  then obtain f n where "decode_frame sha (take k (frame_bytes sha g)) = Inr (f, n)"
    by (auto simp: is_ok_iff)
  then obtain t where f: "frame_ok (fr_ops f)" and t: "take k (frame_bytes sha g) = frame_bytes sha f @ t"
    using decode_frame_ok_iff [OF assms(1)] by blast
  have "frame_bytes sha g = frame_bytes sha f @ t @ drop k (frame_bytes sha g)"
    by (metis append_assoc append_take_drop_id t)
  then have "4 + ops_len (fr_ops g) = 4 + ops_len (fr_ops f)"
    by (intro frame_head_inj [of "fr_seq g" _ _ "fr_seq f"])
      (use assms(2) f in \<open>auto simp: frame_bytes_def frame_image_def Let_def frame_ok_def\<close>)
  then have "length (frame_bytes sha f) = length (frame_bytes sha g)"
    by (simp add: frame_bytes_def length_frame_image [OF assms(1)])
  moreover have "length (frame_bytes sha f) \<le> k"
    using arg_cong [OF t, of length] by simp
  ultimately show False using assms(3) by simp
qed

lemma frameless_torn:
  assumes "sha_ok sha" and "frame_ok (fr_ops g)" and k: "k < length (frame_bytes sha g)"
    and "\<forall>i. 0 < i \<and> i < k \<longrightarrow> take 4 (drop i (take k (frame_bytes sha g))) \<noteq> WAL_MAGIC"
  shows "frameless sha (take k (frame_bytes sha g))"
  unfolding frameless_iff
proof (intro allI impI)
  fix i
  assume "i < length (take k (frame_bytes sha g))"
  then show "\<not> is_ok (decode_frame sha (drop i (take k (frame_bytes sha g))))"
    using frame_prefix_undecodable [OF assms(1-3)] decode_frame_magic assms(4)
    by (cases "i = 0") auto
qed

lemma replay_damage:
  assumes "\<not> is_ok (decode_frame sha bs)" and "0 < i" and "is_ok (decode_frame sha (drop i bs))"
  shows "replay_frames sha bs = Inl (Corrupt ''WAL damage with valid frames after'')"
proof -
  have i: "i < length bs" using decode_frame_magic [OF assms(3)] by (cases "i < length bs") auto
  obtain e where "decode_frame sha bs = Inl e" using assms(1) by (cases "decode_frame sha bs") auto
  moreover have "list_ex (\<lambda>probe. is_ok (decode_frame sha (drop probe bs))) [Suc 0..<length bs]"
    using assms(2,3) i by (auto simp: list_ex_iff intro!: bexI [of _ i])
  ultimately show ?thesis
    using i unfolding replay_frames_def replay_frames_streaming_def
    by (subst replay_loop.simps) auto
qed

section \<open>Reading a frame from the file\<close>

lemma take_split: "take (n + k) (drop i bs) = take n (drop i bs) @ take k (drop (i + n) bs)"
  by (simp only: take_add drop_drop add.commute [of n i])

lemma read_frame_bytes_SomeD:
  assumes "read_frame_bytes r pos (length r) = Some (seq, body)"
  shows "\<exists>p ck t. length p < 2 ^ 32 \<and> length ck = 8 \<and> drop pos r = body @ t
    \<and> body = frame_head seq (length p) @ p @ ck"
proof -
  define bs where "bs = drop pos r"
  define w where "w = le_u32 (take 4 (drop 15 bs))"
  have hd19: "take 4 (take 19 bs) = take 4 bs" "take 2 (drop 4 (take 19 bs)) = take 2 (drop 4 bs)"
    "take 8 (drop 7 (take 19 bs)) = take 8 (drop 7 bs)" "take 4 (drop 15 (take 19 bs)) = take 4 (drop 15 bs)"
    "take 19 bs ! 6 = bs ! 6"
    by (simp_all add: take_drop)
  from assms have len: "pos + 19 + unat w + 8 \<le> length r" and magic: "take 4 bs = WAL_MAGIC"
    and ver: "le_u16 (take 2 (drop 4 bs)) = WAL_FORMAT_VERSION" and ty: "bs ! 6 = FRAME_BATCH"
    and seq: "seq = le_u64 (take 8 (drop 7 bs))" and body: "body = take (19 + unat w + 8) bs"
    by (auto simp: read_frame_bytes_def Let_def FRAME_HEADER_LEN_def hd19 w_def
        bs_def [symmetric] split: if_splits)
  have lbs: "19 + unat w + 8 \<le> length bs" using len by (simp add: bs_def)
  have "take 2 (drop 4 bs) = u16_le WAL_FORMAT_VERSION" "take 8 (drop 7 bs) = u64_le seq"
    "take 4 (drop 15 bs) = u32_le w"
    using lbs by (simp_all add: w_def seq uint_le_le flip: ver)
  moreover have "take 1 (drop 6 bs) = [FRAME_BATCH]"
    using ty lbs by (simp add: take_Suc_conv_app_nth)
  moreover have "take 19 bs = take 4 bs @ take 2 (drop 4 bs) @ take 1 (drop 6 bs) @ take 8 (drop 7 bs)
      @ take 4 (drop 15 bs)"
    using take_split [of 4 15 0 bs] take_split [of 2 13 4 bs] take_split [of 1 12 6 bs]
      take_split [of 8 4 7 bs] by simp
  ultimately have head: "take 19 bs = frame_head seq (unat w)"
    by (simp add: frame_head_def magic)
  let ?p = "take (unat w) (drop 19 bs)" and ?ck = "take 8 (drop (19 + unat w) bs)"
  have p: "length ?p = unat w" "length ?ck = 8" using lbs by simp_all
  have "body = frame_head seq (length ?p) @ ?p @ ?ck"
    using take_split [of 19 "unat w + 8" 0 bs] take_split [of "unat w" 8 19 bs] head p body
    by (simp add: add.assoc)
  moreover have "length ?p < 2 ^ 32" using p unat_less [of w] by simp
  moreover have "drop pos r = body @ drop (19 + unat w + 8) bs"
    unfolding body by (simp add: bs_def [symmetric])
  ultimately show ?thesis using p(2) by blast
qed

lemma read_frame_bytes_parts:
  assumes "length p < 2 ^ 32" and "length ck = 8"
    and "drop pos r = frame_head seq (length p) @ p @ ck @ t"
  shows "read_frame_bytes r pos (length r) = Some (seq, frame_head seq (length p) @ p @ ck)"
proof -
  let ?h = "frame_head seq (length p)"
  have n: "unat (word_of_nat (length p) :: u32) = length p"
    by (rule unat_of_nat_small) (use assms(1) in simp)
  have head: "take 4 ?h = WAL_MAGIC" "take 2 (drop 4 ?h) = u16_le WAL_FORMAT_VERSION"
    "?h ! 6 = FRAME_BATCH" "take 8 (drop 7 ?h) = u64_le seq"
    "take 4 (drop 15 ?h) = u32_le (word_of_nat (length p))"
    by (simp_all add: frame_head_def nth_append)
  have "length (drop pos r) = 27 + length p + length t" unfolding assms(3) using assms(2) by simp
  then have "pos + 27 + length p \<le> length r" by simp
  moreover have "take (19 + length p + 8) (drop pos r) = ?h @ p @ ck" "take 19 (drop pos r) = ?h"
    unfolding assms(3) using assms(2) by simp_all
  ultimately show ?thesis
    by (simp add: read_frame_bytes_def FRAME_HEADER_LEN_def Let_def head n)
qed

lemma body_parts:
  assumes "body = frame_head seq (length p) @ p @ ck" and "length ck = 8"
  shows "body_checks sha body \<longleftrightarrow> checksum8 sha (frame_head seq (length p) @ p) = ck"
    and "body_payload body = p" and "length body = 27 + length p"
  using assms by (simp_all add: body_checks_def body_payload_def FRAME_HEADER_LEN_def)

lemma decode_frame_read_None:
  assumes "sha_ok sha" and "read_frame_bytes r pos (length r) = None"
  shows "\<not> is_ok (decode_frame sha (drop pos r))"
proof
  assume "is_ok (decode_frame sha (drop pos r))"
  then obtain f n where "decode_frame sha (drop pos r) = Inr (f, n)" by (auto simp: is_ok_iff)
  from decode_frame_exact [OF this] obtain t where ok: "frame_ok (fr_ops f)"
    and t: "drop pos r = frame_image sha (fr_seq f) (fr_ops f) @ t" by blast
  let ?p = "frame_payload (fr_ops f)"
  have "length ?p < 2 ^ 32" using ok by (simp add: frame_ok_def length_frame_payload)
  from read_frame_bytes_parts [OF this, of "checksum8 sha (frame_head (fr_seq f) (length ?p) @ ?p)"]
  show False using assms t by (simp add: frame_image_def Let_def length_frame_payload)
qed

lemma decode_frame_read_Some:
  assumes "read_frame_bytes r pos (length r) = Some (seq, body)"
  shows "decode_frame sha (drop pos r) =
    (if \<not> body_checks sha body then Inl (Corrupt ''WAL frame checksum mismatch'')
     else rbind (decode_payload (body_payload body)) (\<lambda>ops. Inr (\<lparr>fr_seq = seq, fr_ops = ops\<rparr>, length body)))"
proof -
  from read_frame_bytes_SomeD [OF assms] obtain p ck t where
    p: "length p < 2 ^ 32" "length ck = 8" "drop pos r = body @ t" "body = frame_head seq (length p) @ p @ ck"
    by blast
  then show ?thesis
    using decode_frame_parts [OF p(1,2), of sha seq t] body_parts [OF p(4,2)] by simp
qed

lemma cand_valid_iff:
  assumes "sha_ok sha"
  shows "cand_valid sha r (length r) pos \<longleftrightarrow> is_ok (decode_frame sha (drop pos r))"
proof (cases "read_frame_bytes r pos (length r)")
  case None
  then show ?thesis using decode_frame_read_None [OF assms] by (simp add: cand_valid_def)
next
  case (Some a)
  then obtain seq body where "read_frame_bytes r pos (length r) = Some (seq, body)" by (cases a) auto
  then show ?thesis using decode_frame_read_Some [of r pos seq body sha]
    by (cases "decode_payload (body_payload body)") (simp_all add: cand_valid_def)
qed

section \<open>The chunked probe\<close>

lemma find_map: "find P (map g xs) = map_option g (find (\<lambda>x. P (g x)) xs)"
  by (induction xs) auto

lemma find_cong: "(\<And>x. x \<in> set xs \<Longrightarrow> P x = Q x) \<Longrightarrow> find P xs = find Q xs"
  by (induction xs) auto

lemma upt_split: "i \<le> j \<Longrightarrow> j \<le> k \<Longrightarrow> [i..<k] = [i..<j] @ [j..<k]"
  using upt_add_eq_append [of i j "k - j"] by simp

lemma map_plus_upt: "map ((+) a) [0..<n] = [a..<a + n]"
  by (rule nth_equalityI) simp_all

lemma cand_valid_bounds:
  assumes "cand_valid sha r fend cand"
  shows "take 4 (drop cand r) = WAL_MAGIC" and "cand + 19 \<le> fend"
  using assms by (auto simp: cand_valid_def read_frame_bytes_def FRAME_HEADER_LEN_def Let_def
      min_def split: option.splits if_splits)

lemma find_valid_frame_after_eq:
  "find_valid_frame_after sha r at (length r) = find (cand_valid sha r (length r)) [at..<length r]"
proof (induction sha r at "length r" rule: find_valid_frame_after.induct)
  case (1 sha r at)
  let ?V = "cand_valid sha r (length r)"
  define want where "want = min (length r - at) CHUNK"
  define buf where "buf = take want (drop at r)"
  let ?hit = "\<lambda>i. take 4 (drop i buf) = WAL_MAGIC \<and> ?V (at + i)"
  have n: "length buf = want" by (simp add: buf_def want_def)
  show ?case
  proof (cases "at < length r \<and> 4 \<le> want")
    case False
    have "\<not> ?V i" if "at \<le> i" for i
      using cand_valid_bounds(2) [of sha r "length r" i] False that
      by (auto simp: want_def min_def CHUNK_def split: if_splits)
    then have "find ?V [at..<length r] = None" by (auto simp: find_None_iff)
    then show ?thesis using False n
      by (subst find_valid_frame_after.simps) (auto simp: want_def [symmetric] Let_def)
  next
    case True
    have "find ?hit [0..<want - 3] = find (\<lambda>i. ?V (at + i)) [0..<want - 3]"
    proof (rule find_cong)
      fix i assume "i \<in> set [0..<want - 3]"
      then have "take 4 (drop i buf) = take 4 (drop (at + i) r)"
        by (simp add: buf_def drop_take add.commute)
      then show "?hit i = ?V (at + i)" using cand_valid_bounds(1) by auto
    qed
    then have chunk: "map_option ((+) at) (find ?hit [0..<want - 3]) = find ?V [at..<at + (want - 3)]"
      using find_map [of ?V "(+) at" "[0..<want - 3]"] by (simp add: map_plus_upt)
    have split: "[at..<length r] = [at..<at + (want - 3)] @ [at + (want - 3)..<length r]"
    proof (rule upt_split)
      have "want \<le> length r - at" by (simp add: want_def)
      then show "at + (want - 3) \<le> length r" using True by arith
    qed simp
    have rec: "find ?hit [0..<want - 3] = None \<Longrightarrow>
        find_valid_frame_after sha r (at + (want - 3)) (length r) = find ?V [at + (want - 3)..<length r]"
      using "1" [OF _ want_def _ buf_def refl] True n by simp
    show ?thesis
    proof (cases "find ?hit [0..<want - 3]")
      case None
      then show ?thesis
        using True n chunk rec unfolding split find_append
        by (subst find_valid_frame_after.simps) (simp add: want_def [symmetric] buf_def [symmetric] Let_def)
    next
      case (Some i)
      have "find ?V [at..<at + (want - 3)] = Some (at + i)" using chunk Some by simp
      then show ?thesis
        using True n Some unfolding split find_append
        by (subst find_valid_frame_after.simps) (simp add: want_def [symmetric] buf_def [symmetric] Let_def)
    qed
  qed
qed

lemma find_valid_frame_after_None:
  assumes "sha_ok sha"
  shows "find_valid_frame_after sha r pos (length r) = None \<longleftrightarrow>
    \<not> list_ex (\<lambda>i. is_ok (decode_frame sha (drop i r))) [pos..<length r]"
  by (auto simp: find_valid_frame_after_eq find_None_iff cand_valid_iff [OF assms] list_ex_iff)

section \<open>Agreement of the walks\<close>

lemma payloads_decodeD:
  assumes "payloads_decode sha r" and "read_frame_bytes r pos (length r) = Some (seq, body)"
    and "body_checks sha body"
  shows "\<exists>ops. decode_payload (body_payload body) = Inr ops"
proof -
  have "pos < length r" using read_frame_bytes_len [OF assms(2)] by simp
  then have "pos \<in> set [0..<length r]" by simp
  with assms show ?thesis unfolding payloads_decode_def list_all_iff by (fastforce simp: is_ok_iff)
qed

lemma list_ex_upt_Cons:
  "pos < n \<Longrightarrow> list_ex P [pos..<n] \<longleftrightarrow> P pos \<or> list_ex P [pos + 1..<n]"
  by (simp add: upt_conv_Cons)

lemma replay_reader_loop_eq:
  assumes "sha_ok sha" and "payloads_decode sha r"
  shows "replay_reader_loop sha f r (length r) pos last_seq s =
    rbind (replay_loop sha (\<lambda>fr. rfold (f (fr_seq fr)) (fr_ops fr)) r pos last_seq s)
      (\<lambda>(s, n). Inr (s, n, length r))"
  using assms
proof (induction sha f r "length r" pos last_seq s rule: replay_reader_loop.induct)
  case (1 sha f r pos last_seq s)
  let ?d = "decode_frame sha (drop pos r)"
  have tail: "(case find_valid_frame_after sha r pos (length r) of
        Some _ \<Rightarrow> Inl (Corrupt ''WAL damage with valid frames after'')
      | None \<Rightarrow> Inr (s, pos, length r)) =
      rbind (replay_loop sha (\<lambda>fr. rfold (f (fr_seq fr)) (fr_ops fr)) r pos last_seq s)
        (\<lambda>(s, n). Inr (s, n, length r))" if "pos < length r" "\<not> is_ok ?d"
  proof -
    from that obtain e where "?d = Inl e" by (cases ?d) auto
    then show ?thesis
      using that list_ex_upt_Cons [OF that(1), of "\<lambda>i. is_ok (decode_frame sha (drop i r))"]
        find_valid_frame_after_None [OF "1.prems"(1), of r pos]
      by (subst replay_loop.simps) (auto split: option.splits)
  qed
  show ?case
  proof (cases "pos < length r")
    case False
    then show ?thesis by (subst replay_reader_loop.simps, subst replay_loop.simps) simp
  next
    case True
    show ?thesis
    proof (cases "read_frame_bytes r pos (length r)")
      case None
      then show ?thesis
        using True tail decode_frame_read_None [OF "1.prems"(1) None]
        by (subst replay_reader_loop.simps) simp
    next
      case (Some a)
      then obtain seq body where rd: "read_frame_bytes r pos (length r) = Some (seq, body)" by (cases a) auto
      note d = decode_frame_read_Some [OF rd, of sha]
      show ?thesis
      proof (cases "body_checks sha body")
        case False
        then show ?thesis using True tail d rd by (subst replay_reader_loop.simps) simp
      next
        case ck: True
        then obtain ops where ops: "decode_payload (body_payload body) = Inr ops"
          using payloads_decodeD [OF "1.prems"(2) rd] by blast
        have w: "walk_payload (f seq) (body_payload body) s = rfold (f seq) ops s"
          by (rule walk_payload_decoded [OF ops])
        have IH: "\<not> seq_regresses last_seq seq \<Longrightarrow> rfold (f seq) ops s = Inr s1 \<Longrightarrow>
            replay_reader_loop sha f r (length r) (pos + length body) (Some seq) s1 =
            rbind (replay_loop sha (\<lambda>fr. rfold (f (fr_seq fr)) (fr_ops fr)) r (pos + length body) (Some seq) s1)
              (\<lambda>(s, n). Inr (s, n, length r))" for s1
          using "1.hyps" [OF True rd refl _ _ _ "1.prems"] ck w by simp
        show ?thesis
          using True ck d rd ops w IH
          by (subst replay_reader_loop.simps, subst replay_loop.simps)
            (cases "rfold (f seq) ops s"; simp)
      qed
    qed
  qed
qed

lemma validate_frame_at_eq:
  assumes "sha_ok sha" and "payloads_decode sha r"
  shows "validate_frame_at sha r pos (length r) =
    (case decode_frame sha (drop pos r) of
       Inl _ \<Rightarrow> Inr None
     | Inr (f, n) \<Rightarrow> Inr (Some (fr_seq f, n)))"
proof (cases "read_frame_bytes r pos (length r)")
  case None
  then show ?thesis using decode_frame_read_None [OF assms(1) None]
    by (cases "decode_frame sha (drop pos r)") (simp_all add: validate_frame_at_def)
next
  case (Some a)
  then obtain seq body where rd: "read_frame_bytes r pos (length r) = Some (seq, body)" by (cases a) auto
  show ?thesis
  proof (cases "body_checks sha body")
    case True
    from payloads_decodeD [OF assms(2) rd this] obtain ops where
      "decode_payload (body_payload body) = Inr ops" by blast
    then show ?thesis using True rd decode_frame_read_Some [OF rd, of sha] by (simp add: validate_frame_at_def)
  next
    case False
    then show ?thesis using rd decode_frame_read_Some [OF rd, of sha] by (simp add: validate_frame_at_def)
  qed
qed

lemma probe_loop_eq:
  assumes "sha_ok sha" and "payloads_decode sha r"
  shows "probe_loop sha r (length r) ps = Inr (list_ex (\<lambda>i. is_ok (decode_frame sha (drop i r))) ps)"
proof (induction ps)
  case (Cons p ps)
  then show ?case
    by (cases "decode_frame sha (drop p r)") (auto simp: validate_frame_at_eq [OF assms])
qed simp

lemma valid_prefix_loop_eq:
  assumes "sha_ok sha" and "payloads_decode sha r"
  shows "valid_prefix_loop sha r (length r) pos last_seq =
    rbind (replay_loop sha (\<lambda>fr frs. Inr (frs @ [fr])) r pos last_seq s) (\<lambda>(_, n). Inr n)"
  using assms
proof (induction sha r "length r" pos last_seq arbitrary: s rule: valid_prefix_loop.induct)
  case (1 sha r pos last_seq)
  show ?case
  proof (cases "pos < length r")
    case False
    then show ?thesis by (subst valid_prefix_loop.simps, subst replay_loop.simps) simp
  next
    case True
    note v = validate_frame_at_eq [OF "1.prems", of pos]
    show ?thesis
    proof (cases "decode_frame sha (drop pos r)")
      case (Inl e)
      then show ?thesis
        using True v by (subst valid_prefix_loop.simps, subst replay_loop.simps)
          (simp add: probe_loop_eq [OF "1.prems"])
    next
      case (Inr a)
      then obtain f n where d: "decode_frame sha (drop pos r) = Inr (f, n)" by (cases a) auto
      have v': "validate_frame_at sha r pos (length r) = Inr (Some (fr_seq f, n))" using v d by simp
      have IH: "\<not> seq_regresses last_seq (fr_seq f) \<Longrightarrow>
          valid_prefix_loop sha r (length r) (pos + n) (Some (fr_seq f)) =
          rbind (replay_loop sha (\<lambda>fr frs. Inr (frs @ [fr])) r (pos + n) (Some (fr_seq f)) s) (\<lambda>(_, n). Inr n)" for s
        using "1.hyps" [OF True v' refl refl _ "1.prems"] by simp
      then show ?thesis
        using True d v' by (subst valid_prefix_loop.simps, subst replay_loop.simps) simp
    qed
  qed
qed

section \<open>Properties\<close>

text \<open>
  C10. The WAL frame codec. Decoding a frame from the front of a byte string succeeds
  with the frame and its length exactly when the bytes start with the encoding of
  that frame and the frame can be encoded (some operation, a payload below
  \<open>2 ^ 32\<close> bytes). What follows the frame does not matter, and no other bytes are
  accepted.
\<close>

theorem wal_frame_codec:
  assumes "sha_ok sha"
  shows "decode_frame sha bs = Inr (f, n) \<longleftrightarrow>
    list_all op_typed (fr_ops f) \<and>
    (\<exists>fr t. encode_frame sha (fr_seq f) (fr_ops f) = Inr fr \<and> bs = fr @ t \<and> n = length fr)"
proof (cases "list_all op_typed (fr_ops f)")
  case True
  show ?thesis
    unfolding decode_frame_ok_iff [OF assms] frame_bytes_def encode_frame_iff [OF True] using True by blast
next
  case False
  then show ?thesis unfolding decode_frame_ok_iff [OF assms] frame_ok_def by blast
qed

theorem wal_frame_codec_witness:
  "sha_ok (\<lambda>b. replicate 32 (word_of_nat (length b)))
   \<and> (\<exists>fr. encode_frame (\<lambda>b. replicate 32 (word_of_nat (length b))) 7 [Put [1, 2] [3], Delete [4]] = Inr fr
       \<and> decode_frame (\<lambda>b. replicate 32 (word_of_nat (length b))) (fr @ [9, 9])
           = Inr (\<lparr>fr_seq = 7, fr_ops = [Put [1, 2] [3], Delete [4]]\<rparr>, length fr))"
proof -
  let ?sha = "\<lambda>b :: bytes. replicate 32 (word_of_nat (length b) :: byte)"
  let ?ops = "[Put [1, 2] [3], Delete [4]]"
  have ok: "sha_ok ?sha" by (simp add: sha_ok_def)
  have enc: "encode_frame ?sha 7 ?ops = Inr (frame_image ?sha 7 ?ops)"
    using encode_frame_iff [of ?ops ?sha 7] by (simp add: frame_ok_def ops_len_def)
  then have "decode_frame ?sha (frame_image ?sha 7 ?ops @ [9, 9])
      = Inr (\<lparr>fr_seq = 7, fr_ops = ?ops\<rparr>, length (frame_image ?sha 7 ?ops))"
    using wal_frame_codec [OF ok, of "frame_image ?sha 7 ?ops @ [9, 9]" "\<lparr>fr_seq = 7, fr_ops = ?ops\<rparr>"] by simp
  with ok enc show ?thesis by blast
qed

text \<open>
  A frame is written exactly when it has at least one operation and its payload
  fits the 32-bit length field; every refusal is \<^verbatim>\<open>Invalid\<close>, before any byte is
  produced, and an accepted frame has exactly the length the size pass computed.
\<close>

lemma encode_frame_total:
  assumes "list_all op_typed ops" and "sha_ok sha"
  shows "if ops \<noteq> [] \<and> 4 + ops_len ops < 2 ^ 32
    then \<exists>fr. encode_frame sha seq ops = Inr fr \<and> length fr = FRAME_HEADER_LEN + (4 + ops_len ops) + 8
    else \<exists>m. encode_frame sha seq ops = Inl (Invalid m)"
proof (cases "ops \<noteq> [] \<and> 4 + ops_len ops < 2 ^ 32")
  case True
  then show ?thesis
    using encode_frame_iff [OF assms(1), of sha seq] assms
    by (simp add: frame_ok_def length_frame_image FRAME_HEADER_LEN_def)
next
  case False
  show ?thesis
  proof (cases "payload_len_loop ops 4")
    case (Inl e)
    then show ?thesis using False payload_len_loop_Inl [OF Inl] by (auto simp: encode_frame_def)
  next
    case (Inr n)
    then have "ops = [] \<or> n = 4 + ops_len ops" using payload_len_loop_iff [OF assms(1)] by blast
    then show ?thesis using False Inr by (auto simp: encode_frame_def)
  qed
qed

text \<open>
  C7. The complete meaning of an in-memory replay. It returns the frames \<open>fs\<close> and the
  prefix length \<open>n\<close> exactly when the first \<open>n\<close> bytes are the encodings of \<open>fs\<close> one after
  another, their sequence numbers strictly increase, and no valid frame starts
  anywhere in the remaining bytes.
\<close>

theorem replay_frames_iff:
  assumes "sha_ok sha"
  shows "replay_frames sha bs = Inr (fs, n) \<longleftrightarrow>
    list_all (\<lambda>g. frame_ok (fr_ops g)) fs \<and> sorted_wrt (<) (map fr_seq fs)
    \<and> n = length (concat (map (frame_bytes sha) fs))
    \<and> take n bs = concat (map (frame_bytes sha) fs) \<and> frameless sha (drop n bs)"
  by (simp add: replay_frames_spec [OF assms] list_all_iff)

theorem replay_frames_iff_witness:
  "replay_frames (\<lambda>b. replicate 32 (word_of_nat (length b)))
     (frame_bytes (\<lambda>b. replicate 32 (word_of_nat (length b))) \<lparr>fr_seq = 4, fr_ops = [Put [1] [2]]\<rparr>
      @ frame_bytes (\<lambda>b. replicate 32 (word_of_nat (length b))) \<lparr>fr_seq = 6, fr_ops = [Delete [1]]\<rparr>)
   = Inr ([\<lparr>fr_seq = 4, fr_ops = [Put [1] [2]]\<rparr>, \<lparr>fr_seq = 6, fr_ops = [Delete [1]]\<rparr>], 79)"
  using replay_frames_iff [of "\<lambda>b. replicate 32 (word_of_nat (length b))"
      "frame_bytes (\<lambda>b. replicate 32 (word_of_nat (length b))) \<lparr>fr_seq = 4, fr_ops = [Put [1] [2]]\<rparr>
       @ frame_bytes (\<lambda>b. replicate 32 (word_of_nat (length b))) \<lparr>fr_seq = 6, fr_ops = [Delete [1]]\<rparr>"
      "[\<lparr>fr_seq = 4, fr_ops = [Put [1] [2]]\<rparr>, \<lparr>fr_seq = 6, fr_ops = [Delete [1]]\<rparr>]" 79]
  by (simp add: sha_ok_def frame_bytes_def length_frame_image frame_ok_def ops_len_def frameless_def)

text \<open>
  C11. A kill in the middle of an append costs only the frame that was being appended:
  if the log holds complete frames with increasing sequence numbers and then a
  proper prefix of the next frame in which the frame magic does not occur again,
  replay returns every complete frame and the offset at which to truncate.
\<close>

theorem torn_append_recovers:
  assumes "sha_ok sha" and "list_all (\<lambda>f. frame_ok (fr_ops f)) fs" and "sorted_wrt (<) (map fr_seq fs)"
    and "frame_ok (fr_ops g)" and "k < length (frame_bytes sha g)"
    and "\<forall>i. 0 < i \<and> i < k \<longrightarrow> take 4 (drop i (take k (frame_bytes sha g))) \<noteq> WAL_MAGIC"
  shows "replay_frames sha (concat (map (frame_bytes sha) fs) @ take k (frame_bytes sha g))
    = Inr (fs, length (concat (map (frame_bytes sha) fs)))"
  using assms frameless_torn [OF assms(1,4-6)] by (simp add: replay_frames_spec list_all_iff)

theorem torn_append_recovers_witness:
  "replay_frames (\<lambda>b. replicate 32 0)
     (frame_bytes (\<lambda>b. replicate 32 0) \<lparr>fr_seq = 4, fr_ops = [Put [1] [2]]\<rparr>
      @ take 4 (frame_bytes (\<lambda>b. replicate 32 0) \<lparr>fr_seq = 5, fr_ops = [Delete [1]]\<rparr>))
   = Inr ([\<lparr>fr_seq = 4, fr_ops = [Put [1] [2]]\<rparr>], 42)"
proof -
  let ?sha = "\<lambda>b :: bytes. replicate 32 (0 :: byte)"
  let ?g = "\<lparr>fr_seq = 5, fr_ops = [Delete [1]]\<rparr>"
  have ok: "sha_ok ?sha" by (simp add: sha_ok_def)
  have "take 4 (drop i (take 4 (frame_bytes ?sha ?g))) \<noteq> WAL_MAGIC" if "0 < i" for i
  proof
    assume "take 4 (drop i (take 4 (frame_bytes ?sha ?g))) = WAL_MAGIC"
    from arg_cong [OF this, of length] that show False by simp
  qed
  then have "\<forall>i. 0 < i \<and> i < 4 \<longrightarrow> take 4 (drop i (take 4 (frame_bytes ?sha ?g))) \<noteq> WAL_MAGIC" by blast
  from torn_append_recovers [OF ok _ _ _ _ this, of "[\<lparr>fr_seq = 4, fr_ops = [Put [1] [2]]\<rparr>]"]
  show ?thesis by (simp add: frame_bytes_def length_frame_image [OF ok] frame_ok_def ops_len_def)
qed

text \<open>
  C13. The limit of that guarantee. When the value being written is itself a frame image
  (for instance a stored copy of a log), an append killed before its last byte
  leaves a torn tail that contains a complete valid frame, and replay reports
  damage instead of a torn tail although nothing acknowledged was lost.
\<close>

theorem torn_append_with_embedded_frame:
  assumes "sha_ok sha" and "list_all op_typed ops" and "encode_frame sha q ops = Inr inner"
    and "encode_frame sha q' [Put key inner] = Inr outer"
  shows "replay_frames sha (take (length outer - 1) outer)
    = Inl (Corrupt ''WAL damage with valid frames after'')"
proof -
  let ?o = "[Put key inner]" and ?t = "take (length outer - 1) outer"
  have inner: "frame_ok ops" "inner = frame_image sha q ops"
    using assms(3) encode_frame_iff [OF assms(2)] by auto
  have outer: "frame_ok ?o" "outer = frame_image sha q' ?o"
    using assms(4) encode_frame_iff [of ?o sha q'] by auto
  define ck where "ck = checksum8 sha (frame_head q' (4 + ops_len ?o) @ frame_payload ?o)"
  define pre where "pre = frame_head q' (4 + ops_len ?o) @ u32_le 1 @ [OP_PUT] @ vec_le key
    @ u32_le (word_of_nat (length inner))"
  have o: "outer = pre @ inner @ ck"
    by (simp add: outer(2) frame_image_def Let_def frame_payload_def pre_def vec_le_def ck_def)
  have ck: "length ck = 8" using assms(1) by (simp add: ck_def)
  have "length outer - 1 = length pre + length inner + 7" by (simp add: o ck)
  then have t: "?t = pre @ inner @ take 7 ck" by (simp add: o)
  have "\<not> is_ok (decode_frame sha ?t)"
    using frame_prefix_undecodable [OF assms(1), of "\<lparr>fr_seq = q', fr_ops = ?o\<rparr>" "length outer - 1"] outer
    by (simp add: frame_bytes_def length_frame_image [OF assms(1)])
  moreover have "0 < length pre" by (simp add: pre_def)
  moreover have "is_ok (decode_frame sha (drop (length pre) ?t))"
    unfolding t by (simp add: inner(2) decode_frame_image [OF assms(1) inner(1)])
  ultimately show ?thesis by (rule replay_damage)
qed

theorem torn_append_with_embedded_frame_witness:
  "\<exists>inner outer. encode_frame (\<lambda>b. replicate 32 0) 1 [Delete [7]] = Inr inner
     \<and> encode_frame (\<lambda>b. replicate 32 0) 2 [Put [1] inner] = Inr outer
     \<and> replay_frames (\<lambda>b. replicate 32 0) (take (length outer - 1) outer)
         = Inl (Corrupt ''WAL damage with valid frames after'')"
proof -
  let ?sha = "\<lambda>b :: bytes. replicate 32 (0 :: byte)"
  let ?i = "frame_image ?sha 1 [Delete [7]]"
  have ok: "sha_ok ?sha" by (simp add: sha_ok_def)
  have i: "encode_frame ?sha 1 [Delete [7]] = Inr ?i"
    using encode_frame_iff [of "[Delete [7]]" ?sha 1] by (simp add: frame_ok_def ops_len_def)
  have o: "encode_frame ?sha 2 [Put [1] ?i] = Inr (frame_image ?sha 2 [Put [1] ?i])"
    using encode_frame_iff [of "[Put [1] ?i]" ?sha 2]
    by (simp add: frame_ok_def ops_len_def length_frame_image [OF ok])
  show ?thesis using torn_append_with_embedded_frame [OF ok _ i o] i o by auto
qed

text \<open>
  C8. The bounded-memory replay that recovery uses agrees with the in-memory replay:
  on a log whose checksum-valid frames all decode, for every callback, it makes the
  same calls in the same order, stops with the same state, prefix and error.
\<close>

theorem replay_reader_agrees:
  assumes "sha_ok sha" and "payloads_decode sha r"
  shows "replay_reader sha f r s =
    rbind (replay_frames_streaming sha (\<lambda>fr. rfold (f (fr_seq fr)) (fr_ops fr)) r s)
      (\<lambda>(s, n). Inr (s, n, length r))"
  unfolding replay_reader_def replay_frames_streaming_def by (rule replay_reader_loop_eq [OF assms])

theorem replay_reader_agrees_witness:
  "let sha = (\<lambda>b. replicate 32 (word_of_nat (length b)));
       r = frame_bytes sha \<lparr>fr_seq = 4, fr_ops = [Put [1] [2]]\<rparr> @ frame_bytes sha \<lparr>fr_seq = 6, fr_ops = [Delete [1]]\<rparr> @ [0x41, 0x4B]
   in payloads_decode sha r
     \<and> replay_reader sha (\<lambda>seq op calls. Inr (calls @ [(seq, op)])) r [] = Inr ([(4, Put [1] [2]), (6, Delete [1])], 79, 81)"
proof -
  let ?sha = "\<lambda>b :: bytes. replicate 32 (word_of_nat (length b) :: byte)"
  let ?f = "\<lparr>fr_seq = 4, fr_ops = [Put [1] [2]]\<rparr>" and ?g = "\<lparr>fr_seq = 6, fr_ops = [Delete [1]]\<rparr>"
  let ?r = "frame_bytes ?sha ?f @ frame_bytes ?sha ?g @ [0x41, 0x4B]"
  let ?c = "\<lambda>seq op calls. Inr (calls @ [(seq, op)]) :: (u64 \<times> op) list fres"
  have ok: "sha_ok ?sha" by (simp add: sha_ok_def)
  have pd: "payloads_decode ?sha ?r" by code_simp
  have "replay_frames_streaming ?sha (\<lambda>fr. rfold (?c (fr_seq fr)) (fr_ops fr)) ?r [] = Inr ([(4, Put [1] [2]), (6, Delete [1])], 79)"
    by code_simp
  moreover have "length ?r = 81" by code_simp
  ultimately show ?thesis using replay_reader_agrees [OF ok pd, of ?c "[]"] pd by (simp add: Let_def)
qed

text \<open>
  The chunked search for a later frame (64 KiB windows overlapping by three bytes,
  only offsets with the frame magic validated) gives the verdict of trying every
  offset: it returns the first offset from which a frame decodes.
\<close>

lemma find_valid_frame_after_first:
  assumes "sha_ok sha"
  shows "find_valid_frame_after sha r pos (length r) =
    find (\<lambda>i. is_ok (decode_frame sha (drop i r))) [pos..<length r]"
  unfolding find_valid_frame_after_eq by (intro find_cong) (simp add: cand_valid_iff [OF assms])

text \<open>
  \<^verbatim>\<open>valid_prefix_len\<close> computes the prefix of the in-memory replay on logs whose
  checksum-valid frames all decode.
\<close>

lemma valid_prefix_len_agrees:
  assumes "sha_ok sha" and "payloads_decode sha r"
  shows "valid_prefix_len sha r = rbind (replay_frames sha r) (\<lambda>(_, n). Inr n)"
  unfolding valid_prefix_len_def replay_frames_def replay_frames_streaming_def
  by (rule valid_prefix_loop_eq [OF assms])

text \<open>
  C14. Without that condition the two differ, against the comment that claims exactly
  the semantics of \<^verbatim>\<open>replay_frames\<close>: on a log that holds one checksum-valid frame with
  an operation byte this build does not know, \<^verbatim>\<open>valid_prefix_len\<close> fails while
  \<^verbatim>\<open>replay_frames\<close> calls the frame a torn tail.
\<close>

theorem valid_prefix_len_diverges:
  assumes "sha_ok sha"
  shows "let body = frame_head 1 5 @ u32_le 1 @ [9]; r = body @ checksum8 sha body in
    valid_prefix_len sha r = Inl (Unsupported ''WAL op byte'') \<and> replay_frames sha r = Inr ([], 0)"
proof -
  define p :: bytes where "p = u32_le 1 @ [9]"
  define ck where "ck = checksum8 sha (frame_head 1 5 @ p)"
  define r where "r = frame_head 1 (length p) @ p @ ck"
  have len: "length p = 5" "length ck = 8" "length r = 32" using assms by (simp_all add: p_def ck_def r_def)
  have dp: "decode_payload p = Inl (Unsupported ''WAL op byte'')"
  proof -
    obtain c where c: "adv (cursor_new p) (u32_le 1) c" "rest c = [9]"
      using adv_exists [of "cursor_new p" "u32_le 1" "[9]"] by (auto simp: p_def)
    obtain c' where c': "adv c [9] c'" using adv_exists [of c "[9]" "[]"] c(2) by auto
    show ?thesis
      using cur_reads(1) [OF c'] cur_reads(3) [OF c(1)]
      by (simp add: decode_payload_def walk_payload_def decode_op_def wal_tags)
  qed
  have rd: "read_frame_bytes r 0 (length r) = Some (1, r)"
    using read_frame_bytes_parts [of p ck 0 r 1 "[]"] len by (simp add: r_def)
  have bp: "body_checks sha r" "body_payload r = p"
    using body_parts [of r 1 p ck] len by (simp_all add: r_def ck_def)
  have "valid_prefix_len sha r = Inl (Unsupported ''WAL op byte'')"
    using rd bp dp len unfolding valid_prefix_len_def
    by (subst valid_prefix_loop.simps) (simp add: validate_frame_at_def)
  moreover have "replay_frames sha r = Inr ([], 0)"
  proof -
    have "\<not> is_ok (decode_frame sha (drop i r))" for i
    proof
      assume "is_ok (decode_frame sha (drop i r))"
      then obtain f n where d: "decode_frame sha (drop i r) = Inr (f, n)" by (auto simp: is_ok_iff)
      from decode_frame_exact [OF d] obtain t where ne: "fr_ops f \<noteq> []"
        and t: "drop i r = frame_image sha (fr_seq f) (fr_ops f) @ t" by (auto simp: frame_ok_def)
      have "31 + ops_len (fr_ops f) \<le> length (drop i r)"
        unfolding t by (simp add: length_frame_image [OF assms])
      have "5 \<le> ops_len ops" if "ops \<noteq> []" for ops
        using that by (cases ops; cases "hd ops") (auto simp: ops_len_def)
      from this [OF ne] \<open>31 + ops_len (fr_ops f) \<le> length (drop i r)\<close> show False
        using len(3) by simp
    qed
    then show ?thesis by (simp add: replay_frames_spec [OF assms] frameless_iff)
  qed
  moreover have "r = (frame_head 1 5 @ u32_le 1 @ [9]) @ checksum8 sha (frame_head 1 5 @ u32_le 1 @ [9])"
    by (simp add: r_def ck_def p_def)
  ultimately show ?thesis by (simp add: Let_def)
qed

theorem valid_prefix_len_diverges_witness:
  "valid_prefix_len (\<lambda>b. replicate 32 0) (frame_head 1 5 @ u32_le 1 @ [9] @ replicate 8 0)
     = Inl (Unsupported ''WAL op byte'')"
  using valid_prefix_len_diverges [of "\<lambda>b. replicate 32 0"]
  by (simp add: sha_ok_def checksum8_def Let_def)

end
