(* ===== verification/DeltaLog.thy ===== *)
theory DeltaLog
  imports Format
begin

text \<open>
  The per-generation delta logs the identity, replica and placement directories
  share: one file shape (magic, version, generation, counted fixed-width records,
  checksum), one naming scheme (\<^verbatim>\<open>STEM-{generation:06}.log\<close>) and one loader. The
  three families instantiate the functions with their magic, record codec and
  names. A directory is the list of its files in the order \<^verbatim>\<open>read_dir\<close> yields them.

  The locale \<open>record_format\<close> is the contract of a fixed-width record, \<open>exact_record_format\<close>
  that of a record with one encoding only.
\<close>

section \<open>The file shape\<close>

record 'r delta_log =
  dl_format_version :: u16
  dl_generation :: u64
  dl_records :: "'r list"

definition HEADER_LEN :: nat where "HEADER_LEN = 18"

definition delta_body :: "bytes \<Rightarrow> ('r \<Rightarrow> bytes) \<Rightarrow> 'r delta_log \<Rightarrow> bytes" where
  "delta_body magic enc log =
    magic @ u16_le (dl_format_version log) @ u64_le (dl_generation log)
    @ u32_le (word_of_nat (length (dl_records log))) @ concat (map enc (dl_records log))"

definition delta_encode :: "bytes \<Rightarrow> ('r \<Rightarrow> bytes) \<Rightarrow> digest_fn \<Rightarrow> 'r delta_log \<Rightarrow> bytes" where
  "delta_encode magic enc sha log =
    (let bs = delta_body magic enc log in bs @ checksum8 sha bs)"

definition delta_fields :: "string \<Rightarrow> bytes \<Rightarrow> nat \<Rightarrow> 'r parser \<Rightarrow> 'r delta_log parser" where
  "delta_fields fam magic reclen dec c =
    rbind (cur_take 4 c) (\<lambda>(mg, c).
    if mg \<noteq> magic then Inl (Corrupt (fam @ '' log bad magic'')) else
    rbind (cur_u16 c) (\<lambda>(format_version, c).
    if format_version \<noteq> FORMAT_VERSION then Inl (Unsupported (fam @ '' log format version'')) else
    rbind (cur_u64 c) (\<lambda>(gen, c).
    rbind (cur_u32 c) (\<lambda>(count, c).
    if unat count > remaining c div reclen
    then Inl (Corrupt (fam @ '' log record_count cannot fit'')) else
    rbind (parse_n dec (unat count) c) (\<lambda>(records, c).
    Inr (\<lparr>dl_format_version = format_version, dl_generation = gen, dl_records = records\<rparr>, c))))))"

definition delta_decode :: "string \<Rightarrow> bytes \<Rightarrow> nat \<Rightarrow> 'r parser \<Rightarrow> digest_fn \<Rightarrow> bytes \<Rightarrow> 'r delta_log fres" where
  "delta_decode fam magic reclen dec sha bs =
    rbind (delta_fields fam magic reclen dec (cursor_new bs)) (\<lambda>(log, c).
    rbind (cur_take 8 c) (\<lambda>(stored_ck, c).
    if \<not> cur_is_empty c then Inl (Corrupt (fam @ '' log trailing bytes''))
    else if checksum8 sha (take (length bs - 8) bs) \<noteq> stored_ck
    then Inl (Corrupt (fam @ '' log checksum mismatch''))
    else Inr log))"

definition delta_encoded_len :: "nat \<Rightarrow> 'r delta_log \<Rightarrow> nat" where
  "delta_encoded_len reclen log = HEADER_LEN + length (dl_records log) * reclen + 8"

section \<open>File names\<close>

function dec_digits :: "nat \<Rightarrow> string" where
  "dec_digits n = (if n < 10 then [char_of (48 + n)] else dec_digits (n div 10) @ [char_of (48 + n mod 10)])"
  by pat_completeness auto
termination by (relation "measure id") auto

declare dec_digits.simps [simp del]

definition pad6 :: "string \<Rightarrow> string" where
  "pad6 s = replicate (6 - length s) (CHR ''0'') @ s"

definition delta_log_name :: "string \<Rightarrow> u64 \<Rightarrow> string" where
  "delta_log_name stem gen = stem @ pad6 (dec_digits (unat gen)) @ ''.log''"

definition strip_prefix :: "string \<Rightarrow> string \<Rightarrow> string option" where
  "strip_prefix s p = (if take (length p) s = p then Some (drop (length p) s) else None)"

definition strip_suffix :: "string \<Rightarrow> string \<Rightarrow> string option" where
  "strip_suffix s q =
    (if length q \<le> length s \<and> drop (length s - length q) s = q then Some (take (length s - length q) s) else None)"

definition digit_val :: "char \<Rightarrow> nat option" where
  "digit_val ch = (let v = of_char ch in if 48 \<le> v \<and> v \<le> 57 then Some (v - 48) else None)"

fun digits_val :: "nat \<Rightarrow> string \<Rightarrow> nat option" where
  "digits_val acc [] = Some acc"
| "digits_val acc (ch # cs) =
    (case digit_val ch of None \<Rightarrow> None | Some d \<Rightarrow> digits_val (10 * acc + d) cs)"

text \<open>\<^verbatim>\<open>str::parse::<u64>\<close>: an optional plus sign, then digits, no overflow.\<close>

definition parse_u64 :: "string \<Rightarrow> u64 option" where
  "parse_u64 s =
    (let ds = (case s of [] \<Rightarrow> [] | ch # cs \<Rightarrow> if ch = CHR ''+'' then cs else s) in
     if ds = [] then None
     else case digits_val 0 ds of
       None \<Rightarrow> None
     | Some v \<Rightarrow> if v < 2 ^ 64 then Some (word_of_nat v) else None)"

definition log_generation :: "string \<Rightarrow> string \<Rightarrow> u64 option" where
  "log_generation name stem =
    Option.bind (strip_prefix name stem) (\<lambda>s. Option.bind (strip_suffix s ''.log'') parse_u64)"

section \<open>Loading\<close>

type_synonym directory = "(string \<times> bytes) list"

definition log_gens :: "string \<Rightarrow> directory \<Rightarrow> u64 list" where
  "log_gens stem dir = List.map_filter (\<lambda>(name, _). log_generation name stem) dir"

primrec load_gens :: "string \<Rightarrow> (bytes \<Rightarrow> 'r delta_log fres) \<Rightarrow> directory \<Rightarrow> u64 list \<Rightarrow> 'r delta_log list fres" where
  "load_gens stem decode dir [] = Inr []"
| "load_gens stem decode dir (gen # gens) =
    (case map_of dir (delta_log_name stem gen) of
       None \<Rightarrow> Inl (Io ''read log'')
     | Some bs \<Rightarrow>
         rbind (decode bs) (\<lambda>log.
         if dl_generation log \<noteq> gen then Inl (Corrupt ''log carries another generation'')
         else rbind (load_gens stem decode dir gens) (\<lambda>logs. Inr (log # logs))))"

definition load_logs :: "string \<Rightarrow> (bytes \<Rightarrow> 'r delta_log fres) \<Rightarrow> directory \<Rightarrow> u64 \<Rightarrow> 'r delta_log list fres" where
  "load_logs stem decode dir current_generation =
    load_gens stem decode dir (sort (filter (\<lambda>gen. gen \<le> current_generation) (log_gens stem dir)))"

definition orphan_logs :: "string \<Rightarrow> directory \<Rightarrow> u64 \<Rightarrow> u64 list" where
  "orphan_logs stem dir current_generation =
    sort (filter (\<lambda>gen. gen > current_generation) (log_gens stem dir))"

section \<open>The codec of a log, from the contract of its record\<close>

definition delta_ok :: "('r \<Rightarrow> bool) \<Rightarrow> 'r delta_log \<Rightarrow> bool" where
  "delta_ok valid log \<longleftrightarrow> dl_format_version log = FORMAT_VERSION \<and> length (dl_records log) < 2 ^ 32
     \<and> list_all valid (dl_records log)"

locale record_format = reader enc dec valid
  for enc :: "'r \<Rightarrow> bytes" and dec :: "'r parser" and valid :: "'r \<Rightarrow> bool" +
  fixes magic :: bytes and reclen :: nat
  assumes enc_width: "valid r \<Longrightarrow> length (enc r) = reclen" and reclen_pos: "0 < reclen"
    and magic_width: "length magic = 4"
begin

lemma delta_fields_body:
  assumes ok: "delta_ok valid log" and c: "adv c (delta_body magic enc log) c'"
  shows "delta_fields fam magic reclen dec c = Inr (log, c')"
proof -
  let ?rs = "dl_records log"
  from c obtain c1 c2 c3 c4 where
    a: "adv c magic c1" "adv c1 (u16_le (dl_format_version log)) c2" "adv c2 (u64_le (dl_generation log)) c3"
      "adv c3 (u32_le (word_of_nat (length ?rs))) c4" and b: "adv c4 (concat (map enc ?rs)) c'"
    unfolding delta_body_def adv_append by blast
  have v: "\<forall>r \<in> set ?rs. valid r" and len: "length ?rs < 2 ^ 32" and fv: "dl_format_version log = FORMAT_VERSION"
    using ok by (simp_all add: delta_ok_def list_all_iff)
  have n: "unat (word_of_nat (length ?rs) :: u32) = length ?rs"
    by (rule unat_of_nat_small) (use len in simp)
  have "remaining c4 \<ge> reclen * length ?rs"
    using adv_remaining [OF b] length_concat_const [of ?rs enc reclen] enc_width v by simp
  then have "\<not> remaining c4 div reclen < length ?rs" using count_fits reclen_pos by blast
  moreover have "cur_take 4 c = Inr (magic, c1)" using a(1) magic_width by (simp add: cur_take_iff)
  ultimately show ?thesis
    using cur_reads(2) [OF a(2)] cur_reads(4) [OF a(3)] cur_reads(3) [OF a(4)] parse_n_enc [OF v b] fv n
    by (simp add: delta_fields_def)
qed

lemma delta_decode_encode:
  assumes "sha_ok sha" and ok: "delta_ok valid log"
  shows "delta_decode fam magic reclen dec sha (delta_encode magic enc sha log) = Inr log"
proof -
  let ?body = "delta_body magic enc log" and ?chk = "checksum8 sha (delta_body magic enc log)"
  let ?bs = "?body @ ?chk"
  obtain c where c: "adv (cursor_new ?bs) ?body c" "rest c = ?chk"
    using adv_exists [of "cursor_new ?bs" ?body ?chk] by auto
  obtain c' where c': "adv c ?chk c'" "rest c' = []"
    using adv_exists [of c ?chk "[]"] c(2) by auto
  have "cur_take 8 c = Inr (?chk, c')" using c'(1) assms(1) by (simp add: cur_take_iff)
  moreover have "cur_is_empty c'" using c'(2) by (simp add: cur_is_empty_def remaining_rest)
  ultimately show ?thesis
    using delta_fields_body [OF ok c(1)] assms(1)
    by (simp add: delta_decode_def delta_encode_def Let_def)
qed

lemma delta_encoded_length:
  assumes "sha_ok sha" and "delta_ok valid log"
  shows "length (delta_encode magic enc sha log) = delta_encoded_len reclen log"
  using assms length_concat_const [of "dl_records log" enc reclen] enc_width magic_width
  by (simp add: delta_encode_def delta_body_def Let_def delta_encoded_len_def HEADER_LEN_def delta_ok_def list_all_iff)

end

locale exact_record_format = record_format + codec enc dec valid
begin

lemma delta_decode_exact:
  assumes "delta_decode fam magic reclen dec sha bs = Inr log"
  shows "delta_ok valid log \<and> bs = delta_encode magic enc sha log"
proof -
  from assms obtain c chk c' where f: "delta_fields fam magic reclen dec (cursor_new bs) = Inr (log, c)"
    and t: "length chk = 8" "adv c chk c'" and e: "rest c' = []"
    and k: "checksum8 sha (take (length bs - 8) bs) = chk"
    by (auto simp: delta_decode_def rbind_Inr_iff cur_take_iff cur_is_empty_def remaining_rest)
  have lt: "unat (w :: u32) < 4294967296" for w using unat_less [of w] by simp
  have ok: "delta_ok valid log \<and> adv (cursor_new bs) (delta_body magic enc log) c"
    using f unfolding delta_fields_def delta_body_def adv_append delta_ok_def
    by (clarsimp simp: rbind_Inr_iff cur_iffs parse_n_iff lt list_all_iff) blast
  then have bs: "bs = delta_body magic enc log @ chk" using adv_all [of bs] t(2) e by blast
  with k t(1) have "checksum8 sha (delta_body magic enc log) = chk" by simp
  then show ?thesis using ok bs by (simp add: delta_encode_def Let_def)
qed

lemma delta_decode_iff:
  assumes "sha_ok sha"
  shows "delta_decode fam magic reclen dec sha bs = Inr log \<longleftrightarrow> delta_ok valid log \<and> bs = delta_encode magic enc sha log"
  using delta_decode_exact delta_decode_encode [OF assms] by blast

end

section \<open>Names and loading\<close>

lemma digit_val_char: "d < 10 \<Longrightarrow> digit_val (char_of (48 + d)) = Some d"
  by (simp add: digit_val_def Let_def of_char_of)

lemma digits_val_append:
  "digits_val acc (xs @ ys) = Option.bind (digits_val acc xs) (\<lambda>a. digits_val a ys)"
  by (induction acc xs rule: digits_val.induct) (auto split: option.splits)

lemma digits_val_dec: "digits_val 0 (dec_digits n) = Some n"
proof (induction n rule: dec_digits.induct)
  case (1 n)
  show ?case
  proof (cases "n < 10")
    case True
    then show ?thesis by (subst dec_digits.simps) (simp add: digit_val_char)
  next
    case False
    then show ?thesis using 1
      by (subst dec_digits.simps) (simp add: digits_val_append digit_val_char)
  qed
qed

lemma digits_val_pad: "digits_val 0 (replicate k (CHR ''0'') @ s) = digits_val 0 s"
  by (induction k) (simp_all add: digit_val_def)

lemma digit_not_plus:
  assumes "(d :: nat) < 10"
  shows "char_of (48 + d) \<noteq> CHR ''+''"
proof
  assume "char_of (48 + d) = CHR ''+''"
  then have "digit_val (CHR ''+'') = Some d" using digit_val_char [OF assms] by (simp only:)
  then show False by (simp add: digit_val_def)
qed

lemma dec_digits_hd: "\<exists>ch cs. dec_digits n = ch # cs \<and> ch \<noteq> CHR ''+''"
proof (induction n rule: dec_digits.induct)
  case (1 n)
  show ?case
  proof (cases "n < 10")
    case True
    then show ?thesis by (subst dec_digits.simps) (simp add: digit_not_plus)
  next
    case False
    then obtain ch cs where "dec_digits (n div 10) = ch # cs" "ch \<noteq> CHR ''+''" using 1 by blast
    then show ?thesis using False by (subst dec_digits.simps) simp
  qed
qed

lemma pad6_hd: "\<exists>ch cs. pad6 (dec_digits n) = ch # cs \<and> ch \<noteq> CHR ''+''"
proof (cases "6 - length (dec_digits n)")
  case 0
  then show ?thesis using dec_digits_hd by (simp add: pad6_def)
next
  case (Suc k)
  then have "pad6 (dec_digits n) = CHR ''0'' # replicate k (CHR ''0'') @ dec_digits n"
    by (simp add: pad6_def)
  then show ?thesis by simp
qed

lemma parse_u64_pad6: "parse_u64 (pad6 (dec_digits (unat g))) = Some g"
proof -
  obtain ch cs where d: "pad6 (dec_digits (unat g)) = ch # cs" "ch \<noteq> CHR ''+''"
    using pad6_hd by blast
  moreover have "digits_val 0 (pad6 (dec_digits (unat g))) = Some (unat g)"
    by (simp add: pad6_def digits_val_pad digits_val_dec)
  ultimately show ?thesis using unat_less [of g] by (simp add: parse_u64_def)
qed

lemma log_generation_name: "log_generation (delta_log_name stem g) stem = Some g"
  by (simp add: log_generation_def delta_log_name_def strip_prefix_def strip_suffix_def parse_u64_pad6)

lemma delta_log_name_inj: "delta_log_name stem g = delta_log_name stem g' \<Longrightarrow> g = g'"
  by (metis log_generation_name option.inject)

lemma load_gens_map:
  assumes "\<forall>g \<in> set gens. map_of dir (delta_log_name stem g) = Some (b g) \<and> decode (b g) = Inr (L g)
    \<and> dl_generation (L g) = g"
  shows "load_gens stem decode dir gens = Inr (map L gens)"
  using assms by (induction gens) auto

text \<open>
  A directory that holds, among other files, exactly the given logs of a family: under
  their canonical names, with no other file whose name parses as one of the family.
\<close>

definition holds_logs :: "string \<Rightarrow> ('r delta_log \<Rightarrow> bytes) \<Rightarrow> directory \<Rightarrow> 'r delta_log list \<Rightarrow> bool" where
  "holds_logs stem encode dir logs \<longleftrightarrow> distinct (map fst dir)
     \<and> set (filter (\<lambda>(name, _). log_generation name stem \<noteq> None) dir)
         = set (map (\<lambda>l. (delta_log_name stem (dl_generation l), encode l)) logs)"

lemma log_gens_eq: "log_gens stem dir = map (\<lambda>(name, _). the (log_generation name stem))
    (filter (\<lambda>(name, _). log_generation name stem \<noteq> None) dir)"
  by (simp add: log_gens_def map_filter_def case_prod_unfold comp_def)

lemma log_gens_holds:
  assumes "holds_logs stem encode dir logs"
  shows "set (log_gens stem dir) = dl_generation ` set logs" and "distinct (log_gens stem dir)"
proof -
  let ?fam = "filter (\<lambda>(name, _). log_generation name stem \<noteq> None) dir"
  have fam: "set ?fam = (\<lambda>l. (delta_log_name stem (dl_generation l), encode l)) ` set logs"
    and d: "distinct (map fst dir)"
    using assms by (simp_all add: holds_logs_def)
  show "set (log_gens stem dir) = dl_generation ` set logs"
    unfolding log_gens_eq set_map fam by (simp add: image_image log_generation_name)
  have canon: "fst p = delta_log_name stem (the (log_generation (fst p) stem))" if "p \<in> set ?fam" for p
    using that unfolding fam by (auto simp: log_generation_name)
  have inj: "inj_on (\<lambda>p. the (log_generation (fst p) stem)) (set ?fam)"
  proof (rule inj_onI)
    fix p q assume p: "p \<in> set ?fam" and q: "q \<in> set ?fam"
      and "the (log_generation (fst p) stem) = the (log_generation (fst q) stem)"
    then have "fst p = fst q" using canon [OF p] canon [OF q] by simp
    moreover have "p \<in> set dir" "q \<in> set dir" using p q by simp_all
    ultimately show "p = q" using d by (metis distinct_map inj_onD)
  qed
  have "distinct ?fam" using d by (simp add: distinct_map)
  with inj show "distinct (log_gens stem dir)"
    unfolding log_gens_eq by (simp add: distinct_map case_prod_unfold)
qed

lemma load_logs_holds:
  assumes h: "holds_logs stem encode dir logs" and dec: "\<forall>l \<in> set logs. decode (encode l) = Inr l"
    and s: "sorted_wrt (<) (map dl_generation logs)"
  shows "load_logs stem decode dir cur = Inr (filter (\<lambda>l. dl_generation l \<le> cur) logs)"
proof -
  let ?keep = "filter (\<lambda>l. dl_generation l \<le> cur) logs"
  let ?gens = "sort (filter (\<lambda>gen. gen \<le> cur) (log_gens stem dir))"
  have sg: "sorted_wrt (<) (map dl_generation ?keep)" using s by (induction logs) auto
  have "set ?gens = set (map dl_generation ?keep)" using log_gens_holds(1) [OF h] by auto
  moreover have "sorted ?gens" "distinct ?gens" using log_gens_holds(2) [OF h] by simp_all
  moreover have "sorted (map dl_generation ?keep)" "distinct (map dl_generation ?keep)"
    using sg strict_sorted_iff by blast+
  ultimately have gens: "?gens = map dl_generation ?keep" by (metis sorted_distinct_set_unique)
  define L where "L g = the (map_of (map (\<lambda>l. (dl_generation l, l)) logs) g)" for g
  have dk: "distinct (map fst (map (\<lambda>l. (dl_generation l, l)) logs))"
    using s by (simp add: comp_def strict_sorted_iff)
  have L: "L (dl_generation l) = l" if "l \<in> set logs" for l
    using map_of_is_SomeI [OF dk, of "dl_generation l" l] that by (simp add: L_def)
  have "map_of dir (delta_log_name stem (dl_generation l)) = Some (encode l)" if "l \<in> set logs" for l
  proof -
    have "(delta_log_name stem (dl_generation l), encode l) \<in> set dir"
      using h that by (auto simp: holds_logs_def set_eq_iff)
    then show ?thesis using h by (simp add: holds_logs_def)
  qed
  then have "load_gens stem decode dir ?gens = Inr (map L ?gens)"
    unfolding gens using dec L by (intro load_gens_map [where b = "\<lambda>g. encode (L g)"]) auto
  moreover have "map L ?gens = ?keep" unfolding gens map_map by (rule map_idI) (simp add: L)
  ultimately show ?thesis by (simp add: load_logs_def)
qed

end
