(* ===== verification/Identity.thy ===== *)
theory Identity
  imports DeltaLog Ids
begin

text \<open>
  The identity and replica directories: the delta logs of \<^verbatim>\<open>identity/directory.rs\<close> and
  the merge rules of \<^verbatim>\<open>db.rs\<close> that fold log records and replayed operations into the
  in-memory maps. A \<^verbatim>\<open>HashMap\<close> is a map. The locale \<open>merge_gate\<close> is the contract of a
  merge rule that makes crash-window double application harmless; it is
  interpreted here for both directories and for placements in the placement theory.
\<close>

section \<open>Records and logs\<close>

definition IDENTITY_MAGIC :: bytes where "IDENTITY_MAGIC = [0x41, 0x4B, 0x49, 0x44]"
definition REPLICA_MAGIC :: bytes where "REPLICA_MAGIC = [0x41, 0x4B, 0x52, 0x50]"
definition IDENTITY_RECORD_LEN :: nat where "IDENTITY_RECORD_LEN = 24"
definition REPLICA_RECORD_LEN :: nat where "REPLICA_RECORD_LEN = 24"

record identity_record =
  ir_oid :: object_id
  ir_lid :: logical_id

record replica_record =
  rr_lid :: logical_id
  rr_node :: node_id
  rr_rid :: replica_id

type_synonym identity_log = "identity_record delta_log"
type_synonym replica_log = "replica_record delta_log"

definition identity_record_encode :: "identity_record \<Rightarrow> bytes" where
  "identity_record_encode r = oid_bytes (ir_oid r) @ lid_to_bytes (ir_lid r)"

definition identity_record_decode :: "identity_record parser" where
  "identity_record_decode c =
    rbind (cur_oid c) (\<lambda>(oid, c). rbind (cur_lid c) (\<lambda>(lid, c).
    Inr (\<lparr>ir_oid = oid, ir_lid = lid\<rparr>, c)))"

definition replica_record_encode :: "replica_record \<Rightarrow> bytes" where
  "replica_record_encode r = lid_to_bytes (rr_lid r) @ nid_to_bytes (rr_node r) @ rid_to_bytes (rr_rid r)"

definition replica_record_decode :: "replica_record parser" where
  "replica_record_decode c =
    rbind (cur_lid c) (\<lambda>(lid, c). rbind (cur_nid c) (\<lambda>(node, c). rbind (cur_rid c) (\<lambda>(rid, c).
    Inr (\<lparr>rr_lid = lid, rr_node = node, rr_rid = rid\<rparr>, c))))"

definition IdentityLog_encode :: "digest_fn \<Rightarrow> identity_log \<Rightarrow> bytes" where
  "IdentityLog_encode = delta_encode IDENTITY_MAGIC identity_record_encode"

definition IdentityLog_decode :: "digest_fn \<Rightarrow> bytes \<Rightarrow> identity_log fres" where
  "IdentityLog_decode = delta_decode ''identity'' IDENTITY_MAGIC IDENTITY_RECORD_LEN identity_record_decode"

definition IdentityLog_encoded_len :: "identity_log \<Rightarrow> nat" where
  "IdentityLog_encoded_len = delta_encoded_len IDENTITY_RECORD_LEN"

definition ReplicaLog_encode :: "digest_fn \<Rightarrow> replica_log \<Rightarrow> bytes" where
  "ReplicaLog_encode = delta_encode REPLICA_MAGIC replica_record_encode"

definition ReplicaLog_decode :: "digest_fn \<Rightarrow> bytes \<Rightarrow> replica_log fres" where
  "ReplicaLog_decode = delta_decode ''replica'' REPLICA_MAGIC REPLICA_RECORD_LEN replica_record_decode"

definition ReplicaLog_encoded_len :: "replica_log \<Rightarrow> nat" where
  "ReplicaLog_encoded_len = delta_encoded_len REPLICA_RECORD_LEN"

definition identity_log_path :: "u64 \<Rightarrow> string" where
  "identity_log_path = delta_log_name ''IDENTITY-''"

definition replica_log_path :: "u64 \<Rightarrow> string" where
  "replica_log_path = delta_log_name ''REPLICA-''"

definition identity_log_generation :: "string \<Rightarrow> u64 option" where
  "identity_log_generation name = log_generation name ''IDENTITY-''"

definition replica_log_generation :: "string \<Rightarrow> u64 option" where
  "replica_log_generation name = log_generation name ''REPLICA-''"

definition load_identity_logs :: "digest_fn \<Rightarrow> directory \<Rightarrow> u64 \<Rightarrow> identity_log list fres" where
  "load_identity_logs sha = load_logs ''IDENTITY-'' (IdentityLog_decode sha)"

definition load_replica_logs :: "digest_fn \<Rightarrow> directory \<Rightarrow> u64 \<Rightarrow> replica_log list fres" where
  "load_replica_logs sha = load_logs ''REPLICA-'' (ReplicaLog_decode sha)"

definition orphan_identity_logs :: "directory \<Rightarrow> u64 \<Rightarrow> u64 list" where
  "orphan_identity_logs = orphan_logs ''IDENTITY-''"

definition orphan_replica_logs :: "directory \<Rightarrow> u64 \<Rightarrow> u64 list" where
  "orphan_replica_logs = orphan_logs ''REPLICA-''"

section \<open>Merging\<close>

definition merge_identity ::
  "object_id \<times> logical_id \<Rightarrow> (object_id \<rightharpoonup> logical_id) \<Rightarrow> (object_id \<rightharpoonup> logical_id) fres" where
  "merge_identity = (\<lambda>(oid, lid) identity.
    case identity oid of
      Some l \<Rightarrow> if l = lid then Inr identity
                else Inl (Corrupt ''identity directory: ObjectId maps to both'')
    | None \<Rightarrow> Inr (identity(oid \<mapsto> lid)))"

definition merge_replica ::
  "logical_id \<times> node_id \<times> replica_id \<Rightarrow> (logical_id \<rightharpoonup> replica_id) \<Rightarrow> (logical_id \<rightharpoonup> replica_id) fres" where
  "merge_replica = (\<lambda>(lid, node, rid) replicas.
    if node \<noteq> LOCAL_NODE_ID then Inl (Corrupt ''replica directory: record names another node'')
    else case replicas lid of
      Some r \<Rightarrow> if r = rid then Inr replicas
                else Inl (Corrupt ''replica directory: LogicalId maps to both'')
    | None \<Rightarrow> Inr (replicas(lid \<mapsto> rid)))"

section \<open>The contract of a merge rule\<close>

locale merge_gate =
  fixes merge :: "'r \<Rightarrow> 'm \<Rightarrow> 'm fres"
  assumes merge_absorbed: "merge r m = Inr m' \<Longrightarrow> merge r m' = Inr m'"
    and absorbed_stays: "merge r m = Inr m \<Longrightarrow> merge q m = Inr m' \<Longrightarrow> merge r m' = Inr m'"
begin

lemma absorbed_rfold:
  "merge r m = Inr m \<Longrightarrow> rfold merge qs m = Inr m' \<Longrightarrow> merge r m' = Inr m'"
  using rfold_invariant [of merge qs m m' "\<lambda>m. merge r m = Inr m"] absorbed_stays by blast

lemma rfold_absorbs:
  assumes "rfold merge rs m = Inr m'" and "r \<in> set rs"
  shows "merge r m' = Inr m'"
proof -
  obtain xs ys where "rs = xs @ r # ys" using split_list [OF assms(2)] by blast
  with assms(1) obtain m1 m2 where "merge r m1 = Inr m2" "rfold merge ys m2 = Inr m'"
    by (auto simp: rfold_append rbind_Inr_iff)
  then show ?thesis using merge_absorbed absorbed_rfold by blast
qed

lemma rfold_again:
  assumes "rfold merge rs m = Inr m'" and "set qs \<subseteq> set rs"
  shows "rfold merge qs m' = Inr m'"
  using assms(2) by (induction qs) (simp_all add: rfold_absorbs [OF assms(1)])

end

lemma upd_same_iff:
  "m(k \<mapsto> v) = m \<longleftrightarrow> m k = Some v"
  "m = m(k \<mapsto> v) \<longleftrightarrow> m k = Some v"
  by (metis fun_upd_same fun_upd_triv)+

lemma merge_identity_absorbed: "merge_identity (oid, lid) m = Inr m \<longleftrightarrow> m oid = Some lid"
  by (auto simp: merge_identity_def upd_same_iff split: option.splits)

lemma merge_replica_absorbed:
  "merge_replica (lid, node, rid) m = Inr m \<longleftrightarrow> node = LOCAL_NODE_ID \<and> m lid = Some rid"
  by (auto simp: merge_replica_def upd_same_iff split: option.splits)

interpretation identity_gate: merge_gate merge_identity
proof (unfold_locales, goal_cases)
  case (1 r m m')
  then show ?case
    by (cases r) (auto simp: merge_identity_absorbed merge_identity_def split: option.splits if_splits)
next
  case (2 r m q m')
  then show ?case
    by (cases r; cases q) (auto simp: merge_identity_absorbed, auto simp: merge_identity_def split: option.splits if_splits)
qed

interpretation replica_gate: merge_gate merge_replica
proof (unfold_locales, goal_cases)
  case (1 r m m')
  then show ?case
    by (cases r) (auto simp: merge_replica_absorbed merge_replica_def split: option.splits if_splits)
next
  case (2 r m q m')
  then show ?case
    by (cases r; cases q) (auto simp: merge_replica_absorbed, auto simp: merge_replica_def split: option.splits if_splits)
qed

section \<open>Codec and loading facts\<close>

definition identity_record_ok :: "identity_record \<Rightarrow> bool" where
  "identity_record_ok r \<longleftrightarrow> oid_ok (ir_oid r)"

lemma identity_record_decode_iff:
  "identity_record_decode c = Inr (r, c') \<longleftrightarrow> identity_record_ok r \<and> adv c (identity_record_encode r) c'"
  by (cases r) (auto simp: identity_record_decode_def identity_record_encode_def identity_record_ok_def
      rbind_Inr_iff cur_id_iff adv_append)

lemma replica_record_decode_iff:
  "replica_record_decode c = Inr (r, c') \<longleftrightarrow> adv c (replica_record_encode r) c'"
  by (cases r) (auto simp: replica_record_decode_def replica_record_encode_def
      rbind_Inr_iff cur_id_iff adv_append)

interpretation identity_format: exact_record_format identity_record_encode identity_record_decode
  identity_record_ok IDENTITY_MAGIC IDENTITY_RECORD_LEN
  by unfold_locales (simp_all add: identity_record_decode_iff identity_record_encode_def identity_record_ok_def
      oid_ok_def IDENTITY_RECORD_LEN_def IDENTITY_MAGIC_def)

interpretation replica_format: exact_record_format replica_record_encode replica_record_decode
  "\<lambda>_. True" REPLICA_MAGIC REPLICA_RECORD_LEN
  by unfold_locales (simp_all add: replica_record_decode_iff replica_record_encode_def
      REPLICA_RECORD_LEN_def REPLICA_MAGIC_def)

lemma merge_identity_lookup:
  assumes "rfold merge_identity rs m = Inr m'"
  shows "m' oid = Some lid \<longleftrightarrow> m oid = Some lid \<or> (oid, lid) \<in> set rs"
  using assms
proof (induction rs arbitrary: m)
  case (Cons r rs)
  obtain o' l' where r: "r = (o', l')" by (cases r)
  from Cons.prems obtain m1 where m1: "merge_identity (o', l') m = Inr m1" "rfold merge_identity rs m1 = Inr m'"
    by (auto simp: r rbind_Inr_iff)
  then have "m1 = m(o' \<mapsto> l')" "m o' = None \<or> m o' = Some l'"
    by (auto simp: merge_identity_def split: option.splits if_splits)
  then show ?case using Cons.IH [OF m1(2)] by (auto simp: r)
qed simp

section \<open>Properties\<close>

text \<open>
  C19. The identity and replica log codecs are bijections between well-formed logs and the
  byte strings their decoders accept, and the size estimate used by the checkpoint
  trigger is the exact encoded length.
\<close>

theorem directory_log_codecs:
  assumes "sha_ok sha"
  shows "(IdentityLog_decode sha bs = Inr ilog \<longleftrightarrow>
      delta_ok identity_record_ok ilog \<and> bs = IdentityLog_encode sha ilog)
    \<and> (ReplicaLog_decode sha bs = Inr rlog \<longleftrightarrow> delta_ok (\<lambda>_. True) rlog \<and> bs = ReplicaLog_encode sha rlog)
    \<and> (delta_ok identity_record_ok ilog \<longrightarrow> length (IdentityLog_encode sha ilog) = IdentityLog_encoded_len ilog)
    \<and> (delta_ok (\<lambda>_. True) rlog \<longrightarrow> length (ReplicaLog_encode sha rlog) = ReplicaLog_encoded_len rlog)"
  unfolding IdentityLog_decode_def IdentityLog_encode_def ReplicaLog_decode_def ReplicaLog_encode_def
    IdentityLog_encoded_len_def ReplicaLog_encoded_len_def
  using identity_format.delta_decode_iff [OF assms] replica_format.delta_decode_iff [OF assms]
    identity_format.delta_encoded_length [OF assms] replica_format.delta_encoded_length [OF assms]
  by auto

theorem directory_log_codecs_witness:
  "IdentityLog_decode (\<lambda>b. replicate 32 0)
     (IdentityLog_encode (\<lambda>b. replicate 32 0) \<lparr>dl_format_version = 1, dl_generation = 3,
        dl_records = [\<lparr>ir_oid = ObjectId (replicate 16 7), ir_lid = LogicalId 5\<rparr>]\<rparr>)
   = Inr \<lparr>dl_format_version = 1, dl_generation = 3,
        dl_records = [\<lparr>ir_oid = ObjectId (replicate 16 7), ir_lid = LogicalId 5\<rparr>]\<rparr>
   \<and> length (ReplicaLog_encode (\<lambda>b. replicate 32 0) \<lparr>dl_format_version = 1, dl_generation = 3,
        dl_records = [\<lparr>rr_lid = LogicalId 5, rr_node = NodeId 1, rr_rid = ReplicaId 9\<rparr>]\<rparr>) = 50"
proof -
  let ?sha = "\<lambda>b :: bytes. replicate 32 (0 :: byte)"
  let ?i = "\<lparr>dl_format_version = 1, dl_generation = 3,
        dl_records = [\<lparr>ir_oid = ObjectId (replicate 16 7), ir_lid = LogicalId 5\<rparr>]\<rparr>"
  let ?r = "\<lparr>dl_format_version = 1, dl_generation = 3,
        dl_records = [\<lparr>rr_lid = LogicalId 5, rr_node = NodeId 1, rr_rid = ReplicaId 9\<rparr>]\<rparr>"
  have "sha_ok ?sha" by (simp add: sha_ok_def)
  from directory_log_codecs [OF this, of "IdentityLog_encode ?sha ?i" ?i ?r] show ?thesis
    by (simp add: delta_ok_def identity_record_ok_def oid_ok_def FORMAT_VERSION_def
        ReplicaLog_encoded_len_def delta_encoded_len_def HEADER_LEN_def REPLICA_RECORD_LEN_def)
qed

text \<open>
  Loading returns what was published: from a directory that holds the logs of a run
  of generations under their names (among unrelated files, in any listing order),
  exactly the logs at or below CURRENT's generation come back, oldest first.
\<close>

lemma identity_logs_reload:
  assumes "sha_ok sha" and "holds_logs ''IDENTITY-'' (IdentityLog_encode sha) dir logs"
    and "list_all (delta_ok identity_record_ok) logs" and "sorted_wrt (<) (map dl_generation logs)"
  shows "load_identity_logs sha dir cur = Inr (filter (\<lambda>l. dl_generation l \<le> cur) logs)"
  unfolding load_identity_logs_def
proof (rule load_logs_holds [OF assms(2) _ assms(4)])
  show "\<forall>l \<in> set logs. IdentityLog_decode sha (IdentityLog_encode sha l) = Inr l"
    using assms(3) identity_format.delta_decode_encode [OF assms(1)]
    by (auto simp: list_all_iff IdentityLog_decode_def IdentityLog_encode_def)
qed

text \<open>
  Crash-window double application is absorbed, conflicts are not: once a run of
  identity (replica) records has merged, merging any part of it again changes
  nothing; the merged map holds exactly the old bindings and the records, so a
  binding never changes.
\<close>

lemma identity_merge_absorbs:
  assumes "rfold merge_identity rs m = Inr m'" and "set qs \<subseteq> set rs"
    and "rfold merge_replica xs r = Inr r'" and "set ys \<subseteq> set xs"
  shows "rfold merge_identity qs m' = Inr m' \<and> rfold merge_replica ys r' = Inr r'
    \<and> (m' oid = Some lid \<longleftrightarrow> m oid = Some lid \<or> (oid, lid) \<in> set rs)"
  using identity_gate.rfold_again [OF assms(1,2)] replica_gate.rfold_again [OF assms(3,4)]
    merge_identity_lookup [OF assms(1)] by simp

end
