(* ===== verification/Placement.thy ===== *)
theory Placement
  imports Identity
begin

text \<open>
  The placement directory of \<^verbatim>\<open>placement/directory.rs\<close>: placements, the one generation
  gate every apply path goes through, the placement delta logs, and recovery of the
  directory from them.
\<close>

section \<open>Placements\<close>

datatype segment_id = SegmentId (sid_u64: u64)
datatype block_id = BlockId (bid_u32: u32)

definition sid_to_bytes :: "segment_id \<Rightarrow> bytes" where "sid_to_bytes s = u64_le (sid_u64 s)"
definition bid_to_bytes :: "block_id \<Rightarrow> bytes" where "bid_to_bytes b = u32_le (bid_u32 b)"
definition sid_from_bytes :: "bytes \<Rightarrow> segment_id" where "sid_from_bytes b = SegmentId (le_u64 b)"
definition bid_from_bytes :: "bytes \<Rightarrow> block_id" where "bid_from_bytes b = BlockId (le_u32 b)"

record physical_location =
  pl_segment_id :: segment_id
  pl_block_id :: block_id
  pl_entry_offset :: u32
  pl_generation :: u64

datatype placement =
    InMemtable u64
  | InSegment physical_location
  | Retired u64

fun placement_generation :: "placement \<Rightarrow> u64" where
  "placement_generation (InMemtable g) = g"
| "placement_generation (InSegment loc) = pl_generation loc"
| "placement_generation (Retired g) = g"

record placement_record =
  pr_rid :: replica_id
  pr_placement :: placement

datatype apply_outcome = Applied | Duplicate | StaleRecord

definition merge_placement ::
  "replica_id \<Rightarrow> placement \<Rightarrow> (replica_id \<rightharpoonup> placement) \<Rightarrow> ((replica_id \<rightharpoonup> placement) \<times> apply_outcome) fres" where
  "merge_placement rid p placements =
    (let incoming = placement_generation p in
     case placements rid of
       None \<Rightarrow> Inr (placements(rid \<mapsto> p), Applied)
     | Some existing \<Rightarrow>
         if placement_generation existing > incoming then Inr (placements, StaleRecord)
         else if existing = p then Inr (placements, Duplicate)
         else if placement_generation existing < incoming then Inr (placements(rid \<mapsto> p), Applied)
         else Inl (Corrupt ''placement changed at the same generation''))"

definition validate_segment_location ::
  "physical_location \<Rightarrow> u64 set \<Rightarrow> u32 option \<Rightarrow> unit fres" where
  "validate_segment_location loc manifest_segment_ids block_entries =
    (if sid_u64 (pl_segment_id loc) \<notin> manifest_segment_ids
     then Inl (Corrupt ''placement references segment absent from the manifest'')
     else case block_entries of
       None \<Rightarrow> Inl (Corrupt ''placement block past segment's blocks'')
     | Some entries \<Rightarrow>
         if pl_entry_offset loc \<ge> entries then Inl (Corrupt ''placement entry past block's entries'')
         else Inr ())"

section \<open>Placement logs\<close>

definition PLACEMENT_MAGIC :: bytes where "PLACEMENT_MAGIC = [0x41, 0x4B, 0x50, 0x4C]"
definition PLACEMENT_RECORD_LEN :: nat where "PLACEMENT_RECORD_LEN = 33"
definition VARIANT_MEMTABLE :: byte where "VARIANT_MEMTABLE = 1"
definition VARIANT_SEGMENT :: byte where "VARIANT_SEGMENT = 2"
definition VARIANT_RETIRED :: byte where "VARIANT_RETIRED = 3"

type_synonym placement_log = "placement_record delta_log"

fun placement_encode :: "placement \<Rightarrow> bytes" where
  "placement_encode (InMemtable g) = [VARIANT_MEMTABLE] @ replicate 16 0 @ u64_le g"
| "placement_encode (InSegment loc) =
    [VARIANT_SEGMENT] @ sid_to_bytes (pl_segment_id loc) @ bid_to_bytes (pl_block_id loc)
    @ u32_le (pl_entry_offset loc) @ u64_le (pl_generation loc)"
| "placement_encode (Retired g) = [VARIANT_RETIRED] @ replicate 16 0 @ u64_le g"

definition placement_record_encode :: "placement_record \<Rightarrow> bytes" where
  "placement_record_encode r = rid_to_bytes (pr_rid r) @ placement_encode (pr_placement r)"

definition placement_record_decode :: "placement_record parser" where
  "placement_record_decode c =
    rbind (cur_rid c) (\<lambda>(rid, c).
    rbind (cur_u8 c) (\<lambda>(variant, c).
    if variant = VARIANT_MEMTABLE then
      rbind (cur_take 16 c) (\<lambda>(_, c). rbind (cur_u64 c) (\<lambda>(gen, c).
      Inr (\<lparr>pr_rid = rid, pr_placement = InMemtable gen\<rparr>, c)))
    else if variant = VARIANT_SEGMENT then
      rbind (cur_take 8 c) (\<lambda>(s, c). rbind (cur_take 4 c) (\<lambda>(b, c).
      rbind (cur_u32 c) (\<lambda>(entry_offset, c). rbind (cur_u64 c) (\<lambda>(gen, c).
      Inr (\<lparr>pr_rid = rid, pr_placement = InSegment \<lparr>pl_segment_id = sid_from_bytes s,
            pl_block_id = bid_from_bytes b, pl_entry_offset = entry_offset, pl_generation = gen\<rparr>\<rparr>, c)))))
    else if variant = VARIANT_RETIRED then
      rbind (cur_take 16 c) (\<lambda>(_, c). rbind (cur_u64 c) (\<lambda>(gen, c).
      Inr (\<lparr>pr_rid = rid, pr_placement = Retired gen\<rparr>, c)))
    else Inl (Unsupported ''placement variant byte'')))"

definition PlacementLog_encode :: "digest_fn \<Rightarrow> placement_log \<Rightarrow> bytes" where
  "PlacementLog_encode = delta_encode PLACEMENT_MAGIC placement_record_encode"

definition PlacementLog_decode :: "digest_fn \<Rightarrow> bytes \<Rightarrow> placement_log fres" where
  "PlacementLog_decode = delta_decode ''placement'' PLACEMENT_MAGIC PLACEMENT_RECORD_LEN placement_record_decode"

definition PlacementLog_encoded_len :: "placement_log \<Rightarrow> nat" where
  "PlacementLog_encoded_len = delta_encoded_len PLACEMENT_RECORD_LEN"

definition placement_log_path :: "u64 \<Rightarrow> string" where
  "placement_log_path = delta_log_name ''PLACEMENT-''"

definition placement_log_generation :: "string \<Rightarrow> u64 option" where
  "placement_log_generation name = log_generation name ''PLACEMENT-''"

definition load_placement_logs :: "digest_fn \<Rightarrow> directory \<Rightarrow> u64 \<Rightarrow> placement_log list fres" where
  "load_placement_logs sha = load_logs ''PLACEMENT-'' (PlacementLog_decode sha)"

definition orphan_placement_logs :: "directory \<Rightarrow> u64 \<Rightarrow> u64 list" where
  "orphan_placement_logs = orphan_logs ''PLACEMENT-''"

definition orphan_placement_max_generation :: "digest_fn \<Rightarrow> directory \<Rightarrow> u64 \<Rightarrow> u64" where
  "orphan_placement_max_generation sha dir current_generation =
    fold (\<lambda>gen mx.
      case map_of dir (placement_log_path gen) of
        None \<Rightarrow> mx
      | Some bs \<Rightarrow>
          (case PlacementLog_decode sha bs of
             Inl _ \<Rightarrow> mx
           | Inr log \<Rightarrow> fold (\<lambda>rec mx. max mx (placement_generation (pr_placement rec))) (dl_records log) mx))
      (orphan_placement_logs dir current_generation) 0"

section \<open>The directory\<close>

type_synonym placements = "replica_id \<rightharpoonup> placement"

definition placement_apply :: "placement_record \<Rightarrow> placements \<Rightarrow> (placements \<times> apply_outcome) fres" where
  "placement_apply rec ps = merge_placement (pr_rid rec) (pr_placement rec) ps"

definition merge_placement_rec :: "placement_record \<Rightarrow> placements \<Rightarrow> placements fres" where
  "merge_placement_rec rec ps = rbind (placement_apply rec ps) (\<lambda>(ps, _). Inr ps)"

fun validate_placements :: "(physical_location \<Rightarrow> unit fres) \<Rightarrow> placement list \<Rightarrow> unit fres" where
  "validate_placements validate [] = Inr ()"
| "validate_placements validate (InSegment loc # ps) =
    rbind (validate loc) (\<lambda>_. validate_placements validate ps)"
| "validate_placements validate (p # ps) = validate_placements validate ps"

text \<open>\<open>iter\<close> is the iteration order of the hash map's values, which the standard library
  leaves open.\<close>

definition PlacementDirectory_recover ::
  "digest_fn \<Rightarrow> (placements \<Rightarrow> placement list) \<Rightarrow> directory \<Rightarrow> u64 \<Rightarrow> (physical_location \<Rightarrow> unit fres)
     \<Rightarrow> placements fres" where
  "PlacementDirectory_recover sha iter dir current_generation validate =
    rbind (load_placement_logs sha dir current_generation) (\<lambda>logs.
    rbind (rfold merge_placement_rec (concat (map dl_records logs)) Map.empty) (\<lambda>ps.
    rbind (validate_placements validate (iter ps)) (\<lambda>_. Inr ps)))"

section \<open>The log codec\<close>

lemma cur_take4_iff: "cur_take 4 c = Inr (b, c') \<longleftrightarrow> (\<exists>w. b = u32_le w \<and> adv c (u32_le w) c')"
  by (metis cur_take_iff length_uint_le(2) uint_le_le(2))

lemma placement_record_decode_encode:
  assumes "adv c (placement_record_encode r) c'"
  shows "placement_record_decode c = Inr (r, c')"
proof -
  obtain c1 where c1: "adv c (rid_to_bytes (pr_rid r)) c1" "adv c1 (placement_encode (pr_placement r)) c'"
    using assms by (auto simp: placement_record_encode_def adv_append)
  show ?thesis
  proof (cases "pr_placement r")
    case (InSegment loc)
    with c1(2) obtain c2 c3 c4 c5 where "adv c1 [VARIANT_SEGMENT] c2" "adv c2 (sid_to_bytes (pl_segment_id loc)) c3"
      "adv c3 (bid_to_bytes (pl_block_id loc)) c4" "adv c4 (u32_le (pl_entry_offset loc)) c5"
      "adv c5 (u64_le (pl_generation loc)) c'"
      unfolding InSegment placement_encode.simps adv_append by blast
    then have "cur_u8 c1 = Inr (VARIANT_SEGMENT, c2)" "cur_take 8 c2 = Inr (sid_to_bytes (pl_segment_id loc), c3)"
      "cur_take 4 c3 = Inr (bid_to_bytes (pl_block_id loc), c4)" "cur_u32 c4 = Inr (pl_entry_offset loc, c5)"
      "cur_u64 c5 = Inr (pl_generation loc, c')"
      by (simp_all add: cur_iffs sid_to_bytes_def bid_to_bytes_def)
    then show ?thesis
      using InSegment c1(1) by (cases r; cases loc)
        (simp add: placement_record_decode_def cur_id_reads VARIANT_SEGMENT_def VARIANT_MEMTABLE_def
          sid_from_bytes_def bid_from_bytes_def sid_to_bytes_def bid_to_bytes_def)
  next
    case (InMemtable g)
    with c1(2) obtain c2 c3 where "adv c1 [VARIANT_MEMTABLE] c2" "adv c2 (replicate 16 0) c3" "adv c3 (u64_le g) c'"
      unfolding InMemtable placement_encode.simps adv_append by blast
    then have "cur_u8 c1 = Inr (VARIANT_MEMTABLE, c2)" "cur_take 16 c2 = Inr (replicate 16 0, c3)"
      "cur_u64 c3 = Inr (g, c')"
      by (simp_all add: cur_iffs)
    then show ?thesis
      using InMemtable c1(1) by (cases r) (simp add: placement_record_decode_def cur_id_reads)
  next
    case (Retired g)
    with c1(2) obtain c2 c3 where "adv c1 [VARIANT_RETIRED] c2" "adv c2 (replicate 16 0) c3" "adv c3 (u64_le g) c'"
      unfolding Retired placement_encode.simps adv_append by blast
    then have "cur_u8 c1 = Inr (VARIANT_RETIRED, c2)" "cur_take 16 c2 = Inr (replicate 16 0, c3)"
      "cur_u64 c3 = Inr (g, c')"
      by (simp_all add: cur_iffs)
    then show ?thesis
      using Retired c1(1) by (cases r)
        (simp add: placement_record_decode_def cur_id_reads VARIANT_SEGMENT_def VARIANT_MEMTABLE_def VARIANT_RETIRED_def)
  qed
qed

lemma length_placement_encode: "length (placement_encode p) = 25"
  by (cases p) (simp_all add: sid_to_bytes_def bid_to_bytes_def)

interpretation placement_format: record_format placement_record_encode placement_record_decode
  "\<lambda>_. True" PLACEMENT_MAGIC PLACEMENT_RECORD_LEN
  by unfold_locales (simp_all add: placement_record_decode_encode placement_record_encode_def
      length_placement_encode PLACEMENT_RECORD_LEN_def PLACEMENT_MAGIC_def)

section \<open>The generation gate\<close>

lemma merge_placement_rec_cases:
  "merge_placement_rec rec m = Inr m' \<longleftrightarrow>
    (case m (pr_rid rec) of
       None \<Rightarrow> m' = m(pr_rid rec \<mapsto> pr_placement rec)
     | Some q \<Rightarrow> if placement_generation q < placement_generation (pr_placement rec)
         then m' = m(pr_rid rec \<mapsto> pr_placement rec)
         else m' = m \<and> (q = pr_placement rec \<or> placement_generation (pr_placement rec) < placement_generation q))"
  by (auto simp: merge_placement_rec_def placement_apply_def merge_placement_def Let_def rbind_Inr_iff
      split: option.splits if_splits)

lemma merge_placement_absorbed:
  "merge_placement_rec rec m = Inr m \<longleftrightarrow> (\<exists>q. m (pr_rid rec) = Some q
    \<and> (q = pr_placement rec \<or> placement_generation (pr_placement rec) < placement_generation q))"
  by (auto simp: merge_placement_rec_cases upd_same_iff split: option.splits)

interpretation placement_gate: merge_gate merge_placement_rec
proof (unfold_locales, goal_cases)
  case (1 r m m')
  then show ?case
    by (auto simp: merge_placement_absorbed) (auto simp: merge_placement_rec_cases split: option.splits if_splits)
next
  case (2 r m q m')
  then show ?case
    by (auto simp: merge_placement_absorbed)
      (auto simp: merge_placement_rec_cases split: option.splits if_splits dest: less_trans)
qed

definition placement_cands :: "placements \<Rightarrow> placement_record list \<Rightarrow> replica_id \<Rightarrow> placement set" where
  "placement_cands m recs rid = {p. m rid = Some p} \<union> {pr_placement r |r. r \<in> set recs \<and> pr_rid r = rid}"

lemma merge_placements_newest:
  assumes "rfold merge_placement_rec recs m = Inr m'"
  shows "(case m' rid of
      None \<Rightarrow> placement_cands m recs rid = {}
    | Some p \<Rightarrow> p \<in> placement_cands m recs rid
        \<and> (\<forall>q \<in> placement_cands m recs rid. placement_generation q \<le> placement_generation p))"
  using assms
proof (induction recs arbitrary: m)
  case Nil
  then show ?case by (auto simp: placement_cands_def split: option.splits)
next
  case (Cons r recs)
  then obtain m1 where m1: "merge_placement_rec r m = Inr m1" "rfold merge_placement_rec recs m1 = Inr m'"
    by (auto simp: rbind_Inr_iff)
  show ?case
  proof (cases "pr_rid r = rid")
    case False
    then have "m1 rid = m rid" using m1(1) by (auto simp: merge_placement_rec_cases split: option.splits if_splits)
    then have "placement_cands m (r # recs) rid = placement_cands m1 recs rid"
      using False by (auto simp: placement_cands_def)
    then show ?thesis using Cons.IH [OF m1(2)] by (simp only:)
  next
    case True
    obtain p1 where p1: "m1 rid = Some p1" "p1 \<in> placement_cands m (r # recs) rid"
      "\<And>q. m rid = Some q \<Longrightarrow> placement_generation q \<le> placement_generation p1"
      "placement_generation (pr_placement r) \<le> placement_generation p1"
      using m1(1) True
      by (auto simp: merge_placement_rec_cases placement_cands_def less_imp_le split: option.splits if_splits)
    have sub: "placement_cands m1 recs rid \<subseteq> placement_cands m (r # recs) rid"
      using p1(1,2) by (auto simp: placement_cands_def)
    obtain p where p: "m' rid = Some p" "p \<in> placement_cands m1 recs rid"
      "\<forall>q \<in> placement_cands m1 recs rid. placement_generation q \<le> placement_generation p"
      using Cons.IH [OF m1(2)] p1(1) by (cases "m' rid") (auto simp: placement_cands_def)
    have "placement_generation p1 \<le> placement_generation p" using p(3) p1(1) by (auto simp: placement_cands_def)
    then have "placement_generation q \<le> placement_generation p" if "q \<in> placement_cands m (r # recs) rid" for q
      using that p(3) p1(3,4) True order_trans by (fastforce simp: placement_cands_def)
    then show ?thesis using p sub by auto
  qed
qed

lemma validate_placements_iff:
  "validate_placements validate ps = Inr () \<longleftrightarrow> (\<forall>loc. InSegment loc \<in> set ps \<longrightarrow> validate loc = Inr ())"
  by (induction validate ps rule: validate_placements.induct) (auto simp: rbind_Inr_iff)

lemma fold_max_ge: "(mx :: 'b::linorder) \<le> fold (\<lambda>x mx. max mx (f x)) xs mx"
  by (induction xs arbitrary: mx) (auto intro: order_trans [OF max.cobounded1])

lemma fold_max_mem: "x \<in> set xs \<Longrightarrow> f x \<le> fold (\<lambda>x mx. max mx (f x)) xs (mx :: 'b::linorder)"
  by (induction xs arbitrary: mx) (auto intro: order_trans [OF max.cobounded2] order_trans [OF _ fold_max_ge])

section \<open>Properties\<close>

text \<open>
  C17. The generation gate keeps the newest placement: when a run of placement records has
  merged into a directory, every replica is placed where the record (or the old
  entry) with the highest generation puts it, whatever the order of the run, and a
  replica has a placement iff some record or old entry names it.
\<close>

theorem placement_gate_newest:
  assumes "rfold merge_placement_rec recs m = Inr m'"
  shows "(case m' rid of
      None \<Rightarrow> placement_cands m recs rid = {}
    | Some p \<Rightarrow> p \<in> placement_cands m recs rid
        \<and> (\<forall>q \<in> placement_cands m recs rid. placement_generation q \<le> placement_generation p))"
  by (rule merge_placements_newest [OF assms])

theorem placement_gate_newest_witness:
  "rfold merge_placement_rec [\<lparr>pr_rid = ReplicaId 1, pr_placement = Retired 9\<rparr>,
      \<lparr>pr_rid = ReplicaId 1, pr_placement = InMemtable 4\<rparr>] Map.empty = Inr [ReplicaId 1 \<mapsto> Retired 9]
   \<and> Retired 9 \<in> placement_cands Map.empty [\<lparr>pr_rid = ReplicaId 1, pr_placement = Retired 9\<rparr>,
      \<lparr>pr_rid = ReplicaId 1, pr_placement = InMemtable 4\<rparr>] (ReplicaId 1)"
proof -
  have run: "rfold merge_placement_rec [\<lparr>pr_rid = ReplicaId 1, pr_placement = Retired 9\<rparr>,
      \<lparr>pr_rid = ReplicaId 1, pr_placement = InMemtable 4\<rparr>] Map.empty = Inr [ReplicaId 1 \<mapsto> Retired 9]"
    by (simp add: merge_placement_rec_def placement_apply_def merge_placement_def)
  from placement_gate_newest [OF run, of "ReplicaId 1"] run show ?thesis by simp
qed

text \<open>
  The outcome of merging does not depend on the order in which records arrive: two
  runs over the same records that both succeed end in the same directory.
\<close>

lemma placement_order_independent:
  assumes "rfold merge_placement_rec recs m = Inr m1" and "rfold merge_placement_rec recs' m = Inr m2"
    and "set recs = set recs'"
  shows "m1 = m2"
proof
  fix rid
  have cands: "placement_cands m recs rid = placement_cands m recs' rid"
    using assms(3) by (simp add: placement_cands_def)
  note n1 = merge_placements_newest [OF assms(1), of rid] and n2 = merge_placements_newest [OF assms(2), of rid]
  show "m1 rid = m2 rid"
  proof (cases "m1 rid")
    case None
    then show ?thesis using n1 n2 cands by (auto split: option.splits)
  next
    case (Some p)
    then obtain p2 where p2: "m2 rid = Some p2" using n1 n2 cands by (auto split: option.splits)
    have mem: "p2 \<in> placement_cands m recs rid" and gen: "placement_generation p2 = placement_generation p"
      using n1 n2 Some p2 cands by (auto simp: antisym)
    have "p2 = p"
    proof (cases "m rid = Some p2")
      case True
      have "placement_generation q \<le> placement_generation p2" if "q \<in> placement_cands m recs rid" for q
        using n1 Some that gen by auto
      moreover have "m1 rid = Some p2"
      proof -
        have "m1 rid = Some p2" if "rfold merge_placement_rec rs m0 = Inr m1" "m0 rid = Some p2"
          "\<forall>r \<in> set rs. pr_rid r = rid \<longrightarrow> placement_generation (pr_placement r) \<le> placement_generation p2" for rs m0
          using that
        proof (induction rs arbitrary: m0)
          case (Cons r rs)
          then show ?case
            by (cases "pr_rid r = rid")
              (force simp: rbind_Inr_iff merge_placement_rec_cases split: option.splits if_splits)+
        qed simp
        from this [OF assms(1) True] show ?thesis using calculation by (auto simp: placement_cands_def)
      qed
      ultimately show ?thesis using Some by simp
    next
      case False
      then obtain r where r: "r \<in> set recs" "pr_rid r = rid" "pr_placement r = p2"
        using mem by (auto simp: placement_cands_def)
      from placement_gate.rfold_absorbs [OF assms(1) r(1)] show ?thesis
        using r(2,3) Some gen by (auto simp: merge_placement_absorbed)
    qed
    then show ?thesis using Some p2 by simp
  qed
qed

text \<open>
  Records that arrive twice (from a log and again from the replayed write-ahead log)
  are absorbed by the gate.
\<close>

lemma placement_replay_absorbed:
  assumes "rfold merge_placement_rec recs m = Inr m'" and "set again \<subseteq> set recs"
  shows "rfold merge_placement_rec again m' = Inr m'"
  by (rule placement_gate.rfold_again [OF assms])

text \<open>
  Placement logs read back: every log of this format version with fewer than
  \<open>2 ^ 32\<close> records decodes to itself, in the length the size estimate gives.
\<close>

lemma placement_log_roundtrip:
  assumes "sha_ok sha" and "dl_format_version log = FORMAT_VERSION" and "length (dl_records log) < 2 ^ 32"
  shows "PlacementLog_decode sha (PlacementLog_encode sha log) = Inr log
    \<and> length (PlacementLog_encode sha log) = PlacementLog_encoded_len log"
proof -
  have "delta_ok (\<lambda>_. True) log" using assms(2,3) by (simp add: delta_ok_def list_all_iff)
  then show ?thesis
    using placement_format.delta_decode_encode [OF assms(1)] placement_format.delta_encoded_length [OF assms(1)]
    by (simp add: PlacementLog_decode_def PlacementLog_encode_def PlacementLog_encoded_len_def)
qed

text \<open>
  C18. Recovery of the placement directory: from the logs a directory holds, it succeeds
  with exactly the merged directory of the logs at or below CURRENT's generation,
  provided every surviving segment placement passes the validator. Records that a
  newer one superseded are not validated, and logs past CURRENT are not read.
\<close>

theorem placement_recover_iff:
  assumes "sha_ok sha" and "holds_logs ''PLACEMENT-'' (PlacementLog_encode sha) dir logs"
    and "list_all (delta_ok (\<lambda>_. True)) logs" and "sorted_wrt (<) (map dl_generation logs)"
    and "set (iter ps) = ran ps"
  shows "PlacementDirectory_recover sha iter dir cur validate = Inr ps \<longleftrightarrow>
    rfold merge_placement_rec (concat (map dl_records (filter (\<lambda>l. dl_generation l \<le> cur) logs))) Map.empty = Inr ps
    \<and> (\<forall>rid loc. ps rid = Some (InSegment loc) \<longrightarrow> validate loc = Inr ())"
proof -
  have "load_placement_logs sha dir cur = Inr (filter (\<lambda>l. dl_generation l \<le> cur) logs)"
    unfolding load_placement_logs_def
  proof (rule load_logs_holds [OF assms(2) _ assms(4)])
    show "\<forall>l \<in> set logs. PlacementLog_decode sha (PlacementLog_encode sha l) = Inr l"
      using assms(3) placement_format.delta_decode_encode [OF assms(1)]
      by (auto simp: list_all_iff PlacementLog_decode_def PlacementLog_encode_def)
  qed
  then show ?thesis
    using assms(5) by (auto simp: PlacementDirectory_recover_def rbind_Inr_iff validate_placements_iff ran_def)
qed

theorem placement_recover_iff_witness:
  "PlacementDirectory_recover (\<lambda>b. replicate 32 0) (\<lambda>_. [Retired 9])
     [(placement_log_path 8, PlacementLog_encode (\<lambda>b. replicate 32 0)
         \<lparr>dl_format_version = 1, dl_generation = 8, dl_records = [\<lparr>pr_rid = ReplicaId 1, pr_placement = Retired 9\<rparr>]\<rparr>)]
     8 (\<lambda>_. Inr ()) = Inr [ReplicaId 1 \<mapsto> Retired 9]"
proof -
  let ?sha = "\<lambda>b :: bytes. replicate 32 (0 :: byte)"
  let ?l = "\<lparr>dl_format_version = 1, dl_generation = 8, dl_records = [\<lparr>pr_rid = ReplicaId 1, pr_placement = Retired 9\<rparr>]\<rparr>"
  let ?dir = "[(placement_log_path 8, PlacementLog_encode ?sha ?l)]"
  have ok: "sha_ok ?sha" by (simp add: sha_ok_def)
  have h: "holds_logs ''PLACEMENT-'' (PlacementLog_encode ?sha) ?dir [?l]"
    by (simp add: holds_logs_def placement_log_path_def log_generation_name)
  show ?thesis
    using placement_recover_iff [OF ok h, of "\<lambda>_. [Retired 9]" "[ReplicaId 1 \<mapsto> Retired 9]" 8 "\<lambda>_. Inr ()"]
    by (simp add: delta_ok_def FORMAT_VERSION_def merge_placement_rec_def placement_apply_def merge_placement_def)
qed

text \<open>
  Generations in logs past CURRENT are never handed out again: the allocator's seed
  is at least the generation of every record of every decodable orphan log.
\<close>

lemma orphan_max_covers:
  assumes "g \<in> set (orphan_placement_logs dir cur)" and "map_of dir (placement_log_path g) = Some bs"
    and "PlacementLog_decode sha bs = Inr log" and "rec \<in> set (dl_records log)"
  shows "placement_generation (pr_placement rec) \<le> orphan_placement_max_generation sha dir cur"
proof -
  let ?step = "\<lambda>gen mx. case map_of dir (placement_log_path gen) of
        None \<Rightarrow> mx
      | Some bs \<Rightarrow> (case PlacementLog_decode sha bs of
             Inl _ \<Rightarrow> mx
           | Inr log \<Rightarrow> fold (\<lambda>rec mx. max mx (placement_generation (pr_placement rec))) (dl_records log) mx)"
  have grow: "mx \<le> ?step gen mx" for gen mx
    by (auto split: option.splits sum.splits intro: fold_max_ge)
  have grow_fold: "mx \<le> fold ?step gens mx" for gens mx
    by (induction gens arbitrary: mx) (auto intro: order_trans [OF grow])
  have hit: "placement_generation (pr_placement rec) \<le> ?step g mx" for mx
    using assms(2-4) fold_max_mem [of rec "dl_records log" "\<lambda>rec. placement_generation (pr_placement rec)" mx] by simp
  obtain xs ys where "orphan_placement_logs dir cur = xs @ g # ys" using split_list [OF assms(1)] by blast
  then show ?thesis
    unfolding orphan_placement_max_generation_def
    using order_trans [OF hit grow_fold] by simp
qed

end
