(* ===== verification/SegmentWriter.thy ===== *)
theory SegmentWriter
  imports Placement SortedMap "HOL-Library.Product_Lexorder"
begin

text \<open>
  The writer of immutable segments, \<^verbatim>\<open>segment.rs\<close>: prefix-compressed entries, the
  restart and dense tables of a data block, the dry pass that fixes the block
  boundaries, the index, the Bloom filter and the whole file. A file is its byte
  string; the writer returns it with the checksum and the anchors of the manifest and
  of the placement directory. The anchors leave a \<^verbatim>\<open>HashMap\<close> in no particular order, so
  the model returns the map. The \<^verbatim>\<open>expect\<close> of the encode pass is a branch of its own
  (\<open>Panicked\<close>); \<open>SegmentData\<close> shows that it is never taken.
\<close>

unbundle bit_operations_syntax

section \<open>Entries and constants\<close>

definition SEGMENT_VERSION :: u16 where "SEGMENT_VERSION = 1"
definition FLAG_PUT :: byte where "FLAG_PUT = 1"
definition FLAG_DELETE :: byte where "FLAG_DELETE = 2"
definition FLAG_VERSION :: byte where "FLAG_VERSION = 4"

definition segment_path :: "u64 \<Rightarrow> string" where
  "segment_path segment_id = ''SEGMENT-'' @ pad6 (dec_digits (unat segment_id)) @ ''.seg''"

definition SEGMENT_MAGIC :: bytes where "SEGMENT_MAGIC = [0x41, 0x4B, 0x53, 0x45]"
definition BLOCK_MAGIC :: bytes where "BLOCK_MAGIC = [0x41, 0x4B, 0x42, 0x4C]"
definition FOOTER_MAGIC :: bytes where "FOOTER_MAGIC = [0x41, 0x4B, 0x46, 0x54]"
definition BLOCK_HEADER_LEN :: nat where "BLOCK_HEADER_LEN = 28"
definition FOOTER_LEN :: nat where "FOOTER_LEN = 22"
definition BLOCK_DATA :: byte where "BLOCK_DATA = 0"
definition BLOCK_INDEX :: byte where "BLOCK_INDEX = 1"
definition BLOCK_BLOOM :: byte where "BLOCK_BLOOM = 2"
definition MIN_ENTRY_LEN :: nat where "MIN_ENTRY_LEN = 2 + 2 + 4 + 8 + 1"
definition BLOOM_BITS_PER_KEY :: nat where "BLOOM_BITS_PER_KEY = 10"
definition BLOOM_PROBES :: nat where "BLOOM_PROBES = 4"
definition RESTART_INTERVAL :: nat where "RESTART_INTERVAL = 16"
definition U16_MAX :: nat where "U16_MAX = 65535"

record segment_entry =
  se_key :: bytes
  se_value :: bytes
  se_seq :: u64
  se_flags :: byte
  se_replica :: replica_id

record segment_anchor =
  sa_replica :: replica_id
  sa_seq :: u64
  sa_block :: block_id
  sa_offset :: u32

record segment_writer =
  sw_target :: nat
  sw_entries :: "segment_entry list"
  sw_v2 :: bool
  sw_v3 :: bool
  sw_v4 :: bool

definition writer_new :: "nat \<Rightarrow> segment_writer" where
  "writer_new target = \<lparr>sw_target = target, sw_entries = [], sw_v2 = False, sw_v3 = False, sw_v4 = False\<rparr>"

definition writer_new_v2 :: "nat \<Rightarrow> segment_writer" where
  "writer_new_v2 target = \<lparr>sw_target = target, sw_entries = [], sw_v2 = True, sw_v3 = False, sw_v4 = False\<rparr>"

definition writer_new_v3 :: "nat \<Rightarrow> segment_writer" where
  "writer_new_v3 target = \<lparr>sw_target = target, sw_entries = [], sw_v2 = True, sw_v3 = True, sw_v4 = False\<rparr>"

definition writer_new_v4 :: "nat \<Rightarrow> segment_writer" where
  "writer_new_v4 target = \<lparr>sw_target = target, sw_entries = [], sw_v2 = True, sw_v3 = True, sw_v4 = True\<rparr>"

definition writer_push :: "segment_entry \<Rightarrow> segment_writer \<Rightarrow> segment_writer" where
  "writer_push e w = w\<lparr>sw_entries := sw_entries w @ [e]\<rparr>"

definition enable_v4 :: "segment_writer \<Rightarrow> segment_writer" where
  "enable_v4 w = w\<lparr>sw_v2 := True, sw_v3 := True, sw_v4 := True\<rparr>"

section \<open>Prefix sharing and the block boundaries\<close>

definition common_prefix :: "bytes \<Rightarrow> bytes \<Rightarrow> nat" where
  "common_prefix a b = length (takeWhile (\<lambda>(x, y). x = y) (zip a b))"

definition shared_of :: "bytes option \<Rightarrow> segment_entry \<Rightarrow> nat" where
  "shared_of prev e = (case prev of Some p \<Rightarrow> common_prefix p (se_key e) | None \<Rightarrow> 0)"

definition is_none_or :: "('a \<Rightarrow> bool) \<Rightarrow> 'a option \<Rightarrow> bool" where
  "is_none_or P m = (case m of None \<Rightarrow> True | Some x \<Rightarrow> P x)"

definition entry_size :: "bool \<Rightarrow> nat \<Rightarrow> segment_entry \<Rightarrow> nat" where
  "entry_size v3 shared e =
    2 + 2 + (length (se_key e) - shared) + 4 + length (se_value e) + 8 + 1 + (if v3 then 8 else 0)"

definition cadence :: "nat \<Rightarrow> bool" where
  "cadence i \<longleftrightarrow> i mod RESTART_INTERVAL = 0"

record bounds_state =
  bd_bounds :: "(nat \<times> nat) list"
  bd_len :: nat
  bd_prev :: "bytes option"
  bd_last_restart :: "bytes option"
  bd_run_head_shared :: "nat option"
  bd_start :: nat

definition bounds_init :: bounds_state where
  "bounds_init = \<lparr>bd_bounds = [], bd_len = 0, bd_prev = None, bd_last_restart = None,
    bd_run_head_shared = None, bd_start = 0\<rparr>"

definition bounds_split :: "nat \<Rightarrow> nat \<Rightarrow> nat \<Rightarrow> bounds_state \<Rightarrow> bounds_state" where
  "bounds_split target i est st =
    (if bd_len st > 0 \<and> bd_len st + est > target
     then st\<lparr>bd_bounds := bd_bounds st @ [(bd_start st, i)], bd_len := 0, bd_prev := None,
             bd_last_restart := None, bd_run_head_shared := None, bd_start := i\<rparr>
     else st)"

definition bounds_step :: "segment_writer \<Rightarrow> nat \<times> segment_entry \<Rightarrow> bounds_state \<Rightarrow> bounds_state" where
  "bounds_step w ie st =
    (let (i, e) = ie;
         key_changed = is_none_or (\<lambda>p. p < se_key e) (bd_prev st);
         st = bounds_split (sw_target w) i (entry_size (sw_v3 w) (shared_of (bd_prev st) e) e) st;
         is_restart = (sw_v2 w \<and> cadence (i - bd_start st)
           \<and> is_none_or (\<lambda>k. k < se_key e) (bd_last_restart st));
         is_dense = (sw_v4 w \<and> cadence (i - bd_start st));
         shared = (if is_restart \<or> is_dense then 0 else shared_of (bd_prev st) e);
         st = (if key_changed then st\<lparr>bd_run_head_shared := Some shared\<rparr> else st);
         st = st\<lparr>bd_len := bd_len st + entry_size (sw_v3 w) shared e\<rparr>;
         st = (if is_restart
               then st\<lparr>bd_len := bd_len st + (case bd_run_head_shared st of None \<Rightarrow> 0 | Some h \<Rightarrow> h),
                       bd_run_head_shared := None, bd_last_restart := Some (se_key e)\<rparr>
               else st)
     in st\<lparr>bd_prev := Some (se_key e)\<rparr>)"

definition block_bounds :: "segment_writer \<Rightarrow> segment_entry list \<Rightarrow> (nat \<times> nat) list" where
  "block_bounds w es =
    (let st = fold (bounds_step w) (enumerate 0 es) bounds_init
     in bd_bounds st @ [(bd_start st, length es)])"

section \<open>One data block\<close>

definition entry_key_bytes :: "nat \<Rightarrow> segment_entry \<Rightarrow> bytes" where
  "entry_key_bytes shared e =
    u16_le (word_of_nat shared) @ u16_le (word_of_nat (length (se_key e) - shared)) @ drop shared (se_key e)"

definition entry_body :: "bool \<Rightarrow> segment_entry \<Rightarrow> bytes" where
  "entry_body v3 e =
    u32_le (word_of_nat (length (se_value e))) @ se_value e @ u64_le (se_seq e) @ [se_flags e]
    @ (if v3 then u64_le (rid_u64 (se_replica e)) else [])"

definition entry_image :: "bool \<Rightarrow> nat \<Rightarrow> segment_entry \<Rightarrow> bytes" where
  "entry_image v3 shared e = entry_key_bytes shared e @ entry_body v3 e"

record enc_state =
  es_payload :: bytes
  es_restarts :: "u32 list"
  es_dense :: "u32 list"
  es_prev :: "bytes option"
  es_last_restart :: "bytes option"
  es_run_head :: "(u32 \<times> nat) option"

definition enc_init :: enc_state where
  "enc_init = \<lparr>es_payload = [], es_restarts = [], es_dense = [], es_prev = None,
    es_last_restart = None, es_run_head = None\<rparr>"

text \<open>The \<^verbatim>\<open>splice\<close> that re-encodes the head of the current run with its full key.\<close>

definition splice_head :: "nat \<Rightarrow> nat \<Rightarrow> segment_entry \<Rightarrow> bytes \<Rightarrow> bytes" where
  "splice_head hpos hshared e payload =
    (if hshared > 0
     then take hpos payload @ entry_key_bytes 0 e
       @ drop (hpos + (4 + length (se_key e) - hshared)) payload
     else payload)"

definition encode_entry :: "segment_writer \<Rightarrow> nat \<times> segment_entry \<Rightarrow> enc_state \<Rightarrow> enc_state fres" where
  "encode_entry w ce st =
    (let (count, e) = ce;
         key_changed = is_none_or (\<lambda>p. p < se_key e) (es_prev st);
         is_restart = (sw_v2 w \<and> cadence count \<and> is_none_or (\<lambda>k. k < se_key e) (es_last_restart st));
         is_dense = (sw_v4 w \<and> cadence count);
         shared = (if is_restart \<or> is_dense then 0 else shared_of (es_prev st) e);
         st = (if key_changed then st\<lparr>es_run_head := Some (word_of_nat (length (es_payload st)), shared)\<rparr> else st)
     in rbind
       (if is_restart then
          (case es_run_head st of
             None \<Rightarrow> Inl Panicked
           | Some (hpos, hshared) \<Rightarrow>
               Inr (st\<lparr>es_run_head := None,
                       es_payload := splice_head (unat hpos) hshared e (es_payload st),
                       es_restarts := es_restarts st @ [hpos],
                       es_last_restart := Some (se_key e)\<rparr>))
        else Inr st)
       (\<lambda>st.
         let st = (if is_dense then st\<lparr>es_dense := es_dense st @ [word_of_nat (length (es_payload st))]\<rparr> else st)
         in Inr (st\<lparr>es_payload := es_payload st @ entry_image (sw_v3 w) shared e,
                    es_prev := Some (se_key e)\<rparr>)))"

definition encode_entries :: "segment_writer \<Rightarrow> segment_entry list \<Rightarrow> enc_state fres" where
  "encode_entries w es = rfold (encode_entry w) (enumerate 0 es) enc_init"

definition table_prefix :: "segment_writer \<Rightarrow> enc_state \<Rightarrow> nat" where
  "table_prefix w st =
    (if sw_v4 w then 6 + 4 * length (es_restarts st) + 4 + 4 * length (es_dense st)
     else 6 + 4 * length (es_restarts st))"

definition block_table :: "segment_writer \<Rightarrow> enc_state \<Rightarrow> bytes" where
  "block_table w st =
    (let abs = (\<lambda>pos. u32_le (word_of_nat (table_prefix w st + unat pos))) in
     u16_le (word_of_nat RESTART_INTERVAL) @ u32_le (word_of_nat (length (es_restarts st)))
     @ concat (map abs (es_restarts st))
     @ (if sw_v4 w then u32_le (word_of_nat (length (es_dense st))) @ concat (map abs (es_dense st)) else []))"

definition block_payload :: "segment_writer \<Rightarrow> enc_state \<Rightarrow> bytes" where
  "block_payload w st = (if sw_v2 w then block_table w st @ es_payload st else es_payload st)"

definition block_version :: "segment_writer \<Rightarrow> u16" where
  "block_version w = (if sw_v2 w then if sw_v4 w then 4 else if sw_v3 w then 3 else 2 else SEGMENT_VERSION)"

definition encode_block :: "digest_fn \<Rightarrow> byte \<Rightarrow> u32 \<Rightarrow> bytes \<Rightarrow> u16 \<Rightarrow> bytes" where
  "encode_block sha kind entries payload version =
    (let out = BLOCK_MAGIC @ u16_le version @ [kind] @ [0] @ u32_le entries
           @ u32_le (word_of_nat (length payload)) @ u32_le (word_of_nat (length payload))
     in out @ checksum8 sha (out @ payload) @ payload)"

section \<open>Bloom filter and anchors\<close>

definition bloom_hashes :: "digest_fn \<Rightarrow> bytes \<Rightarrow> u64 \<times> u64" where
  "bloom_hashes sha key = (let d = sha key in (le_u64 (take 8 d), le_u64 (take 8 (drop 8 d))))"

definition bloom_bit :: "u64 \<Rightarrow> u64 \<Rightarrow> nat \<Rightarrow> nat \<Rightarrow> nat" where
  "bloom_bit h1 h2 m i = (unat h1 + i * unat h2) mod m"

definition bloom_set :: "nat \<Rightarrow> bytes \<Rightarrow> bytes" where
  "bloom_set n bits = bits[n div 8 := bits ! (n div 8) OR push_bit (n mod 8) 1]"

definition bloom_add :: "digest_fn \<Rightarrow> nat \<Rightarrow> bytes \<Rightarrow> bytes \<Rightarrow> bytes" where
  "bloom_add sha m key bits =
    (let (h1, h2) = bloom_hashes sha key
     in fold (\<lambda>i. bloom_set (bloom_bit h1 h2 m i)) [0..<BLOOM_PROBES] bits)"

type_synonym anchors = "replica_id \<rightharpoonup> segment_anchor"

definition anchor_entry :: "segment_writer \<Rightarrow> nat \<Rightarrow> nat \<times> segment_entry \<Rightarrow> anchors \<Rightarrow> anchors" where
  "anchor_entry w block ce a =
    (let (count, e) = ce in
     if sw_v3 w \<and> se_replica e \<noteq> ReplicaId 0 then
       let anchor = \<lparr>sa_replica = se_replica e, sa_seq = se_seq e,
                     sa_block = BlockId (word_of_nat block), sa_offset = word_of_nat count\<rparr>
       in (case a (se_replica e) of
             None \<Rightarrow> a(se_replica e \<mapsto> anchor)
           | Some o' \<Rightarrow> if sa_seq o' < se_seq e then a(se_replica e \<mapsto> anchor) else a)
     else a)"

section \<open>The file\<close>

record publish_state =
  ps_out :: bytes
  ps_skeleton :: bytes
  ps_index :: bytes
  ps_bits :: bytes
  ps_anchors :: anchors

definition segment_header :: "digest_fn \<Rightarrow> u32 \<Rightarrow> segment_entry list \<Rightarrow> bytes" where
  "segment_header sha block_count es =
    (let seqs = map se_seq es;
         key_min = se_key (hd es); key_max = se_key (last es);
         header = SEGMENT_MAGIC @ u16_le SEGMENT_VERSION @ u32_le block_count
           @ u64_le (word_of_nat (length es))
           @ u32_le (word_of_nat (length key_min)) @ key_min
           @ u32_le (word_of_nat (length key_max)) @ key_max
           @ u64_le (Min (set seqs)) @ u64_le (Max (set seqs))
     in header @ checksum8 sha header)"

definition index_entry :: "segment_entry list \<Rightarrow> nat \<Rightarrow> bytes" where
  "index_entry es offset =
    (let k1 = se_key (hd es); k2 = se_key (last es) in
     u16_le (word_of_nat (length k1)) @ k1 @ u16_le (word_of_nat (length k2)) @ k2
     @ u64_le (word_of_nat offset) @ u32_le (word_of_nat (length es)))"

definition publish_block ::
    "digest_fn \<Rightarrow> segment_writer \<Rightarrow> nat \<Rightarrow> segment_entry list \<Rightarrow> nat \<times> nat \<times> nat \<Rightarrow> publish_state \<Rightarrow> publish_state fres" where
  "publish_block sha w m entries b ps =
    (let (block_id, start, end') = b;
         es = take (end' - start) (drop start entries)
     in rbind (encode_entries w es) (\<lambda>st.
         let block = encode_block sha BLOCK_DATA (word_of_nat (end' - start)) (block_payload w st) (block_version w)
         in Inr (ps\<lparr>ps_out := ps_out ps @ block,
                    ps_skeleton := ps_skeleton ps @ take BLOCK_HEADER_LEN block,
                    ps_index := ps_index ps @ index_entry es (length (ps_out ps)),
                    ps_bits := fold (\<lambda>e. bloom_add sha m (se_key e)) es (ps_bits ps),
                    ps_anchors := fold (anchor_entry w block_id) (enumerate 0 es) (ps_anchors ps)\<rparr>)))"

definition footer_fields :: "nat \<Rightarrow> bytes" where
  "footer_fields n = FOOTER_MAGIC @ u16_le SEGMENT_VERSION @ u64_le (word_of_nat n)"

text \<open>The index and Bloom blocks and the footer, whose checksum covers the skeleton.\<close>

definition seal_file :: "digest_fn \<Rightarrow> u32 \<Rightarrow> nat \<Rightarrow> nat \<Rightarrow> publish_state \<Rightarrow> bytes" where
  "seal_file sha block_count m entry_count ps =
    (let index_block = encode_block sha BLOCK_INDEX block_count (ps_index ps) SEGMENT_VERSION;
         bloom_block = encode_block sha BLOCK_BLOOM (word_of_nat entry_count)
           (u32_le (word_of_nat m) @ ps_bits ps) SEGMENT_VERSION;
         fields = footer_fields entry_count;
         skeleton = ps_skeleton ps @ index_block @ bloom_block @ fields
     in ps_out ps @ index_block @ bloom_block @ fields @ checksum8 sha skeleton)"

definition misordered :: "segment_entry \<Rightarrow> segment_entry \<Rightarrow> bool" where
  "misordered a b \<longleftrightarrow> se_key b < se_key a \<or> (se_key a = se_key b \<and> se_seq a < se_seq b)"

definition publish_sorted_entries ::
    "digest_fn \<Rightarrow> segment_writer \<Rightarrow> segment_entry list \<Rightarrow> (bytes \<times> u64 \<times> anchors) fres" where
  "publish_sorted_entries sha w entries =
    (if sw_target w = 0 then Inl (Invalid ''target block size must be > 0'')
     else if entries = [] then Inl (Invalid ''cannot publish an empty segment'')
     else if list_ex (\<lambda>e. U16_MAX < length (se_key e)) entries
     then Inl (Invalid ''key length exceeds the format limit'')
     else if list_ex (\<lambda>(a, b). se_key a = se_key b \<and> se_seq a = se_seq b) (zip entries (tl entries))
     then Inl (Invalid ''duplicate (key, seq) pair'')
     else if list_ex (\<lambda>(a, b). misordered a b) (zip entries (tl entries))
     then Inl (Invalid ''entries not in publish order'')
     else
       let bounds = block_bounds w entries;
           block_count = word_of_nat (length bounds);
           m = BLOOM_BITS_PER_KEY * length entries;
           header = segment_header sha block_count entries;
           ps = \<lparr>ps_out = header, ps_skeleton = header, ps_index = [],
                 ps_bits = replicate ((m + 7) div 8) 0, ps_anchors = Map.empty\<rparr>
       in rbind (rfold (publish_block sha w m entries) (enumerate 0 bounds) ps) (\<lambda>ps.
         let file = seal_file sha block_count m (length entries) ps
         in Inr (file, le_u64 (take 8 (sha file)), ps_anchors ps)))"

text \<open>The three entry points: sort, reverse each key's run, or take the merge order as is.\<close>

definition publish_with_anchors :: "digest_fn \<Rightarrow> segment_writer \<Rightarrow> (bytes \<times> u64 \<times> anchors) fres" where
  "publish_with_anchors sha w =
    publish_sorted_entries sha w (sort_key (\<lambda>e. (se_key e, - int (unat (se_seq e)))) (sw_entries w))"

definition writer_publish :: "digest_fn \<Rightarrow> segment_writer \<Rightarrow> (nat \<times> u64) fres" where
  "writer_publish sha w = rbind (publish_with_anchors sha w) (\<lambda>(file, checksum, _). Inr (length file, checksum))"

function reverse_runs :: "segment_entry list \<Rightarrow> segment_entry list" where
  "reverse_runs [] = []"
| "reverse_runs (e # es) =
    rev (e # takeWhile (\<lambda>x. se_key x = se_key e) es) @ reverse_runs (dropWhile (\<lambda>x. se_key x = se_key e) es)"
  by pat_completeness auto
termination by (relation "measure length") (auto simp: length_dropWhile_le le_imp_less_Suc)

definition publish_with_anchors_sorted :: "digest_fn \<Rightarrow> segment_writer \<Rightarrow> (bytes \<times> u64 \<times> anchors) fres" where
  "publish_with_anchors_sorted sha w = publish_sorted_entries sha w (reverse_runs (sw_entries w))"

definition publish_with_anchors_sorted_staged :: "digest_fn \<Rightarrow> segment_writer \<Rightarrow> (bytes \<times> u64 \<times> anchors) fres" where
  "publish_with_anchors_sorted_staged sha w = publish_sorted_entries sha w (sw_entries w)"

end
