(* ===== verification/MinHeap.thy ===== *)
theory MinHeap
  imports Prelude "HOL-Library.Multiset"
begin

text \<open>
  The array-backed min-heap of \<^verbatim>\<open>cache.rs\<close>: push with sift-up, sift-down, pop and the
  bottom-up heapify, over nodes ordered by a 64-bit stamp. The locale \<open>stamp_queue\<close> is
  the contract the cache relies on: a priority queue as a multiset with a minimal pop.
\<close>

section \<open>Definitions\<close>

record heap_node =
  hn_gen :: u64
  hn_key :: "u64 \<times> u32"

type_synonym heap = "heap_node list"

definition heap_swap :: "'a list \<Rightarrow> nat \<Rightarrow> nat \<Rightarrow> 'a list" where
  "heap_swap xs i j = xs[i := xs ! j, j := xs ! i]"

function sift_up :: "heap \<Rightarrow> nat \<Rightarrow> heap" where
  "sift_up h i =
    (if i > 0 then
       let parent = (i - 1) div 2 in
       if hn_gen (h ! parent) \<le> hn_gen (h ! i) then h
       else sift_up (heap_swap h parent i) parent
     else h)"
  by pat_completeness auto
termination by (relation "measure snd") auto

definition heap_push :: "heap \<Rightarrow> u64 \<Rightarrow> u64 \<times> u32 \<Rightarrow> heap" where
  "heap_push h gen key = (let h = h @ [\<lparr>hn_gen = gen, hn_key = key\<rparr>] in sift_up h (length h - 1))"

definition smallest_child :: "heap \<Rightarrow> nat \<Rightarrow> nat" where
  "smallest_child h i =
    (let l = 2 * i + 1; r = l + 1;
         s = (if l < length h \<and> hn_gen (h ! l) < hn_gen (h ! i) then l else i)
     in if r < length h \<and> hn_gen (h ! r) < hn_gen (h ! s) then r else s)"

lemma smallest_child_range:
  "smallest_child h i \<noteq> i \<Longrightarrow> i < smallest_child h i \<and> smallest_child h i < length h"
  by (auto simp: smallest_child_def Let_def split: if_splits)

function sift_down :: "heap \<Rightarrow> nat \<Rightarrow> heap" where
  "sift_down h i =
    (let smallest = smallest_child h i in
     if smallest = i then h else sift_down (heap_swap h i smallest) smallest)"
  by pat_completeness auto
termination
  by (relation "measure (\<lambda>(h, i). length h - i)") (auto simp: heap_swap_def dest: smallest_child_range)

declare sift_up.simps [simp del] sift_down.simps [simp del]

definition heap_pop :: "heap \<Rightarrow> heap_node option \<times> heap" where
  "heap_pop h =
    (if h = [] then (None, [])
     else let lst = last h; h = butlast h in
       if h = [] then (Some lst, [])
       else (Some (h ! 0), sift_down (h[0 := lst]) 0))"

definition heapify :: "heap \<Rightarrow> heap" where
  "heapify h = fold (\<lambda>i h. sift_down h i) (rev [0..<length h div 2]) h"

section \<open>Order and contents\<close>

definition parent :: "nat \<Rightarrow> nat" where "parent i = (i - 1) div 2"

text \<open>Heap order everywhere below and including position \<open>lo\<close>.\<close>

definition heap_from :: "nat \<Rightarrow> heap \<Rightarrow> bool" where
  "heap_from lo h \<longleftrightarrow> (\<forall>i < length h. 0 < i \<longrightarrow> lo \<le> parent i \<longrightarrow> hn_gen (h ! parent i) \<le> hn_gen (h ! i))"

definition heap_inv :: "heap \<Rightarrow> bool" where
  "heap_inv h \<longleftrightarrow> heap_from 0 h"

lemma length_swap [simp]: "length (heap_swap xs i j) = length xs"
  by (simp add: heap_swap_def)

lemma nth_swap: "i < length xs \<Longrightarrow> j < length xs \<Longrightarrow> k < length xs \<Longrightarrow>
    heap_swap xs i j ! k = (if k = i then xs ! j else if k = j then xs ! i else xs ! k)"
  by (auto simp: heap_swap_def nth_list_update)

lemma mset_swap': "i < length xs \<Longrightarrow> j < length xs \<Longrightarrow> mset (heap_swap xs i j) = mset xs"
  unfolding heap_swap_def by (rule mset_swap)

lemma parent_lt: "0 < i \<Longrightarrow> parent i < i"
  by (auto simp: parent_def)

lemma parent_iff: "0 < i \<Longrightarrow> parent i = j \<longleftrightarrow> i = 2 * j + 1 \<or> i = 2 * j + 2"
  by (auto simp: parent_def)

lemma mset_sift_up: "i < length h \<Longrightarrow> mset (sift_up h i) = mset h \<and> length (sift_up h i) = length h"
proof (induction h i rule: sift_up.induct)
  case (1 h i)
  then show ?case by (subst (1 2) sift_up.simps) (auto simp: Let_def mset_swap')
qed

text \<open>Sift-up: the order holds except between \<open>i\<close> and its parent, and the parent of \<open>i\<close> is
  below the children of \<open>i\<close>.\<close>

lemma heap_inv_sift_up:
  assumes "i < length h"
    and "\<And>k. k < length h \<Longrightarrow> 0 < k \<Longrightarrow> k \<noteq> i \<Longrightarrow> hn_gen (h ! parent k) \<le> hn_gen (h ! k)"
    and "\<And>k. k < length h \<Longrightarrow> 0 < k \<Longrightarrow> parent k = i \<Longrightarrow> 0 < i \<Longrightarrow> hn_gen (h ! parent i) \<le> hn_gen (h ! k)"
  shows "heap_inv (sift_up h i)"
  using assms
proof (induction h i rule: sift_up.induct)
  case (1 h i)
  show ?case
  proof (cases "0 < i \<and> \<not> hn_gen (h ! parent i) \<le> hn_gen (h ! i)")
    case False
    then have "heap_inv h" using "1.prems"(2) by (auto simp: heap_inv_def heap_from_def)
    moreover have "sift_up h i = h" using False by (subst sift_up.simps) (auto simp: Let_def parent_def)
    ultimately show ?thesis by simp
  next
    case True
    let ?p = "parent i" and ?h = "heap_swap h (parent i) i"
    have i: "0 < i" "i < length h" "?p < i" using True "1.prems"(1) parent_lt by auto
    have gt: "hn_gen (h ! i) < hn_gen (h ! ?p)" using True by (auto simp: not_le)
    have nth: "?h ! k = (if k = ?p then h ! i else if k = i then h ! ?p else h ! k)" if "k < length h" for k
      using that i by (simp add: nth_swap)
    have "heap_inv (sift_up ?h ?p)"
    proof (rule "1.IH")
      fix k assume k: "k < length ?h" "0 < k" "k \<noteq> ?p"
      have kl: "k < length h" "parent k < length h" using k parent_lt [of k] by auto
      show "hn_gen (?h ! parent k) \<le> hn_gen (?h ! k)"
      proof (cases "k = i")
        case True
        then show ?thesis using nth kl gt i by simp
      next
        case ki: False
        show ?thesis
        proof (cases "parent k = i")
          case True
          then show ?thesis using nth [OF kl(1)] nth [OF kl(2)] ki k(3) "1.prems"(3) [of k] kl k i by auto
        next
          case False
          then show ?thesis
            using nth [OF kl(1)] nth [OF kl(2)] ki k(2,3) "1.prems"(2) [of k] kl gt by auto
        qed
      qed
    next
      fix k assume k: "k < length ?h" "0 < k" "parent k = ?p" "0 < ?p"
      have kl: "k < length h" "parent ?p < length h" "parent ?p \<noteq> ?p" "parent ?p \<noteq> i" "k \<noteq> ?p"
        using k parent_lt [of k] parent_lt [of ?p] i by auto
      have "hn_gen (h ! parent ?p) \<le> hn_gen (h ! ?p)" using "1.prems"(2) [of ?p] k i by auto
      moreover have "hn_gen (h ! ?p) \<le> hn_gen (h ! k)" if "k \<noteq> i" using "1.prems"(2) [of k] that k kl by auto
      ultimately show "hn_gen (?h ! parent ?p) \<le> hn_gen (?h ! k)"
        using nth [OF kl(1)] nth [OF kl(2)] kl k by auto
    qed (use i True in \<open>auto simp: parent_def\<close>)
    then show ?thesis using True by (subst sift_up.simps) (auto simp: Let_def parent_def)
  qed
qed

lemma smallest_child_stop:
  "smallest_child h i = i \<Longrightarrow> k < length h \<Longrightarrow> 0 < k \<Longrightarrow> parent k = i \<Longrightarrow> hn_gen (h ! i) \<le> hn_gen (h ! k)"
  by (auto simp: smallest_child_def Let_def parent_iff not_less split: if_splits)

lemma smallest_child_move:
  assumes "smallest_child h i \<noteq> i"
  shows "0 < smallest_child h i" "smallest_child h i < length h" "parent (smallest_child h i) = i"
    "hn_gen (h ! smallest_child h i) < hn_gen (h ! i)"
    "\<And>k. k < length h \<Longrightarrow> 0 < k \<Longrightarrow> parent k = i \<Longrightarrow> hn_gen (h ! smallest_child h i) \<le> hn_gen (h ! k)"
  using assms
  by (auto simp: smallest_child_def Let_def parent_iff not_less split: if_splits)

lemma mset_sift_down: "i < length h \<Longrightarrow> mset (sift_down h i) = mset h \<and> length (sift_down h i) = length h"
proof (induction h i rule: sift_down.induct)
  case (1 h i)
  show ?case
  proof (cases "smallest_child h i = i")
    case True
    then show ?thesis by (subst (1 2) sift_down.simps) simp
  next
    case False
    then show ?thesis using "1.IH" [OF refl False] "1.prems" smallest_child_range [OF False]
      by (subst (1 2) sift_down.simps) (simp add: Let_def mset_swap')
  qed
qed

text \<open>Sift-down: the order holds except between \<open>i\<close> and its children, and the parent of \<open>i\<close> is
  below the children of \<open>i\<close>.\<close>

lemma heap_from_sift_down:
  assumes "i < length h" and "lo \<le> i"
    and "\<And>k. k < length h \<Longrightarrow> 0 < k \<Longrightarrow> lo \<le> parent k \<Longrightarrow> parent k \<noteq> i \<Longrightarrow> hn_gen (h ! parent k) \<le> hn_gen (h ! k)"
    and "\<And>k. k < length h \<Longrightarrow> 0 < k \<Longrightarrow> parent k = i \<Longrightarrow> 0 < i \<Longrightarrow> lo \<le> parent i \<Longrightarrow> hn_gen (h ! parent i) \<le> hn_gen (h ! k)"
  shows "heap_from lo (sift_down h i)"
  using assms
proof (induction h i rule: sift_down.induct)
  case (1 h i)
  show ?case
  proof (cases "smallest_child h i = i")
    case True
    then have "heap_from lo h"
      using "1.prems"(3) smallest_child_stop [OF True] unfolding heap_from_def by metis
    moreover have "sift_down h i = h" using True by (subst sift_down.simps) simp
    ultimately show ?thesis by simp
  next
    case False
    let ?s = "smallest_child h i"
    let ?h = "heap_swap h i ?s"
    note mv = smallest_child_move [OF False]
    have si: "?s \<noteq> i" "i < ?s" using False smallest_child_range [OF False] by auto
    have nth: "?h ! k = (if k = i then h ! ?s else if k = ?s then h ! i else h ! k)" if "k < length h" for k
      using that "1.prems"(1) mv by (simp add: nth_swap)
    have "heap_from lo (sift_down ?h ?s)"
    proof (rule "1.IH" [OF refl False])
      fix k assume k: "k < length ?h" "0 < k" "lo \<le> parent k" "parent k \<noteq> ?s"
      have kl: "k < length h" "parent k < length h" "parent k \<noteq> k" using k parent_lt [of k] by auto
      show "hn_gen (?h ! parent k) \<le> hn_gen (?h ! k)"
      proof (cases "k = ?s")
        case True
        then show ?thesis using nth [OF kl(1)] nth [OF kl(2)] mv(3,4) si by simp
      next
        case ks: False
        show ?thesis
        proof (cases "parent k = i")
          case True
          then show ?thesis using nth [OF kl(1)] nth [OF kl(2)] ks mv(5) [of k] kl k by auto
        next
          case pk: False
          show ?thesis
          proof (cases "k = i")
            case True
            then show ?thesis
              using nth [OF kl(1)] nth [OF kl(2)] pk k "1.prems"(4) [of ?s] mv by auto
          next
            case False
            then show ?thesis using nth [OF kl(1)] nth [OF kl(2)] pk ks k "1.prems"(3) [of k] kl by auto
          qed
        qed
      qed
    next
      fix k assume k: "k < length ?h" "0 < k" "parent k = ?s" "0 < ?s" "lo \<le> parent ?s"
      have "k \<noteq> ?s" "k \<noteq> i" "k < length h" using k parent_lt [of k] si by auto
      moreover have "hn_gen (h ! ?s) \<le> hn_gen (h ! k)"
        using "1.prems"(3) [of k] k si "1.prems"(2) \<open>k < length h\<close> by auto
      ultimately show "hn_gen (?h ! parent ?s) \<le> hn_gen (?h ! k)"
        using nth [of k] nth [of i] mv(3) "1.prems"(1) by simp
    qed (use mv si "1.prems" in auto)
    then show ?thesis using False by (subst sift_down.simps) (simp add: Let_def)
  qed
qed

section \<open>The priority queue\<close>

lemma heap_inv_root: "heap_inv h \<Longrightarrow> i < length h \<Longrightarrow> hn_gen (h ! 0) \<le> hn_gen (h ! i)"
proof (induction i rule: less_induct)
  case (less i)
  show ?case
  proof (cases "i = 0")
    case False
    then have "hn_gen (h ! 0) \<le> hn_gen (h ! parent i)" using less parent_lt [of i] by auto
    also have "\<dots> \<le> hn_gen (h ! i)" using less.prems False by (simp add: heap_inv_def heap_from_def)
    finally show ?thesis .
  qed simp
qed

lemma heap_push_mset:
  "mset (heap_push h gen key) = add_mset \<lparr>hn_gen = gen, hn_key = key\<rparr> (mset h)"
  "length (heap_push h gen key) = Suc (length h)"
  using mset_sift_up [of "length h" "h @ [\<lparr>hn_gen = gen, hn_key = key\<rparr>]"]
  by (simp_all add: heap_push_def Let_def)

lemma heap_push_inv:
  assumes "heap_inv h"
  shows "heap_inv (heap_push h gen key)"
proof -
  let ?h = "h @ [\<lparr>hn_gen = gen, hn_key = key\<rparr>]"
  have "heap_inv (sift_up ?h (length h))"
  proof (rule heap_inv_sift_up)
    fix k assume k: "k < length ?h" "0 < k" "k \<noteq> length h"
    then have kl: "k < length h" "parent k < length h" using parent_lt [of k] by auto
    then show "hn_gen (?h ! parent k) \<le> hn_gen (?h ! k)"
      using assms k by (simp add: heap_inv_def heap_from_def nth_append)
  next
    fix k assume "k < length ?h" "0 < k" "parent k = length h"
    then show "hn_gen (?h ! parent (length h)) \<le> hn_gen (?h ! k)" using parent_lt [of k] by auto
  qed simp
  then show ?thesis by (simp add: heap_push_def Let_def)
qed

lemma heap_pop_mset:
  assumes "heap_pop h = (Some n, h')"
  shows "mset h = add_mset n (mset h')" and "n = h ! 0" and "length h = Suc (length h')"
proof -
  have ne: "h \<noteq> []" using assms by (auto simp: heap_pop_def)
  have "mset h = add_mset n (mset h') \<and> n = h ! 0"
  proof (cases "butlast h = []")
    case True
    then obtain x where "h = [x]" using ne by (metis append_butlast_last_id append_Nil)
    then show ?thesis using assms by (auto simp: heap_pop_def Let_def)
  next
    case False
    let ?b = "(butlast h)[0 := last h]"
    have n: "n = butlast h ! 0" and h': "h' = sift_down ?b 0"
      using assms ne False by (auto simp: heap_pop_def Let_def)
    have len: "0 < length ?b" using False by (metis length_greater_0_conv length_list_update)
    have "mset h' = mset ?b" using mset_sift_down [OF len] h' by simp
    also have "\<dots> = add_mset (last h) (mset (butlast h) - {#butlast h ! 0#})"
      using False by (intro mset_update) (metis length_greater_0_conv)
    finally have "add_mset n (mset h') = add_mset (last h) (mset (butlast h))"
      using False n by (cases "butlast h") auto
    then have "mset h = add_mset n (mset h')"
      using ne by (metis add_mset_add_single append_butlast_last_id mset.simps(1) mset.simps(2) mset_append)
    moreover have "n = h ! 0"
      using n nth_butlast [of 0 h] False length_greater_0_conv [of "butlast h"] by metis
    ultimately show ?thesis by simp
  qed
  then show "mset h = add_mset n (mset h')" "n = h ! 0" by simp_all
  then show "length h = Suc (length h')" by (metis size_add_mset size_mset)
qed

lemma heap_pop_ok:
  assumes "heap_inv h" and "heap_pop h = (Some n, h')"
  shows "heap_inv h'" and "mset h = add_mset n (mset h')" and "\<forall>m \<in> set h. hn_gen n \<le> hn_gen m"
    and "length h = Suc (length h')"
proof -
  have ne: "h \<noteq> []" using assms(2) by (auto simp: heap_pop_def)
  show "heap_inv h'"
  proof (cases "butlast h = []")
    case True
    then show ?thesis using assms(2) ne by (auto simp: heap_pop_def Let_def heap_inv_def heap_from_def)
  next
    case False
    let ?b = "(butlast h)[0 := last h]"
    have h': "h' = sift_down ?b 0" using assms(2) ne False by (auto simp: heap_pop_def Let_def)
    have len: "0 < length ?b" using False by (metis length_greater_0_conv length_list_update)
    have "heap_from 0 (sift_down ?b 0)"
    proof (rule heap_from_sift_down [OF len])
      fix k assume k: "k < length ?b" "0 < k" "parent k \<noteq> 0"
      then have "?b ! k = h ! k" "?b ! parent k = h ! parent k" "k < length h"
        using parent_lt [of k] by (auto simp: nth_butlast)
      then show "hn_gen (?b ! parent k) \<le> hn_gen (?b ! k)"
        using assms(1) k by (simp add: heap_inv_def heap_from_def)
    qed simp_all
    then show ?thesis using h' by (simp add: heap_inv_def)
  qed
  show "mset h = add_mset n (mset h')" "length h = Suc (length h')"
    using heap_pop_mset [OF assms(2)] by simp_all
  show "\<forall>m \<in> set h. hn_gen n \<le> hn_gen m"
    using heap_inv_root [OF assms(1)] heap_pop_mset(2) [OF assms(2)] by (auto simp: in_set_conv_nth)
qed

lemma heap_pop_None: "fst (heap_pop h) = None \<longleftrightarrow> h = []"
  by (auto simp: heap_pop_def Let_def)

lemma set_heap_push: "set (heap_push h gen key) = insert \<lparr>hn_gen = gen, hn_key = key\<rparr> (set h)"
  using heap_push_mset(1) [of h gen key] by (metis set_mset_add_mset_insert set_mset_mset)

lemma heapify_loop:
  "heap_from m h \<Longrightarrow> m \<le> length h \<Longrightarrow>
    heap_from 0 (fold (\<lambda>i h. sift_down h i) (rev [0..<m]) h)
    \<and> mset (fold (\<lambda>i h. sift_down h i) (rev [0..<m]) h) = mset h"
proof (induction m arbitrary: h)
  case (Suc m)
  have "heap_from m (sift_down h m)"
  proof (rule heap_from_sift_down)
    fix k assume "k < length h" "0 < k" "m \<le> parent k" "parent k \<noteq> m"
    then show "hn_gen (h ! parent k) \<le> hn_gen (h ! k)" using Suc.prems(1) by (simp add: heap_from_def)
  next
    fix k assume "0 < m" "m \<le> parent m"
    then show "hn_gen (h ! parent m) \<le> hn_gen (h ! k)" using parent_lt [of m] by simp
  qed (use Suc.prems in auto)
  then show ?case using Suc mset_sift_down [of m h] by simp
qed simp

lemma heapify_ok: "heap_inv (heapify h) \<and> mset (heapify h) = mset h"
proof -
  have "heap_from (length h div 2) h" by (auto simp: heap_from_def parent_def)
  from heapify_loop [OF this] show ?thesis by (simp add: heapify_def heap_inv_def)
qed

lemma set_heapify: "set (heapify h) = set h" and length_heapify: "length (heapify h) = length h"
  using heapify_ok [of h] by (metis set_mset_mset, metis size_mset)

locale stamp_queue =
  fixes empty :: 'q and push :: "'q \<Rightarrow> u64 \<Rightarrow> u64 \<times> u32 \<Rightarrow> 'q" and pop :: "'q \<Rightarrow> heap_node option \<times> 'q"
    and nodes :: "'q \<Rightarrow> heap_node multiset" and inv :: "'q \<Rightarrow> bool"
  assumes inv_empty: "inv empty" and nodes_empty: "nodes empty = {#}"
    and inv_push: "inv q \<Longrightarrow> inv (push q gen key)"
    and nodes_push: "inv q \<Longrightarrow> nodes (push q gen key) = add_mset \<lparr>hn_gen = gen, hn_key = key\<rparr> (nodes q)"
    and pop_None: "fst (pop q) = None \<longleftrightarrow> nodes q = {#}"
    and inv_pop: "inv q \<Longrightarrow> pop q = (Some n, q') \<Longrightarrow> inv q'"
    and nodes_pop: "inv q \<Longrightarrow> pop q = (Some n, q') \<Longrightarrow> nodes q = add_mset n (nodes q')"
    and pop_least: "inv q \<Longrightarrow> pop q = (Some n, q') \<Longrightarrow> m \<in># nodes q \<Longrightarrow> hn_gen n \<le> hn_gen m"
begin

text \<open>The core of lazy-deletion LRU: if every live key still has a node stamped no later
  than its last touch, a popped node that is up to date belongs to the key touched
  longest ago.\<close>

lemma pop_least_recent:
  assumes "inv q" and "pop q = (Some n, q')"
    and "\<And>k s. live k = Some s \<Longrightarrow> \<exists>m \<in># nodes q. hn_key m = k \<and> hn_gen m \<le> s"
    and "live k = Some s"
  shows "hn_gen n \<le> s"
proof -
  from assms(3,4) obtain m where "m \<in># nodes q" "hn_gen m \<le> s" by blast
  then show ?thesis using pop_least [OF assms(1,2)] order_trans by blast
qed

lemma nodes_pop_push:
  assumes "inv q" and "pop q = (Some n, q')"
  shows "nodes (push q' gen key) = add_mset \<lparr>hn_gen = gen, hn_key = key\<rparr> (nodes q - {#n#})"
  using nodes_push [OF inv_pop [OF assms]] nodes_pop [OF assms] by simp

end

interpretation heap_queue: stamp_queue "[]" heap_push heap_pop mset heap_inv
proof (unfold_locales, goal_cases)
  case 1
  then show ?case by (simp add: heap_inv_def heap_from_def)
next
  case (8 q n q' m)
  then show ?case using heap_pop_ok(3) by auto
qed (simp_all add: heap_push_inv heap_push_mset heap_pop_None heap_pop_ok)

end
