(* ===== verification/Cache.thy ===== *)
theory Cache
  imports MinHeap "HOL-Library.Product_Lexorder"
begin

text \<open>
  The shared block cache of \<^verbatim>\<open>cache.rs\<close>: a map from (reader id, block) to raw bytes with a
  byte cap, recency stamps from a wrapping 64-bit clock and lazy-deletion eviction over
  the heap of \<open>MinHeap\<close>. The mutex serialises the operations, so an execution is a
  sequence of them. \<open>lru_get\<close> and \<open>lru_insert\<close> are the reference: a plain
  least-recently-used list. A \<^verbatim>\<open>HashMap\<close> yields its entries in an unspecified order: the
  parameter \<open>iter\<close>.
\<close>

section \<open>State and operations\<close>

type_synonym ckey = "u64 \<times> u32"

record cache_entry =
  ce_gen :: u64
  ce_bytes :: bytes

record cache_state =
  cs_entries :: "ckey \<rightharpoonup> cache_entry"
  cs_clock :: u64
  cs_bytes :: nat
  cs_scan_steps :: u64
  cs_heap :: heap

record block_cache =
  bc_cap :: nat
  bc_state :: cache_state
  bc_hits :: u64
  bc_misses :: u64
  bc_evictions :: u64
  bc_next_id :: u64

type_synonym cache_iter = "(ckey \<rightharpoonup> cache_entry) \<Rightarrow> (ckey \<times> cache_entry) list"

definition iter_ok :: "cache_iter \<Rightarrow> bool" where
  "iter_ok iter \<longleftrightarrow> (\<forall>m. finite (dom m) \<longrightarrow> distinct (map fst (iter m)) \<and> set (iter m) = {(k, e). m k = Some e})"

text \<open>A node that names a live entry at an older stamp.\<close>

definition outdated :: "(ckey \<rightharpoonup> cache_entry) \<Rightarrow> heap_node \<Rightarrow> bool" where
  "outdated m n \<longleftrightarrow> (case m (hn_key n) of None \<Rightarrow> False | Some e \<Rightarrow> ce_gen e \<noteq> hn_gen n)"

function evict_loop :: "nat \<Rightarrow> nat \<Rightarrow> cache_state \<Rightarrow> u64 \<Rightarrow> cache_state \<times> u64" where
  "evict_loop cap needed st evicted =
    (if cs_bytes st + needed > cap then
       (case heap_pop (cs_heap st) of
          (None, h) \<Rightarrow> (st\<lparr>cs_heap := h\<rparr>, evicted)
        | (Some node, h) \<Rightarrow>
            (case cs_entries st (hn_key node) of
               None \<Rightarrow> evict_loop cap needed (st\<lparr>cs_heap := h\<rparr>) evicted
             | Some e \<Rightarrow>
                 if ce_gen e = hn_gen node then
                   evict_loop cap needed
                     (st\<lparr>cs_heap := h, cs_entries := (cs_entries st)(hn_key node := None),
                         cs_bytes := cs_bytes st - length (ce_bytes e)\<rparr>)
                     (evicted + 1)
                 else evict_loop cap needed (st\<lparr>cs_heap := heap_push h (ce_gen e) (hn_key node)\<rparr>) evicted))
     else (st, evicted))"
  by pat_completeness auto
termination
proof (relation "measures [\<lambda>(cap, needed, st, evicted). length (cs_heap st),
      \<lambda>(cap, needed, st, evicted). size (filter_mset (outdated (cs_entries st)) (mset (cs_heap st)))]",
    goal_cases)
  case (4 cap needed st evicted x h node e)
  then have pop: "heap_pop (cs_heap st) = (Some node, h)" by auto
  then show ?case using 4 heap_pop_mset [OF pop] by (auto simp: heap_push_mset outdated_def)
qed (auto dest!: heap_pop_mset(3) [OF sym])

declare evict_loop.simps [simp del]

definition evict_for :: "nat \<Rightarrow> nat \<Rightarrow> cache_state \<Rightarrow> cache_state \<times> u64" where
  "evict_for cap needed st = evict_loop cap needed st 0"

definition rebuild_heap :: "cache_iter \<Rightarrow> cache_state \<Rightarrow> cache_state" where
  "rebuild_heap iter st =
    st\<lparr>cs_heap := heapify (map (\<lambda>(key, e). \<lparr>hn_gen = ce_gen e, hn_key = key\<rparr>) (iter (cs_entries st))),
       cs_scan_steps := cs_scan_steps st + word_of_nat (card (dom (cs_entries st)))\<rparr>"

definition cache_new :: "nat \<Rightarrow> block_cache" where
  "cache_new cap =
    \<lparr>bc_cap = cap,
     bc_state = \<lparr>cs_entries = Map.empty, cs_clock = 0, cs_bytes = 0, cs_scan_steps = 0, cs_heap = []\<rparr>,
     bc_hits = 0, bc_misses = 0, bc_evictions = 0, bc_next_id = 0\<rparr>"

definition reader_id :: "block_cache \<Rightarrow> u64 \<times> block_cache" where
  "reader_id c = (bc_next_id c, c\<lparr>bc_next_id := bc_next_id c + 1\<rparr>)"

definition cache_get :: "block_cache \<Rightarrow> u64 \<Rightarrow> u32 \<Rightarrow> bytes option \<times> block_cache" where
  "cache_get c rid block =
    (let st = bc_state c in
     case cs_entries st (rid, block) of
       None \<Rightarrow> (None, c\<lparr>bc_misses := bc_misses c + 1\<rparr>)
     | Some e \<Rightarrow>
         let gen = cs_clock st + 1 in
         (Some (ce_bytes e),
          c\<lparr>bc_state := st\<lparr>cs_clock := gen, cs_entries := (cs_entries st)((rid, block) \<mapsto> e\<lparr>ce_gen := gen\<rparr>)\<rparr>,
            bc_hits := bc_hits c + 1\<rparr>))"

definition remove_old :: "cache_state \<Rightarrow> ckey \<Rightarrow> cache_state" where
  "remove_old st key =
    (case cs_entries st key of
       None \<Rightarrow> st
     | Some old \<Rightarrow> st\<lparr>cs_entries := (cs_entries st)(key := None), cs_bytes := cs_bytes st - length (ce_bytes old)\<rparr>)"

definition place_new :: "cache_iter \<Rightarrow> cache_state \<Rightarrow> ckey \<Rightarrow> bytes \<Rightarrow> cache_state" where
  "place_new iter st key raw =
    (let gen = cs_clock st + 1;
         st = st\<lparr>cs_clock := gen, cs_bytes := cs_bytes st + length raw,
                 cs_entries := (cs_entries st)(key \<mapsto> \<lparr>ce_gen = gen, ce_bytes = raw\<rparr>),
                 cs_heap := heap_push (cs_heap st) gen key\<rparr>
     in if length (cs_heap st) > 2 * card (dom (cs_entries st)) then rebuild_heap iter st else st)"

definition cache_insert :: "cache_iter \<Rightarrow> block_cache \<Rightarrow> u64 \<Rightarrow> u32 \<Rightarrow> bytes \<Rightarrow> block_cache" where
  "cache_insert iter c rid block raw =
    (if length raw > bc_cap c then c
     else
       let (st, n) = evict_for (bc_cap c) (length raw) (remove_old (bc_state c) (rid, block));
           c = (if n > 0 then c\<lparr>bc_evictions := bc_evictions c + n\<rparr> else c)
       in c\<lparr>bc_state := place_new iter st (rid, block) raw\<rparr>)"

definition cache_stats :: "block_cache \<Rightarrow> u64 \<times> u64 \<times> u64 \<times> nat" where
  "cache_stats c = (bc_hits c, bc_misses c, bc_evictions c, cs_bytes (bc_state c))"

text \<open>An execution: the operations in the order the mutex admits them, with the answers of
  the lookups.\<close>

datatype cache_op = CGet u64 u32 | CInsert u64 u32 bytes

fun cache_run :: "cache_iter \<Rightarrow> cache_op list \<Rightarrow> block_cache \<Rightarrow> bytes option list \<times> block_cache" where
  "cache_run iter [] c = ([], c)"
| "cache_run iter (CGet rid block # ops) c =
    (let (r, c1) = cache_get c rid block; (rs, c2) = cache_run iter ops c1 in (r # rs, c2))"
| "cache_run iter (CInsert rid block raw # ops) c = cache_run iter ops (cache_insert iter c rid block raw)"

section \<open>The reference: a least-recently-used list\<close>

type_synonym lru = "(ckey \<times> bytes) list"

definition lru_bytes :: "lru \<Rightarrow> nat" where
  "lru_bytes l = sum_list (map (length \<circ> snd) l)"

definition lru_without :: "ckey \<Rightarrow> lru \<Rightarrow> lru" where
  "lru_without key l = filter (\<lambda>p. fst p \<noteq> key) l"

fun lru_fit :: "nat \<Rightarrow> nat \<Rightarrow> lru \<Rightarrow> lru" where
  "lru_fit cap needed [] = []"
| "lru_fit cap needed (p # l) = (if lru_bytes (p # l) + needed > cap then lru_fit cap needed l else p # l)"

definition lru_get :: "ckey \<Rightarrow> lru \<Rightarrow> bytes option \<times> lru" where
  "lru_get key l = (case map_of l key of None \<Rightarrow> (None, l) | Some b \<Rightarrow> (Some b, lru_without key l @ [(key, b)]))"

definition lru_insert :: "nat \<Rightarrow> ckey \<Rightarrow> bytes \<Rightarrow> lru \<Rightarrow> lru" where
  "lru_insert cap key raw l =
    (if length raw > cap then l else lru_fit cap (length raw) (lru_without key l) @ [(key, raw)])"

fun lru_run :: "nat \<Rightarrow> cache_op list \<Rightarrow> lru \<Rightarrow> bytes option list \<times> lru" where
  "lru_run cap [] l = ([], l)"
| "lru_run cap (CGet rid block # ops) l =
    (let (r, l1) = lru_get (rid, block) l; (rs, l2) = lru_run cap ops l1 in (r # rs, l2))"
| "lru_run cap (CInsert rid block raw # ops) l = lru_run cap ops (lru_insert cap (rid, block) raw l)"

section \<open>Invariants\<close>

definition held_bytes :: "(ckey \<rightharpoonup> cache_entry) \<Rightarrow> nat" where
  "held_bytes m = (\<Sum>k\<in>dom m. length (ce_bytes (the (m k))))"

text \<open>The byte counter is exact, the heap is ordered and every live key keeps a node whose
  stamp is \<open>R\<close>-related to its own: no relation at all, or \<open>\<le>\<close> while the clock has not
  wrapped.\<close>

definition cache_inv :: "(u64 \<Rightarrow> u64 \<Rightarrow> bool) \<Rightarrow> cache_state \<Rightarrow> bool" where
  "cache_inv R st \<longleftrightarrow> finite (dom (cs_entries st)) \<and> cs_bytes st = held_bytes (cs_entries st) \<and> heap_inv (cs_heap st)
    \<and> (\<forall>k e. cs_entries st k = Some e \<longrightarrow> (\<exists>n \<in> set (cs_heap st). hn_key n = k \<and> R (hn_gen n) (ce_gen e)))"

lemma held_upd: "finite (dom m) \<Longrightarrow> m k = None \<Longrightarrow> held_bytes (m(k \<mapsto> e)) = held_bytes m + length (ce_bytes e)"
proof -
  assume f: "finite (dom m)" "m k = None"
  have "(\<Sum>x\<in>dom m. length (ce_bytes (the ((m(k \<mapsto> e)) x)))) = (\<Sum>x\<in>dom m. length (ce_bytes (the (m x))))"
    using f(2) by (intro sum.cong) auto
  then show ?thesis using f by (simp add: held_bytes_def domIff)
qed

lemma held_del:
  assumes "finite (dom m)" "m k = Some e"
  shows "held_bytes m = held_bytes (m(k := None)) + length (ce_bytes e)"
proof -
  have "m = (m(k := None))(k \<mapsto> e)" using assms by auto
  then show ?thesis using held_upd [of "m(k := None)" k e] assms by simp
qed

lemma held_touch: "m k = Some e \<Longrightarrow> held_bytes (m(k \<mapsto> e\<lparr>ce_gen := g\<rparr>)) = held_bytes m"
  unfolding held_bytes_def by (rule sum.cong) auto

lemma cache_inv_pop:
  assumes "cache_inv R st" and "\<And>g. R g g" and "heap_pop (cs_heap st) = (Some n, h)"
  shows "cs_entries st (hn_key n) = None \<Longrightarrow> cache_inv R (st\<lparr>cs_heap := h\<rparr>)"
    and "cs_entries st (hn_key n) = Some e \<Longrightarrow>
      cache_inv R (st\<lparr>cs_heap := h, cs_entries := (cs_entries st)(hn_key n := None),
        cs_bytes := cs_bytes st - length (ce_bytes e)\<rparr>)"
    and "cs_entries st (hn_key n) = Some e \<Longrightarrow>
      cache_inv R (st\<lparr>cs_heap := heap_push h (ce_gen e) (hn_key n)\<rparr>)"
proof -
  have inv: "heap_inv (cs_heap st)" using assms(1) by (simp add: cache_inv_def)
  note hp = heap_queue.inv_pop [OF inv assms(3)] heap_queue.nodes_pop [OF inv assms(3)]
  have set: "set (cs_heap st) = insert n (set h)" using hp(2) by (metis set_mset_add_mset_insert set_mset_mset)
  show "cs_entries st (hn_key n) = None \<Longrightarrow> cache_inv R (st\<lparr>cs_heap := h\<rparr>)"
    using assms(1) hp(1) by (fastforce simp: cache_inv_def set)
  show "cs_entries st (hn_key n) = Some e \<Longrightarrow>
      cache_inv R (st\<lparr>cs_heap := h, cs_entries := (cs_entries st)(hn_key n := None),
        cs_bytes := cs_bytes st - length (ce_bytes e)\<rparr>)"
    using assms(1) hp(1) held_del [of "cs_entries st" "hn_key n" e] by (fastforce simp: cache_inv_def set)
  show "cs_entries st (hn_key n) = Some e \<Longrightarrow>
      cache_inv R (st\<lparr>cs_heap := heap_push h (ce_gen e) (hn_key n)\<rparr>)"
    using assms(1,2) heap_queue.inv_push [OF hp(1)] by (fastforce simp: cache_inv_def set set_heap_push)
qed

lemma cache_inv_empty_heap: "cache_inv R st \<Longrightarrow> cs_heap st = [] \<Longrightarrow> cs_bytes st = 0"
  by (auto simp: cache_inv_def held_bytes_def dom_def)

lemma evict_loop_ok:
  assumes "cache_inv R st" and "\<And>g. R g g" and "needed \<le> cap" and "evict_loop cap needed st n = (st', n')"
  shows "cache_inv R st' \<and> cs_bytes st' + needed \<le> cap \<and> cs_entries st' \<subseteq>\<^sub>m cs_entries st \<and> cs_clock st' = cs_clock st"
  using assms
proof (induction cap needed st n rule: evict_loop.induct)
  case (1 cap needed st n)
  show ?case
  proof (cases "cs_bytes st + needed > cap")
    case False
    then show ?thesis using "1.prems" by (simp add: evict_loop.simps [of cap needed st n])
  next
    case big: True
    obtain node h where pop: "heap_pop (cs_heap st) = (Some node, h)"
      using cache_inv_empty_heap [OF "1.prems"(1)] big "1.prems"(3) heap_pop_None [of "cs_heap st"]
      by (cases "heap_pop (cs_heap st)"; cases "fst (heap_pop (cs_heap st))") auto
    note step = cache_inv_pop [OF "1.prems"(1,2) pop]
    show ?thesis
    proof (cases "cs_entries st (hn_key node)")
      case None
      then have "evict_loop cap needed (st\<lparr>cs_heap := h\<rparr>) n = (st', n')"
        using "1.prems"(4) big pop by (simp add: evict_loop.simps [of cap needed st n])
      from "1.IH"(1) [OF big pop [symmetric] refl None step(1) [OF None] "1.prems"(2,3) this]
      show ?thesis by simp
    next
      case (Some e)
      show ?thesis
      proof (cases "ce_gen e = hn_gen node")
        case True
        then have "evict_loop cap needed
            (st\<lparr>cs_heap := h, cs_entries := (cs_entries st)(hn_key node := None),
                cs_bytes := cs_bytes st - length (ce_bytes e)\<rparr>) (n + 1) = (st', n')"
          using "1.prems"(4) big pop Some by (simp add: evict_loop.simps [of cap needed st n])
        from "1.IH"(2) [OF big pop [symmetric] refl Some True step(2) [OF Some] "1.prems"(2,3) this]
        show ?thesis by (auto simp: map_le_def split: if_splits)
      next
        case False
        then have "evict_loop cap needed (st\<lparr>cs_heap := heap_push h (ce_gen e) (hn_key node)\<rparr>) n = (st', n')"
          using "1.prems"(4) big pop Some by (simp add: evict_loop.simps [of cap needed st n])
        from "1.IH"(3) [OF big pop [symmetric] refl Some False step(3) [OF Some] "1.prems"(2,3) this]
        show ?thesis by simp
      qed
    qed
  qed
qed

definition cache_ok :: "(u64 \<Rightarrow> u64 \<Rightarrow> bool) \<Rightarrow> block_cache \<Rightarrow> bool" where
  "cache_ok R c \<longleftrightarrow> cache_inv R (bc_state c) \<and> cs_bytes (bc_state c) \<le> bc_cap c
    \<and> length (cs_heap (bc_state c)) \<le> 2 * card (dom (cs_entries (bc_state c)))"

lemma cache_ok_new: "cache_ok R (cache_new cap)"
  by (simp add: cache_ok_def cache_new_def cache_inv_def held_bytes_def heap_queue.inv_empty)

lemma cache_inv_remove_old:
  "cache_inv R st \<Longrightarrow> cache_inv R (remove_old st key) \<and> cs_entries (remove_old st key) = (cs_entries st)(key := None)
    \<and> cs_clock (remove_old st key) = cs_clock st"
  using held_del [of "cs_entries st" key]
  by (auto simp: remove_old_def cache_inv_def fun_upd_idem_iff split: option.splits if_splits)

lemma iter_nodes:
  assumes "iter_ok iter" and "finite (dom m)"
  shows "set (map (\<lambda>(key, e). \<lparr>hn_gen = ce_gen e, hn_key = key\<rparr>) (iter m))
      = {\<lparr>hn_gen = ce_gen e, hn_key = k\<rparr> | k e. m k = Some e}"
    and "length (iter m) = card (dom m)"
proof -
  have it: "distinct (map fst (iter m))" "set (iter m) = {(k, e). m k = Some e}"
    using assms by (auto simp: iter_ok_def)
  show "set (map (\<lambda>(key, e). \<lparr>hn_gen = ce_gen e, hn_key = key\<rparr>) (iter m))
      = {\<lparr>hn_gen = ce_gen e, hn_key = k\<rparr> | k e. m k = Some e}"
    by (auto simp: it(2) image_def)
  have "fst ` set (iter m) = dom m" by (force simp: it(2))
  then show "length (iter m) = card (dom m)"
    using distinct_card [OF it(1)] by simp
qed

lemma place_new_ok:
  assumes "cache_inv R st" and "\<And>g. R g g" and "iter_ok iter" and "cs_entries st key = None"
    and "place_new iter st key raw = st'"
  shows "cache_inv R st'" and "cs_entries st' = (cs_entries st)(key \<mapsto> \<lparr>ce_gen = cs_clock st + 1, ce_bytes = raw\<rparr>)"
    and "cs_clock st' = cs_clock st + 1" and "cs_bytes st' = cs_bytes st + length raw"
    and "length (cs_heap st') \<le> 2 * card (dom (cs_entries st'))"
proof -
  let ?m = "(cs_entries st)(key \<mapsto> \<lparr>ce_gen = cs_clock st + 1, ce_bytes = raw\<rparr>)"
  let ?h = "heap_push (cs_heap st) (cs_clock st + 1) key"
  let ?nodes = "map (\<lambda>(key, e). \<lparr>hn_gen = ce_gen e, hn_key = key\<rparr>) (iter ?m)"
  have fin: "finite (dom ?m)" using assms(1) by (simp add: cache_inv_def)
  have held_bytes: "held_bytes ?m = cs_bytes st + length raw"
    using assms(1,4) held_upd [of "cs_entries st" key] by (simp add: cache_inv_def)
  have push: "set ?h = insert \<lparr>hn_gen = cs_clock st + 1, hn_key = key\<rparr> (set (cs_heap st))"
    by (rule set_heap_push)
  have build: "set (heapify ?nodes) = {\<lparr>hn_gen = ce_gen e, hn_key = k\<rparr> | k e. ?m k = Some e}"
    using iter_nodes(1) [OF assms(3) fin] by (simp only: set_heapify)
  have hinv: "heap_inv ?h" "heap_inv (heapify ?nodes)"
    using assms(1) heapify_ok heap_push_inv by (auto simp: cache_inv_def)
  have st': "st' = (if length ?h > 2 * card (dom ?m)
      then st\<lparr>cs_clock := cs_clock st + 1, cs_bytes := cs_bytes st + length raw, cs_entries := ?m, cs_heap := heapify ?nodes,
             cs_scan_steps := cs_scan_steps st + word_of_nat (card (dom ?m))\<rparr>
      else st\<lparr>cs_clock := cs_clock st + 1, cs_bytes := cs_bytes st + length raw, cs_entries := ?m, cs_heap := ?h\<rparr>)"
    using assms(5) by (auto simp: place_new_def rebuild_heap_def Let_def)
  have n1: "\<exists>n \<in> set ?h. hn_key n = k \<and> R (hn_gen n) (ce_gen e)" if "?m k = Some e" for k e
  proof (cases "k = key")
    case True
    then show ?thesis using assms(2) that unfolding push by auto
  next
    case False
    then have "cs_entries st k = Some e" using that by simp
    with assms(1) show ?thesis unfolding push cache_inv_def by blast
  qed
  have n2: "\<exists>n \<in> set (heapify ?nodes). hn_key n = k \<and> R (hn_gen n) (ce_gen e)" if "?m k = Some e" for k e
  proof
    show "\<lparr>hn_gen = ce_gen e, hn_key = k\<rparr> \<in> set (heapify ?nodes)" unfolding build using that by blast
  qed (simp add: assms(2))
  show "cache_inv R st'"
    unfolding cache_inv_def st' using fin held_bytes hinv n1 n2 by (cases "length ?h > 2 * card (dom ?m)") simp_all
  show "cs_entries st' = ?m" "cs_clock st' = cs_clock st + 1" "cs_bytes st' = cs_bytes st + length raw"
    by (simp_all add: st')
  have "length (heapify ?nodes) = card (dom ?m)"
    using iter_nodes(2) [OF assms(3) fin] by (simp only: length_heapify length_map)
  then show "length (cs_heap st') \<le> 2 * card (dom (cs_entries st'))"
    unfolding st' by auto
qed

lemma cache_ok_insert:
  assumes "cache_ok R c" and "\<And>g. R g g" and "iter_ok iter" and "length raw \<le> bc_cap c"
    and "evict_for (bc_cap c) (length raw) (remove_old (bc_state c) (rid, block)) = (st, n)"
  shows "cache_ok R (cache_insert iter c rid block raw)"
    and "bc_state (cache_insert iter c rid block raw) = place_new iter st (rid, block) raw"
    and "cache_inv R st" and "cs_entries st (rid, block) = None" and "cs_clock st = cs_clock (bc_state c)"
    and "cs_entries st \<subseteq>\<^sub>m (cs_entries (bc_state c))((rid, block) := None)"
proof -
  have inv: "cache_inv R (bc_state c)" using assms(1) by (simp add: cache_ok_def)
  note ro = cache_inv_remove_old [OF inv, of "(rid, block)"]
  note ev = evict_loop_ok [OF conjunct1 [OF ro] assms(2,4) assms(5) [unfolded evict_for_def]]
  show st: "cache_inv R st" "cs_clock st = cs_clock (bc_state c)"
    "cs_entries st \<subseteq>\<^sub>m (cs_entries (bc_state c))((rid, block) := None)"
    using ev ro by auto
  show none: "cs_entries st (rid, block) = None"
    using st(3) by (metis domIff fun_upd_same map_le_def)
  show eq: "bc_state (cache_insert iter c rid block raw) = place_new iter st (rid, block) raw"
    using assms(4,5) by (simp add: cache_insert_def)
  have "bc_cap (cache_insert iter c rid block raw) = bc_cap c"
    by (simp add: cache_insert_def split: prod.splits)
  then show "cache_ok R (cache_insert iter c rid block raw)"
    using place_new_ok [OF st(1) assms(2,3) none refl, of raw] ev unfolding cache_ok_def eq by simp
qed

lemma cache_insert_big: "bc_cap c < length raw \<Longrightarrow> cache_insert iter c rid block raw = c"
  by (simp add: cache_insert_def)

lemma cap_insert [simp]: "bc_cap (cache_insert iter c rid block raw) = bc_cap c"
  by (simp add: cache_insert_def split: prod.splits)

lemma cap_get [simp]: "bc_cap (snd (cache_get c rid block)) = bc_cap c"
  by (simp add: cache_get_def Let_def split: option.splits)

lemma cache_ok_get:
  assumes "cache_ok R c"
    and "\<And>e g. cs_entries (bc_state c) (rid, block) = Some e \<Longrightarrow> R g (ce_gen e) \<Longrightarrow> R g (cs_clock (bc_state c) + 1)"
  shows "cache_ok R (snd (cache_get c rid block))"
proof (cases "cs_entries (bc_state c) (rid, block)")
  case None
  then show ?thesis using assms(1) by (simp add: cache_get_def cache_ok_def)
next
  case (Some e)
  let ?k = "(rid, block)" and ?m = "cs_entries (bc_state c)"
  have "dom (?m(?k \<mapsto> e')) = dom ?m" for e' using Some by auto
  moreover have "held_bytes (?m(?k \<mapsto> e\<lparr>ce_gen := g\<rparr>)) = held_bytes ?m" for g
    using held_touch [of ?m ?k e] Some by simp
  ultimately show ?thesis using assms Some
    by (fastforce simp: cache_get_def cache_ok_def cache_inv_def Let_def)
qed

section \<open>Recency\<close>

definition gen_of :: "cache_state \<Rightarrow> ckey \<Rightarrow> u64" where
  "gen_of st k = ce_gen (the (cs_entries st k))"

text \<open>The reference list holds the entries in the order of their stamps, which are at most
  the clock.\<close>

definition lru_rel :: "cache_state \<Rightarrow> lru \<Rightarrow> bool" where
  "lru_rel st l \<longleftrightarrow> distinct (map fst l) \<and> map_of l = (\<lambda>k. map_option ce_bytes (cs_entries st k))
    \<and> sorted_wrt (\<lambda>p q. gen_of st (fst p) < gen_of st (fst q)) l
    \<and> (\<forall>k e. cs_entries st k = Some e \<longrightarrow> ce_gen e \<le> cs_clock st)"

lemma lru_rel_in: "lru_rel st l \<Longrightarrow> (k, b) \<in> set l \<longleftrightarrow> (\<exists>e. cs_entries st k = Some e \<and> ce_bytes e = b)"
proof -
  assume r: "lru_rel st l"
  have "map_of l k = Some b \<longleftrightarrow> (k, b) \<in> set l"
    using r by (intro map_of_eq_Some_iff) (simp add: lru_rel_def)
  moreover have "map_of l k = map_option ce_bytes (cs_entries st k)" using r by (simp add: lru_rel_def)
  ultimately show ?thesis by auto
qed

lemma lru_rel_gen: "lru_rel st l \<Longrightarrow> cs_entries st k = Some e \<Longrightarrow> ce_gen e \<le> cs_clock st"
  unfolding lru_rel_def by blast

lemma lru_rel_dom: "lru_rel st l \<Longrightarrow> fst ` set l = dom (cs_entries st)"
  using dom_map_of_conv_image_fst [of l] by (auto simp: lru_rel_def dom_def)

lemma lru_rel_bytes:
  assumes "lru_rel st l"
  shows "lru_bytes l = held_bytes (cs_entries st)"
proof -
  let ?f = "\<lambda>k. length (ce_bytes (the (cs_entries st k)))"
  have "map (length \<circ> snd) l = map ?f (map fst l)"
    using lru_rel_in [OF assms] by (auto intro!: map_cong)
  then have "lru_bytes l = sum_list (map ?f (map fst l))" by (simp only: lru_bytes_def)
  also have "\<dots> = sum ?f (set (map fst l))"
    using assms by (intro sum_list_distinct_conv_sum_set) (simp add: lru_rel_def)
  finally show ?thesis using lru_rel_dom [OF assms] by (simp add: held_bytes_def)
qed

lemma map_of_without: "map_of (lru_without k l) = (map_of l)(k := None)"
  by (induction l) (auto simp: lru_without_def)

lemma lru_without_id: "k \<notin> fst ` set l \<Longrightarrow> lru_without k l = l"
  by (force simp: lru_without_def filter_id_conv)

lemma distinct_without: "distinct (map fst l) \<Longrightarrow> distinct (map fst (lru_without k l))"
  by (simp add: lru_without_def distinct_map_filter)

lemma sorted_without:
  "sorted_wrt P l \<Longrightarrow> sorted_wrt P (lru_without k l)"
  by (simp add: lru_without_def sorted_wrt_filter)

lemma fst_without: "p \<in> set (lru_without k l) \<longleftrightarrow> p \<in> set l \<and> fst p \<noteq> k"
  by (auto simp: lru_without_def)

text \<open>Removing a key from both sides, and appending a key under a fresh stamp.\<close>

lemma lru_rel_remove:
  assumes "lru_rel st l" and "cs_entries st' = (cs_entries st)(k := None)" and "cs_clock st' = cs_clock st"
  shows "lru_rel st' (lru_without k l)"
proof -
  have "gen_of st' (fst p) = gen_of st (fst p)" if "p \<in> set (lru_without k l)" for p
    using that assms(2) by (simp add: gen_of_def fst_without)
  then have "sorted_wrt (\<lambda>p q. gen_of st' (fst p) < gen_of st' (fst q)) (lru_without k l)"
    using assms(1) by (intro sorted_wrt_mono_rel [OF _ sorted_without]) (auto simp: lru_rel_def)
  then show ?thesis using assms by (auto simp: lru_rel_def map_of_without distinct_without fun_eq_iff)
qed

lemma lru_rel_append:
  assumes "lru_rel st l" and "cs_entries st k = None" and "cs_clock st \<noteq> -1"
    and "cs_entries st' = (cs_entries st)(k \<mapsto> \<lparr>ce_gen = cs_clock st + 1, ce_bytes = b\<rparr>)" and "cs_clock st' = cs_clock st + 1"
  shows "lru_rel st' (l @ [(k, b)])"
proof -
  have lt: "cs_clock st < cs_clock st + 1" using assms(3) by (rule word_less_succ)
  have nk: "k \<notin> fst ` set l" using lru_rel_dom [OF assms(1)] assms(2) by auto
  have g: "gen_of st' (fst p) = gen_of st (fst p)" "gen_of st (fst p) < cs_clock st + 1" if "p \<in> set l" for p
  proof -
    have "fst p \<in> dom (cs_entries st)" using imageI [OF that, of fst] lru_rel_dom [OF assms(1)] by simp
    then obtain e where "cs_entries st (fst p) = Some e" by blast
    moreover have "fst p \<noteq> k" using nk that by auto
    ultimately show "gen_of st' (fst p) = gen_of st (fst p)" "gen_of st (fst p) < cs_clock st + 1"
      using assms(4) lt lru_rel_gen [OF assms(1), of "fst p" e] by (simp_all add: gen_of_def)
  qed
  have "sorted_wrt (\<lambda>p q. gen_of st' (fst p) < gen_of st' (fst q)) l"
  proof (rule sorted_wrt_mono_rel)
    show "sorted_wrt (\<lambda>p q. gen_of st (fst p) < gen_of st (fst q)) l" using assms(1) by (simp add: lru_rel_def)
  qed (simp add: g(1))
  moreover have "gen_of st' k = cs_clock st + 1" using assms(4) by (simp add: gen_of_def)
  moreover have "ce_gen e \<le> cs_clock st + 1" if "cs_entries st x = Some e" for x e
    using lru_rel_gen [OF assms(1) that] lt by simp
  moreover have "map_of (l @ [(k, b)]) = (\<lambda>x. map_option ce_bytes (cs_entries st' x))"
  proof
    fix x
    have "map_of l x = map_option ce_bytes (cs_entries st x)" using assms(1) by (simp add: lru_rel_def)
    then show "map_of (l @ [(k, b)]) x = map_option ce_bytes (cs_entries st' x)"
      using assms(2,4) by (cases "cs_entries st x") (auto simp: map_add_def)
  qed
  moreover have "distinct (map fst (l @ [(k, b)]))" using assms(1) nk by (simp add: lru_rel_def)
  moreover have "ce_gen e \<le> cs_clock st'" if "cs_entries st' x = Some e" for x e
    using that assms(4,5) calculation(3) [of x e] by (cases "x = k") auto
  ultimately show ?thesis
    using g assms(4,5) unfolding lru_rel_def by (simp add: sorted_wrt_append)
qed

lemma lru_fit_fits: "lru_bytes l + needed \<le> cap \<Longrightarrow> lru_fit cap needed l = l"
  by (cases l) auto

lemma lru_rel_cong: "lru_rel st l \<Longrightarrow> cs_entries st' = cs_entries st \<Longrightarrow> cs_clock st' = cs_clock st \<Longrightarrow> lru_rel st' l"
  by (simp add: lru_rel_def gen_of_def)

lemma popped_is_oldest:
  assumes "cache_inv (\<le>) st" and "lru_rel st l" and "heap_pop (cs_heap st) = (Some n, h)"
    and "cs_entries st (hn_key n) = Some e" and "ce_gen e = hn_gen n"
  obtains l' where "l = (hn_key n, ce_bytes e) # l'" and "lru_without (hn_key n) l = l'"
proof -
  let ?live = "\<lambda>k. map_option ce_gen (cs_entries st k)"
  have node: "\<exists>m \<in># mset (cs_heap st). hn_key m = k \<and> hn_gen m \<le> s" if "?live k = Some s" for k s
    using assms(1) that unfolding cache_inv_def by fastforce
  have inv: "heap_inv (cs_heap st)" using assms(1) by (simp add: cache_inv_def)
  have least: "hn_gen n \<le> s" if "?live k = Some s" for k s
    by (rule heap_queue.pop_least_recent [where live = ?live, OF inv assms(3) node that])
  have mem: "(hn_key n, ce_bytes e) \<in> set l" using lru_rel_in [OF assms(2)] assms(4) by blast
  then obtain k0 b0 l' where l: "l = (k0, b0) # l'" by (cases l) auto
  have k0: "k0 = hn_key n"
  proof (rule ccontr)
    assume ne: "k0 \<noteq> hn_key n"
    then have "(hn_key n, ce_bytes e) \<in> set l'" using mem l by auto
    then have "gen_of st k0 < gen_of st (hn_key n)" using assms(2) l unfolding lru_rel_def by fastforce
    moreover obtain e0 where "cs_entries st k0 = Some e0" using lru_rel_in [OF assms(2), of k0 b0] l by auto
    ultimately show False using least [of k0 "ce_gen e0"] assms(4,5) by (simp add: gen_of_def)
  qed
  have "distinct (map fst l)" using assms(2) by (simp add: lru_rel_def)
  then have nk: "hn_key n \<notin> fst ` set l'" using l k0 by simp
  moreover have "b0 = ce_bytes e" using nk mem l k0 imageI [of "(hn_key n, ce_bytes e)" "set l'" fst] by auto
  moreover have "lru_without (hn_key n) l = l'"
    using lru_without_id [OF nk] l k0 by (simp add: lru_without_def)
  ultimately show thesis using that l k0 by blast
qed

lemma evict_loop_lru:
  assumes "cache_inv (\<le>) st" and "lru_rel st l" and "needed \<le> cap" and "evict_loop cap needed st n = (st', n')"
  shows "lru_rel st' (lru_fit cap needed l)"
  using assms
proof (induction cap needed st n arbitrary: l rule: evict_loop.induct)
  case (1 cap needed st n)
  have bytes: "lru_bytes l = cs_bytes st"
    using lru_rel_bytes [OF "1.prems"(2)] "1.prems"(1) by (simp add: cache_inv_def)
  show ?case
  proof (cases "cs_bytes st + needed > cap")
    case False
    then show ?thesis using "1.prems" bytes by (simp add: evict_loop.simps [of cap needed st n] lru_fit_fits)
  next
    case big: True
    obtain node h where pop: "heap_pop (cs_heap st) = (Some node, h)"
      using cache_inv_empty_heap [OF "1.prems"(1)] big "1.prems"(3) heap_pop_None [of "cs_heap st"]
      by (cases "heap_pop (cs_heap st)"; cases "fst (heap_pop (cs_heap st))") auto
    note step = cache_inv_pop [OF "1.prems"(1) order_refl pop]
    show ?thesis
    proof (cases "cs_entries st (hn_key node)")
      case None
      then have "evict_loop cap needed (st\<lparr>cs_heap := h\<rparr>) n = (st', n')"
        using "1.prems"(4) big pop by (simp add: evict_loop.simps [of cap needed st n])
      from "1.IH"(1) [OF big pop [symmetric] refl None step(1) [OF None] lru_rel_cong [OF "1.prems"(2)] "1.prems"(3) this]
      show ?thesis by simp
    next
      case (Some e)
      show ?thesis
      proof (cases "ce_gen e = hn_gen node")
        case True
        let ?st = "st\<lparr>cs_heap := h, cs_entries := (cs_entries st)(hn_key node := None),
          cs_bytes := cs_bytes st - length (ce_bytes e)\<rparr>"
        obtain l' where l': "l = (hn_key node, ce_bytes e) # l'" "lru_without (hn_key node) l = l'"
          using popped_is_oldest [OF "1.prems"(1,2) pop Some True] by blast
        have "evict_loop cap needed ?st (n + 1) = (st', n')"
          using True "1.prems"(4) big pop Some by (simp add: evict_loop.simps [of cap needed st n])
        moreover have "lru_rel ?st l'"
          using lru_rel_remove [OF "1.prems"(2), of ?st "hn_key node"] l'(2) by simp
        ultimately have "lru_rel st' (lru_fit cap needed l')"
          using "1.IH"(2) [OF big pop [symmetric] refl Some True step(2) [OF Some] _ "1.prems"(3)] by blast
        then show ?thesis using l'(1) big bytes by simp
      next
        case False
        then have "evict_loop cap needed (st\<lparr>cs_heap := heap_push h (ce_gen e) (hn_key node)\<rparr>) n = (st', n')"
          using "1.prems"(4) big pop Some by (simp add: evict_loop.simps [of cap needed st n])
        from "1.IH"(3) [OF big pop [symmetric] refl Some False step(3) [OF Some]
            lru_rel_cong [OF "1.prems"(2)] "1.prems"(3) this]
        show ?thesis by simp
      qed
    qed
  qed
qed

text \<open>One operation, then a run of them: as long as the clock does not wrap, the cache and
  the reference list stay related and answer alike.\<close>

lemma unat_succ_le: "unat (w + 1 :: u64) \<le> Suc (unat w)"
  using unatSuc [of w] by (cases "1 + w = 0") (simp_all add: add.commute)

lemma no_wrap: "unat (w :: u64) + Suc n < 2 ^ 64 \<Longrightarrow> w \<noteq> -1"
proof
  have "unat (- 1 :: u64) = 2 ^ 64 - 1" by transfer (simp add: mask_eq_exp_minus_1)
  moreover assume "unat w + Suc n < 2 ^ 64" "w = - 1"
  ultimately show False by simp
qed

definition lru_sim :: "block_cache \<Rightarrow> lru \<Rightarrow> bool" where
  "lru_sim c l \<longleftrightarrow> cache_ok (\<le>) c \<and> lru_rel (bc_state c) l"

lemma lru_sim_new: "lru_sim (cache_new cap) []"
  using cache_ok_new by (auto simp: lru_sim_def lru_rel_def cache_new_def)

lemma lru_sim_get:
  assumes "lru_sim c l" and "cs_clock (bc_state c) \<noteq> -1"
    and "cache_get c rid block = (r, c')" and "lru_get (rid, block) l = (s, l')"
  shows "r = s \<and> lru_sim c' l' \<and> unat (cs_clock (bc_state c')) \<le> Suc (unat (cs_clock (bc_state c)))"
proof -
  let ?st = "bc_state c" and ?k = "(rid, block)"
  have rel: "lru_rel ?st l" and ok: "cache_ok (\<le>) c" using assms(1) by (auto simp: lru_sim_def)
  have lt: "cs_clock ?st < cs_clock ?st + 1" using assms(2) by (rule word_less_succ)
  have "cache_ok (\<le>) (snd (cache_get c rid block))"
  proof (rule cache_ok_get [OF ok])
    fix e g assume "cs_entries ?st ?k = Some e" "g \<le> ce_gen e"
    then show "g \<le> cs_clock ?st + 1" using lru_rel_gen [OF rel, of ?k e] lt by simp
  qed
  then have ok': "cache_ok (\<le>) c'" using assms(3) by simp
  have m: "map_of l ?k = map_option ce_bytes (cs_entries ?st ?k)" using rel by (simp add: lru_rel_def)
  show ?thesis
  proof (cases "cs_entries ?st ?k")
    case None
    then show ?thesis using assms(1,3,4) m by (auto simp: cache_get_def lru_get_def lru_sim_def cache_ok_def)
  next
    case (Some e)
    let ?st1 = "?st\<lparr>cs_entries := (cs_entries ?st)(?k := None)\<rparr>"
    have c': "bc_state c' = ?st\<lparr>cs_clock := cs_clock ?st + 1, cs_entries := (cs_entries ?st)(?k \<mapsto> e\<lparr>ce_gen := cs_clock ?st + 1\<rparr>)\<rparr>"
      using assms(3) Some by (auto simp: cache_get_def Let_def)
    have touched: "e\<lparr>ce_gen := g\<rparr> = \<lparr>ce_gen = g, ce_bytes = ce_bytes e\<rparr>" for g by simp
    have "lru_rel ?st1 (lru_without ?k l)" by (rule lru_rel_remove [OF rel]) simp_all
    then have "lru_rel (bc_state c') (lru_without ?k l @ [(?k, ce_bytes e)])"
      by (rule lru_rel_append) (simp_all add: c' assms(2) touched)
    moreover have "r = Some (ce_bytes e)" using assms(3) Some by (auto simp: cache_get_def Let_def)
    moreover have "map_of l ?k = Some (ce_bytes e)" using m Some by simp
    then have "s = Some (ce_bytes e)" "l' = lru_without ?k l @ [(?k, ce_bytes e)]"
      using assms(4) by (simp_all add: lru_get_def)
    moreover have "cs_clock (bc_state c') = cs_clock ?st + 1" using c' by simp
    ultimately show ?thesis using ok' unat_succ_le [of "cs_clock ?st"] by (simp add: lru_sim_def)
  qed
qed

lemma lru_sim_insert:
  assumes "lru_sim c l" and "cs_clock (bc_state c) \<noteq> -1" and "iter_ok iter"
  shows "lru_sim (cache_insert iter c rid block raw) (lru_insert (bc_cap c) (rid, block) raw l)"
    and "unat (cs_clock (bc_state (cache_insert iter c rid block raw))) \<le> Suc (unat (cs_clock (bc_state c)))"
proof -
  let ?st = "bc_state c" and ?k = "(rid, block)"
  have rel: "lru_rel ?st l" and ok: "cache_ok (\<le>) c" using assms(1) by (auto simp: lru_sim_def)
  have "lru_sim (cache_insert iter c rid block raw) (lru_insert (bc_cap c) ?k raw l)
    \<and> unat (cs_clock (bc_state (cache_insert iter c rid block raw))) \<le> Suc (unat (cs_clock ?st))"
  proof (cases "bc_cap c < length raw")
    case True
    then show ?thesis using assms(1) by (simp add: cache_insert_big lru_insert_def)
  next
    case False
    obtain st n where ev: "evict_for (bc_cap c) (length raw) (remove_old ?st ?k) = (st, n)" by fastforce
    note ins = cache_ok_insert [OF ok order_refl assms(3) _ ev]
    have len: "length raw \<le> bc_cap c" using False by simp
    have "cache_inv (\<le>) ?st" using ok by (simp add: cache_ok_def)
    note ro = cache_inv_remove_old [OF this, of ?k]
    have "lru_rel (remove_old ?st ?k) (lru_without ?k l)" using lru_rel_remove [OF rel] ro by blast
    then have fit: "lru_rel st (lru_fit (bc_cap c) (length raw) (lru_without ?k l))"
      using evict_loop_lru [OF conjunct1 [OF ro] _ len] ev by (simp add: evict_for_def)
    note place = place_new_ok [OF ins(3) [OF len] order_refl assms(3) ins(4) [OF len] refl]
    have "lru_rel (bc_state (cache_insert iter c rid block raw))
        (lru_fit (bc_cap c) (length raw) (lru_without ?k l) @ [(?k, raw)])"
      unfolding ins(2) [OF len]
      by (rule lru_rel_append [OF fit ins(4) [OF len]]) (simp_all add: place assms(2) ins(5) [OF len])
    then show ?thesis
      using ins(1,2,5) [OF len] place(3) unat_succ_le [of "cs_clock ?st"] False
      by (simp add: lru_sim_def lru_insert_def)
  qed
  then show "lru_sim (cache_insert iter c rid block raw) (lru_insert (bc_cap c) ?k raw l)"
    "unat (cs_clock (bc_state (cache_insert iter c rid block raw))) \<le> Suc (unat (cs_clock ?st))" by simp_all
qed

lemma lru_sim_run:
  assumes "lru_sim c l" and "unat (cs_clock (bc_state c)) + length ops < 2 ^ 64" and "iter_ok iter"
    and "cache_run iter ops c = (rs, c')" and "lru_run (bc_cap c) ops l = (ss, l')"
  shows "rs = ss \<and> lru_sim c' l'"
  using assms
proof (induction iter ops c arbitrary: l rs ss rule: cache_run.induct)
  case (2 iter rid block ops c)
  obtain r c1 where g: "cache_get c rid block = (r, c1)" by fastforce
  obtain s l1 where h: "lru_get (rid, block) l = (s, l1)" by fastforce
  obtain rs1 where rs: "cache_run iter ops c1 = (rs1, c')" "rs = r # rs1"
    using "2.prems"(4) g by (auto split: prod.splits)
  obtain ss1 where ss: "lru_run (bc_cap c) ops l1 = (ss1, l')" "ss = s # ss1"
    using "2.prems"(5) h by (auto split: prod.splits)
  have "cs_clock (bc_state c) \<noteq> -1" using "2.prems"(2) by (intro no_wrap) simp
  note st = lru_sim_get [OF "2.prems"(1) this g h]
  have "bc_cap c1 = bc_cap c" using cap_get [of c rid block] g by simp
  then have "rs1 = ss1 \<and> lru_sim c' l'"
    using "2.IH" [OF g [symmetric] refl conjunct1 [OF conjunct2 [OF st]] _ "2.prems"(3) rs(1)] ss(1) st "2.prems"(2) by simp
  then show ?case using rs ss st by simp
next
  case (3 iter rid block raw ops c)
  have "cs_clock (bc_state c) \<noteq> -1" using "3.prems"(2) by (intro no_wrap) simp
  note st = lru_sim_insert [OF "3.prems"(1) this "3.prems"(3), of rid block raw]
  show ?case using "3.IH" [OF st(1) _ "3.prems"(3)] st(2) "3.prems" by simp
qed auto

definition lru_iter :: cache_iter where
  "lru_iter m = map (\<lambda>k. (k, the (m k))) (sorted_list_of_set (dom m))"

lemma lru_iter_ok: "iter_ok lru_iter"
  unfolding iter_ok_def lru_iter_def
  by (auto simp: comp_def dom_def image_def)

section \<open>Properties\<close>

text \<open>C15. Until the clock wraps (fewer than 2^64 operations) the cache is exactly a
  least-recently-used cache: for every sequence of lookups and inserts it answers every
  lookup as the reference list does and ends with the same blocks. In particular the
  victims of an insert are the blocks touched longest ago and no more of them than the
  new block needs.\<close>

theorem cache_refines_lru:
  assumes "iter_ok iter" and "length ops < 2 ^ 64"
  shows "fst (cache_run iter ops (cache_new cap)) = fst (lru_run cap ops [])
    \<and> (\<lambda>k. map_option ce_bytes (cs_entries (bc_state (snd (cache_run iter ops (cache_new cap)))) k))
        = map_of (snd (lru_run cap ops []))"
proof -
  have "bc_cap (cache_new cap) = cap" "cs_clock (bc_state (cache_new cap)) = 0" by (simp_all add: cache_new_def)
  then have "fst (cache_run iter ops (cache_new cap)) = fst (lru_run cap ops [])
      \<and> lru_sim (snd (cache_run iter ops (cache_new cap))) (snd (lru_run cap ops []))"
    using lru_sim_run [OF lru_sim_new _ assms(1) surjective_pairing surjective_pairing, of cap ops] assms(2) by simp
  then show ?thesis by (simp add: lru_sim_def lru_rel_def)
qed

theorem cache_refines_lru_witness:
  "fst (cache_run lru_iter [CInsert 1 0 [7], CInsert 1 1 [8], CGet 1 0, CInsert 1 2 [9], CGet 1 1, CGet 1 0]
      (cache_new 2)) = [Some [7], None, Some [7]]"
  using cache_refines_lru [OF lru_iter_ok,
      of "[CInsert 1 0 [7], CInsert 1 1 [8], CGet 1 0, CInsert 1 2 [9], CGet 1 1, CGet 1 0]" 2]
  by (simp add: lru_get_def lru_insert_def lru_without_def lru_bytes_def)

lemma cache_run_ok:
  assumes "iter_ok iter" and "cache_ok (\<lambda>_ _. True) c"
  shows "cache_ok (\<lambda>_ _. True) (snd (cache_run iter ops c)) \<and> bc_cap (snd (cache_run iter ops c)) = bc_cap c
    \<and> bc_hits (snd (cache_run iter ops c)) + bc_misses (snd (cache_run iter ops c))
        = bc_hits c + bc_misses c + word_of_nat (length (fst (cache_run iter ops c)))"
  using assms
proof (induction iter ops c rule: cache_run.induct)
  case (2 iter rid block ops c)
  obtain r c1 where g: "cache_get c rid block = (r, c1)" by fastforce
  have "cache_ok (\<lambda>_ _. True) (snd (cache_get c rid block))" using "2.prems" by (intro cache_ok_get) auto
  moreover have "bc_hits (snd (cache_get c rid block)) + bc_misses (snd (cache_get c rid block)) = bc_hits c + bc_misses c + 1"
    by (simp add: cache_get_def Let_def split: option.splits)
  ultimately show ?case
    using "2.IH" [OF g [symmetric] refl "2.prems"(1)] g cap_get [of c rid block] by (simp add: split_beta algebra_simps)
next
  case (3 iter rid block raw ops c)
  have "cache_ok (\<lambda>_ _. True) (cache_insert iter c rid block raw)"
  proof (cases "bc_cap c < length raw")
    case False
    obtain st n where "evict_for (bc_cap c) (length raw) (remove_old (bc_state c) (rid, block)) = (st, n)" by fastforce
    from cache_ok_insert(1) [OF "3.prems"(2) _ "3.prems"(1) _ this] False show ?thesis by simp
  qed (use "3.prems" in \<open>simp add: cache_insert_big\<close>)
  moreover have "bc_hits (cache_insert iter c rid block raw) = bc_hits c" "bc_misses (cache_insert iter c rid block raw) = bc_misses c"
    by (simp_all add: cache_insert_def Let_def split: prod.splits)
  ultimately show ?case using 3 by simp
qed simp

text \<open>C16. After any sequence of operations, the clock wrapping included: the byte counter the
  statistics report is exactly the bytes held_bytes and never exceeds the cap, the heap holds a
  node for every live block and never more than twice as many nodes as blocks, and every
  lookup was counted once, as a hit or as a miss.\<close>

theorem cache_bounded:
  assumes "iter_ok iter" and "cache_run iter ops (cache_new cap) = (rs, c)"
    and "cache_stats c = (h, m, v, b)"
  shows "b = (\<Sum>k\<in>dom (cs_entries (bc_state c)). length (ce_bytes (the (cs_entries (bc_state c) k)))) \<and> b \<le> cap
    \<and> (\<forall>k. cs_entries (bc_state c) k \<noteq> None \<longrightarrow> k \<in> hn_key ` set (cs_heap (bc_state c)))
    \<and> length (cs_heap (bc_state c)) \<le> 2 * card (dom (cs_entries (bc_state c)))
    \<and> h + m = word_of_nat (length rs)"
proof -
  have "bc_cap (cache_new cap) = cap" "bc_hits (cache_new cap) = 0" "bc_misses (cache_new cap) = 0"
    by (simp_all add: cache_new_def)
  then have ok: "cache_ok (\<lambda>_ _. True) c" "bc_cap c = cap" "bc_hits c + bc_misses c = word_of_nat (length rs)"
    using cache_run_ok [OF assms(1) cache_ok_new, of ops cap] assms(2) by simp_all
  have "k \<in> hn_key ` set (cs_heap (bc_state c))" if "cs_entries (bc_state c) k \<noteq> None" for k
    using ok(1) that unfolding cache_ok_def cache_inv_def by fastforce
  then show ?thesis using ok assms(3) by (auto simp: cache_ok_def cache_inv_def held_bytes_def cache_stats_def)
qed

theorem cache_bounded_witness:
  "\<exists>rs c. cache_run lru_iter [CInsert 1 0 [7], CInsert 1 1 [8, 9], CGet 1 0] (cache_new 2) = (rs, c)
    \<and> cs_bytes (bc_state c) \<le> 2 \<and> bc_hits c + bc_misses c = word_of_nat (length rs)"
proof -
  obtain rs c where r: "cache_run lru_iter [CInsert 1 0 [7], CInsert 1 1 [8, 9], CGet 1 0] (cache_new 2) = (rs, c)"
    by fastforce
  from cache_bounded [OF lru_iter_ok this] show ?thesis using r by (auto simp: cache_stats_def)
qed

fun op_gets :: "cache_op list \<Rightarrow> ckey list" where
  "op_gets [] = []"
| "op_gets (CGet rid block # ops) = (rid, block) # op_gets ops"
| "op_gets (CInsert rid block raw # ops) = op_gets ops"

lemma evict_loop_sub: "cs_entries (fst (evict_loop cap needed st n)) \<subseteq>\<^sub>m cs_entries st"
proof (induction cap needed st n rule: evict_loop.induct)
  case (1 cap needed st n)
  show ?case
    by (subst evict_loop.simps)
      (use 1 in \<open>force simp: map_le_def split: if_splits option.splits prod.splits\<close>)
qed

lemma entries_insert:
  "cs_entries (bc_state (cache_insert iter c rid block raw)) k = Some e \<Longrightarrow>
    (k = (rid, block) \<and> ce_bytes e = raw) \<or> cs_entries (bc_state c) k = Some e"
proof -
  assume a: "cs_entries (bc_state (cache_insert iter c rid block raw)) k = Some e"
  obtain st n where ev: "evict_for (bc_cap c) (length raw) (remove_old (bc_state c) (rid, block)) = (st, n)"
    by fastforce
  have "cs_entries st \<subseteq>\<^sub>m cs_entries (remove_old (bc_state c) (rid, block))"
    using evict_loop_sub ev by (metis evict_for_def fst_conv)
  moreover have "cs_entries (remove_old (bc_state c) (rid, block)) \<subseteq>\<^sub>m cs_entries (bc_state c)"
    by (auto simp: remove_old_def map_le_def split: option.splits)
  ultimately have "cs_entries st \<subseteq>\<^sub>m cs_entries (bc_state c)" by (rule map_le_trans)
  then have "cs_entries st k = Some e \<Longrightarrow> cs_entries (bc_state c) k = Some e"
    by (metis domI map_le_def)
  then show ?thesis using a ev
    by (auto simp: cache_insert_def place_new_def rebuild_heap_def Let_def split: if_splits)
qed

lemma cache_run_transparent:
  assumes "\<forall>k e. cs_entries (bc_state c) k = Some e \<longrightarrow> ce_bytes e = file k"
    and "\<forall>rid block raw. CInsert rid block raw \<in> set ops \<longrightarrow> raw = file (rid, block)"
  shows "list_all2 (\<lambda>k r. r = None \<or> r = Some (file k)) (op_gets ops) (fst (cache_run iter ops c))"
  using assms
proof (induction iter ops c rule: cache_run.induct)
  case (2 iter rid block ops c)
  obtain r c1 where g: "cache_get c rid block = (r, c1)" by fastforce
  have "\<forall>k e. cs_entries (bc_state (snd (cache_get c rid block))) k = Some e \<longrightarrow> ce_bytes e = file k"
    using "2.prems"(1) by (auto simp: cache_get_def Let_def split: option.splits if_splits)
  moreover have "fst (cache_get c rid block) = None \<or> fst (cache_get c rid block) = Some (file (rid, block))"
    using "2.prems"(1) by (auto simp: cache_get_def Let_def split: option.splits)
  ultimately show ?case using "2.IH" [OF g [symmetric] refl] "2.prems"(2) g
    by (simp add: split_beta)
next
  case (3 iter rid block raw ops c)
  have "\<forall>k e. cs_entries (bc_state (cache_insert iter c rid block raw)) k = Some e \<longrightarrow> ce_bytes e = file k"
    using "3.prems" entries_insert [of iter c rid block raw] by (metis list.set_intros(1))
  then show ?case using 3 by simp
qed simp

text \<open>The cache never changes what a reader sees: if every insert for a key carries the
  bytes of that block of that reader's file, every lookup is a miss or returns exactly those
  bytes, whatever was evicted, overwritten or rebuilt in between and in whatever order the
  map is iterated.\<close>

lemma cache_transparent:
  assumes "\<forall>rid block raw. CInsert rid block raw \<in> set ops \<longrightarrow> raw = file (rid, block)"
  shows "list_all2 (\<lambda>k r. r = None \<or> r = Some (file k)) (op_gets ops) (fst (cache_run iter ops (cache_new cap)))"
  by (rule cache_run_transparent [OF _ assms]) (simp add: cache_new_def)

end
