(* ===== verification/SegmentReader.thy ===== *)
theory SegmentReader
  imports SegmentWriter Cache
begin

text \<open>
  The reader of segments, \<^verbatim>\<open>segment.rs\<close>: \<open>open_inner\<close> checks the skeleton of a file, the
  lookups decode single blocks. A file is its byte string and does not change once it is
  published, so a positional read is a slice of it. The timing statistics are left out.
  The lookups read blocks with \<open>block_raw\<close>, straight from the file and verified;
  \<open>block_raw_cached\<close> is the source's version with the shared cache, the flag that a block
  was verified once and the reader identity of \<open>Cache\<close>. The lazily parsed restart table
  is a function of the block, parsed at each use. Bytes of a Bloom filter with no bits at
  all would make the source divide by zero: the probe returns \<open>None\<close> there.
\<close>

section \<open>Opening\<close>

record data_block =
  db_header :: nat
  db_payload_len :: nat
  db_entries :: u32
  db_v2 :: bool
  db_v3 :: bool
  db_v4 :: bool
  db_first :: "nat \<times> nat"
  db_last :: "nat \<times> nat"

record segment_reader =
  rd_file :: bytes
  rd_block_count :: u32
  rd_entry_count :: u64
  rd_key_min :: bytes
  rd_key_max :: bytes
  rd_seq_lo :: u64
  rd_seq_hi :: u64
  rd_data :: "data_block list"
  rd_index :: bytes
  rd_bloom :: bytes
  rd_bloom_m :: u32

definition read_segment_at :: "bytes \<Rightarrow> nat \<Rightarrow> nat \<Rightarrow> bytes fres" where
  "read_segment_at file offset n =
    (if length file < offset then Inl Panicked
     else if length file - offset < n then Inl (Corrupt ''truncated'') else Inr (take n (drop offset file)))"

record segment_head =
  sh_bytes :: bytes
  sh_block_count :: u32
  sh_entry_count :: u64
  sh_key_min :: bytes
  sh_key_max :: bytes
  sh_seq_lo :: u64
  sh_seq_hi :: u64

definition newer_version :: "digest_fn \<Rightarrow> bytes \<Rightarrow> 'a fres" where
  "newer_version sha file =
    (if 54 \<le> length file then
       rbind (read_segment_at file 0 54) (\<lambda>head.
         if checksum8 sha (take 46 head) = drop 46 head then Inl (Unsupported ''segment format version'')
         else Inl (Corrupt ''segment version damaged''))
     else Inl (Corrupt ''segment version damaged''))"

definition open_header :: "digest_fn \<Rightarrow> bytes \<Rightarrow> segment_head fres" where
  "open_header sha file =
    rbind (read_segment_at file 0 22) (\<lambda>prefix.
    rbind (cur_take 4 (cursor_new prefix)) (\<lambda>(magic, cur).
    if magic \<noteq> SEGMENT_MAGIC then Inl (Corrupt ''segment bad magic'') else
    rbind (cur_u16 cur) (\<lambda>(version, cur).
    if version \<noteq> SEGMENT_VERSION then newer_version sha file else
    rbind (cur_u32 cur) (\<lambda>(block_count, cur).
    rbind (cur_u64 cur) (\<lambda>(entry_count, cur).
    rbind (cur_u32 cur) (\<lambda>(key_min_len, cur).
    rbind (read_segment_at file (length prefix) (unat key_min_len)) (\<lambda>key_min.
    let header = prefix @ key_min in
    rbind (read_segment_at file (length header) 4) (\<lambda>key_max_len_b.
    let header = header @ key_max_len_b in
    rbind (read_segment_at file (length header) (unat (le_u32 key_max_len_b))) (\<lambda>key_max.
    let header = header @ key_max in
    rbind (read_segment_at file (length header) 24) (\<lambda>tail.
    rbind (cur_u64 (cursor_new tail)) (\<lambda>(seq_lo, tcur).
    rbind (cur_u64 tcur) (\<lambda>(seq_hi, tcur).
    rbind (cur_take 8 tcur) (\<lambda>(stored, tcur).
    let header = header @ take 16 tail in
    if checksum8 sha header \<noteq> stored then Inl (Corrupt ''segment header checksum mismatch'')
    else if seq_hi < seq_lo then Inl (Corrupt ''seq_lo > seq_hi'')
    else Inr \<lparr>sh_bytes = header @ stored, sh_block_count = block_count, sh_entry_count = entry_count,
              sh_key_min = key_min, sh_key_max = key_max, sh_seq_lo = seq_lo, sh_seq_hi = seq_hi\<rparr>)))))))))))))"

record walk =
  wk_data :: "data_block list"
  wk_headers :: bytes
  wk_last_kind :: "byte option"
  wk_index :: "(nat \<times> nat) option"
  wk_bloom :: "(nat \<times> nat) option"
  wk_cur :: nat

record block_head =
  bh_version :: u16
  bh_kind :: byte
  bh_entries :: u32
  bh_compressed :: nat
  bh_stored :: bytes

definition read_block_head :: "byte option \<Rightarrow> bytes \<Rightarrow> block_head fres" where
  "read_block_head last_kind hdr =
    rbind (cur_take 4 (cursor_new hdr)) (\<lambda>(magic, c).
    if magic \<noteq> BLOCK_MAGIC then Inl (Corrupt ''block bad magic'') else
    rbind (cur_u16 c) (\<lambda>(version, c).
    rbind (cur_u8 c) (\<lambda>(kind, c).
    rbind (cur_u8 c) (\<lambda>(compression, c).
    if compression \<noteq> 0 then Inl (Unsupported ''block compression'')
    else if BLOCK_BLOOM < kind \<or> \<not> is_none_or (\<lambda>k. k \<le> kind) last_kind
    then Inl (Corrupt ''block types out of order'') else
    rbind (cur_u32 c) (\<lambda>(count, c).
    rbind (cur_u32 c) (\<lambda>(compressed, c).
    rbind (cur_u32 c) (\<lambda>(_, c).
    rbind (cur_take 8 c) (\<lambda>(stored, c).
    Inr \<lparr>bh_version = version, bh_kind = kind, bh_entries = count, bh_compressed = unat compressed,
         bh_stored = stored\<rparr>))))))))"

definition version_in_set :: "block_head \<Rightarrow> bool" where
  "version_in_set h \<longleftrightarrow> bh_version h = SEGMENT_VERSION
    \<or> (2 \<le> bh_version h \<and> bh_version h \<le> 4 \<and> bh_kind h = BLOCK_DATA)"

definition refuse_version :: "digest_fn \<Rightarrow> bytes \<Rightarrow> nat \<Rightarrow> bytes \<Rightarrow> block_head \<Rightarrow> 'a fres" where
  "refuse_version sha file cur hdr h =
    (if bh_version h = 0 then Inl (Corrupt ''block version 0'') else
     rbind (read_segment_at file (cur + BLOCK_HEADER_LEN) (bh_compressed h)) (\<lambda>payload.
     if checksum8 sha (take 20 hdr @ payload) \<noteq> bh_stored h then Inl (Corrupt ''block version damaged'')
     else Inl (Unsupported ''block version'')))"

definition add_block :: "bytes \<Rightarrow> block_head \<Rightarrow> walk \<Rightarrow> walk fres" where
  "add_block hdr h st =
    (let header_off = wk_cur st;
         st = st\<lparr>wk_last_kind := Some (bh_kind h), wk_cur := wk_cur st + BLOCK_HEADER_LEN + bh_compressed h\<rparr> in
     if bh_kind h = BLOCK_DATA then
       if unat (bh_entries h) > bh_compressed h div MIN_ENTRY_LEN
       then Inl (Corrupt ''entries cannot fit'')
       else Inr (st\<lparr>wk_headers := wk_headers st @ hdr,
                    wk_data := wk_data st @ [\<lparr>db_header = header_off, db_payload_len = bh_compressed h,
                      db_entries = bh_entries h,
                      db_v2 = (bh_version h = 2 \<or> bh_version h = 3 \<or> bh_version h = 4),
                      db_v3 = (bh_version h = 3 \<or> bh_version h = 4), db_v4 = (bh_version h = 4),
                      db_first = (0, 0), db_last = (0, 0)\<rparr>]\<rparr>)
     else if bh_kind h = BLOCK_INDEX then
       if wk_index st \<noteq> None then Inl (Corrupt ''two index blocks'')
       else Inr (st\<lparr>wk_index := Some (header_off, bh_compressed h)\<rparr>)
     else
       if wk_bloom st \<noteq> None then Inl (Corrupt ''two bloom blocks'')
       else Inr (st\<lparr>wk_bloom := Some (header_off, bh_compressed h)\<rparr>))"

text \<open>One round of the block walk: \<open>None\<close> at the footer, otherwise the state after one block.\<close>

definition walk_step :: "digest_fn \<Rightarrow> bytes \<Rightarrow> walk \<Rightarrow> walk option fres" where
  "walk_step sha file st =
    (let cur = wk_cur st; left = length file - cur in
     if 4 \<le> left \<and> take 4 (drop cur file) = FOOTER_MAGIC then Inr None
     else if left < BLOCK_HEADER_LEN then Inl (Corrupt ''truncated: need a block or footer'')
     else
       rbind (read_segment_at file cur BLOCK_HEADER_LEN) (\<lambda>hdr.
       rbind (read_block_head (wk_last_kind st) hdr) (\<lambda>h.
       if \<not> version_in_set h then refuse_version sha file cur hdr h
       else if length file - (cur + BLOCK_HEADER_LEN) < bh_compressed h then Inl (Corrupt ''truncated'')
       else rbind (add_block hdr h st) (\<lambda>st. Inr (Some st)))))"

lemma add_block_cur: "add_block hdr h st = Inr st' \<Longrightarrow> wk_cur st' = wk_cur st + BLOCK_HEADER_LEN + bh_compressed h"
  by (auto simp: add_block_def Let_def split: if_splits)

lemma walk_step_progress:
  "walk_step sha file st = Inr (Some st') \<Longrightarrow> wk_cur st < wk_cur st' \<and> wk_cur st < length file"
  by (auto simp: walk_step_def Let_def rbind_Inr_iff refuse_version_def BLOCK_HEADER_LEN_def
      dest!: add_block_cur split: if_splits)

function walk_blocks :: "digest_fn \<Rightarrow> bytes \<Rightarrow> walk \<Rightarrow> walk fres" where
  "walk_blocks sha file st =
    rbind (walk_step sha file st) (\<lambda>r. case r of None \<Rightarrow> Inr st | Some st' \<Rightarrow> walk_blocks sha file st')"
  by pat_completeness auto
termination
  by (relation "measure (\<lambda>(sha, file, st). length file - wk_cur st)") (auto dest: walk_step_progress)

declare walk_blocks.simps [simp del]

fun index_loop :: "data_block list \<Rightarrow> cursor \<Rightarrow> nat \<Rightarrow> (data_block list \<times> nat \<times> cursor) fres" where
  "index_loop [] c n = Inr ([], n, c)"
| "index_loop (db # dbs) c n =
    rbind (cur_u16 c) (\<lambda>(len, c). let s1 = cpos c in
    rbind (cur_take (unat len) c) (\<lambda>(_, c). let e1 = cpos c in
    rbind (cur_u16 c) (\<lambda>(len, c). let s2 = cpos c in
    rbind (cur_take (unat len) c) (\<lambda>(_, c). let e2 = cpos c in
    rbind (cur_u64 c) (\<lambda>(offset, c).
    rbind (cur_u32 c) (\<lambda>(count, c).
    if unat offset \<noteq> db_header db then Inl (Corrupt ''index says block elsewhere'')
    else if count \<noteq> db_entries db then Inl (Corrupt ''index entry count mismatch'')
    else rbind (index_loop dbs c (n + unat count)) (\<lambda>(rest', n, c).
      Inr (db\<lparr>db_first := (s1, e1), db_last := (s2, e2)\<rparr> # rest', n, c))))))))"

definition open_footer :: "u64 \<Rightarrow> bytes \<Rightarrow> unit fres" where
  "open_footer entry_count footer =
    rbind (cur_take 4 (cursor_new footer)) (\<lambda>(magic, c).
    if magic \<noteq> FOOTER_MAGIC then Inl (Corrupt ''footer bad magic'') else
    rbind (cur_u16 c) (\<lambda>(version, c).
    if version \<noteq> SEGMENT_VERSION then Inl (Corrupt ''footer version'') else
    rbind (cur_u64 c) (\<lambda>(n, c).
    if n \<noteq> entry_count then Inl (Corrupt ''footer entry_count mismatch'') else Inr ())))"

definition open_inner :: "digest_fn \<Rightarrow> bytes \<Rightarrow> segment_reader fres" where
  "open_inner sha file =
    rbind (open_header sha file) (\<lambda>hd.
    rbind (walk_blocks sha file \<lparr>wk_data = [], wk_headers = [], wk_last_kind = None, wk_index = None,
             wk_bloom = None, wk_cur = length (sh_bytes hd)\<rparr>) (\<lambda>wk.
    let footer_start = wk_cur wk in
    if length file - footer_start \<noteq> FOOTER_LEN then Inl (Corrupt ''footer must be exactly 22 bytes'') else
    rbind (read_segment_at file footer_start FOOTER_LEN) (\<lambda>footer.
    rbind (open_footer (sh_entry_count hd) footer) (\<lambda>_.
    case wk_index wk of None \<Rightarrow> Inl (Corrupt ''missing index block'') | Some (index_header, index_len) \<Rightarrow>
    (case wk_bloom wk of None \<Rightarrow> Inl (Corrupt ''missing bloom block'') | Some (bloom_header, bloom_len) \<Rightarrow>
    if wk_data wk = [] \<or> length (wk_data wk) \<noteq> unat (sh_block_count hd)
    then Inl (Corrupt ''header data block count mismatch'') else
    rbind (read_segment_at file (index_header + BLOCK_HEADER_LEN) index_len) (\<lambda>index.
    rbind (read_segment_at file (bloom_header + BLOCK_HEADER_LEN) bloom_len) (\<lambda>bloom.
    rbind (index_loop (wk_data wk) (cursor_new index) 0) (\<lambda>(blocks, n, icur).
    if \<not> cur_is_empty icur then Inl (Corrupt ''index trailing bytes'')
    else if n \<noteq> unat (sh_entry_count hd) then Inl (Corrupt ''data blocks entry total mismatch'') else
    rbind (cur_u32 (cursor_new bloom)) (\<lambda>(bloom_m, bcur).
    if (word_of_nat (remaining bcur) :: u32) \<noteq> word_of_nat ((unat bloom_m + 7) div 8)
    then Inl (Corrupt ''bloom size mismatch'') else
    rbind (read_segment_at file (index_header + 8) 4) (\<lambda>idx_entries.
    if le_u32 idx_entries \<noteq> sh_block_count hd then Inl (Corrupt ''index block entry count mismatch'') else
    rbind (read_segment_at file (bloom_header + 8) 4) (\<lambda>blm_entries.
    if unat (le_u32 blm_entries) \<noteq> unat (sh_entry_count hd)
    then Inl (Corrupt ''bloom block entry count mismatch'') else
    rbind (read_segment_at file index_header (bloom_header + BLOCK_HEADER_LEN + bloom_len - index_header)) (\<lambda>span.
    if checksum8 sha (sh_bytes hd @ wk_headers wk @ span @ take 14 footer) \<noteq> drop 14 footer
    then Inl (Corrupt ''footer skeleton checksum mismatch'')
    else Inr \<lparr>rd_file = file, rd_block_count = sh_block_count hd, rd_entry_count = sh_entry_count hd,
              rd_key_min = sh_key_min hd, rd_key_max = sh_key_max hd, rd_seq_lo = sh_seq_lo hd,
              rd_seq_hi = sh_seq_hi hd, rd_data = blocks, rd_index = index, rd_bloom = bloom,
              rd_bloom_m = bloom_m\<rparr>))))))))))))"

section \<open>Blocks\<close>

definition block_key :: "segment_reader \<Rightarrow> nat \<times> nat \<Rightarrow> bytes" where
  "block_key r k = take (snd k - fst k) (drop (fst k) (rd_index r))"

definition bloom_may_contain_hashes :: "segment_reader \<Rightarrow> u64 \<Rightarrow> u64 \<Rightarrow> bool option" where
  "bloom_may_contain_hashes r h1 h2 =
    (if rd_bloom_m r = 0 then None
     else Some (list_all (\<lambda>i. let n = bloom_bit h1 h2 (unat (rd_bloom_m r)) i in
         drop 4 (rd_bloom r) ! (n div 8) AND push_bit (n mod 8) 1 \<noteq> 0) [0..<BLOOM_PROBES]))"

definition bloom_may_contain :: "digest_fn \<Rightarrow> segment_reader \<Rightarrow> bytes \<Rightarrow> bool option" where
  "bloom_may_contain sha r key = (let (h1, h2) = bloom_hashes sha key in bloom_may_contain_hashes r h1 h2)"

definition block_entry_count :: "segment_reader \<Rightarrow> nat \<Rightarrow> u32 option" where
  "block_entry_count r i = (if i < length (rd_data r) then Some (db_entries (rd_data r ! i)) else None)"

definition locate :: "segment_reader \<Rightarrow> bytes \<Rightarrow> nat option" where
  "locate r key =
    (let i = partition_point (\<lambda>b. block_key r (db_last b) < key) (rd_data r) in
     if i < length (rd_data r) \<and> block_key r (db_first (rd_data r ! i)) \<le> key then Some i else None)"

definition verify_block :: "digest_fn \<Rightarrow> bytes \<Rightarrow> bool" where
  "verify_block sha raw \<longleftrightarrow>
    take 8 (sha (take 20 raw @ drop BLOCK_HEADER_LEN raw)) = take (BLOCK_HEADER_LEN - 20) (drop 20 raw)"

definition block_raw :: "digest_fn \<Rightarrow> segment_reader \<Rightarrow> nat \<Rightarrow> bytes fres" where
  "block_raw sha r i =
    (let b = rd_data r ! i in
     rbind (read_segment_at (rd_file r) (db_header b) (BLOCK_HEADER_LEN + db_payload_len b)) (\<lambda>raw.
     if \<not> verify_block sha raw then Inl (Corrupt ''data block checksum mismatch'') else Inr raw))"

text \<open>The shared state of the cached read: the cache and the blocks verified so far.\<close>

type_synonym read_state = "block_cache \<times> nat set"

definition block_raw_cached ::
    "digest_fn \<Rightarrow> cache_iter \<Rightarrow> u64 \<Rightarrow> segment_reader \<Rightarrow> nat \<Rightarrow> read_state \<Rightarrow> bytes fres \<times> read_state" where
  "block_raw_cached sha iter cache_id r i s =
    (let (c, validated) = s; b = rd_data r ! i; (hit, c) = cache_get c cache_id (word_of_nat i) in
     case hit of
       Some raw \<Rightarrow> (Inr raw, (c, validated))
     | None \<Rightarrow>
         (case read_segment_at (rd_file r) (db_header b) (BLOCK_HEADER_LEN + db_payload_len b) of
            Inl e \<Rightarrow> (Inl e, (c, validated))
          | Inr raw \<Rightarrow>
              if i \<notin> validated \<and> \<not> verify_block sha raw
              then (Inl (Corrupt ''data block checksum mismatch''), (c, validated))
              else (Inr raw, (cache_insert iter c cache_id (word_of_nat i) raw, insert i validated))))"

section \<open>Decoding entries\<close>

definition cur_entry_key :: "bytes \<Rightarrow> bytes parser" where
  "cur_entry_key scratch c =
    rbind (cur_u16 c) (\<lambda>(shared, c).
    if length scratch < unat shared then Inl (Corrupt ''entry shared prefix exceeds previous key'') else
    rbind (cur_u16 c) (\<lambda>(suffix_len, c).
    rbind (cur_take (unat suffix_len) c) (\<lambda>(suffix, c).
    Inr (take (unat shared) scratch @ suffix, c))))"

definition cur_entry_rid :: "bool \<Rightarrow> replica_id parser" where
  "cur_entry_rid v3 c =
    (if v3 then rbind (cur_u64 c) (\<lambda>(x, c). Inr (ReplicaId x, c)) else Inr (ReplicaId 0, c))"

definition cur_entry_body :: "bool \<Rightarrow> bytes \<Rightarrow> segment_entry parser" where
  "cur_entry_body v3 key c =
    rbind (cur_vec c) (\<lambda>(val, c).
    rbind (cur_u64 c) (\<lambda>(seq, c).
    rbind (cur_u8 c) (\<lambda>(flags, c).
    rbind (cur_entry_rid v3 c) (\<lambda>(rid, c).
    Inr (\<lparr>se_key = key, se_value = val, se_seq = seq, se_flags = flags, se_replica = rid\<rparr>, c)))))"

definition skip_entry_body :: "bool \<Rightarrow> unit parser" where
  "skip_entry_body v3 c =
    rbind (cur_u32 c) (\<lambda>(value_len, c).
    rbind (cur_take (unat value_len) c) (\<lambda>(_, c).
    rbind (cur_u64 c) (\<lambda>(_, c).
    rbind (cur_u8 c) (\<lambda>(_, c).
    if v3 then rbind (cur_u64 c) (\<lambda>(_, c). Inr ((), c)) else Inr ((), c)))))"

text \<open>The size of the restart table, and of the dense table after it, in front of the
  entries: the restart count and the position of the first entry.\<close>

definition table_len :: "bool \<Rightarrow> bytes \<Rightarrow> (nat \<times> nat) fres" where
  "table_len v4 payload =
    rbind (cur_u16 (cursor_new payload)) (\<lambda>(_, c).
    rbind (cur_u32 c) (\<lambda>(n, c).
    let restarts = unat n; len = 6 + 4 * restarts in
    if length payload < len then Inl (Corrupt ''v2 restart table exceeds payload'')
    else if v4 then
      if length payload < len + 4 then Inl (Corrupt ''v4 table exceeds payload'') else
      let dense = unat (le_u32 (take 4 (drop len payload))); len = len + 4 + 4 * dense in
      if length payload < len then Inl (Corrupt ''v4 dense table exceeds payload'')
      else Inr (restarts, len)
    else Inr (restarts, len)))"

fun decode_entries :: "bool \<Rightarrow> nat \<Rightarrow> bytes \<Rightarrow> segment_entry list parser" where
  "decode_entries v3 0 base c = Inr ([], c)"
| "decode_entries v3 (Suc n) base c =
    rbind (cur_entry_key base c) (\<lambda>(key, c).
    rbind (cur_entry_body v3 key c) (\<lambda>(e, c).
    rbind (decode_entries v3 n key c) (\<lambda>(es, c). Inr (e # es, c))))"

definition payload_entries :: "data_block \<Rightarrow> bytes \<Rightarrow> segment_entry list fres" where
  "payload_entries b payload =
    rbind (if db_v2 b then rbind (table_len (db_v4 b) payload) (\<lambda>(_, len). Inr len) else Inr 0) (\<lambda>start.
    rbind (decode_entries (db_v3 b) (unat (db_entries b)) [] (cursor_new (drop start payload))) (\<lambda>(es, c).
    if \<not> cur_is_empty c then Inl (Corrupt ''data block trailing bytes'') else Inr es))"

definition block_entries :: "digest_fn \<Rightarrow> segment_reader \<Rightarrow> nat \<Rightarrow> segment_entry list fres" where
  "block_entries sha r i =
    rbind (block_raw sha r i) (\<lambda>raw. payload_entries (rd_data r ! i) (drop BLOCK_HEADER_LEN raw))"

definition entry_at :: "digest_fn \<Rightarrow> segment_reader \<Rightarrow> block_id \<Rightarrow> u32 \<Rightarrow> segment_entry option fres" where
  "entry_at sha r block entry_offset =
    (let i = unat (bid_u32 block) in
     if length (rd_data r) \<le> i then Inr None else
     rbind (block_entries sha r i) (\<lambda>es.
       Inr (if unat entry_offset < length es then Some (es ! unat entry_offset) else None)))"

section \<open>The restart table\<close>

definition restart_key :: "bytes \<Rightarrow> nat \<Rightarrow> bytes fres" where
  "restart_key payload o' =
    rbind (cur_u16 (cursor_new (drop o' payload))) (\<lambda>(shared, c).
    if shared \<noteq> 0 then Inl (Corrupt ''restart entry has shared prefix'') else
    rbind (cur_u16 c) (\<lambda>(len, c).
    rbind (cur_take (unat len) c) (\<lambda>(k, c). Inr k)))"

record restart_index =
  ri_blk_offs :: "u32 list"
  ri_key_offs :: "u32 list"
  ri_keys :: bytes

definition table_offset :: "bytes \<Rightarrow> nat \<Rightarrow> nat" where
  "table_offset offs j = unat (le_u32 (take 4 (drop (j * 4) offs)))"

fun restart_loop :: "bytes \<Rightarrow> bytes \<Rightarrow> nat \<Rightarrow> nat list \<Rightarrow> bytes option \<Rightarrow> restart_index \<Rightarrow> restart_index fres" where
  "restart_loop offs payload len [] prev ix = Inr ix"
| "restart_loop offs payload len (j # js) prev ix =
    (let o' = table_offset offs j in
     if o' < len \<or> length payload \<le> o' then Inl (Corrupt ''restart offset outside payload'') else
     rbind (restart_key payload o') (\<lambda>k.
     if \<not> is_none_or (\<lambda>p. p < k) prev then Inl (Corrupt ''restart keys not strictly increasing'') else
     restart_loop offs payload len js (Some k)
       (ix\<lparr>ri_blk_offs := ri_blk_offs ix @ [word_of_nat o'],
           ri_key_offs := ri_key_offs ix @ [word_of_nat (length (ri_keys ix))],
           ri_keys := ri_keys ix @ k\<rparr>)))"

definition RestartIndex_parse :: "bytes \<Rightarrow> bytes \<Rightarrow> nat \<Rightarrow> restart_index fres" where
  "RestartIndex_parse offs payload len =
    rbind (restart_loop offs payload len [0..<length offs div 4] None
        \<lparr>ri_blk_offs = [], ri_key_offs = [], ri_keys = []\<rparr>) (\<lambda>ix.
    Inr (ix\<lparr>ri_key_offs := ri_key_offs ix @ [word_of_nat (length (ri_keys ix))]\<rparr>))"

definition ri_key :: "restart_index \<Rightarrow> nat \<Rightarrow> bytes" where
  "ri_key ix i =
    (let s = unat (ri_key_offs ix ! i); e = unat (ri_key_offs ix ! (i + 1)) in take (e - s) (drop s (ri_keys ix)))"

text \<open>The lookups' binary search: the first index from \<open>lo\<close> where \<open>P\<close> fails.\<close>

function bin_search :: "(nat \<Rightarrow> bool fres) \<Rightarrow> nat \<Rightarrow> nat \<Rightarrow> nat fres" where
  "bin_search P lo hi =
    (if lo < hi then
       let mid = (lo + hi) div 2 in
       rbind (P mid) (\<lambda>b. if b then bin_search P (mid + 1) hi else bin_search P lo mid)
     else Inr lo)"
  by pat_completeness auto
termination by (relation "measure (\<lambda>(P, lo, hi). hi - lo)") auto

declare bin_search.simps [simp del]

section \<open>Lookups\<close>

lemma cur_entry_key_shrinks: "cur_entry_key scratch c = Inr (k, c') \<Longrightarrow> remaining c' < remaining c"
  by (auto simp: cur_entry_key_def rbind_Inr_iff cur_iffs split: if_splits dest!: adv_remaining)

lemma cur_entry_body_shrinks: "cur_entry_body v3 k c = Inr (e, c') \<Longrightarrow> remaining c' \<le> remaining c"
  by (auto simp: cur_entry_body_def cur_entry_rid_def rbind_Inr_iff cur_iffs split: if_splits dest!: adv_remaining)

lemma skip_entry_body_shrinks: "skip_entry_body v3 c = Inr (u, c') \<Longrightarrow> remaining c' \<le> remaining c"
  by (auto simp: skip_entry_body_def rbind_Inr_iff cur_iffs split: if_splits dest!: adv_remaining)

function scan_interval :: "bool \<Rightarrow> bytes \<Rightarrow> replica_id option \<Rightarrow> bytes \<Rightarrow> cursor \<Rightarrow> segment_entry option fres" where
  "scan_interval v3 key rid scratch c =
    (if cur_is_empty c then Inr None else
     rbind (cur_entry_key scratch c) (\<lambda>(k, c).
     if k = key then
       rbind (cur_entry_body v3 k c) (\<lambda>(e, c).
       if is_none_or (\<lambda>x. se_replica e = x) rid then Inr (Some e) else scan_interval v3 key rid k c)
     else if key < k then Inr None
     else rbind (skip_entry_body v3 c) (\<lambda>(_, c). scan_interval v3 key rid k c)))"
  by pat_completeness auto
termination
  by (relation "measure (\<lambda>(v3, key, rid, scratch, c). remaining c)")
    (auto dest!: cur_entry_key_shrinks cur_entry_body_shrinks skip_entry_body_shrinks)

declare scan_interval.simps [simp del]

definition block_get_v2 :: "data_block \<Rightarrow> bytes \<Rightarrow> bytes \<Rightarrow> replica_id option \<Rightarrow> segment_entry option fres" where
  "block_get_v2 b payload key rid =
    rbind (table_len (db_v4 b) payload) (\<lambda>(restarts, len).
    rbind (RestartIndex_parse (take (4 * restarts) (drop 6 payload)) payload len) (\<lambda>ix.
    let n = length (ri_blk_offs ix) in
    rbind (bin_search (\<lambda>mid. Inr (ri_key ix mid \<le> key)) 0 n) (\<lambda>r.
    if r = 0 then Inr None else
    let start = unat (ri_blk_offs ix ! (r - 1));
        end' = (if r < n then unat (ri_blk_offs ix ! r) else length payload)
    in if end' < start then Inl Panicked
       else scan_interval (db_v3 b) key rid [] (cursor_new (take (end' - start) (drop start payload))))))"

definition block_get :: "digest_fn \<Rightarrow> segment_reader \<Rightarrow> nat \<Rightarrow> bytes \<Rightarrow> segment_entry option fres" where
  "block_get sha r i key =
    (let b = rd_data r ! i in
     if \<not> db_v2 b then rbind (block_entries sha r i) (\<lambda>es. Inr (find (\<lambda>e. se_key e = key) es))
     else rbind (block_raw sha r i) (\<lambda>raw.
       block_get_v2 b (drop BLOCK_HEADER_LEN raw) key (Some (ReplicaId 0))))"

definition segment_get :: "digest_fn \<Rightarrow> segment_reader \<Rightarrow> bytes \<Rightarrow> segment_entry option fres" where
  "segment_get sha r key = (case locate r key of None \<Rightarrow> Inr None | Some i \<Rightarrow> block_get sha r i key)"

function get_by_rid_loop :: "digest_fn \<Rightarrow> segment_reader \<Rightarrow> bytes \<Rightarrow> replica_id \<Rightarrow> nat \<Rightarrow> segment_entry option fres" where
  "get_by_rid_loop sha r key rid i =
    (let b = rd_data r ! i;
         run_spills = (block_key r (db_last b) = key \<and> i + 1 < length (rd_data r))
     in rbind
       (if db_v3 b
        then rbind (block_raw sha r i) (\<lambda>raw. block_get_v2 b (drop BLOCK_HEADER_LEN raw) key (Some rid))
        else Inr None)
       (\<lambda>out. case out of
          Some e \<Rightarrow> Inr (Some e)
        | None \<Rightarrow> if run_spills then get_by_rid_loop sha r key rid (i + 1) else Inr None))"
  by pat_completeness auto
termination by (relation "measure (\<lambda>(sha, r, key, rid, i). length (rd_data r) - i)") auto

declare get_by_rid_loop.simps [simp del]

definition segment_get_by_rid :: "digest_fn \<Rightarrow> segment_reader \<Rightarrow> bytes \<Rightarrow> replica_id \<Rightarrow> segment_entry option fres" where
  "segment_get_by_rid sha r key rid =
    (case locate r key of None \<Rightarrow> Inr None | Some i \<Rightarrow> get_by_rid_loop sha r key rid i)"

text \<open>\<^verbatim>\<open>get_many\<close>: the positions of the keys grouped by block, one read per block, the answers
  written back by position.\<close>

definition group_by_block :: "segment_reader \<Rightarrow> bytes list \<Rightarrow> (nat, nat list) btree" where
  "group_by_block r keys =
    fold (\<lambda>(pos, key) m. case locate r key of
        None \<Rightarrow> m
      | Some i \<Rightarrow> bt_put i ((case bt_get m i of None \<Rightarrow> [] | Some ps \<Rightarrow> ps) @ [pos]) m) (enumerate 0 keys) []"

definition block_get_many ::
    "digest_fn \<Rightarrow> segment_reader \<Rightarrow> bytes list \<Rightarrow> nat \<times> nat list \<Rightarrow> segment_entry option list \<Rightarrow> segment_entry option list fres" where
  "block_get_many sha r keys ip out =
    (let (i, positions) = ip; b = rd_data r ! i in
     if \<not> db_v2 b then
       rbind (block_entries sha r i) (\<lambda>es.
         Inr (fold (\<lambda>pos out. out[pos := find (\<lambda>e. se_key e = keys ! pos) es]) positions out))
     else rbind (block_raw sha r i) (\<lambda>raw.
       rfold (\<lambda>pos out. rbind (block_get_v2 b (drop BLOCK_HEADER_LEN raw) (keys ! pos) (Some (ReplicaId 0)))
         (\<lambda>res. Inr (out[pos := res]))) positions out))"

definition segment_get_many :: "digest_fn \<Rightarrow> segment_reader \<Rightarrow> bytes list \<Rightarrow> segment_entry option list fres" where
  "segment_get_many sha r keys = rfold (block_get_many sha r keys) (group_by_block r keys) (replicate (length keys) None)"

function versions_loop :: "digest_fn \<Rightarrow> segment_reader \<Rightarrow> bytes \<Rightarrow> nat \<Rightarrow> segment_entry list \<Rightarrow> segment_entry list fres" where
  "versions_loop sha r key i out =
    (if i < length (rd_data r) \<and> block_key r (db_first (rd_data r ! i)) \<le> key
     then rbind (block_entries sha r i) (\<lambda>es.
       versions_loop sha r key (i + 1) (out @ filter (\<lambda>e. se_key e = key) es))
     else Inr out)"
  by pat_completeness auto
termination by (relation "measure (\<lambda>(sha, r, key, i, out). length (rd_data r) - i)") auto

declare versions_loop.simps [simp del]

definition segment_versions :: "digest_fn \<Rightarrow> segment_reader \<Rightarrow> bytes \<Rightarrow> segment_entry list fres" where
  "segment_versions sha r key =
    (case locate r key of None \<Rightarrow> Inr [] | Some i \<Rightarrow> versions_loop sha r key i [])"

fun scan_blocks :: "digest_fn \<Rightarrow> segment_reader \<Rightarrow> bytes \<Rightarrow> bytes \<Rightarrow> nat list \<Rightarrow> segment_entry list \<Rightarrow> segment_entry list fres" where
  "scan_blocks sha r start end' [] out = Inr out"
| "scan_blocks sha r start end' (i # is) out =
    (if end' \<le> block_key r (db_first (rd_data r ! i)) then Inr out
     else rbind (block_entries sha r i) (\<lambda>es.
       scan_blocks sha r start end' is (out @ filter (\<lambda>e. start \<le> se_key e \<and> se_key e < end') es)))"

definition segment_scan :: "digest_fn \<Rightarrow> segment_reader \<Rightarrow> bytes \<Rightarrow> bytes \<Rightarrow> segment_entry list fres" where
  "segment_scan sha r start end' =
    scan_blocks sha r start end'
      [partition_point (\<lambda>b. block_key r (db_last b) < start) (rd_data r)..<length (rd_data r)] []"

text \<open>\<^verbatim>\<open>get_entry_at\<close>: the window of the dense table that holds the indexed entry.\<close>

fun decode_nth :: "nat \<Rightarrow> bytes \<Rightarrow> cursor \<Rightarrow> segment_entry fres" where
  "decode_nth n scratch c =
    rbind (cur_entry_key scratch c) (\<lambda>(k, c).
    rbind (cur_entry_body True k c) (\<lambda>(e, c).
    case n of 0 \<Rightarrow> Inr e | Suc n \<Rightarrow> decode_nth n k c))"

definition dense_window :: "bytes \<Rightarrow> nat \<Rightarrow> (nat \<times> nat) option fres" where
  "dense_window payload entry_index =
    rbind (cur_u16 (cursor_new payload)) (\<lambda>(_, c).
    rbind (cur_u32 c) (\<lambda>(n, c).
    let len = 6 + 4 * unat n in
    if length payload < len + 4 then Inl (Corrupt ''v4 table exceeds payload'') else
    let dense = unat (le_u32 (take 4 (drop len payload))); offs = take (4 * dense) (drop (len + 4) payload);
        len = len + 4 + 4 * dense in
    if length payload < len then Inl (Corrupt ''v4 dense table exceeds payload'') else
    let j = entry_index div RESTART_INTERVAL in
    if dense \<le> j then Inr None else
    let start = table_offset offs j;
        end' = (if j + 1 < dense then table_offset offs (j + 1) else length payload) in
    if start < len \<or> end' \<le> start \<or> length payload < end'
    then Inl (Corrupt ''v4 dense window outside payload'') else Inr (Some (start, end'))))"

definition get_entry_at ::
    "digest_fn \<Rightarrow> segment_reader \<Rightarrow> bytes \<Rightarrow> replica_id \<Rightarrow> u32 \<Rightarrow> u32 \<Rightarrow> segment_entry option fres" where
  "get_entry_at sha r key rid block entry_index =
    (let i = unat block; b = rd_data r ! i in
     if length (rd_data r) \<le> i \<or> \<not> db_v4 b then Inr None
     else if key < block_key r (db_first b) \<or> block_key r (db_last b) < key then Inr None else
     rbind (block_raw sha r i) (\<lambda>raw.
     let payload = drop BLOCK_HEADER_LEN raw in
     rbind (dense_window payload (unat entry_index)) (\<lambda>win.
     case win of None \<Rightarrow> Inr None | Some (start, end') \<Rightarrow>
     rbind (decode_nth (unat entry_index mod RESTART_INTERVAL) [] (cursor_new (take (end' - start) (drop start payload)))) (\<lambda>e.
     if se_key e \<noteq> key \<or> se_replica e \<noteq> rid then Inr None else Inr (Some e)))))"

section \<open>Iterators\<close>

record segment_iter =
  it_block :: nat
  it_entries :: "segment_entry list"

definition segment_iter_new :: segment_iter where
  "segment_iter_new = \<lparr>it_block = 0, it_entries = []\<rparr>"

function iter_next :: "digest_fn \<Rightarrow> segment_reader \<Rightarrow> segment_iter \<Rightarrow> segment_entry option fres \<times> segment_iter" where
  "iter_next sha r it =
    (case it_entries it of
       e # es \<Rightarrow> (Inr (Some e), it\<lparr>it_entries := es\<rparr>)
     | [] \<Rightarrow>
         if length (rd_data r) \<le> it_block it then (Inr None, it)
         else (case block_entries sha r (it_block it) of
                 Inl e \<Rightarrow> (Inl e, it)
               | Inr v \<Rightarrow> iter_next sha r (it\<lparr>it_entries := v, it_block := it_block it + 1\<rparr>)))"
  by pat_completeness auto
termination
  by (relation "measures [\<lambda>(sha, r, it). length (rd_data r) - it_block it]") auto

declare iter_next.simps [simp del]

section \<open>The scan cursor\<close>

text \<open>\<^verbatim>\<open>SegmentScan\<close>: one block at a time, the head of every key in a range. A round of its
  loop either yields an answer or goes on; the restart table with no entry at all would
  be an out-of-range slice: the source panics there.\<close>

definition restart_at :: "bytes \<Rightarrow> bytes \<Rightarrow> nat \<Rightarrow> nat \<Rightarrow> bytes fres" where
  "restart_at payload offs len j =
    (let o' = table_offset offs j in
     if o' < len \<or> length payload \<le> o' then Inl (Corrupt ''restart offset outside payload'')
     else restart_key payload o')"

definition scan_seek_pos :: "bytes \<Rightarrow> bool \<Rightarrow> bool \<Rightarrow> bytes \<Rightarrow> nat fres" where
  "scan_seek_pos payload v2 v4 start =
    (if \<not> v2 then Inr 0 else
     rbind (table_len v4 payload) (\<lambda>(restarts, len).
     let offs = take (len - 6) (drop 6 payload) in
     rbind (bin_search (\<lambda>mid. rbind (restart_at payload offs len mid) (\<lambda>k. Inr (k \<le> start))) 0 restarts) (\<lambda>lo.
     let j = lo - 1 in
     if length offs < j * 4 + 4 then Inl Panicked else Inr (table_offset offs j))))"

record scan_cursor =
  sc_start :: bytes
  sc_end :: "bytes option"
  sc_block :: nat
  sc_raw :: "bytes option"
  sc_pos :: nat
  sc_scratch :: bytes
  sc_last :: "bytes option"
  sc_v3 :: bool
  sc_done :: bool

definition scan_iter :: "segment_reader \<Rightarrow> bytes \<Rightarrow> bytes option \<Rightarrow> scan_cursor" where
  "scan_iter r start end' = \<lparr>sc_start = start, sc_end = end',
     sc_block = partition_point (\<lambda>b. block_key r (db_last b) < start) (rd_data r), sc_raw = None, sc_pos = 0,
     sc_scratch = [], sc_last = None, sc_v3 = False, sc_done = False\<rparr>"

definition past_end :: "bytes option \<Rightarrow> bytes \<Rightarrow> bool" where
  "past_end end' key = (case end' of None \<Rightarrow> False | Some k \<Rightarrow> k \<le> key)"

definition load_block :: "digest_fn \<Rightarrow> segment_reader \<Rightarrow> scan_cursor \<Rightarrow> scan_cursor option fres" where
  "load_block sha r st =
    (let i = sc_block st; b = rd_data r ! i in
     if length (rd_data r) \<le> i then Inr None
     else if past_end (sc_end st) (block_key r (db_first b)) then Inr None
     else rbind (block_raw sha r i) (\<lambda>raw.
       rbind (scan_seek_pos (drop BLOCK_HEADER_LEN raw) (db_v2 b) (db_v4 b) (sc_start st)) (\<lambda>pos.
       Inr (Some (st\<lparr>sc_pos := pos, sc_raw := Some raw, sc_v3 := db_v3 b, sc_block := i + 1, sc_scratch := []\<rparr>)))))"

datatype scan_out = Yield "segment_entry option fres" | Again

definition scan_skip :: "cursor \<Rightarrow> scan_cursor \<Rightarrow> scan_out \<times> scan_cursor" where
  "scan_skip c st =
    (case skip_entry_body (sc_v3 st) c of
       Inl e \<Rightarrow> (Yield (Inl e), st)
     | Inr (_, c) \<Rightarrow> (Again, st\<lparr>sc_pos := sc_pos st + cpos c\<rparr>))"

definition scan_entry :: "bytes \<Rightarrow> scan_cursor \<Rightarrow> scan_out \<times> scan_cursor" where
  "scan_entry payload st =
    (case cur_entry_key (sc_scratch st) (cursor_new (drop (sc_pos st) payload)) of
       Inl e \<Rightarrow> (Yield (Inl e), st)
     | Inr (k, c) \<Rightarrow>
         let st = st\<lparr>sc_scratch := k\<rparr> in
         if k < sc_start st then scan_skip c st
         else if past_end (sc_end st) k then (Yield (Inr None), st\<lparr>sc_done := True\<rparr>)
         else if sc_last st = Some k then scan_skip c st
         else (case cur_entry_body (sc_v3 st) k c of
             Inl e \<Rightarrow> (Yield (Inl e), st)
           | Inr (e, c) \<Rightarrow>
               let st = st\<lparr>sc_pos := sc_pos st + cpos c\<rparr> in
               if se_replica e \<noteq> ReplicaId 0 then (Again, st)
               else (Yield (Inr (Some e)), st\<lparr>sc_last := Some k\<rparr>)))"

definition scan_step :: "digest_fn \<Rightarrow> segment_reader \<Rightarrow> scan_cursor \<Rightarrow> scan_out \<times> scan_cursor" where
  "scan_step sha r st =
    (if sc_done st then (Yield (Inr None), st) else
     case sc_raw st of
       None \<Rightarrow>
         (case load_block sha r st of
            Inl e \<Rightarrow> (Yield (Inl e), st)
          | Inr None \<Rightarrow> (Yield (Inr None), st)
          | Inr (Some st) \<Rightarrow> (Again, st))
     | Some raw \<Rightarrow>
         let payload = drop BLOCK_HEADER_LEN raw in
         if length payload \<le> sc_pos st then (Again, st\<lparr>sc_raw := None\<rparr>) else scan_entry payload st)"

definition scan_measure :: "segment_reader \<Rightarrow> scan_cursor \<Rightarrow> nat \<times> nat" where
  "scan_measure r st = (length (rd_data r) - sc_block st,
     case sc_raw st of None \<Rightarrow> 0 | Some raw \<Rightarrow> Suc (length raw - BLOCK_HEADER_LEN - sc_pos st))"

lemma cur_entry_key_pos: "cur_entry_key scratch c = Inr (k, c') \<Longrightarrow> cpos c < cpos c'"
  by (auto simp: cur_entry_key_def rbind_Inr_iff cur_iffs split: if_splits dest!: adv_pos)

lemma cur_entry_body_pos: "cur_entry_body v3 k c = Inr (e, c') \<Longrightarrow> cpos c \<le> cpos c'"
  by (auto simp: cur_entry_body_def cur_entry_rid_def rbind_Inr_iff cur_iffs split: if_splits dest!: adv_pos)

lemma skip_entry_body_pos: "skip_entry_body v3 c = Inr (u, c') \<Longrightarrow> cpos c \<le> cpos c'"
  by (auto simp: skip_entry_body_def rbind_Inr_iff cur_iffs split: if_splits dest!: adv_pos)

lemma scan_skip_moves:
  "scan_skip c st = (Again, st') \<Longrightarrow> 0 < cpos c \<Longrightarrow> sc_block st' = sc_block st \<and> sc_raw st' = sc_raw st \<and> sc_pos st < sc_pos st'"
  by (auto simp: scan_skip_def split: sum.splits dest!: skip_entry_body_pos)

lemma scan_entry_moves:
  assumes "scan_entry payload st = (Again, st')"
  shows "sc_block st' = sc_block st \<and> sc_raw st' = sc_raw st \<and> sc_pos st < sc_pos st'"
proof -
  obtain k c where k: "cur_entry_key (sc_scratch st) (cursor_new (drop (sc_pos st) payload)) = Inr (k, c)"
    using assms by (auto simp: scan_entry_def split: sum.splits)
  have "0 < cpos c" using cur_entry_key_pos [OF k] by simp
  then show ?thesis using assms k
    by (auto simp: scan_entry_def Let_def split: sum.splits if_splits dest!: scan_skip_moves cur_entry_body_pos)
qed

lemma scan_step_decreases:
  assumes "scan_step sha r st = (Again, st')"
  shows "(scan_measure r st', scan_measure r st) \<in> less_than <*lex*> less_than"
proof (cases "sc_raw st")
  case None
  then have "load_block sha r st = Inr (Some st')"
    using assms by (auto simp: scan_step_def split: if_splits sum.splits option.splits)
  then show ?thesis by (auto simp: load_block_def Let_def rbind_Inr_iff scan_measure_def split: if_splits)
next
  case (Some raw)
  then show ?thesis using assms scan_entry_moves [of "drop BLOCK_HEADER_LEN raw" st st']
    by (auto simp: scan_step_def Let_def scan_measure_def split: if_splits)
qed

function scan_next :: "digest_fn \<Rightarrow> segment_reader \<Rightarrow> scan_cursor \<Rightarrow> segment_entry option fres \<times> scan_cursor" where
  "scan_next sha r st =
    (case scan_step sha r st of (Yield x, st') \<Rightarrow> (x, st') | (Again, st') \<Rightarrow> scan_next sha r st')"
  by pat_completeness auto
termination
  by (relation "inv_image (less_than <*lex*> less_than) (\<lambda>(sha, r, st). scan_measure r st)")
    (auto simp only: in_inv_image prod.case scan_step_decreases intro!: wf_inv_image wf_lex_prod wf_less_than)

declare scan_next.simps [simp del]

end
