(* ===== verification/DbState.thy ===== *)
theory DbState
  imports Memtable WalRecovery Placement SegmentReader
begin

text \<open>
  The database handle of \<^verbatim>\<open>db.rs\<close>: the configuration, the state under the state lock, the
  files of the directory, and the write path that runs under the lock (sequence number, WAL append,
  apply). An operation that can fail after it has changed the state returns the changed state with
  the error. What the file system answers to a WAL append is an argument; byte counters, timers and
  statistics are left out. The replay closure of \<^verbatim>\<open>Db::open\<close> is here as well, next to the live
  apply it mirrors.
\<close>

section \<open>Configuration\<close>

datatype durability_mode = Sync | GroupCommit | Async

record db_config =
  cf_memtable_bytes :: nat
  cf_block_target :: nat
  cf_durability :: durability_mode
  cf_max_batch_ops :: nat
  cf_max_batch_bytes :: nat
  cf_max_wait_ms :: nat
  cf_cache_bytes :: nat
  cf_l0_compact_trigger :: nat
  cf_l0_tier_ratio :: nat
  cf_compact_background :: bool
  cf_backlog_hard_bound_bytes :: u64
  cf_merge_chunk_bytes :: nat
  cf_checkpoint_bytes :: nat
  cf_trace_every :: u64
  cf_wal_fail_next :: bool
  cf_retain_log :: bool

definition DEFAULT_MEMTABLE_BYTES :: nat where "DEFAULT_MEMTABLE_BYTES = 64 * 1024 * 1024"
definition DEFAULT_BLOCK_TARGET :: nat where "DEFAULT_BLOCK_TARGET = 16 * 1024"
definition DEFAULT_GROUP_BATCH_OPS :: nat where "DEFAULT_GROUP_BATCH_OPS = 4096"
definition DEFAULT_GROUP_BATCH_BYTES :: nat where "DEFAULT_GROUP_BATCH_BYTES = 16 * 1024 * 1024"
definition DEFAULT_CACHE_BYTES :: nat where "DEFAULT_CACHE_BYTES = 8 * 1024 * 1024"
definition DEFAULT_BACKLOG_HARD_BOUND_BYTES :: u64 where "DEFAULT_BACKLOG_HARD_BOUND_BYTES = 256 * 1024 * 1024"
definition DEFAULT_L0_COMPACT_TRIGGER :: nat where "DEFAULT_L0_COMPACT_TRIGGER = 4"
definition DEFAULT_L0_TIER_RATIO :: nat where "DEFAULT_L0_TIER_RATIO = 1"
definition DEFAULT_MERGE_CHUNK_BYTES :: nat where "DEFAULT_MERGE_CHUNK_BYTES = 64 * 1024 * 1024"
definition DEFAULT_CHECKPOINT_BYTES :: nat where "DEFAULT_CHECKPOINT_BYTES = 16 * 1024 * 1024"

definition config_new :: db_config where
  "config_new =
    \<lparr>cf_memtable_bytes = DEFAULT_MEMTABLE_BYTES, cf_block_target = DEFAULT_BLOCK_TARGET, cf_durability = Sync,
     cf_max_batch_ops = DEFAULT_GROUP_BATCH_OPS, cf_max_batch_bytes = DEFAULT_GROUP_BATCH_BYTES,
     cf_max_wait_ms = 0, cf_cache_bytes = DEFAULT_CACHE_BYTES,
     cf_l0_compact_trigger = DEFAULT_L0_COMPACT_TRIGGER, cf_l0_tier_ratio = DEFAULT_L0_TIER_RATIO,
     cf_compact_background = True, cf_backlog_hard_bound_bytes = DEFAULT_BACKLOG_HARD_BOUND_BYTES,
     cf_merge_chunk_bytes = DEFAULT_MERGE_CHUNK_BYTES, cf_checkpoint_bytes = DEFAULT_CHECKPOINT_BYTES,
     cf_trace_every = 0, cf_wal_fail_next = False, cf_retain_log = False\<rparr>"

section \<open>State\<close>

record db_state =
  st_active :: memtable
  st_immutables :: "memtable list"
  st_segments :: "segment_reader list"
  st_segment_records :: "segment_record list"
  st_l0_count :: nat
  st_l0_bytes :: u64
  st_l1_bytes :: u64
  st_next_seq :: u64
  st_next_segment_id :: u64
  st_generation :: u64
  st_identity :: "object_id \<rightharpoonup> logical_id"
  st_replicas :: "logical_id \<rightharpoonup> replica_id"
  st_pending_identity :: "identity_record list"
  st_pending_replicas :: "replica_record list"
  st_next_logical_id :: u64
  st_next_replica_id :: u64
  st_placements :: placements
  st_pending_placements :: "placement_record list"
  st_next_placement_generation :: u64
  st_bytes_since_checkpoint :: u64
  st_identity_floor :: u64
  st_replica_floor :: u64
  st_placement_floor :: u64
  st_identity_chain :: u64
  st_replica_chain :: u64
  st_placement_chain :: u64
  st_snapshot_pins :: "string set"

text \<open>The handshake between the write path and the compactor.\<close>

record compactor_signal =
  sg_pending :: bool
  sg_shutdown :: bool

definition signal_new :: compactor_signal where
  "signal_new = \<lparr>sg_pending = False, sg_shutdown = False\<rparr>"

definition kick :: "compactor_signal \<Rightarrow> bool \<times> compactor_signal" where
  "kick sg = (sg_pending sg, sg\<lparr>sg_pending := True\<rparr>)"

definition clear_pending :: "compactor_signal \<Rightarrow> compactor_signal" where
  "clear_pending sg = sg\<lparr>sg_pending := False\<rparr>"

definition signal_shutdown :: "compactor_signal \<Rightarrow> compactor_signal" where
  "signal_shutdown sg = clear_pending (sg\<lparr>sg_shutdown := True\<rparr>)"

text \<open>The two waits on the condition variable return when these hold.\<close>

definition idle_passes :: "compactor_signal \<Rightarrow> bool" where
  "idle_passes sg \<longleftrightarrow> \<not> sg_pending sg \<or> sg_shutdown sg"

definition kick_passes :: "compactor_signal \<Rightarrow> bool" where
  "kick_passes sg \<longleftrightarrow> sg_pending sg \<or> sg_shutdown sg"

text \<open>The handle: configuration, WAL file, state, the other files of the directory, the count of
  commit syncs, the injected append failure, the fence and the compactor signal.\<close>

record database =
  dx_config :: db_config
  dx_wal :: bytes
  dx_state :: db_state
  dx_dir :: directory
  dx_fsyncs :: u64
  dx_wal_fail_next :: bool
  dx_fenced :: "string option"
  dx_signal :: compactor_signal

text \<open>A fallible step that keeps the state it reached when it fails.\<close>

definition tbind :: "('e + 'a) \<times> 's \<Rightarrow> ('a \<Rightarrow> 's \<Rightarrow> ('e + 'b) \<times> 's) \<Rightarrow> ('e + 'b) \<times> 's" where
  "tbind r f = (case r of (Inl e, s) \<Rightarrow> (Inl e, s) | (Inr x, s) \<Rightarrow> f x s)"

lemma tbind_simps [simp]: "tbind (Inl e, s) f = (Inl e, s)" "tbind (Inr x, s) f = f x s"
  by (simp_all add: tbind_def)

lemma tbind_Inr_iff: "tbind r f = (Inr y, s') \<longleftrightarrow> (\<exists>x s. r = (Inr x, s) \<and> f x s = (Inr y, s'))"
  by (auto simp: tbind_def split: prod.splits sum.splits)

primrec tfold :: "('x \<Rightarrow> 's \<Rightarrow> ('e + unit) \<times> 's) \<Rightarrow> 'x list \<Rightarrow> 's \<Rightarrow> ('e + unit) \<times> 's" where
  "tfold f [] s = (Inr (), s)"
| "tfold f (x # xs) s = tbind (f x s) (\<lambda>_. tfold f xs)"

lemma tfold_append: "tfold f (xs @ ys) s = tbind (tfold f xs s) (\<lambda>_. tfold f ys)"
  by (induction xs arbitrary: s) (auto simp: tbind_def split: prod.splits sum.splits)

section \<open>Identities and placements\<close>

definition reserve_identity :: "db_state \<Rightarrow> (logical_id \<times> replica_id \<times> u64) \<times> db_state" where
  "reserve_identity st =
    (let lid = LogicalId (st_next_logical_id st);
         st = st\<lparr>st_next_logical_id := st_next_logical_id st + 1\<rparr>;
         rid = ReplicaId (st_next_replica_id st);
         st = st\<lparr>st_next_replica_id := st_next_replica_id st + 1\<rparr>;
         pgen = st_next_placement_generation st;
         st = st\<lparr>st_next_placement_generation := st_next_placement_generation st + 1\<rparr>
     in ((lid, rid, pgen), st))"

type_synonym flip = "placements \<times> placement_record list \<times> u64"

definition apply_object_placement :: "replica_id \<Rightarrow> flip \<Rightarrow> unit fres \<times> flip" where
  "apply_object_placement rid = (\<lambda>(placements, pending, next_generation).
    let pgen = next_generation; next_generation = next_generation + 1; placement = InMemtable pgen in
    case merge_placement rid placement placements of
      Inl e \<Rightarrow> (Inl e, (placements, pending, next_generation))
    | Inr (placements, _) \<Rightarrow>
        (Inr (), (placements, pending @ [\<lparr>pr_rid = rid, pr_placement = placement\<rparr>], next_generation)))"

definition replay_object_placement :: "replica_id \<Rightarrow> flip \<Rightarrow> unit fres \<times> flip" where
  "replay_object_placement rid fl =
    (case fst fl rid of Some (InMemtable _) \<Rightarrow> (Inr (), fl) | _ \<Rightarrow> apply_object_placement rid fl)"

definition state_placement :: "replica_id \<Rightarrow> db_state \<Rightarrow> unit fres \<times> db_state" where
  "state_placement rid st =
    (case apply_object_placement rid (st_placements st, st_pending_placements st, st_next_placement_generation st) of
       (r, (placements, pending, next_generation)) \<Rightarrow>
         (r, st\<lparr>st_placements := placements, st_pending_placements := pending,
                st_next_placement_generation := next_generation\<rparr>))"

text \<open>The arm of a create: each merge may refuse, with what was done before it in place.\<close>

definition apply_create :: "object_id \<Rightarrow> logical_id \<Rightarrow> replica_id \<Rightarrow> u64 \<Rightarrow> db_state \<Rightarrow> unit fres \<times> db_state" where
  "apply_create oid lid rid pgen st =
    (case merge_identity (oid, lid) (st_identity st) of
       Inl e \<Rightarrow> (Inl e, st)
     | Inr identity \<Rightarrow>
         let st = st\<lparr>st_identity := identity,
                st_next_logical_id := max (st_next_logical_id st) (lid_u64 lid + 1),
                st_next_replica_id := max (st_next_replica_id st) (rid_u64 rid + 1),
                st_next_placement_generation := max (st_next_placement_generation st) (pgen + 1),
                st_pending_identity := st_pending_identity st @ [\<lparr>ir_oid = oid, ir_lid = lid\<rparr>]\<rparr> in
         case merge_replica (lid, LOCAL_NODE_ID, rid) (st_replicas st) of
           Inl e \<Rightarrow> (Inl e, st)
         | Inr replicas \<Rightarrow>
             let st = st\<lparr>st_replicas := replicas,
                    st_pending_replicas := st_pending_replicas st @ [\<lparr>rr_lid = lid, rr_node = LOCAL_NODE_ID, rr_rid = rid\<rparr>]\<rparr> in
             case merge_placement rid (InMemtable pgen) (st_placements st) of
               Inl e \<Rightarrow> (Inl e, st)
             | Inr (placements, _) \<Rightarrow>
                 (Inr (), st\<lparr>st_placements := placements,
                    st_pending_placements := st_pending_placements st @ [\<lparr>pr_rid = rid, pr_placement = InMemtable pgen\<rparr>]\<rparr>))"

fun apply_op :: "u64 \<Rightarrow> op \<Rightarrow> db_state \<Rightarrow> unit fres \<times> db_state" where
  "apply_op seq (Put k v) st = (Inr (), st\<lparr>st_active := mt_apply k seq (Some v) (st_active st)\<rparr>)"
| "apply_op seq (Delete k) st = (Inr (), st\<lparr>st_active := mt_apply k seq None (st_active st)\<rparr>)"
| "apply_op seq (PutObject rid k v) st =
    state_placement rid (st\<lparr>st_active := mt_apply_object k seq (Some v) rid (st_active st)\<rparr>)"
| "apply_op seq (DeleteObject rid k) st =
    state_placement rid (st\<lparr>st_active := mt_apply_object k seq None rid (st_active st)\<rparr>)"
| "apply_op seq (CreateObject oid lid rid pgen) st = apply_create oid lid rid pgen st"

section \<open>The write path under the state lock\<close>

text \<open>What the file system answers: nothing wrong, or the call that fails; a failed write leaves a
  prefix of the frame in the file.\<close>

datatype wal_fault = WalOk | SeekFails string | WriteFails nat string | SyncFails string

definition wal_append :: "wal_fault \<Rightarrow> bytes \<Rightarrow> database \<Rightarrow> unit fres \<times> database" where
  "wal_append flt frame d =
    (case flt of SeekFails why \<Rightarrow> (Inl (Io why), d) | _ \<Rightarrow>
     if dx_wal_fail_next d
     then (Inl (Io ''injected WAL append failure (wal_fail_next)''), d\<lparr>dx_wal_fail_next := False\<rparr>) else
     case flt of WriteFails n why \<Rightarrow> (Inl (Io why), d\<lparr>dx_wal := dx_wal d @ take n frame\<rparr>) | _ \<Rightarrow>
     let d = d\<lparr>dx_wal := dx_wal d @ frame\<rparr> in
     if cf_durability (dx_config d) = Sync then
       (case flt of SyncFails why \<Rightarrow> (Inl (Io why), d) | _ \<Rightarrow> (Inr (), d\<lparr>dx_fsyncs := dx_fsyncs d + 1\<rparr>))
     else (Inr (), d))"

datatype write_outcome = Redelivered u64 | Committed u64 bool

definition write_guards :: "op list \<Rightarrow> u64 option \<Rightarrow> database \<Rightarrow> unit fres" where
  "write_guards ops expected d =
    (if ops = [] then Inl (Invalid ''empty write batch'')
     else if list_ex (\<lambda>op. U16_MAX < length (op_key op)) ops
     then Inl (Invalid ''key length exceeds the format limit'')
     else case (expected, dx_fenced d) of
       (None, Some why) \<Rightarrow> Inl (Stale (''not leader: '' @ why))
     | _ \<Rightarrow> Inr ())"

text \<open>From the lock to the release: the sequence number is consumed whatever happens afterwards.\<close>

definition commit_frame :: "digest_fn \<Rightarrow> wal_fault \<Rightarrow> u64 \<Rightarrow> op list \<Rightarrow> database \<Rightarrow> write_outcome fres \<times> database" where
  "commit_frame sha flt seq ops d =
    (let d = d\<lparr>dx_state := (dx_state d)\<lparr>st_next_seq := st_next_seq (dx_state d) + 1\<rparr>\<rparr> in
     case encode_frame sha seq ops of
       Inl e \<Rightarrow> (Inl e, d)
     | Inr frame \<Rightarrow> tbind (wal_append flt frame d) (\<lambda>_ d.
         case tfold (apply_op seq) ops (dx_state d) of
           (Inl e, st) \<Rightarrow> (Inl e, d\<lparr>dx_state := st\<rparr>)
         | (Inr _, st) \<Rightarrow>
             (Inr (Committed seq (cf_memtable_bytes (dx_config d) \<le> mt_bytes (st_active st))), d\<lparr>dx_state := st\<rparr>)))"

definition write_locked :: "digest_fn \<Rightarrow> wal_fault \<Rightarrow> op list \<Rightarrow> u64 option \<Rightarrow> database \<Rightarrow> write_outcome fres \<times> database" where
  "write_locked sha flt ops expected d =
    (let seq = st_next_seq (dx_state d) in
     case expected of
       Some e \<Rightarrow>
         if e < seq then (Inr (Redelivered e), d)
         else if seq < e then (Inl (Invalid ''replicated frame skips a sequence number''), d)
         else commit_frame sha flt seq ops d
     | None \<Rightarrow> commit_frame sha flt seq ops d)"

section \<open>Replay at open\<close>

record replay_state =
  rp_active :: memtable
  rp_identity :: "object_id \<rightharpoonup> logical_id"
  rp_replicas :: "logical_id \<rightharpoonup> replica_id"
  rp_placements :: placements
  rp_pending_identity :: "identity_record list"
  rp_pending_replicas :: "replica_record list"
  rp_pending_placements :: "placement_record list"
  rp_pgen :: u64
  rp_max :: u64

definition replay_flip :: "replica_id \<Rightarrow> replay_state \<Rightarrow> replay_state fres" where
  "replay_flip rid rp =
    (case replay_object_placement rid (rp_placements rp, rp_pending_placements rp, rp_pgen rp) of
       (Inl e, _) \<Rightarrow> Inl e
     | (Inr _, (placements, pending, pgen)) \<Rightarrow>
         Inr (rp\<lparr>rp_placements := placements, rp_pending_placements := pending, rp_pgen := pgen\<rparr>))"

fun replay_arm :: "u64 \<Rightarrow> op \<Rightarrow> replay_state \<Rightarrow> replay_state fres" where
  "replay_arm seq (Put k v) rp = Inr (rp\<lparr>rp_active := mt_apply k seq (Some v) (rp_active rp)\<rparr>)"
| "replay_arm seq (Delete k) rp = Inr (rp\<lparr>rp_active := mt_apply k seq None (rp_active rp)\<rparr>)"
| "replay_arm seq (PutObject rid k v) rp =
    replay_flip rid (rp\<lparr>rp_active := mt_apply_object k seq (Some v) rid (rp_active rp)\<rparr>)"
| "replay_arm seq (DeleteObject rid k) rp =
    replay_flip rid (rp\<lparr>rp_active := mt_apply_object k seq None rid (rp_active rp)\<rparr>)"
| "replay_arm seq (CreateObject oid lid rid pgen) rp =
    rbind (merge_identity (oid, lid) (rp_identity rp)) (\<lambda>identity.
    rbind (merge_replica (lid, LOCAL_NODE_ID, rid) (rp_replicas rp)) (\<lambda>replicas.
    rbind (merge_placement rid (InMemtable pgen) (rp_placements rp)) (\<lambda>(placements, _).
    Inr (rp\<lparr>rp_identity := identity, rp_pending_identity := rp_pending_identity rp @ [\<lparr>ir_oid = oid, ir_lid = lid\<rparr>],
            rp_replicas := replicas,
            rp_pending_replicas := rp_pending_replicas rp @ [\<lparr>rr_lid = lid, rr_node = LOCAL_NODE_ID, rr_rid = rid\<rparr>],
            rp_placements := placements,
            rp_pending_placements := rp_pending_placements rp @ [\<lparr>pr_rid = rid, pr_placement = InMemtable pgen\<rparr>]\<rparr>))))"

definition replay_op :: "u64 \<Rightarrow> op \<Rightarrow> replay_state \<Rightarrow> replay_state fres" where
  "replay_op seq op rp = rbind (replay_arm seq op rp) (\<lambda>rp. Inr (rp\<lparr>rp_max := max (rp_max rp) seq\<rparr>))"

end
