(* ===== verification/DbRead.thy ===== *)
theory DbRead
  imports DbState
begin

text \<open>
  The read paths of \<^verbatim>\<open>db.rs\<close>: the layered point read, the batch read, the object read through the
  placement directory, and the prefix scan as a merge of one stream per layer. Layers are read newest
  first; the segments are the snapshot taken under the lock. Counters and timers are left out. A
  division by zero in a Bloom probe is the error \<^verbatim>\<open>panic\<close>.
\<close>

section \<open>Point reads\<close>

definition row_value :: "segment_entry \<Rightarrow> bytes option" where
  "row_value e = (if se_flags e AND FLAG_DELETE \<noteq> 0 then None else Some (se_value e))"

definition mem_probe :: "db_state \<Rightarrow> bytes \<Rightarrow> byte_row option" where
  "mem_probe st key =
    (case mt_get (st_active st) key of
       Some e \<Rightarrow> Some e
     | None \<Rightarrow> find_map (\<lambda>mem. mt_get mem key) (rev (st_immutables st)))"

definition segment_skips :: "u64 \<times> u64 \<Rightarrow> bytes \<Rightarrow> segment_reader \<Rightarrow> bool fres" where
  "segment_skips h key seg =
    (if key < rd_key_min seg \<or> rd_key_max seg < key then Inr True
     else case bloom_may_contain_hashes seg (fst h) (snd h) of
       None \<Rightarrow> Inl Panicked
     | Some may \<Rightarrow> Inr (\<not> may))"

fun probe_segments :: "digest_fn \<Rightarrow> bytes \<Rightarrow> segment_reader list \<Rightarrow> bytes option fres" where
  "probe_segments sha key [] = Inr None"
| "probe_segments sha key (seg # segs) =
    rbind (segment_skips (bloom_hashes sha key) key seg) (\<lambda>skips.
    if skips then probe_segments sha key segs
    else rbind (segment_get sha seg key) (\<lambda>found.
      case found of Some e \<Rightarrow> Inr (row_value e) | None \<Rightarrow> probe_segments sha key segs))"

definition get_inner :: "digest_fn \<Rightarrow> db_state \<Rightarrow> bytes \<Rightarrow> bytes option fres" where
  "get_inner sha st key =
    (case mem_probe st key of
       Some e \<Rightarrow> Inr (br_value e)
     | None \<Rightarrow> probe_segments sha key (rev (st_segments st)))"

section \<open>Batch reads\<close>

definition unique_positions :: "bytes list \<Rightarrow> (bytes \<rightharpoonup> nat) \<times> nat list" where
  "unique_positions keys =
    fold (\<lambda>(pos, key) (first_pos, unique).
      if first_pos key = None then (first_pos(key \<mapsto> pos), unique @ [pos]) else (first_pos, unique))
      (enumerate 0 keys) (Map.empty, [])"

definition mem_pass :: "db_state \<Rightarrow> bytes list \<Rightarrow> nat list \<Rightarrow> bytes option list \<Rightarrow> bytes option list \<times> nat list" where
  "mem_pass st keys unique answers =
    fold (\<lambda>pos (answers, left).
      case mem_probe st (keys ! pos) of
        Some e \<Rightarrow> (answers[pos := br_value e], left)
      | None \<Rightarrow> (answers, left @ [pos])) unique (answers, [])"

text \<open>One segment pass: the positions the range and the Bloom filter let through, one batch read, the
  answers written by position and the resolved positions dropped.\<close>

fun wanted_positions :: "digest_fn \<Rightarrow> bytes list \<Rightarrow> segment_reader \<Rightarrow> nat list \<Rightarrow> nat list fres" where
  "wanted_positions sha keys seg [] = Inr []"
| "wanted_positions sha keys seg (pos # ps) =
    rbind (segment_skips (bloom_hashes sha (keys ! pos)) (keys ! pos) seg) (\<lambda>skips.
    rbind (wanted_positions sha keys seg ps) (\<lambda>wanted. Inr (if skips then wanted else pos # wanted)))"

definition fill_answers :: "(nat \<times> segment_entry option) list \<Rightarrow> bytes option list \<Rightarrow> bytes option list" where
  "fill_answers found answers =
    fold (\<lambda>(pos, e) answers. case e of None \<Rightarrow> answers | Some e \<Rightarrow> answers[pos := row_value e]) found answers"

definition resolved_now :: "(nat \<times> segment_entry option) list \<Rightarrow> nat set" where
  "resolved_now found = set (map fst (filter (\<lambda>(_, e). e \<noteq> None) found))"

fun segment_passes ::
    "digest_fn \<Rightarrow> bytes list \<Rightarrow> segment_reader list \<Rightarrow> nat list \<Rightarrow> bytes option list \<Rightarrow> bytes option list fres" where
  "segment_passes sha keys [] left answers = Inr answers"
| "segment_passes sha keys (seg # segs) left answers =
    rbind (wanted_positions sha keys seg left) (\<lambda>wanted.
    if wanted = [] then segment_passes sha keys segs left answers
    else rbind (segment_get_many sha seg (map (\<lambda>p. keys ! p) wanted)) (\<lambda>found.
      let pairs = zip wanted found in
      segment_passes sha keys segs (filter (\<lambda>p. p \<notin> resolved_now pairs) left) (fill_answers pairs answers)))"

definition get_many_inner :: "digest_fn \<Rightarrow> db_state \<Rightarrow> bytes list \<Rightarrow> bytes option list fres" where
  "get_many_inner sha st keys =
    (let (first_pos, unique) = unique_positions keys;
         (answers, left) = mem_pass st keys unique (replicate (length keys) None) in
     rbind (segment_passes sha keys (rev (st_segments st)) left answers) (\<lambda>answers.
     Inr (fold (\<lambda>(pos, key) answers.
         case first_pos key of
           Some first \<Rightarrow> if first \<noteq> pos then answers[pos := answers ! first] else answers
         | None \<Rightarrow> answers) (enumerate 0 keys) answers)))"

section \<open>Object reads\<close>

definition resolve_object :: "db_state \<Rightarrow> object_id \<Rightarrow> logical_id option" where
  "resolve_object st oid = st_identity st oid"

definition resolve_local :: "db_state \<Rightarrow> logical_id \<Rightarrow> replica_id option" where
  "resolve_local st lid = st_replicas st lid"

text \<open>The segment a placement names: the reader at the position of its record.\<close>

definition direct_home :: "db_state \<Rightarrow> replica_id \<Rightarrow> (segment_reader \<times> physical_location) option" where
  "direct_home st rid =
    (case st_placements st rid of
       Some (InSegment loc) \<Rightarrow>
         (let i = partition_point (\<lambda>r. sr_segment_id r \<noteq> sid_u64 (pl_segment_id loc)) (st_segment_records st) in
          if i < length (st_segment_records st) \<and> i < length (st_segments st)
          then Some (st_segments st ! i, loc) else None)
     | _ \<Rightarrow> None)"

definition mem_probe_rid :: "db_state \<Rightarrow> bytes \<Rightarrow> replica_id \<Rightarrow> object_row option" where
  "mem_probe_rid st key rid =
    (case mt_get_by_rid (st_active st) key rid of
       Some e \<Rightarrow> Some e
     | None \<Rightarrow> find_map (\<lambda>mem. mt_get_by_rid mem key rid) (rev (st_immutables st)))"

fun probe_segments_rid :: "digest_fn \<Rightarrow> bytes \<Rightarrow> replica_id \<Rightarrow> segment_reader list \<Rightarrow> bytes option fres" where
  "probe_segments_rid sha key rid [] = Inr None"
| "probe_segments_rid sha key rid (seg # segs) =
    rbind (segment_get_by_rid sha seg key rid) (\<lambda>found.
    case found of Some e \<Rightarrow> Inr (row_value e) | None \<Rightarrow> probe_segments_rid sha key rid segs)"

definition read_replica :: "digest_fn \<Rightarrow> db_state \<Rightarrow> replica_id \<Rightarrow> bytes \<Rightarrow> bytes option fres" where
  "read_replica sha st rid key =
    (let direct = direct_home st rid;
         mem_hit = (if direct \<noteq> None then None else mem_probe_rid st key rid) in
     case mem_hit of
       Some e \<Rightarrow> Inr (or_value e)
     | None \<Rightarrow>
         rbind (case direct of
             Some (seg, loc) \<Rightarrow> get_entry_at sha seg key rid (bid_u32 (pl_block_id loc)) (pl_entry_offset loc)
           | None \<Rightarrow> Inr None) (\<lambda>found.
         case found of
           Some e \<Rightarrow> Inr (row_value e)
         | None \<Rightarrow> probe_segments_rid sha key rid (rev (st_segments st))))"

definition get_object :: "digest_fn \<Rightarrow> db_state \<Rightarrow> object_id \<Rightarrow> bytes \<Rightarrow> bytes option fres" where
  "get_object sha st oid key =
    (case resolve_object st oid of
       None \<Rightarrow> Inr None
     | Some lid \<Rightarrow>
         (case resolve_local st lid of
            None \<Rightarrow> Inl (Corrupt ''logical has no local replica'')
          | Some rid \<Rightarrow> read_replica sha st rid key))"

section \<open>Prefix scans\<close>

text \<open>The increment runs from the last byte; a byte that wraps stays in place as zero.\<close>

fun bump_rev :: "bytes \<Rightarrow> bytes option" where
  "bump_rev [] = None"
| "bump_rev (b # bs) = (if b + 1 \<noteq> 0 then Some ((b + 1) # bs) else map_option (\<lambda>r. 0 # r) (bump_rev bs))"

definition prefix_end :: "bytes \<Rightarrow> bytes option" where
  "prefix_end pre = (if pre = [] then None else map_option rev (bump_rev (rev pre)))"

type_synonym merge_entry = "bytes \<times> bytes option"

datatype scan_stream = SegStream segment_reader scan_cursor | MemStream "merge_entry list"

fun stream_next :: "digest_fn \<Rightarrow> scan_stream \<Rightarrow> merge_entry option fres \<times> scan_stream" where
  "stream_next sha (SegStream r sc) =
    (case scan_next sha r sc of
       (Inr (Some e), sc) \<Rightarrow> (Inr (Some (se_key e, row_value e)), SegStream r sc)
     | (Inl e, sc) \<Rightarrow> (Inl e, SegStream r sc)
     | (Inr None, sc) \<Rightarrow> (Inr None, SegStream r sc))"
| "stream_next sha (MemStream []) = (Inr None, MemStream [])"
| "stream_next sha (MemStream (x # xs)) = (Inr (Some x), MemStream xs)"

definition mem_run :: "bytes \<Rightarrow> bytes \<Rightarrow> memtable \<Rightarrow> merge_entry list" where
  "mem_run pre start m = map (\<lambda>(k, e). (k, br_value e)) (filter (\<lambda>(k, _). start \<le> k) (mt_prefix_heads m pre))"

definition scan_streams :: "db_state \<Rightarrow> bytes \<Rightarrow> bytes \<Rightarrow> scan_stream list" where
  "scan_streams st pre start =
    map (\<lambda>seg. SegStream seg (scan_iter seg start (prefix_end pre))) (st_segments st)
    @ map (\<lambda>m. MemStream (mem_run pre start m)) (st_immutables st)
    @ [MemStream (mem_run pre start (st_active st))]"

text \<open>The merge heap pops the least key first, the highest stream index among equal keys; a stream has
  at most one element in it.\<close>

record scan_head =
  hd_key :: bytes
  hd_idx :: nat
  hd_val :: "bytes option"

definition head_pops_after :: "scan_head \<Rightarrow> scan_head \<Rightarrow> bool" where
  "head_pops_after a b \<longleftrightarrow> hd_key b < hd_key a \<or> (hd_key a = hd_key b \<and> hd_idx a < hd_idx b)"

fun scan_peek :: "scan_head list \<Rightarrow> scan_head option" where
  "scan_peek [] = None"
| "scan_peek (h # hs) = Some (fold (\<lambda>a m. if head_pops_after m a then a else m) hs h)"

definition refill :: "digest_fn \<Rightarrow> nat \<Rightarrow> scan_stream list \<times> scan_head list \<Rightarrow> (scan_stream list \<times> scan_head list) fres" where
  "refill sha i = (\<lambda>(streams, heap).
    case stream_next sha (streams ! i) of
      (Inl e, _) \<Rightarrow> Inl e
    | (Inr None, s) \<Rightarrow> Inr (streams[i := s], heap)
    | (Inr (Some (k, v)), s) \<Rightarrow> Inr (streams[i := s], heap @ [\<lparr>hd_key = k, hd_idx = i, hd_val = v\<rparr>]))"

lemma scan_peek_in: "scan_peek heap = Some h \<Longrightarrow> h \<in> set heap"
proof (cases heap)
  case (Cons x xs)
  have "fold (\<lambda>a m. if head_pops_after m a then a else m) xs m \<in> insert m (set xs)" for m
    by (induction xs arbitrary: m) auto
  then show "scan_peek heap = Some h \<Longrightarrow> h \<in> set heap" using Cons by auto
qed simp

text \<open>The drain of the elements with the popped key: the streams drained, the best index and its value.\<close>

function drain_equal :: "bytes \<Rightarrow> scan_head list \<Rightarrow> nat list \<Rightarrow> nat \<Rightarrow> bytes option
    \<Rightarrow> nat list \<times> bytes option \<times> scan_head list" where
  "drain_equal k heap run best_i win_v =
    (case scan_peek heap of
       None \<Rightarrow> (run, win_v, heap)
     | Some h \<Rightarrow>
         if hd_key h \<noteq> k then (run, win_v, heap)
         else drain_equal k (remove1 h heap) (run @ [hd_idx h])
                (if best_i \<le> hd_idx h then hd_idx h else best_i) (if best_i \<le> hd_idx h then hd_val h else win_v))"
  by pat_completeness auto

termination
  by (relation "measure (\<lambda>(k, heap, run, best_i, win_v). length heap)")
    (auto simp: length_remove1 dest: scan_peek_in length_pos_if_in_set)

declare drain_equal.simps [simp del]

text \<open>The outer loop, with the number of pops bounded by \<open>fuel\<close>; \<open>None\<close> is a bound that was too small.\<close>

primrec scan_loop :: "digest_fn \<Rightarrow> nat \<Rightarrow> scan_stream list \<Rightarrow> scan_head list \<Rightarrow> (bytes \<times> bytes) list \<Rightarrow> (bytes \<times> bytes) list fres option" where
  "scan_loop sha 0 streams heap out = None"
| "scan_loop sha (Suc fuel) streams heap out =
    (case scan_peek heap of
       None \<Rightarrow> Some (Inr out)
     | Some h \<Rightarrow>
         let (run, win_v, heap) = drain_equal (hd_key h) (remove1 h heap) [hd_idx h] (hd_idx h) (hd_val h) in
         case rfold (refill sha) run (streams, heap) of
           Inl e \<Rightarrow> Some (Inl e)
         | Inr (streams, heap) \<Rightarrow>
             scan_loop sha fuel streams heap (case win_v of Some v \<Rightarrow> out @ [(hd_key h, v)] | None \<Rightarrow> out))"

definition scan_from :: "digest_fn \<Rightarrow> nat \<Rightarrow> db_state \<Rightarrow> bytes \<Rightarrow> bytes \<Rightarrow> (bytes \<times> bytes) list fres option" where
  "scan_from sha fuel st pre start =
    (let start = max start pre; streams = scan_streams st pre start in
     case rfold (refill sha) [0..<length streams] (streams, []) of
       Inl e \<Rightarrow> Some (Inl e)
     | Inr (streams, heap) \<Rightarrow> scan_loop sha fuel streams heap [])"

definition db_scan :: "digest_fn \<Rightarrow> nat \<Rightarrow> db_state \<Rightarrow> bytes \<Rightarrow> (bytes \<times> bytes) list fres option" where
  "db_scan sha fuel st pre = scan_from sha fuel st pre pre"

end
