(* ===== verification/SegmentData.thy ===== *)
theory SegmentData
  imports SegmentReader
begin

text \<open>
  What a data block holds. The encode pass of the writer is characterised by the list of
  shared-prefix lengths it ends with: the payload is the concatenation of the entry images
  under them, every length is one the reader can undo, and the restart and dense tables
  point at entries that carry their full key. The decode loops of the reader then read
  the entries back, from the start of the block or from any such position.
\<close>

section \<open>Images of a run of entries\<close>

definition images :: "bool \<Rightarrow> nat list \<Rightarrow> segment_entry list \<Rightarrow> bytes" where
  "images v3 ss es = concat (map2 (entry_image v3) ss es)"

text \<open>\<open>s\<close> leading bytes of the key are those of the previous key.\<close>

definition link :: "bytes \<Rightarrow> nat \<Rightarrow> bytes \<Rightarrow> bool" where
  "link base s k \<longleftrightarrow> s \<le> length base \<and> s \<le> length k \<and> take s base = take s k"

fun chained :: "bytes \<Rightarrow> nat list \<Rightarrow> segment_entry list \<Rightarrow> bool" where
  "chained base [] [] \<longleftrightarrow> True"
| "chained base (s # ss) (e # es) \<longleftrightarrow> link base s (se_key e) \<and> chained (se_key e) ss es"
| "chained base _ _ \<longleftrightarrow> False"

text \<open>The offset of entry \<open>i\<close> in the payload.\<close>

definition off :: "bool \<Rightarrow> nat list \<Rightarrow> segment_entry list \<Rightarrow> nat \<Rightarrow> nat" where
  "off v3 ss es i = length (images v3 (take i ss) (take i es))"

text \<open>What the format can carry: a key length in 16 bits, a value length in 32, and a replica
  id only from version 3 on.\<close>

definition entry_ok :: "bool \<Rightarrow> segment_entry \<Rightarrow> bool" where
  "entry_ok v3 e \<longleftrightarrow> length (se_key e) \<le> U16_MAX \<and> length (se_value e) < 2 ^ 32
    \<and> (v3 \<or> se_replica e = ReplicaId 0)"

definition keys_sorted :: "segment_entry list \<Rightarrow> bool" where
  "keys_sorted es \<longleftrightarrow> sorted (map se_key es)"

lemma images_simps [simp]:
  "images v3 [] es = []" "images v3 ss [] = []"
  "images v3 (s # ss) (e # es) = entry_image v3 s e @ images v3 ss es"
  by (simp_all add: images_def)

lemma images_append:
  "length ss = length es \<Longrightarrow> images v3 (ss @ ss') (es @ es') = images v3 ss es @ images v3 ss' es'"
  by (simp add: images_def)

lemma chained_length: "chained base ss es \<Longrightarrow> length ss = length es"
  by (induction base ss es rule: chained.induct) auto

lemma link_0 [simp]: "link base 0 k"
  by (simp add: link_def)

lemma chained_append:
  "length ss = length es \<Longrightarrow>
    chained base (ss @ [s]) (es @ [e]) \<longleftrightarrow>
      chained base ss es \<and> link (if es = [] then base else se_key (last es)) s (se_key e)"
  by (induction ss es arbitrary: base rule: list_induct2) (auto split: if_splits)

lemma chained_set0: "chained base ss es \<Longrightarrow> chained base (ss[j := 0]) es"
  by (induction base ss es arbitrary: j rule: chained.induct) (auto split: nat.splits)

lemma chained_drop:
  "chained base ss es \<Longrightarrow> i < length es \<Longrightarrow> ss ! i = 0 \<Longrightarrow> chained base' (drop i ss) (drop i es)"
proof (induction base ss es arbitrary: i base' rule: chained.induct)
  case (2 base s ss e es)
  then show ?case by (cases i) (auto simp: link_def)
qed auto

lemma chained_take: "chained base ss es \<Longrightarrow> chained base (take n ss) (take n es)"
proof (induction base ss es arbitrary: n rule: chained.induct)
  case (2 base s ss e es)
  then show ?case by (cases n) auto
qed auto

lemma common_prefix_link: "link p (common_prefix p k) k"
proof -
  have "common_prefix p k \<le> length p \<and> common_prefix p k \<le> length k
      \<and> take (common_prefix p k) p = take (common_prefix p k) k"
    unfolding common_prefix_def
    by (induction p arbitrary: k) (auto simp: zip_Cons1 split: list.splits)
  then show ?thesis by (simp add: link_def)
qed

lemma length_entry_image:
  "s \<le> length (se_key e) \<Longrightarrow> length (entry_image v3 s e) = entry_size v3 s e"
  by (auto simp: entry_image_def entry_key_bytes_def entry_body_def entry_size_def)

lemma length_images_le:
  "chained base ss es \<Longrightarrow> length (images v3 ss es) \<le> (\<Sum>e\<leftarrow>es. entry_size v3 0 e)"
proof (induction base ss es rule: chained.induct)
  case (2 base s ss e es)
  then have "length (entry_image v3 s e) \<le> entry_size v3 0 e"
    by (simp add: length_entry_image link_def) (simp add: entry_size_def)
  then show ?case using 2 by simp
qed auto

section \<open>Reading entries back\<close>

lemma u16_fits: "n \<le> U16_MAX \<Longrightarrow> unat (word_of_nat n :: u16) = n"
  by (rule unat_of_nat_small) (simp add: U16_MAX_def)

lemma cur_entry_key_reads:
  assumes "link base s (se_key e)" and "length (se_key e) \<le> U16_MAX" and "adv c (entry_key_bytes s e) c'"
  shows "cur_entry_key base c = Inr (se_key e, c')"
proof -
  from assms(3) obtain c1 c2 where a: "adv c (u16_le (word_of_nat s)) c1"
      "adv c1 (u16_le (word_of_nat (length (se_key e) - s))) c2" "adv c2 (drop s (se_key e)) c'"
    by (auto simp: entry_key_bytes_def adv_append)
  have s: "unat (word_of_nat s :: u16) = s" "unat (word_of_nat (length (se_key e) - s) :: u16) = length (se_key e) - s"
    by (rule u16_fits, use assms(1,2) in \<open>simp add: link_def\<close>)+
  have t: "cur_take (length (se_key e) - s) c2 = Inr (drop s (se_key e), c')"
    using a(3) by (simp add: cur_take_iff)
  have "take s base @ drop s (se_key e) = se_key e" using assms(1) by (simp add: link_def)
  then show ?thesis
    using assms(1) by (simp add: cur_entry_key_def cur_reads(2) [OF a(1)] cur_reads(2) [OF a(2)] s t link_def del: of_nat_diff)
qed

lemma entry_body_split:
  assumes "entry_ok v3 e" and "adv c (entry_body v3 e) c'"
  obtains c1 c2 c3 where "adv c (vec_le (se_value e)) c1" "adv c1 (u64_le (se_seq e)) c2" "adv c2 [se_flags e] c3"
    "adv c3 (if v3 then u64_le (rid_u64 (se_replica e)) else []) c'"
proof -
  have "adv c (vec_le (se_value e) @ u64_le (se_seq e) @ [se_flags e]
      @ (if v3 then u64_le (rid_u64 (se_replica e)) else [])) c'"
    using assms(2) by (simp add: entry_body_def vec_le_def)
  then show ?thesis using that unfolding adv_append by blast
qed

lemma cur_entry_body_reads:
  assumes "entry_ok v3 e" and "adv c (entry_body v3 e) c'"
  shows "cur_entry_body v3 (se_key e) c = Inr (e, c')"
proof -
  obtain c1 c2 c3 where a: "adv c (vec_le (se_value e)) c1" "adv c1 (u64_le (se_seq e)) c2" "adv c2 [se_flags e] c3"
    and r: "adv c3 (if v3 then u64_le (rid_u64 (se_replica e)) else []) c'"
    using entry_body_split [OF assms] by blast
  have v: "length (se_value e) < 2 ^ 32" using assms(1) by (simp add: entry_ok_def)
  have "cur_entry_rid v3 c3 = Inr (se_replica e, c')"
    using r assms(1) by (cases v3) (auto simp: cur_entry_rid_def cur_reads entry_ok_def)
  then show ?thesis
    by (simp add: cur_entry_body_def cur_reads(5) [OF a(1) v] cur_reads(4) [OF a(2)] cur_reads(1) [OF a(3)])
qed

lemma skip_entry_body_reads:
  assumes "entry_ok v3 e" and "adv c (entry_body v3 e) c'"
  shows "skip_entry_body v3 c = Inr ((), c')"
proof -
  obtain c1 c2 c3 where a: "adv c (vec_le (se_value e)) c1" "adv c1 (u64_le (se_seq e)) c2" "adv c2 [se_flags e] c3"
    and r: "adv c3 (if v3 then u64_le (rid_u64 (se_replica e)) else []) c'"
    using entry_body_split [OF assms] by blast
  have v: "unat (word_of_nat (length (se_value e)) :: u32) = length (se_value e)"
    using assms(1) by (intro unat_of_nat_small) (simp add: entry_ok_def)
  obtain c0 where b: "adv c (u32_le (word_of_nat (length (se_value e)))) c0" "adv c0 (se_value e) c1"
    using a(1) by (auto simp: vec_le_def adv_append)
  have t: "cur_take (length (se_value e)) c0 = Inr (se_value e, c1)" using b(2) by (simp add: cur_take_iff)
  show ?thesis
    using r by (auto simp: skip_entry_body_def cur_reads(3) [OF b(1)] v t cur_reads(4) [OF a(2)]
        cur_reads(1) [OF a(3)] cur_reads(4))
qed

lemma entry_image_split:
  assumes "adv c (entry_image v3 s e) c'"
  obtains c1 where "adv c (entry_key_bytes s e) c1" "adv c1 (entry_body v3 e) c'"
  using assms by (auto simp: entry_image_def adv_append)

lemma decode_entries_reads:
  assumes "chained base ss es" and "\<forall>e \<in> set es. entry_ok v3 e" and "adv c (images v3 ss es) c'"
  shows "decode_entries v3 (length es) base c = Inr (es, c')"
  using assms
proof (induction base ss es arbitrary: c rule: chained.induct)
  case (2 base s ss e es)
  then obtain c1 c2 where a: "adv c (entry_key_bytes s e) c1" "adv c1 (entry_body v3 e) c2" "adv c2 (images v3 ss es) c'"
    by (auto simp: adv_append entry_image_def)
  have ok: "entry_ok v3 e" "length (se_key e) \<le> U16_MAX" using "2.prems"(2) by (auto simp: entry_ok_def)
  have "link base s (se_key e)" using "2.prems"(1) by simp
  from cur_entry_key_reads [OF this ok(2) a(1)] cur_entry_body_reads [OF ok(1) a(2)] "2.IH" [OF _ _ a(3)] "2.prems"
  show ?case by simp
qed auto

lemma scan_interval_reads:
  assumes "chained base ss es" and "\<forall>e \<in> set es. entry_ok v3 e" and "keys_sorted es" and "rest c = images v3 ss es"
  shows "scan_interval v3 key rid base c
    = Inr (find (\<lambda>e. se_key e = key \<and> is_none_or (\<lambda>x. se_replica e = x) rid) es)"
  using assms
proof (induction base ss es arbitrary: c rule: chained.induct)
  case (1 base)
  then show ?case by (simp add: scan_interval.simps cur_is_empty_def remaining_rest)
next
  case (2 base s ss e es)
  have "rest c = entry_key_bytes s e @ entry_body v3 e @ images v3 ss es"
    using "2.prems"(4) by (simp add: entry_image_def)
  from adv_exists [OF this] obtain c1 where c1: "adv c (entry_key_bytes s e) c1" "rest c1 = entry_body v3 e @ images v3 ss es"
    by blast
  from adv_exists [OF c1(2)] obtain c2 where c2: "adv c1 (entry_body v3 e) c2" "rest c2 = images v3 ss es" by blast
  have ok: "entry_ok v3 e" "length (se_key e) \<le> U16_MAX" using "2.prems"(2) by (auto simp: entry_ok_def)
  have ne: "\<not> cur_is_empty c" using adv_remaining [OF c1(1)] by (simp add: cur_is_empty_def entry_key_bytes_def)
  have "link base s (se_key e)" using "2.prems"(1) by simp
  note k = cur_entry_key_reads [OF this ok(2) c1(1)]
  note b = cur_entry_body_reads [OF ok(1) c2(1)] skip_entry_body_reads [OF ok(1) c2(1)]
  have later: "find (\<lambda>e. se_key e = key \<and> is_none_or (\<lambda>x. se_replica e = x) rid) es = None" if "key < se_key e"
    using that "2.prems"(3) by (auto simp: keys_sorted_def find_None_iff)
  have srt: "keys_sorted es" using "2.prems"(3) by (simp add: keys_sorted_def)
  have IH: "scan_interval v3 key rid (se_key e) c2
      = Inr (find (\<lambda>e. se_key e = key \<and> is_none_or (\<lambda>x. se_replica e = x) rid) es)"
    using "2.IH" [OF _ _ srt c2(2)] "2.prems" by simp
  show ?case
    by (subst scan_interval.simps) (use ne k b IH later in auto)
qed auto

lemma decode_nth_reads:
  assumes "chained base ss es" and "\<forall>e \<in> set es. entry_ok True e" and "n < length es"
    and "rest c = images True ss es @ tail"
  shows "decode_nth n base c = Inr (es ! n)"
  using assms
proof (induction base ss es arbitrary: c n rule: chained.induct)
  case (2 base s ss e es)
  have "rest c = entry_key_bytes s e @ entry_body True e @ images True ss es @ tail"
    using "2.prems"(4) by (simp add: entry_image_def)
  from adv_exists [OF this] obtain c1 where c1: "adv c (entry_key_bytes s e) c1"
      "rest c1 = entry_body True e @ images True ss es @ tail" by blast
  from adv_exists [OF c1(2)] obtain c2 where c2: "adv c1 (entry_body True e) c2" "rest c2 = images True ss es @ tail" by blast
  have ok: "entry_ok True e" "length (se_key e) \<le> U16_MAX" using "2.prems"(2) by (auto simp: entry_ok_def)
  have "link base s (se_key e)" using "2.prems"(1) by simp
  from cur_entry_key_reads [OF this ok(2) c1(1)] cur_entry_body_reads [OF ok(1) c2(1)] "2.IH" [OF _ _ _ c2(2)] "2.prems"
  show ?case by (subst decode_nth.simps) (auto split: nat.splits)
qed auto

section \<open>The encode pass\<close>

definition run_start :: "segment_entry list \<Rightarrow> nat \<Rightarrow> bool" where
  "run_start es j \<longleftrightarrow> j < length es \<and> (\<forall>i < j. se_key (es ! i) < se_key (es ! j))"

text \<open>The restart table: strictly increasing indices of run heads that carry their full key.\<close>

definition restarts_ok :: "nat list \<Rightarrow> segment_entry list \<Rightarrow> nat list \<Rightarrow> bool" where
  "restarts_ok ss es ris \<longleftrightarrow> sorted_wrt (<) ris \<and> (es \<noteq> [] \<longrightarrow> ris \<noteq> [] \<and> hd ris = 0)
    \<and> (\<forall>i \<in> set ris. ss ! i = 0 \<and> run_start es i)"

definition dense_indices :: "nat \<Rightarrow> nat list" where
  "dense_indices n = filter cadence [0..<n]"

definition run_head_ok :: "bool \<Rightarrow> nat list \<Rightarrow> segment_entry list \<Rightarrow> nat list \<Rightarrow> (u32 \<times> nat) option \<Rightarrow> bool" where
  "run_head_ok v3 ss es ris h \<longleftrightarrow>
    (case h of
       None \<Rightarrow> es = [] \<or> (ris \<noteq> [] \<and> se_key (es ! last ris) = se_key (last es))
     | Some (p, s) \<Rightarrow> \<exists>j. run_start es j \<and> se_key (es ! j) = se_key (last es) \<and> p = word_of_nat (off v3 ss es j)
         \<and> s = ss ! j \<and> (\<forall>i \<in> set ris. i < j) \<and> (\<forall>i. j \<le> i \<and> i < length es \<longrightarrow> \<not> cadence i))"

definition enc_inv :: "segment_writer \<Rightarrow> segment_entry list \<Rightarrow> enc_state \<Rightarrow> nat list \<Rightarrow> nat list \<Rightarrow> bool" where
  "enc_inv w es st ss ris \<longleftrightarrow> chained [] ss es \<and> es_payload st = images (sw_v3 w) ss es
    \<and> es_prev st = (if es = [] then None else Some (se_key (last es)))
    \<and> (sw_v2 w \<longrightarrow> restarts_ok ss es ris
        \<and> es_restarts st = map (\<lambda>i. word_of_nat (off (sw_v3 w) ss es i)) ris
        \<and> es_last_restart st = (if es = [] then None else Some (se_key (es ! last ris)))
        \<and> run_head_ok (sw_v3 w) ss es ris (es_run_head st))
    \<and> (sw_v4 w \<longrightarrow> es_dense st = map (\<lambda>i. word_of_nat (off (sw_v3 w) ss es i)) (dense_indices (length es))
        \<and> (\<forall>i < length es. cadence i \<longrightarrow> ss ! i = 0))"

lemma off_take: "take i ss = take i ss' \<Longrightarrow> take i es = take i es' \<Longrightarrow> off v3 ss es i = off v3 ss' es' i"
  by (simp add: off_def)

lemma off_snoc: "i \<le> length es \<Longrightarrow> length ss = length es \<Longrightarrow> off v3 (ss @ [s]) (es @ [e]) i = off v3 ss es i"
  by (simp add: off_def)

lemma off_length: "length ss = length es \<Longrightarrow> off v3 (ss @ ss') (es @ es') (length es) = length (images v3 ss es)"
  by (simp add: off_def)

lemma off_set0: "i \<le> j \<Longrightarrow> off v3 (ss[j := 0]) es i = off v3 ss es i"
  by (simp add: off_def)

lemma off_le: "chained [] ss es \<Longrightarrow> off v3 ss es i \<le> length (images v3 ss es)"
proof -
  assume c: "chained [] ss es"
  have "images v3 ss es = images v3 (take i ss) (take i es) @ images v3 (drop i ss) (drop i es)"
    using images_append [of "take i ss" "take i es" v3 "drop i ss" "drop i es"] chained_length [OF c] by simp
  then show ?thesis by (simp add: off_def)
qed

lemma images_split:
  "length ss = length es \<Longrightarrow> j < length es \<Longrightarrow>
    images v3 ss es = images v3 (take j ss) (take j es) @ entry_image v3 (ss ! j) (es ! j)
      @ images v3 (drop (Suc j) ss) (drop (Suc j) es)"
  using images_append [of "take j ss" "take j es" v3 "ss ! j # drop (Suc j) ss" "es ! j # drop (Suc j) es"]
  by (simp add: id_take_nth_drop [symmetric])

text \<open>The splice re-encodes entry \<open>j\<close> with its full key and changes nothing else.\<close>

lemma splice_head_images:
  assumes "chained [] ss es" and "j < length es" and "se_key e = se_key (es ! j)"
  shows "splice_head (off v3 ss es j) (ss ! j) e (images v3 ss es) = images v3 (ss[j := 0]) es"
proof (cases "ss ! j = 0")
  case True
  then show ?thesis by (simp add: splice_head_def list_update_same_conv) (metis list_update_id)
next
  case False
  have len: "length ss = length es" using chained_length [OF assms(1)] .
  have "chained [] (take (Suc j) ss) (take (Suc j) es)" using chained_take [OF assms(1)] .
  then have s: "ss ! j \<le> length (se_key (es ! j))"
    using assms(2) len chained_append [of "take j ss" "take j es" "[]" "ss ! j" "es ! j"]
    by (auto simp: take_Suc_conv_app_nth link_def)
  have kb: "entry_key_bytes 0 e = entry_key_bytes 0 (es ! j)" using assms(3) by (simp add: entry_key_bytes_def)
  have l: "length (entry_key_bytes (ss ! j) (es ! j)) = 4 + length (se_key e) - ss ! j"
    using s assms(3) by (simp add: entry_key_bytes_def)
  have "images v3 (ss[j := 0]) es = images v3 (take j ss) (take j es) @ entry_image v3 0 (es ! j)
      @ images v3 (drop (Suc j) ss) (drop (Suc j) es)"
    using images_split [of "ss[j := 0]" es j v3] len assms(2) by simp
  then show ?thesis
    using False images_split [OF len assms(2), of v3] kb l
    by (simp add: splice_head_def off_def entry_image_def)
qed

lemma keys_sorted_nth: "keys_sorted es \<Longrightarrow> i \<le> j \<Longrightarrow> j < length es \<Longrightarrow> se_key (es ! i) \<le> se_key (es ! j)"
  unfolding keys_sorted_def using sorted_nth_mono [of "map se_key es" i j] by simp

lemma keys_sorted_snoc: "keys_sorted (es @ [e]) \<longleftrightarrow> keys_sorted es \<and> (\<forall>x \<in> set es. se_key x \<le> se_key e)"
  by (auto simp: keys_sorted_def sorted_append)

lemma last_le: "keys_sorted (es @ [e]) \<Longrightarrow> es \<noteq> [] \<Longrightarrow> se_key (last es) \<le> se_key e"
  by (simp add: keys_sorted_snoc)

lemma nth_le_last: "keys_sorted es \<Longrightarrow> i < length es \<Longrightarrow> se_key (es ! i) \<le> se_key (last es)"
  using keys_sorted_nth [of es i "length es - 1"] by (cases "es = []") (auto simp: last_conv_nth)

lemma run_start_snoc: "run_start es j \<Longrightarrow> run_start (es @ [e]) j"
  by (simp add: run_start_def nth_append)

lemma run_start_new:
  "keys_sorted es \<Longrightarrow> es = [] \<or> se_key (last es) < se_key e \<Longrightarrow> run_start (es @ [e]) (length es)"
  unfolding run_start_def using nth_le_last by (fastforce simp: nth_append)

lemma restarts_ok_snoc:
  "restarts_ok ss es ris \<Longrightarrow> es \<noteq> [] \<Longrightarrow> length ss = length es \<Longrightarrow> restarts_ok (ss @ [s]) (es @ [e]) ris"
  by (auto simp: restarts_ok_def nth_append run_start_snoc) (auto simp: run_start_def)

lemma set0_nth: "ss ! i = 0 \<Longrightarrow> ss[j := 0] ! i = (0::nat)"
  by (cases "j < length ss") (auto simp: nth_list_update list_update_beyond)

lemma restarts_ok_set0: "restarts_ok ss es ris \<Longrightarrow> restarts_ok (ss[j := 0]) es ris"
  by (simp add: restarts_ok_def set0_nth)

lemma restarts_ok_add:
  "restarts_ok ss es ris \<Longrightarrow> es \<noteq> [] \<Longrightarrow> ss ! i = 0 \<Longrightarrow> run_start es i \<Longrightarrow> \<forall>r \<in> set ris. r < i
    \<Longrightarrow> restarts_ok ss es (ris @ [i])"
  by (auto simp: restarts_ok_def sorted_wrt_append)

lemma restarts_last: "restarts_ok ss es ris \<Longrightarrow> es \<noteq> [] \<Longrightarrow> ris \<noteq> [] \<and> run_start es (last ris)"
  by (auto simp: restarts_ok_def)

lemma dense_indices_Suc: "dense_indices (Suc n) = dense_indices n @ (if cadence n then [n] else [])"
  by (simp add: dense_indices_def)

lemma map_off_snoc:
  "length ss = length es \<Longrightarrow> \<forall>i \<in> set is. i \<le> length es \<Longrightarrow>
    map (\<lambda>i. word_of_nat (off v3 (ss @ [s]) (es @ [e]) i)) is = map (\<lambda>i. word_of_nat (off v3 ss es i)) is"
  by (simp add: off_snoc)

lemma map_off_set0:
  "\<forall>i \<in> set is. i \<le> j \<Longrightarrow>
    map (\<lambda>i. word_of_nat (off v3 (ss[j := 0]) es i)) is = map (\<lambda>i. word_of_nat (off v3 ss es i)) is"
  by (simp add: off_set0)

text \<open>Common end of a step: the entry is appended after the entries of the state \<open>st\<close>, whose
  run head and restarts are already those of the new list.\<close>

lemma enc_inv_append:
  assumes "chained [] ss es" and "es_payload st = images (sw_v3 w) ss es"
    and "link (if es = [] then [] else se_key (last es)) s (se_key e)"
    and v2: "sw_v2 w \<Longrightarrow> restarts_ok (ss @ [s]) (es @ [e]) ris
        \<and> es_restarts st = map (\<lambda>i. word_of_nat (off (sw_v3 w) (ss @ [s]) (es @ [e]) i)) ris
        \<and> es_last_restart st = Some (se_key ((es @ [e]) ! last ris))
        \<and> run_head_ok (sw_v3 w) (ss @ [s]) (es @ [e]) ris (es_run_head st)"
    and v4: "sw_v4 w \<Longrightarrow> es_dense st = map (\<lambda>i. word_of_nat (off (sw_v3 w) ss es i)) (dense_indices (length es))
        \<and> (\<forall>i < length es. cadence i \<longrightarrow> ss ! i = 0) \<and> (cadence (length es) \<longrightarrow> s = 0)"
  shows "enc_inv w (es @ [e])
    ((if sw_v4 w \<and> cadence (length es) then st\<lparr>es_dense := es_dense st @ [word_of_nat (length (es_payload st))]\<rparr> else st)
      \<lparr>es_payload := es_payload st @ entry_image (sw_v3 w) s e, es_prev := Some (se_key e)\<rparr>) (ss @ [s]) ris"
proof -
  have len: "length ss = length es" using chained_length [OF assms(1)] .
  have ch: "chained [] (ss @ [s]) (es @ [e])" using chained_append [OF len] assms(1,3) by simp
  have pay: "es_payload st @ entry_image (sw_v3 w) s e = images (sw_v3 w) (ss @ [s]) (es @ [e])"
    using assms(2) images_append [OF len] by simp
  have den: "map (\<lambda>i. word_of_nat (off (sw_v3 w) (ss @ [s]) (es @ [e]) i)) (dense_indices (Suc (length es)))
      = es_dense st @ (if cadence (length es) then [word_of_nat (length (es_payload st)) :: u32] else [])" if "sw_v4 w"
  proof -
    have "\<forall>i \<in> set (dense_indices (length es)). i \<le> length es" by (auto simp: dense_indices_def)
    from map_off_snoc [OF len this] conjunct1 [OF v4 [OF that]]
    have "map (\<lambda>i. word_of_nat (off (sw_v3 w) (ss @ [s]) (es @ [e]) i)) (dense_indices (length es)) = es_dense st"
      by simp
    then show ?thesis
      using off_length [OF len, of "sw_v3 w" "[s]" "[e]"] assms(2) by (simp add: dense_indices_Suc)
  qed
  have z: "\<forall>i < length (es @ [e]). cadence i \<longrightarrow> (ss @ [s]) ! i = 0" if "sw_v4 w"
    using v4 [OF that] len by (auto simp: nth_append less_Suc_eq)
  show ?thesis unfolding enc_inv_def using ch pay v2 den z by auto
qed

definition is_restart :: "segment_writer \<Rightarrow> nat \<Rightarrow> segment_entry \<Rightarrow> enc_state \<Rightarrow> bool" where
  "is_restart w n e st \<longleftrightarrow> sw_v2 w \<and> cadence n \<and> is_none_or (\<lambda>k. k < se_key e) (es_last_restart st)"

lemma key_changed_iff:
  "enc_inv w es st ss ris \<Longrightarrow>
    is_none_or (\<lambda>p. p < se_key e) (es_prev st) \<longleftrightarrow> es = [] \<or> se_key (last es) < se_key e"
  by (auto simp: enc_inv_def is_none_or_def)

lemma shared_of_link:
  "enc_inv w es st ss ris \<Longrightarrow> link (if es = [] then [] else se_key (last es)) (shared_of (es_prev st) e) (se_key e)"
  by (auto simp: enc_inv_def shared_of_def common_prefix_link)

text \<open>A cadence point at the head of a run starts an interval; inside a run that has no
  restart yet it always does.\<close>

lemma is_restart_iff:
  assumes "enc_inv w es st ss ris" and "sw_v2 w" and "keys_sorted (es @ [e])"
  shows "is_restart w (length es) e st \<longleftrightarrow> cadence (length es)
    \<and> (es = [] \<or> se_key (es ! last ris) < se_key e)"
  using assms by (auto simp: enc_inv_def is_restart_def is_none_or_def)

lemma restart_le_last:
  assumes "enc_inv w es st ss ris" and "sw_v2 w" and "keys_sorted es" and "es \<noteq> []"
  shows "se_key (es ! last ris) \<le> se_key (last es)"
  using assms restarts_last [of ss es ris] nth_le_last [of es "last ris"]
  by (auto simp: enc_inv_def run_start_def)

lemma encode_entry_plain:
  assumes inv: "enc_inv w es st ss ris" and srt: "keys_sorted (es @ [e])" and nr: "\<not> is_restart w (length es) e st"
    and v: "sw_v4 w \<Longrightarrow> sw_v2 w"
  shows "\<exists>st' ss'. encode_entry w (length es, e) st = Inr st' \<and> enc_inv w (es @ [e]) st' ss' ris"
proof -
  let ?kc = "es = [] \<or> se_key (last es) < se_key e"
  let ?dense = "sw_v4 w \<and> cadence (length es)"
  define s where s_def: "s = (if ?dense then 0 else shared_of (es_prev st) e)"
  define st1 where st1_def: "st1 = (if ?kc then st\<lparr>es_run_head := Some (word_of_nat (length (es_payload st)), s)\<rparr> else st)"
  have st1: "es_payload st1 = es_payload st" "es_restarts st1 = es_restarts st" "es_dense st1 = es_dense st"
    "es_last_restart st1 = es_last_restart st"
    "es_run_head st1 = (if ?kc then Some (word_of_nat (length (es_payload st)), s) else es_run_head st)"
    by (simp_all add: st1_def)
  have len: "length ss = length es" and ch: "chained [] ss es" and pay: "es_payload st = images (sw_v3 w) ss es"
    using inv by (auto simp: enc_inv_def chained_length)
  have es: "keys_sorted es" using srt by (simp add: keys_sorted_snoc)
  have ne: "es \<noteq> []" if "sw_v2 w" using nr is_restart_iff [OF inv that srt] by (auto simp: cadence_def)
  have lk: "link (if es = [] then [] else se_key (last es)) s (se_key e)" using shared_of_link [OF inv] by (auto simp: s_def)
  have v2: "restarts_ok (ss @ [s]) (es @ [e]) ris
      \<and> es_restarts st1 = map (\<lambda>i. word_of_nat (off (sw_v3 w) (ss @ [s]) (es @ [e]) i)) ris
      \<and> es_last_restart st1 = Some (se_key ((es @ [e]) ! last ris))
      \<and> run_head_ok (sw_v3 w) (ss @ [s]) (es @ [e]) ris (es_run_head st1)" if "sw_v2 w"
  proof -
    have ok: "restarts_ok ss es ris" and last: "es_last_restart st = Some (se_key (es ! last ris))"
      and rs: "es_restarts st = map (\<lambda>i. word_of_nat (off (sw_v3 w) ss es i)) ris"
      and rh: "run_head_ok (sw_v3 w) ss es ris (es_run_head st)"
      using inv that ne by (auto simp: enc_inv_def)
    have in_es: "\<forall>i \<in> set ris. i < length es" using ok by (auto simp: restarts_ok_def run_start_def)
    have lr: "ris \<noteq> []" "last ris < length es" "se_key (es ! last ris) \<le> se_key (last es)"
      using restarts_last [OF ok] ne that restart_le_last [OF inv that es] by (auto simp: run_start_def)
    have nc: "\<not> cadence (length es)" if "se_key (es ! last ris) < se_key e"
      using nr is_restart_iff [OF inv \<open>sw_v2 w\<close> srt] that by blast
    have "run_head_ok (sw_v3 w) (ss @ [s]) (es @ [e]) ris (es_run_head st1)"
    proof (cases ?kc)
      case True
      then have "se_key (es ! last ris) < se_key e" using lr(3) ne that by auto
      then have "\<not> cadence (length es)" by (rule nc)
      then show ?thesis
        using True run_start_new [OF es True] in_es pay off_length [OF len, of "sw_v3 w" "[s]" "[e]"] len
        by (auto simp: st1 run_head_ok_def less_Suc_eq nth_append intro!: exI [of _ "length es"])
    next
      case False
      then have eq: "se_key e = se_key (last es)" using last_le [OF srt] by auto
      show ?thesis
      proof (cases "es_run_head st")
        case None
        then show ?thesis using False rh lr eq by (auto simp: st1 run_head_ok_def nth_append)
      next
        case (Some h)
        then obtain p s j where h: "h = (p, s)" and j: "run_start es j" "se_key (es ! j) = se_key (last es)"
          "p = word_of_nat (off (sw_v3 w) ss es j)" "s = ss ! j" "\<forall>i \<in> set ris. i < j"
          "\<forall>i. j \<le> i \<and> i < length es \<longrightarrow> \<not> cadence i"
          using rh by (cases h) (auto simp: run_head_ok_def)
        have jl: "j < length es" using j(1) by (simp add: run_start_def)
        have "last ris < j" using j(5) lr(1) by simp
        then have "se_key (es ! last ris) < se_key e" using j(1,2) eq by (simp add: run_start_def)
        then have "\<not> cadence (length es)" by (rule nc)
        then show ?thesis
          using False Some h j jl eq run_start_snoc [OF j(1)] off_snoc [of j es ss] len
          by (auto simp: st1 run_head_ok_def nth_append less_Suc_eq intro!: exI [of _ j])
      qed
    qed
    moreover have "es_restarts st1 = map (\<lambda>i. word_of_nat (off (sw_v3 w) (ss @ [s]) (es @ [e]) i)) ris"
      using rs in_es by (simp add: st1 off_snoc [OF less_imp_le len])
    ultimately show ?thesis
      using restarts_ok_snoc [OF ok ne [OF that] len] last lr by (simp add: nth_append st1)
  qed
  have v4: "es_dense st1 = map (\<lambda>i. word_of_nat (off (sw_v3 w) ss es i)) (dense_indices (length es))
      \<and> (\<forall>i < length es. cadence i \<longrightarrow> ss ! i = 0) \<and> (cadence (length es) \<longrightarrow> s = 0)" if "sw_v4 w"
    using inv that by (auto simp: enc_inv_def st1 s_def)
  have "es_payload st1 = images (sw_v3 w) ss es" using pay by (simp add: st1)
  note fin = enc_inv_append [OF ch this lk v2 v4]
  have r: "(sw_v2 w \<and> cadence (length es) \<and> is_none_or (\<lambda>k. k < se_key e) (es_last_restart st)) = False"
    using nr unfolding is_restart_def by blast
  have "encode_entry w (length es, e) st = Inr
    ((if sw_v4 w \<and> cadence (length es) then st1\<lparr>es_dense := es_dense st1 @ [word_of_nat (length (es_payload st1))]\<rparr> else st1)
      \<lparr>es_payload := es_payload st1 @ entry_image (sw_v3 w) s e, es_prev := Some (se_key e)\<rparr>)"
    unfolding encode_entry_def Let_def prod.case key_changed_iff [OF inv] r s_def st1_def by simp
  then show ?thesis using fin by blast
qed

text \<open>A restart at the head of a run.\<close>

lemma encode_entry_restart_head:
  assumes inv: "enc_inv w es st ss ris" and srt: "keys_sorted (es @ [e])" and r: "is_restart w (length es) e st"
    and kc: "es = [] \<or> se_key (last es) < se_key e"
  shows "\<exists>st' ss' ris'. encode_entry w (length es, e) st = Inr st' \<and> enc_inv w (es @ [e]) st' ss' ris'"
proof -
  define st1 where st1_def: "st1 = st\<lparr>es_run_head := None, es_restarts := es_restarts st @ [word_of_nat (length (es_payload st))],
    es_last_restart := Some (se_key e)\<rparr>"
  have v2w: "sw_v2 w" using r by (simp add: is_restart_def)
  have len: "length ss = length es" and ch: "chained [] ss es" and pay: "es_payload st = images (sw_v3 w) ss es"
    using inv by (auto simp: enc_inv_def chained_length)
  have es: "keys_sorted es" using srt by (simp add: keys_sorted_snoc)
  have ok: "restarts_ok ss es ris" and rs: "es_restarts st = map (\<lambda>i. word_of_nat (off (sw_v3 w) ss es i)) ris"
    using inv v2w by (auto simp: enc_inv_def)
  have in_es: "\<forall>i \<in> set ris. i < length es" using ok by (auto simp: restarts_ok_def run_start_def)
  have offn: "off (sw_v3 w) (ss @ [0]) (es @ [e]) (length es) = length (es_payload st)"
    using off_length [OF len, of "sw_v3 w" "[0]" "[e]"] pay by simp
  have new: "run_start (es @ [e]) (length es)" by (rule run_start_new [OF es kc])
  have rok: "restarts_ok (ss @ [0]) (es @ [e]) (ris @ [length es])"
  proof (cases "es = []")
    case True
    then have "ris = []" using in_es by (cases ris) auto
    then show ?thesis using True len new by (simp add: restarts_ok_def)
  next
    case False
    show ?thesis
      by (rule restarts_ok_add [OF restarts_ok_snoc [OF ok False len]]) (use len new in_es in \<open>auto simp: nth_append\<close>)
  qed
  have v2: "restarts_ok (ss @ [0]) (es @ [e]) (ris @ [length es])
      \<and> es_restarts st1 = map (\<lambda>i. word_of_nat (off (sw_v3 w) (ss @ [0]) (es @ [e]) i)) (ris @ [length es])
      \<and> es_last_restart st1 = Some (se_key ((es @ [e]) ! last (ris @ [length es])))
      \<and> run_head_ok (sw_v3 w) (ss @ [0]) (es @ [e]) (ris @ [length es]) (es_run_head st1)"
    using rok rs in_es offn by (simp add: st1_def off_snoc [OF less_imp_le len] run_head_ok_def)
  have v4: "es_dense st1 = map (\<lambda>i. word_of_nat (off (sw_v3 w) ss es i)) (dense_indices (length es))
      \<and> (\<forall>i < length es. cadence i \<longrightarrow> ss ! i = 0) \<and> (cadence (length es) \<longrightarrow> (0::nat) = 0)" if "sw_v4 w"
    using inv that by (auto simp: enc_inv_def st1_def)
  have pay1: "es_payload st1 = images (sw_v3 w) ss es" using pay by (simp add: st1_def)
  note fin = enc_inv_append [OF ch pay1 link_0 v2 v4]
  have rc: "(sw_v2 w \<and> cadence (length es) \<and> is_none_or (\<lambda>k. k < se_key e) (es_last_restart st)) = True"
    using r unfolding is_restart_def by blast
  have "encode_entry w (length es, e) st = Inr
    ((if sw_v4 w \<and> cadence (length es) then st1\<lparr>es_dense := es_dense st1 @ [word_of_nat (length (es_payload st1))]\<rparr> else st1)
      \<lparr>es_payload := es_payload st1 @ entry_image (sw_v3 w) 0 e, es_prev := Some (se_key e)\<rparr>)"
    unfolding encode_entry_def Let_def prod.case key_changed_iff [OF inv] rc st1_def using kc by (simp add: splice_head_def)
  then show ?thesis using fin by blast
qed

text \<open>A restart inside a run moves to the run's head, which is re-encoded with its full key.\<close>

lemma encode_entry_restart_moved:
  assumes inv: "enc_inv w es st ss ris" and srt: "keys_sorted (es @ [e])" and r: "is_restart w (length es) e st"
    and nkc: "es \<noteq> []" "\<not> se_key (last es) < se_key e" and v: "sw_v4 w \<Longrightarrow> sw_v2 w"
    and small: "length (images (sw_v3 w) ss es) < 2 ^ 32"
  shows "\<exists>st' ss' ris'. encode_entry w (length es, e) st = Inr st' \<and> enc_inv w (es @ [e]) st' ss' ris'"
proof -
  have v2w: "sw_v2 w" using r by (simp add: is_restart_def)
  have len: "length ss = length es" and ch: "chained [] ss es" and pay: "es_payload st = images (sw_v3 w) ss es"
    using inv by (auto simp: enc_inv_def chained_length)
  have ok: "restarts_ok ss es ris" and rs: "es_restarts st = map (\<lambda>i. word_of_nat (off (sw_v3 w) ss es i)) ris"
    and rh: "run_head_ok (sw_v3 w) ss es ris (es_run_head st)"
    using inv v2w by (auto simp: enc_inv_def)
  have eq: "se_key e = se_key (last es)" using last_le [OF srt nkc(1)] nkc(2) by simp
  have less: "se_key (es ! last ris) < se_key e" using r is_restart_iff [OF inv v2w srt] nkc(1) by blast
  then obtain p j where rhs: "es_run_head st = Some (p, ss ! j)" and j: "run_start es j" "se_key (es ! j) = se_key (last es)"
    "p = word_of_nat (off (sw_v3 w) ss es j)" "\<forall>i \<in> set ris. i < j" "\<forall>i. j \<le> i \<and> i < length es \<longrightarrow> \<not> cadence i"
    using rh nkc(1) eq by (cases "es_run_head st") (auto simp: run_head_ok_def)
  have jl: "j < length es" using j(1) by (simp add: run_start_def)
  have up: "unat p = off (sw_v3 w) ss es j"
    unfolding j(3) by (rule unat_of_nat_small) (use off_le [OF ch, of "sw_v3 w" j] small in simp)
  define ss1 where ss1_def: "ss1 = ss[j := 0]"
  define st1 where st1_def: "st1 = st\<lparr>es_run_head := None, es_payload := images (sw_v3 w) ss1 es,
    es_restarts := es_restarts st @ [p], es_last_restart := Some (se_key e)\<rparr>"
  have ch1: "chained [] ss1 es" unfolding ss1_def by (rule chained_set0 [OF ch])
  have len1: "length ss1 = length es" using len by (simp add: ss1_def)
  have in_j: "\<forall>i \<in> set ris. i \<le> j \<and> i < length es" using j(4) jl by auto
  have off1: "off (sw_v3 w) (ss1 @ [0]) (es @ [e]) i = off (sw_v3 w) ss es i" if "i \<le> j" for i
    using that jl off_snoc [OF _ len1] off_set0 [OF that] by (simp add: ss1_def)
  have rok: "restarts_ok (ss1 @ [0]) (es @ [e]) (ris @ [j])"
    by (rule restarts_ok_add [OF restarts_ok_snoc [OF restarts_ok_set0 [OF ok, of j, folded ss1_def] nkc(1) len1]])
      (use len jl run_start_snoc [OF j(1)] j(4) in \<open>auto simp: nth_append ss1_def\<close>)
  have v2: "restarts_ok (ss1 @ [0]) (es @ [e]) (ris @ [j])
      \<and> es_restarts st1 = map (\<lambda>i. word_of_nat (off (sw_v3 w) (ss1 @ [0]) (es @ [e]) i)) (ris @ [j])
      \<and> es_last_restart st1 = Some (se_key ((es @ [e]) ! last (ris @ [j])))
      \<and> run_head_ok (sw_v3 w) (ss1 @ [0]) (es @ [e]) (ris @ [j]) (es_run_head st1)"
    using rok rs in_j off1 j(2,3) jl eq by (simp add: st1_def run_head_ok_def nth_append)
  have v4: "es_dense st1 = map (\<lambda>i. word_of_nat (off (sw_v3 w) ss1 es i)) (dense_indices (length es))
      \<and> (\<forall>i < length es. cadence i \<longrightarrow> ss1 ! i = 0) \<and> (cadence (length es) \<longrightarrow> (0::nat) = 0)" if "sw_v4 w"
  proof -
    have "i \<le> j" if "i \<in> set (dense_indices (length es))" for i
      using that j(5) by (simp add: dense_indices_def) (meson nat_le_linear)
    then show ?thesis using inv that by (auto simp: enc_inv_def st1_def ss1_def off_set0 set0_nth)
  qed
  have pay1: "es_payload st1 = images (sw_v3 w) ss1 es" by (simp add: st1_def)
  note fin = enc_inv_append [OF ch1 pay1 link_0 v2 v4]
  have rc: "(sw_v2 w \<and> cadence (length es) \<and> is_none_or (\<lambda>k. k < se_key e) (es_last_restart st)) = True"
    using r unfolding is_restart_def by blast
  have sp: "splice_head (unat p) (ss ! j) e (es_payload st) = images (sw_v3 w) ss1 es"
    unfolding up pay ss1_def by (rule splice_head_images [OF ch jl]) (simp add: eq j(2))
  have "encode_entry w (length es, e) st = Inr
    ((if sw_v4 w \<and> cadence (length es) then st1\<lparr>es_dense := es_dense st1 @ [word_of_nat (length (es_payload st1))]\<rparr> else st1)
      \<lparr>es_payload := es_payload st1 @ entry_image (sw_v3 w) 0 e, es_prev := Some (se_key e)\<rparr>)"
    unfolding encode_entry_def Let_def prod.case key_changed_iff [OF inv] rc st1_def using nkc rhs by (simp add: sp)
  then show ?thesis using fin by blast
qed

lemma encode_entry_step:
  assumes "enc_inv w es st ss ris" and "keys_sorted (es @ [e])" and "sw_v4 w \<Longrightarrow> sw_v2 w"
    and "length (images (sw_v3 w) ss es) < 2 ^ 32"
  shows "\<exists>st' ss' ris'. encode_entry w (length es, e) st = Inr st' \<and> enc_inv w (es @ [e]) st' ss' ris'"
proof (cases "is_restart w (length es) e st")
  case False
  then show ?thesis using encode_entry_plain [OF assms(1,2)] assms(3) by blast
next
  case True
  then show ?thesis
    using encode_entry_restart_head [OF assms(1,2)] encode_entry_restart_moved [OF assms(1,2)] assms(3,4) by blast
qed

definition block_size :: "segment_writer \<Rightarrow> segment_entry list \<Rightarrow> nat" where
  "block_size w es = 10 + (\<Sum>e\<leftarrow>es. 8 + entry_size (sw_v3 w) 0 e)"

lemma images_lt_block_size: "chained base ss es \<Longrightarrow> length (images (sw_v3 w) ss es) + 8 * length es + 10 \<le> block_size w es"
  using length_images_le [of base ss es "sw_v3 w"] by (simp add: block_size_def sum_list_addf sum_list_triv)

lemma block_size_append: "block_size w es \<le> block_size w (es @ es')"
  by (simp add: block_size_def)

text \<open>The encode pass never panics and ends in a state described by the final shared
  lengths.\<close>

lemma encode_entries_inv:
  assumes "keys_sorted es" and "sw_v4 w \<Longrightarrow> sw_v2 w" and "block_size w es < 2 ^ 32"
  shows "\<exists>st ss ris. encode_entries w es = Inr st \<and> enc_inv w es st ss ris"
  using assms
proof (induction es rule: rev_induct)
  case Nil
  have "enc_inv w [] enc_init [] []"
    by (simp add: enc_inv_def enc_init_def restarts_ok_def run_head_ok_def dense_indices_def)
  then show ?case by (auto simp: encode_entries_def)
next
  case (snoc e es)
  have le: "block_size w es < 2 ^ 32" using snoc.prems(3) block_size_append [of w es "[e]"] by simp
  then obtain st ss ris where st: "encode_entries w es = Inr st" "enc_inv w es st ss ris"
    using snoc by (auto simp: keys_sorted_snoc)
  have "chained [] ss es" using st(2) by (simp add: enc_inv_def)
  from images_lt_block_size [OF this, of w] le have "length (images (sw_v3 w) ss es) < 2 ^ 32" by simp
  from encode_entry_step [OF st(2) snoc.prems(1) snoc.prems(2) this]
  obtain st' ss' ris' where e: "encode_entry w (length es, e) st = Inr st'" "enc_inv w (es @ [e]) st' ss' ris'" by blast
  have "encode_entries w (es @ [e]) = Inr st'"
    using st(1) e(1) by (simp add: encode_entries_def rfold_append enumerate_append_eq)
  then show ?case using e(2) by blast
qed

end
