(* ===== verification/SegmentBlock.thy ===== *)
theory SegmentBlock
  imports SegmentData
begin

text \<open>
  Lookups in one data block. For a block the writer produced, the full decode returns the
  entries, the bounded lookup over the restart table finds what a linear search of the
  block finds, and the window of the dense table holds the indexed entry.
\<close>

section \<open>Offsets\<close>

lemma images_drop: "length ss = length es \<Longrightarrow> drop (off v3 ss es i) (images v3 ss es) = images v3 (drop i ss) (drop i es)"
proof -
  assume l: "length ss = length es"
  have "images v3 ss es = images v3 (take i ss) (take i es) @ images v3 (drop i ss) (drop i es)"
    using images_append [of "take i ss" "take i es" v3 "drop i ss" "drop i es"] l by simp
  then show ?thesis by (simp add: off_def)
qed

lemma off_mono_take:
  assumes "length ss = length es" and "i \<le> j"
  shows "off v3 ss es j = off v3 ss es i + length (images v3 (take (j - i) (drop i ss)) (take (j - i) (drop i es)))"
proof -
  have t: "take j xs = take i xs @ take (j - i) (drop i xs)" for xs :: "'a list"
    using assms(2) by (metis le_add_diff_inverse take_add)
  have "images v3 (take j ss) (take j es)
      = images v3 (take i ss) (take i es) @ images v3 (take (j - i) (drop i ss)) (take (j - i) (drop i es))"
    unfolding t [of ss] t [of es] using assms(1) by (intro images_append) simp
  then show ?thesis by (simp add: off_def)
qed

lemma images_slice:
  assumes "length ss = length es" and "i \<le> j"
  shows "take (off v3 ss es j - off v3 ss es i) (drop (off v3 ss es i) (images v3 ss es))
    = images v3 (take (j - i) (drop i ss)) (take (j - i) (drop i es))"
proof -
  have "images v3 (drop i ss) (drop i es)
      = images v3 (take (j - i) (drop i ss)) (take (j - i) (drop i es))
        @ images v3 (drop (j - i) (drop i ss)) (drop (j - i) (drop i es))"
    using images_append [of "take (j - i) (drop i ss)" "take (j - i) (drop i es)" v3
        "drop (j - i) (drop i ss)" "drop (j - i) (drop i es)"] assms(1) by (simp del: drop_drop)
  then show ?thesis using off_mono_take [OF assms, of v3] images_drop [OF assms(1)] by simp
qed

lemma off_all: "length ss = length es \<Longrightarrow> off v3 ss es (length es) = length (images v3 ss es)"
  by (simp add: off_def)

lemma off_less:
  assumes "length ss = length es" and "i < length es"
  shows "off v3 ss es i < length (images v3 ss es)"
proof -
  have "drop (off v3 ss es i) (images v3 ss es) \<noteq> []"
    using images_drop [OF assms(1), of v3 i] assms
    by (simp add: Cons_nth_drop_Suc [symmetric] entry_image_def entry_body_def)
  then show ?thesis by simp
qed

section \<open>The tables\<close>

lemma take4_concat:
  "j < length ws \<Longrightarrow> take 4 (drop (j * 4) (concat (map u32_le ws) @ bs)) = u32_le (ws ! j)"
proof (induction ws arbitrary: j)
  case (Cons w ws)
  then show ?case by (cases j) simp_all
qed simp

lemma table_offset_nth: "j < length ws \<Longrightarrow> table_offset (concat (map u32_le ws)) j = unat (ws ! j)"
  using take4_concat [of j ws "[]"] by (simp add: table_offset_def)

lemma length_concat_u32 [simp]: "length (concat (map u32_le ws)) = 4 * length ws"
  by (induction ws) simp_all

definition abs_offsets :: "segment_writer \<Rightarrow> enc_state \<Rightarrow> u32 list \<Rightarrow> u32 list" where
  "abs_offsets w st ps = map (\<lambda>pos. word_of_nat (table_prefix w st + unat pos)) ps"

lemma block_table_eq:
  "block_table w st = u16_le (word_of_nat RESTART_INTERVAL) @ u32_le (word_of_nat (length (es_restarts st)))
    @ concat (map u32_le (abs_offsets w st (es_restarts st)))
    @ (if sw_v4 w then u32_le (word_of_nat (length (es_dense st))) @ concat (map u32_le (abs_offsets w st (es_dense st))) else [])"
  by (simp add: block_table_def abs_offsets_def Let_def comp_def)

lemma length_abs_offsets [simp]: "length (abs_offsets w st ps) = length ps"
  by (simp add: abs_offsets_def)

lemma length_block_table: "length (block_table w st) = table_prefix w st"
  by (simp add: block_table_eq table_prefix_def)

text \<open>The bounds under which the tables' 32-bit fields are exact.\<close>

definition enc_fits :: "segment_writer \<Rightarrow> segment_entry list \<Rightarrow> enc_state \<Rightarrow> nat list \<Rightarrow> nat list \<Rightarrow> bool" where
  "enc_fits w es st ss ris \<longleftrightarrow> enc_inv w es st ss ris \<and> sw_v2 w \<and> es \<noteq> [] \<and> keys_sorted es
    \<and> (\<forall>e \<in> set es. entry_ok (sw_v3 w) e) \<and> block_size w es < 2 ^ 32"

lemma sorted_nat_length: "sorted_wrt (<) ris \<Longrightarrow> \<forall>i \<in> set ris. i < n \<Longrightarrow> length ris \<le> (n::nat)"
proof -
  assume a: "sorted_wrt (<) ris" "\<forall>i \<in> set ris. i < n"
  have "distinct ris" using a(1) by (simp add: strict_sorted_iff)
  then have "length ris = card (set ris)" by (simp add: distinct_card)
  also have "\<dots> \<le> card {..<n}" using a(2) by (intro card_mono) auto
  finally show ?thesis by simp
qed

lemma enc_fits_basic:
  assumes "enc_fits w es st ss ris"
  shows "length ss = length es" and "chained [] ss es" and "es_payload st = images (sw_v3 w) ss es"
    and "restarts_ok ss es ris" and "es_restarts st = map (\<lambda>i. word_of_nat (off (sw_v3 w) ss es i)) ris"
    and "\<forall>i \<in> set ris. i < length es \<and> ss ! i = 0" and "length ris \<le> length es"
    and "sw_v4 w \<Longrightarrow> es_dense st = map (\<lambda>i. word_of_nat (off (sw_v3 w) ss es i)) (dense_indices (length es))"
proof -
  show "length ss = length es" "chained [] ss es" "es_payload st = images (sw_v3 w) ss es" "restarts_ok ss es ris"
    "es_restarts st = map (\<lambda>i. word_of_nat (off (sw_v3 w) ss es i)) ris"
    "sw_v4 w \<Longrightarrow> es_dense st = map (\<lambda>i. word_of_nat (off (sw_v3 w) ss es i)) (dense_indices (length es))"
    using assms by (auto simp: enc_fits_def enc_inv_def chained_length)
  then show in_es: "\<forall>i \<in> set ris. i < length es \<and> ss ! i = 0" by (auto simp: restarts_ok_def run_start_def)
  then show "length ris \<le> length es"
    using \<open>restarts_ok ss es ris\<close> by (intro sorted_nat_length) (auto simp: restarts_ok_def)
qed

lemma length_dense_indices: "length (dense_indices n) \<le> n"
  using length_filter_le [of cadence "[0..<n]"] by (simp add: dense_indices_def)

lemma enc_fits_small:
  assumes "enc_fits w es st ss ris"
  shows "table_prefix w st + length (images (sw_v3 w) ss es) < 2 ^ 32"
proof -
  note b = enc_fits_basic [OF assms]
  have "table_prefix w st \<le> 10 + 8 * length es"
    using b(5,7,8) length_dense_indices [of "length es"] by (auto simp: table_prefix_def)
  then show ?thesis using images_lt_block_size [OF b(2), of w] assms by (simp add: enc_fits_def)
qed

lemma unat_position:
  assumes "enc_fits w es st ss ris"
  shows "unat (word_of_nat (off (sw_v3 w) ss es i) :: u32) = off (sw_v3 w) ss es i"
    and "unat (word_of_nat (table_prefix w st + off (sw_v3 w) ss es i) :: u32) = table_prefix w st + off (sw_v3 w) ss es i"
  by (rule unat_of_nat_small,
      use enc_fits_small [OF assms] off_le [OF enc_fits_basic(2) [OF assms], of "sw_v3 w" i] in simp)+

lemma abs_offsets_eq:
  assumes "enc_fits w es st ss ris"
  shows "abs_offsets w st (map (\<lambda>i. word_of_nat (off (sw_v3 w) ss es i)) is)
    = map (\<lambda>i. word_of_nat (table_prefix w st + off (sw_v3 w) ss es i)) is"
  using unat_position(1) [OF assms] by (simp add: abs_offsets_def)

lemma block_payload_eq:
  "enc_fits w es st ss ris \<Longrightarrow> block_payload w st = block_table w st @ images (sw_v3 w) ss es"
  using enc_fits_basic(3) by (simp add: block_payload_def enc_fits_def)

lemma payload_from:
  assumes "enc_fits w es st ss ris"
  shows "drop (table_prefix w st + off (sw_v3 w) ss es i) (block_payload w st) = images (sw_v3 w) (drop i ss) (drop i es)"
  using images_drop [OF enc_fits_basic(1) [OF assms]] block_payload_eq [OF assms]
  by (simp add: length_block_table)

lemma payload_slice:
  assumes "enc_fits w es st ss ris" and "i \<le> j" and "j \<le> length es"
    and "lo = table_prefix w st + off (sw_v3 w) ss es i"
    and "hi = (if j < length es then table_prefix w st + off (sw_v3 w) ss es j else length (block_payload w st))"
  shows "take (hi - lo) (drop lo (block_payload w st)) = images (sw_v3 w) (take (j - i) (drop i ss)) (take (j - i) (drop i es))"
proof -
  note l = enc_fits_basic(1) [OF assms(1)]
  have "hi - lo = off (sw_v3 w) ss es j - off (sw_v3 w) ss es i"
    using assms(3-5) off_all [OF l, of "sw_v3 w"] block_payload_eq [OF assms(1)]
    by (auto simp: length_block_table)
  then show ?thesis
    using images_slice [OF l assms(2), of "sw_v3 w"] payload_from [OF assms(1), of i] images_drop [OF l, of "sw_v3 w" i] assms(4)
    by simp
qed

lemma payload_slice_order:
  assumes "enc_fits w es st ss ris" and "i \<le> j" and "j \<le> length es"
    and "lo = table_prefix w st + off (sw_v3 w) ss es i"
    and "hi = (if j < length es then table_prefix w st + off (sw_v3 w) ss es j else length (block_payload w st))"
  shows "\<not> hi < lo"
proof -
  note l = enc_fits_basic(1) [OF assms(1)]
  have "hi = table_prefix w st + off (sw_v3 w) ss es j"
    using assms(3,5) off_all [OF l, of "sw_v3 w"] block_payload_eq [OF assms(1)] by (auto simp: length_block_table)
  then show ?thesis using off_mono_take [OF l assms(2), of "sw_v3 w"] assms(4) by simp
qed

section \<open>The full decode\<close>

lemma table_len_reads:
  assumes "enc_fits w es st ss ris"
  shows "table_len (sw_v4 w) (block_payload w st) = Inr (length ris, table_prefix w st)"
proof -
  note b = enc_fits_basic [OF assms]
  let ?img = "images (sw_v3 w) ss es"
  let ?tail = "if sw_v4 w then u32_le (word_of_nat (length (es_dense st))) @ concat (map u32_le (abs_offsets w st (es_dense st))) else []"
  let ?offs = "concat (map u32_le (abs_offsets w st (es_restarts st)))"
  have p: "block_payload w st = u16_le (word_of_nat RESTART_INTERVAL) @ u32_le (word_of_nat (length ris)) @ ?offs @ ?tail @ ?img"
    using block_payload_eq [OF assms] b(5) by (simp add: block_table_eq)
  from adv_exists [of "cursor_new (block_payload w st)", unfolded rest_new, OF p] obtain c1 where c1:
    "adv (cursor_new (block_payload w st)) (u16_le (word_of_nat RESTART_INTERVAL)) c1"
    "rest c1 = u32_le (word_of_nat (length ris)) @ ?offs @ ?tail @ ?img" by blast
  from adv_exists [OF c1(2)] obtain c2 where c2: "adv c1 (u32_le (word_of_nat (length ris))) c2" by blast
  have bs: "8 * length es + 10 < 2 ^ 32" using images_lt_block_size [OF b(2), of w] assms by (simp add: enc_fits_def)
  have n: "unat (word_of_nat (length ris) :: u32) = length ris"
    by (rule unat_of_nat_small) (use b(7) bs in simp)
  have lo: "length ?offs = 4 * length ris" using b(5) by simp
  have d: "unat (word_of_nat (length (es_dense st)) :: u32) = length (es_dense st)" if "sw_v4 w"
    by (rule unat_of_nat_small) (use b(8) [OF that] length_dense_indices [of "length es"] bs in simp)
  have dr: "drop (6 + 4 * length ris) (block_payload w st) = ?tail @ ?img"
    unfolding p using lo by simp
  have len: "length (block_payload w st) = table_prefix w st + length ?img"
    using block_payload_eq [OF assms] by (simp add: length_block_table)
  have t4: "take 4 (drop (6 + 4 * length ris) (block_payload w st)) = u32_le (word_of_nat (length (es_dense st)))" if "sw_v4 w"
    using dr that by simp
  have tp: "table_prefix w st = (if sw_v4 w then 6 + 4 * length ris + 4 + 4 * length (es_dense st) else 6 + 4 * length ris)"
    using b(5) by (simp add: table_prefix_def)
  show ?thesis
    unfolding table_len_def using cur_reads(2) [OF c1(1)] cur_reads(3) [OF c2] n len tp t4 d
    by (auto simp: Let_def)
qed

text \<open>The writers the engine builds: each version includes the one before.\<close>

definition writer_ok :: "segment_writer \<Rightarrow> bool" where
  "writer_ok w \<longleftrightarrow> (sw_v4 w \<longrightarrow> sw_v3 w) \<and> (sw_v3 w \<longrightarrow> sw_v2 w)"

text \<open>A data block and the payload the writer produced for the entries \<open>es\<close>.\<close>

definition block_holds :: "segment_writer \<Rightarrow> segment_entry list \<Rightarrow> data_block \<Rightarrow> bytes \<Rightarrow> bool" where
  "block_holds w es b payload \<longleftrightarrow> writer_ok w \<and> db_v2 b = sw_v2 w \<and> db_v3 b = sw_v3 w \<and> db_v4 b = sw_v4 w
    \<and> db_entries b = word_of_nat (length es) \<and> es \<noteq> [] \<and> keys_sorted es \<and> (\<forall>e \<in> set es. entry_ok (sw_v3 w) e)
    \<and> block_size w es < 2 ^ 32
    \<and> (\<exists>st. encode_entries w es = Inr st \<and> payload = block_payload w st)"

lemma block_holds_enc:
  assumes "block_holds w es b payload"
  obtains st ss ris where "encode_entries w es = Inr st" "payload = block_payload w st" "enc_inv w es st ss ris"
    "sw_v2 w \<Longrightarrow> enc_fits w es st ss ris"
proof -
  have v: "sw_v4 w \<Longrightarrow> sw_v2 w" using assms by (auto simp: block_holds_def writer_ok_def)
  obtain st ss ris where "encode_entries w es = Inr st" "enc_inv w es st ss ris"
    using encode_entries_inv [of es w] v assms by (auto simp: block_holds_def)
  then show ?thesis using that assms by (auto simp: block_holds_def enc_fits_def)
qed

lemma length_le_block_size: "length es \<le> block_size w es"
  by (simp add: block_size_def sum_list_addf sum_list_triv)

lemma block_holds_count:
  assumes "block_holds w es b payload"
  shows "unat (db_entries b) = length es"
proof -
  have "length es < 2 ^ 32" using assms length_le_block_size [of es w] by (simp add: block_holds_def)
  then show ?thesis using assms by (auto simp: block_holds_def intro!: unat_of_nat_small)
qed

lemma payload_entries_reads:
  assumes "block_holds w es b payload"
  shows "payload_entries b payload = Inr es"
proof -
  obtain st ss ris where e: "encode_entries w es = Inr st" "payload = block_payload w st" "enc_inv w es st ss ris"
    and fit: "sw_v2 w \<Longrightarrow> enc_fits w es st ss ris"
    using block_holds_enc [OF assms] by blast
  have b: "db_v2 b = sw_v2 w" "db_v3 b = sw_v3 w" "db_v4 b = sw_v4 w" "\<forall>e \<in> set es. entry_ok (sw_v3 w) e"
    using assms by (auto simp: block_holds_def)
  let ?start = "if sw_v2 w then table_prefix w st else 0"
  have start: "(if db_v2 b then rbind (table_len (db_v4 b) payload) (\<lambda>(_, len). Inr len) else Inr 0) = Inr ?start"
    using table_len_reads [OF fit] b e(2) by simp
  have img: "drop ?start payload = images (sw_v3 w) ss es"
    using payload_from [OF fit, of 0] e(2,3) by (auto simp: block_payload_def enc_inv_def off_def)
  obtain c where c: "adv (cursor_new (drop ?start payload)) (images (sw_v3 w) ss es) c" "rest c = []"
    using adv_exists [of "cursor_new (drop ?start payload)" "images (sw_v3 w) ss es" "[]"] img by auto
  have "decode_entries (sw_v3 w) (length es) [] (cursor_new (drop ?start payload)) = Inr (es, c)"
    using decode_entries_reads [OF _ b(4) c(1)] e(3) by (simp add: enc_inv_def)
  then show ?thesis
    unfolding payload_entries_def start using block_holds_count [OF assms] b c(2)
    by (simp add: cur_is_empty_def remaining_rest)
qed

section \<open>The restart index\<close>

lemma restart_key_reads:
  assumes "enc_fits w es st ss ris" and "i \<in> set ris"
  shows "restart_key (block_payload w st) (table_prefix w st + off (sw_v3 w) ss es i) = Inr (se_key (es ! i))"
proof -
  have i: "i < length es" "ss ! i = 0" and l: "length ss = length es" using enc_fits_basic [OF assms(1)] assms(2) by auto
  have ok: "length (se_key (es ! i)) \<le> U16_MAX" using assms(1) i(1) by (auto simp: enc_fits_def entry_ok_def)
  let ?e = "es ! i"
  have "drop (table_prefix w st + off (sw_v3 w) ss es i) (block_payload w st)
      = u16_le 0 @ u16_le (word_of_nat (length (se_key ?e))) @ se_key ?e @ entry_body (sw_v3 w) ?e
        @ images (sw_v3 w) (drop (Suc i) ss) (drop (Suc i) es)"
    unfolding payload_from [OF assms(1)]
    using i l by (simp add: Cons_nth_drop_Suc [symmetric] entry_image_def entry_key_bytes_def)
  then have r: "rest (cursor_new (drop (table_prefix w st + off (sw_v3 w) ss es i) (block_payload w st)))
      = u16_le 0 @ u16_le (word_of_nat (length (se_key ?e))) @ se_key ?e @ entry_body (sw_v3 w) ?e
        @ images (sw_v3 w) (drop (Suc i) ss) (drop (Suc i) es)" by simp
  from adv_exists [OF r] obtain c1 where c1:
    "adv (cursor_new (drop (table_prefix w st + off (sw_v3 w) ss es i) (block_payload w st))) (u16_le 0) c1"
    "rest c1 = u16_le (word_of_nat (length (se_key ?e))) @ se_key ?e @ entry_body (sw_v3 w) ?e
        @ images (sw_v3 w) (drop (Suc i) ss) (drop (Suc i) es)" by blast
  from adv_exists [OF c1(2)] obtain c2 where c2: "adv c1 (u16_le (word_of_nat (length (se_key ?e)))) c2"
    "rest c2 = se_key ?e @ entry_body (sw_v3 w) ?e @ images (sw_v3 w) (drop (Suc i) ss) (drop (Suc i) es)" by blast
  from adv_exists [OF c2(2)] obtain c3 where "adv c2 (se_key ?e) c3" by blast
  then have "cur_take (length (se_key ?e)) c2 = Inr (se_key ?e, c3)" by (simp add: cur_take_iff)
  then show ?thesis
    by (simp add: restart_key_def cur_reads(2) [OF c1(1)] cur_reads(2) [OF c2(1)] u16_fits [OF ok])
qed

text \<open>The index after \<open>k\<close> restarts with offsets \<open>os\<close> and keys \<open>ks\<close>.\<close>

definition index_upto :: "nat list \<Rightarrow> bytes list \<Rightarrow> nat \<Rightarrow> restart_index" where
  "index_upto os ks k = \<lparr>ri_blk_offs = map word_of_nat (take k os),
     ri_key_offs = map (\<lambda>j. word_of_nat (length (concat (take j ks)))) [0..<k], ri_keys = concat (take k ks)\<rparr>"

lemma restart_loop_reads:
  assumes "length ks = length os" and "sorted_wrt (<) ks"
    and "\<And>j. j < length os \<Longrightarrow> table_offset offs j = os ! j \<and> len \<le> os ! j \<and> os ! j < length payload
        \<and> restart_key payload (os ! j) = Inr (ks ! j)"
    and "k \<le> length os"
  shows "restart_loop offs payload len [k..<length os] (if k = 0 then None else Some (ks ! (k - 1))) (index_upto os ks k)
    = Inr (index_upto os ks (length os))"
  using assms(4)
proof (induction "length os - k" arbitrary: k)
  case 0
  then show ?case by simp
next
  case (Suc d)
  then have k: "k < length os" by simp
  have up: "[k..<length os] = k # [Suc k..<length os]" using k by (simp add: upt_conv_Cons)
  have lt: "is_none_or (\<lambda>p. p < ks ! k) (if k = 0 then None else Some (ks ! (k - 1)))"
    using sorted_wrt_nth_less [OF assms(2), of "k - 1" k] k assms(1) by (auto simp: is_none_or_def)
  have ix: "(index_upto os ks k)\<lparr>ri_blk_offs := ri_blk_offs (index_upto os ks k) @ [word_of_nat (os ! k)],
      ri_key_offs := ri_key_offs (index_upto os ks k) @ [word_of_nat (length (ri_keys (index_upto os ks k)))],
      ri_keys := ri_keys (index_upto os ks k) @ ks ! k\<rparr> = index_upto os ks (Suc k)"
    using k assms(1) by (simp add: index_upto_def take_Suc_conv_app_nth)
  show ?case
    unfolding up using Suc.hyps(1) [of "Suc k"] Suc.hyps(2) k assms(3) [OF k] lt ix by (simp add: Let_def)
qed

lemma sum_sublist_le:
  assumes "sorted_wrt (<) ris" and "\<forall>i \<in> set ris. i < length xs"
  shows "(\<Sum>i\<leftarrow>ris. f (xs ! i)) \<le> (\<Sum>x\<leftarrow>xs. (f x :: nat))"
proof -
  have d: "distinct ris" using assms(1) by (simp add: strict_sorted_iff)
  have "(\<Sum>i\<leftarrow>ris. f (xs ! i)) = (\<Sum>i\<in>set ris. f (xs ! i))" using d by (rule sum_list_distinct_conv_sum_set)
  also have "\<dots> \<le> (\<Sum>i\<in>{0..<length xs}. f (xs ! i))" using assms(2) by (intro sum_mono2) auto
  also have "\<dots> = (\<Sum>x\<leftarrow>xs. f x)" by (simp add: sum_list_sum_nth)
  finally show ?thesis .
qed

lemma restart_keys_small:
  assumes "enc_fits w es st ss ris"
  shows "length (concat (map (\<lambda>i. se_key (es ! i)) ris)) < 2 ^ 32"
proof -
  note b = enc_fits_basic [OF assms]
  have "length (concat (map (\<lambda>i. se_key (es ! i)) ris)) = (\<Sum>i\<leftarrow>ris. length (se_key (es ! i)))"
    by (simp add: length_concat comp_def)
  also have "\<dots> \<le> (\<Sum>e\<leftarrow>es. length (se_key e))"
    using b(4,6) by (intro sum_sublist_le) (auto simp: restarts_ok_def)
  also have "\<dots> \<le> (\<Sum>e\<leftarrow>es. 8 + entry_size (sw_v3 w) 0 e)" by (intro sum_list_mono) (simp add: entry_size_def)
  finally show ?thesis using assms by (simp add: enc_fits_def block_size_def)
qed

lemma restart_keys_sorted:
  assumes "enc_fits w es st ss ris"
  shows "sorted_wrt (<) (map (\<lambda>i. se_key (es ! i)) ris)"
proof -
  have r: "sorted_wrt (<) ris" "\<forall>i \<in> set ris. run_start es i"
    using enc_fits_basic(4) [OF assms] by (auto simp: restarts_ok_def)
  show ?thesis unfolding sorted_wrt_map
    by (rule sorted_wrt_mono_rel [OF _ r(1)]) (use r(2) in \<open>auto simp: run_start_def\<close>)
qed

lemma restart_index_reads:
  assumes "enc_fits w es st ss ris"
  obtains ix where "RestartIndex_parse (take (4 * length ris) (drop 6 (block_payload w st))) (block_payload w st) (table_prefix w st) = Inr ix"
    and "ri_blk_offs ix = map (\<lambda>i. word_of_nat (table_prefix w st + off (sw_v3 w) ss es i)) ris"
    and "\<And>j. j < length ris \<Longrightarrow> ri_key ix j = se_key (es ! (ris ! j))"
proof -
  note b = enc_fits_basic [OF assms]
  let ?os = "map (\<lambda>i. table_prefix w st + off (sw_v3 w) ss es i) ris"
  let ?ks = "map (\<lambda>i. se_key (es ! i)) ris"
  let ?ws = "map (\<lambda>i. word_of_nat (table_prefix w st + off (sw_v3 w) ss es i)) ris :: u32 list"
  let ?offs = "take (4 * length ris) (drop 6 (block_payload w st))"
  have offs: "?offs = concat (map u32_le ?ws)"
    using block_payload_eq [OF assms] b(5) abs_offsets_eq [OF assms, of ris]
    by (simp add: block_table_eq del: map_map)
  have tab: "table_offset ?offs j = ?os ! j \<and> table_prefix w st \<le> ?os ! j \<and> ?os ! j < length (block_payload w st)
      \<and> restart_key (block_payload w st) (?os ! j) = Inr (?ks ! j)" if "j < length ?os" for j
  proof (intro conjI)
    show "table_offset ?offs j = ?os ! j"
      unfolding offs using that table_offset_nth [of j ?ws] unat_position(2) [OF assms] by simp
    show "?os ! j < length (block_payload w st)"
      using that off_less [OF b(1), of "ris ! j" "sw_v3 w"] b(6) block_payload_eq [OF assms] by (simp add: length_block_table)
    show "restart_key (block_payload w st) (?os ! j) = Inr (?ks ! j)"
      using that restart_key_reads [OF assms, of "ris ! j"] by simp
  qed (use that in simp)
  define ix where "ix = (index_upto ?os ?ks (length ?os))
    \<lparr>ri_key_offs := ri_key_offs (index_upto ?os ?ks (length ?os)) @ [word_of_nat (length (ri_keys (index_upto ?os ?ks (length ?os))))]\<rparr>"
  have lo: "length ?offs div 4 = length ?os" unfolding offs length_concat_u32 by simp
  have "restart_loop ?offs (block_payload w st) (table_prefix w st) [0..<length ?os] None
      \<lparr>ri_blk_offs = [], ri_key_offs = [], ri_keys = []\<rparr> = Inr (index_upto ?os ?ks (length ?os))"
    using restart_loop_reads [OF _ restart_keys_sorted [OF assms] tab, of 0] by (simp add: index_upto_def)
  then have parse: "RestartIndex_parse ?offs (block_payload w st) (table_prefix w st) = Inr ix"
    unfolding RestartIndex_parse_def lo ix_def by simp
  have ko: "unat (ri_key_offs ix ! j) = length (concat (take j ?ks))" if "j \<le> length ris" for j
  proof -
    have "ri_key_offs ix ! j = word_of_nat (length (concat (take j ?ks)))"
      using that by (cases "j = length ris") (auto simp: ix_def index_upto_def nth_append)
    moreover have "length (concat (take j ?ks)) \<le> length (concat ?ks)"
      by (metis append_take_drop_id concat_append le_add1 length_append)
    ultimately show ?thesis
      using restart_keys_small [OF assms] by (auto intro!: unat_of_nat_small)
  qed
  have "ri_key ix j = se_key (es ! (ris ! j))" if j: "j < length ris" for j
  proof -
    have split: "concat ?ks = concat (take j ?ks) @ ?ks ! j @ concat (drop (Suc j) ?ks)"
      using j by (metis concat.simps(2) concat_append id_take_nth_drop length_map)
    have suc: "concat (take (j + 1) ?ks) = concat (take j ?ks) @ ?ks ! j" using j by (simp add: take_Suc_conv_app_nth)
    have keys: "ri_keys ix = concat ?ks" by (simp add: ix_def index_upto_def)
    show ?thesis
      using ko [of j] ko [of "j + 1"] j unfolding ri_key_def Let_def keys suc
      by (subst split) simp
  qed
  moreover have "ri_blk_offs ix = ?ws" by (simp add: ix_def index_upto_def)
  ultimately show ?thesis using that parse by blast
qed

section \<open>The bounded lookup\<close>

lemma bin_search_finds:
  assumes "\<And>i. i < n \<Longrightarrow> P i = Inr (p i)" and "\<And>i j. i \<le> j \<Longrightarrow> j < n \<Longrightarrow> p j \<Longrightarrow> p i"
    and "lo \<le> hi" "hi \<le> n" and "\<And>i. i < lo \<Longrightarrow> p i" and "\<And>i. hi \<le> i \<Longrightarrow> i < n \<Longrightarrow> \<not> p i"
  shows "\<exists>r. bin_search P lo hi = Inr r \<and> r \<le> n \<and> (\<forall>i < r. p i) \<and> (\<forall>i. r \<le> i \<longrightarrow> i < n \<longrightarrow> \<not> p i)"
  using assms
proof (induction "hi - lo" arbitrary: lo hi rule: less_induct)
  case less
  show ?case
  proof (cases "lo < hi")
    case False
    then show ?thesis using less.prems by (subst bin_search.simps) (auto intro!: exI [of _ lo])
  next
    case True
    let ?mid = "(lo + hi) div 2"
    have mid: "lo \<le> ?mid" "?mid < hi" using True by auto
    have Pm: "P ?mid = Inr (p ?mid)" using less.prems(1,4) mid by simp
    show ?thesis
    proof (cases "p ?mid")
      case pm: True
      have below: "p i" if "i < ?mid + 1" for i using less.prems(2) [of i ?mid] pm that mid less.prems(4) by simp
      have "\<exists>r. bin_search P (?mid + 1) hi = Inr r \<and> r \<le> n \<and> (\<forall>i < r. p i) \<and> (\<forall>i. r \<le> i \<longrightarrow> i < n \<longrightarrow> \<not> p i)"
        by (rule less.hyps) (use mid below less.prems in auto)
      then show ?thesis using True Pm pm by (subst bin_search.simps) (simp add: Let_def)
    next
      case pm: False
      have above: "\<not> p i" if "?mid \<le> i" "i < n" for i using less.prems(2) [of ?mid i] pm that by blast
      have "\<exists>r. bin_search P lo ?mid = Inr r \<and> r \<le> n \<and> (\<forall>i < r. p i) \<and> (\<forall>i. r \<le> i \<longrightarrow> i < n \<longrightarrow> \<not> p i)"
        by (rule less.hyps) (use mid above less.prems in auto)
      then show ?thesis using True Pm pm by (subst bin_search.simps) (simp add: Let_def)
    qed
  qed
qed

abbreviation matches :: "bytes \<Rightarrow> replica_id option \<Rightarrow> segment_entry \<Rightarrow> bool" where
  "matches key rid e \<equiv> se_key e = key \<and> is_none_or (\<lambda>x. se_replica e = x) rid"

lemma find_skip: "\<forall>e \<in> set xs. \<not> P e \<Longrightarrow> find P (xs @ ys) = find P ys"
  by (induction xs) auto

lemma find_stop: "\<forall>e \<in> set ys. \<not> P e \<Longrightarrow> find P (xs @ ys) = find P xs"
  by (induction xs) (auto simp: find_None_iff)

lemma find_middle:
  assumes "i \<le> j" "j \<le> length es" and "\<forall>k < i. \<not> P (es ! k)" and "\<forall>k. j \<le> k \<longrightarrow> k < length es \<longrightarrow> \<not> P (es ! k)"
  shows "find P (take (j - i) (drop i es)) = find P es"
proof -
  have split: "es = take i es @ take (j - i) (drop i es) @ drop j es"
    using assms(1) by (metis append_take_drop_id drop_drop le_add_diff_inverse2)
  have before: "\<forall>e \<in> set (take i es). \<not> P e" using assms(1-3) by (auto simp: in_set_conv_nth)
  have after: "\<forall>e \<in> set (drop j es). \<not> P e" using assms(2,4) by (auto simp: in_set_conv_nth)
  have "find P es = find P (take i es @ take (j - i) (drop i es) @ drop j es)" using split by (rule arg_cong)
  then show ?thesis unfolding find_skip [OF before] find_stop [OF after] by simp
qed

lemma keys_sorted_slice: "keys_sorted es \<Longrightarrow> keys_sorted (take n (drop i es))"
  by (simp add: keys_sorted_def sorted_wrt_take sorted_wrt_drop flip: take_map drop_map)

lemma block_get_v2_enc:
  assumes fit: "enc_fits w es st ss ris" and b: "db_v3 b = sw_v3 w" "db_v4 b = sw_v4 w"
  shows "block_get_v2 b (block_payload w st) key rid = Inr (find (matches key rid) es)"
proof -
  note bs = enc_fits_basic [OF fit]
  let ?pl = "block_payload w st"
  let ?n = "length ris"
  have srt: "keys_sorted es" and ok: "\<forall>e \<in> set es. entry_ok (sw_v3 w) e" and ne: "es \<noteq> []"
    using fit by (auto simp: enc_fits_def)
  have ris: "ris \<noteq> []" "hd ris = 0" "sorted_wrt (<) ris" "\<forall>i \<in> set ris. run_start es i"
    using bs(4) ne by (auto simp: restarts_ok_def)
  obtain ix where ix: "RestartIndex_parse (take (4 * ?n) (drop 6 ?pl)) ?pl (table_prefix w st) = Inr ix"
    "ri_blk_offs ix = map (\<lambda>i. word_of_nat (table_prefix w st + off (sw_v3 w) ss es i)) ris"
    and key: "\<And>j. j < ?n \<Longrightarrow> ri_key ix j = se_key (es ! (ris ! j))"
    using restart_index_reads [OF fit] by blast
  have n: "length (ri_blk_offs ix) = ?n" using ix(2) by simp
  have mono: "se_key (es ! (ris ! i)) \<le> se_key (es ! (ris ! j))" if "i \<le> j" "j < ?n" for i j
    using that restart_keys_sorted [OF fit] sorted_wrt_nth_less [of "(<)" "map (\<lambda>i. se_key (es ! i)) ris" i j]
    by (cases "i = j") (auto simp: less_imp_le)
  have "\<exists>r. bin_search (\<lambda>mid. Inr (ri_key ix mid \<le> key)) 0 ?n = Inr r \<and> r \<le> ?n
      \<and> (\<forall>i < r. se_key (es ! (ris ! i)) \<le> key) \<and> (\<forall>i. r \<le> i \<longrightarrow> i < ?n \<longrightarrow> \<not> se_key (es ! (ris ! i)) \<le> key)"
    by (rule bin_search_finds) (use key mono in \<open>auto dest: order_trans\<close>)
  then obtain r where r: "bin_search (\<lambda>mid. Inr (ri_key ix mid \<le> key)) 0 ?n = Inr r" "r \<le> ?n"
    "\<forall>i < r. se_key (es ! (ris ! i)) \<le> key" "\<forall>i. r \<le> i \<longrightarrow> i < ?n \<longrightarrow> \<not> se_key (es ! (ris ! i)) \<le> key"
    by blast
  show ?thesis
  proof (cases "r = 0")
    case True
    have "\<not> se_key (es ! 0) \<le> key" using r(4) True ris(1,2) by (auto simp: hd_conv_nth)
    then have "\<not> matches key rid e" if "e \<in> set es" for e
      using that keys_sorted_nth [OF srt, of 0] by (auto simp: in_set_conv_nth)
    then have "find (matches key rid) es = None" by (simp add: find_None_iff)
    then show ?thesis
      unfolding block_get_v2_def using table_len_reads [OF fit] b(2) ix(1) r(1) True n by (simp add: Let_def)
  next
    case False
    let ?i = "ris ! (r - 1)"
    let ?j = "if r < ?n then ris ! r else length es"
    have r1: "r - 1 < ?n" using False r(2) by simp
    have i: "?i < length es" "ss ! ?i = 0" "run_start es ?i" using bs(6) ris(4) r1 by auto
    have j: "?j \<le> length es" "?i \<le> ?j"
      using bs(6) sorted_wrt_nth_less [OF ris(3), of "r - 1" r] i(1) False by (auto simp: less_imp_le)
    have jlt: "?j < length es \<longleftrightarrow> r < ?n" using bs(6) by auto
    have start: "unat (ri_blk_offs ix ! (r - 1)) = table_prefix w st + off (sw_v3 w) ss es ?i"
      using ix(2) r1 unat_position(2) [OF fit] by simp
    have stop: "(if r < ?n then unat (ri_blk_offs ix ! r) else length ?pl)
        = (if ?j < length es then table_prefix w st + off (sw_v3 w) ss es ?j else length ?pl)"
      using ix(2) unat_position(2) [OF fit] jlt by auto
    have slice: "take ((if r < ?n then unat (ri_blk_offs ix ! r) else length ?pl) - unat (ri_blk_offs ix ! (r - 1)))
        (drop (unat (ri_blk_offs ix ! (r - 1))) ?pl)
        = images (sw_v3 w) (take (?j - ?i) (drop ?i ss)) (take (?j - ?i) (drop ?i es))"
      by (rule payload_slice [OF fit j(2,1) start stop])
    note order = payload_slice_order [OF fit j(2,1) start stop]
    have ch: "chained [] (take (?j - ?i) (drop ?i ss)) (take (?j - ?i) (drop ?i es))"
      by (rule chained_take [OF chained_drop [OF bs(2) i(1,2)]])
    have "se_key (es ! ?i) \<le> key" using r(3) False by simp
    then have "\<forall>k < ?i. \<not> matches key rid (es ! k)"
      using i(3) unfolding run_start_def by (metis leD)
    moreover have "\<forall>k. ?j \<le> k \<longrightarrow> k < length es \<longrightarrow> \<not> matches key rid (es ! k)"
    proof (intro allI impI)
      fix k assume k: "?j \<le> k" "k < length es"
      then have rn: "r < ?n" using jlt by (auto split: if_splits)
      have "se_key (es ! (ris ! r)) \<le> se_key (es ! k)" using keys_sorted_nth [OF srt] k rn by simp
      then show "\<not> matches key rid (es ! k)" using r(4) rn by (metis order_refl)
    qed
    ultimately have "find (matches key rid) (take (?j - ?i) (drop ?i es)) = find (matches key rid) es"
      by (rule find_middle [OF j(2,1)])
    moreover have "scan_interval (sw_v3 w) key rid [] (cursor_new (images (sw_v3 w) (take (?j - ?i) (drop ?i ss)) (take (?j - ?i) (drop ?i es))))
        = Inr (find (matches key rid) (take (?j - ?i) (drop ?i es)))"
    proof (rule scan_interval_reads [OF ch _ keys_sorted_slice [OF srt]])
      show "\<forall>e \<in> set (take (?j - ?i) (drop ?i es)). entry_ok (sw_v3 w) e" using ok by (meson in_set_dropD in_set_takeD)
    qed simp
    ultimately show ?thesis
      unfolding block_get_v2_def using table_len_reads [OF fit] b ix(1) r(1) False n slice order by (simp add: Let_def)
  qed
qed

lemma block_get_v2_reads:
  assumes "block_holds w es b payload" and "db_v2 b"
  shows "block_get_v2 b payload key rid = Inr (find (matches key rid) es)"
proof -
  obtain st ss ris where "payload = block_payload w st" "sw_v2 w \<Longrightarrow> enc_fits w es st ss ris"
    using block_holds_enc [OF assms(1)] by blast
  then show ?thesis using block_get_v2_enc assms by (auto simp: block_holds_def)
qed

section \<open>The dense table\<close>

lemma dense_indices_eq: "dense_indices n = map (\<lambda>j. RESTART_INTERVAL * j) [0..<(n + 15) div RESTART_INTERVAL]"
proof (induction n)
  case 0
  then show ?case by (simp add: dense_indices_def RESTART_INTERVAL_def)
next
  case (Suc n)
  show ?case
  proof (cases "cadence n")
    case True
    then obtain q where "n = 16 * q" by (auto simp: cadence_def RESTART_INTERVAL_def)
    then show ?thesis using Suc True by (simp add: dense_indices_Suc RESTART_INTERVAL_def)
  next
    case False
    define q r where "q = n div 16" and "r = n mod 16"
    have n: "n = 16 * q + r" and r: "0 < r" "r < 16"
      using False by (auto simp: q_def r_def cadence_def RESTART_INTERVAL_def)
    have "(16 * q + r + 15) div 16 = q + 1" "(16 * q + r + 16) div 16 = q + 1"
      by (rule div_nat_eqI; use r in simp)+
    then have "(Suc n + 15) div 16 = (n + 15) div 16" by (simp add: n)
    then show ?thesis using Suc False by (simp add: dense_indices_Suc RESTART_INTERVAL_def)
  qed
qed

lemma off_strict:
  assumes "length ss = length es" and "i < j" and "j \<le> length es"
  shows "off v3 ss es i < off v3 ss es j"
proof -
  have "images v3 (take (j - i) (drop i ss)) (take (j - i) (drop i es)) \<noteq> []"
    using assms by (cases "drop i ss"; cases "drop i es"; cases "j - i") (auto simp: entry_image_def entry_body_def)
  then show ?thesis using off_mono_take [OF assms(1), of i j v3] assms(2) by simp
qed

lemma dense_window_reads:
  assumes fit: "enc_fits w es st ss ris" and v4: "sw_v4 w" and i: "i < length es"
  defines "lo \<equiv> RESTART_INTERVAL * (i div RESTART_INTERVAL)"
  defines "hi \<equiv> min (lo + RESTART_INTERVAL) (length es)"
  shows "dense_window (block_payload w st) i
    = Inr (Some (table_prefix w st + off (sw_v3 w) ss es lo,
        if hi < length es then table_prefix w st + off (sw_v3 w) ss es hi else length (block_payload w st)))"
proof -
  note b = enc_fits_basic [OF fit]
  let ?pl = "block_payload w st" and ?img = "images (sw_v3 w) ss es"
  let ?D = "(length es + 15) div RESTART_INTERVAL"
  let ?ws = "map (\<lambda>j. word_of_nat (table_prefix w st + off (sw_v3 w) ss es (RESTART_INTERVAL * j))) [0..<?D] :: u32 list"
  let ?offs = "concat (map u32_le (abs_offsets w st (es_restarts st)))"
  have dense: "es_dense st = map (\<lambda>i. word_of_nat (off (sw_v3 w) ss es i)) (dense_indices (length es))"
    using b(8) v4 by blast
  have ws: "abs_offsets w st (es_dense st) = ?ws"
    unfolding dense abs_offsets_eq [OF fit] by (simp add: dense_indices_eq comp_def)
  have D: "length (es_dense st) = ?D" unfolding dense by (simp add: dense_indices_eq)
  have p: "?pl = u16_le (word_of_nat RESTART_INTERVAL) @ u32_le (word_of_nat (length ris)) @ ?offs
      @ u32_le (word_of_nat ?D) @ concat (map u32_le ?ws) @ ?img"
    using block_payload_eq [OF fit] b(5) v4 D ws by (simp add: block_table_eq del: map_map)
  from adv_exists [of "cursor_new ?pl", unfolded rest_new, OF p] obtain c1 where c1:
    "adv (cursor_new ?pl) (u16_le (word_of_nat RESTART_INTERVAL)) c1"
    "rest c1 = u32_le (word_of_nat (length ris)) @ ?offs @ u32_le (word_of_nat ?D) @ concat (map u32_le ?ws) @ ?img" by blast
  from adv_exists [OF c1(2)] obtain c2 where c2: "adv c1 (u32_le (word_of_nat (length ris))) c2" by blast
  have bs: "8 * length es + 10 < 2 ^ 32" using images_lt_block_size [OF b(2), of w] fit by (simp add: enc_fits_def)
  have Dle: "?D \<le> length es" using D b(8) [OF v4] length_dense_indices [of "length es"] by simp
  have n: "unat (word_of_nat (length ris) :: u32) = length ris" by (rule unat_of_nat_small) (use b(7) bs in simp)
  have d: "unat (word_of_nat ?D :: u32) = ?D" by (rule unat_of_nat_small) (use Dle bs in simp)
  have lo: "length ?offs = 4 * length ris" using b(5) by simp
  have dr: "drop (6 + 4 * length ris) ?pl = u32_le (word_of_nat ?D) @ concat (map u32_le ?ws) @ ?img"
    unfolding p using lo by simp
  have "drop (6 + 4 * length ris + 4) ?pl = drop 4 (drop (6 + 4 * length ris) ?pl)"
    by (simp only: drop_drop add.commute)
  also have "\<dots> = concat (map u32_le ?ws) @ ?img"
    unfolding dr by (rule drop_app_exact) simp
  finally have dr4: "drop (6 + 4 * length ris + 4) ?pl = concat (map u32_le ?ws) @ ?img" .
  have tp: "table_prefix w st = 6 + 4 * length ris + 4 + 4 * ?D" using b(5) D v4 by (simp add: table_prefix_def)
  have len: "length ?pl = table_prefix w st + length ?img" using block_payload_eq [OF fit] by (simp add: length_block_table)
  have offs: "take (4 * ?D) (drop (6 + 4 * length ris + 4) ?pl) = concat (map u32_le ?ws)"
    unfolding dr4 by (rule take_app_exact) (simp only: length_concat_u32 length_map length_upt diff_zero)
  have tab: "table_offset (concat (map u32_le ?ws)) j = table_prefix w st + off (sw_v3 w) ss es (RESTART_INTERVAL * j)"
    if "j < ?D" for j
    using that table_offset_nth [of j ?ws] unat_position(2) [OF fit] by simp
  let ?j = "i div RESTART_INTERVAL"
  have jD: "?j < ?D" using i by (simp add: RESTART_INTERVAL_def)
  have lo_lt: "lo < length es" "lo \<le> i" using i by (auto simp: lo_def RESTART_INTERVAL_def)
  have next_iff: "?j + 1 < ?D \<longleftrightarrow> hi < length es"
    using less_eq_div_iff_mult_less_eq [of 16 "?j + 2" "length es + 15"]
    by (auto simp: hi_def lo_def RESTART_INTERVAL_def)
  have hi_eq: "hi = RESTART_INTERVAL * (?j + 1)" if "hi < length es" using that by (auto simp: hi_def lo_def)
  have hi: "lo < hi" "hi \<le> length es" using lo_lt by (auto simp: hi_def RESTART_INTERVAL_def)
  define stop where "stop = (if hi < length es then table_prefix w st + off (sw_v3 w) ss es hi else length ?pl)"
  define start where "start = table_prefix w st + off (sw_v3 w) ss es lo"
  define os where "os = concat (map u32_le ?ws)"
  define d' where "d' = ?D"
  have e: "(if ?j + 1 < d' then table_offset os (?j + 1) else length ?pl) = stop"
    unfolding os_def d'_def stop_def using next_iff hi_eq tab [of "?j + 1"] by auto
  have lt: "start < stop" "stop \<le> length ?pl" "table_prefix w st \<le> start"
    using off_strict [OF b(1) hi, of "sw_v3 w"] off_less [OF b(1) lo_lt(1), of "sw_v3 w"] off_le [OF b(2), of "sw_v3 w" hi] len
    by (auto simp: start_def stop_def)
  have s: "table_offset os ?j = start" unfolding os_def start_def using tab [OF jD] by (simp add: lo_def)
  have t4: "take 4 (drop (6 + 4 * length ris) ?pl) = u32_le (word_of_nat d')" unfolding dr d'_def by simp
  have o: "take (4 * d') (drop (6 + 4 * length ris + 4) ?pl) = os" using offs by (simp only: os_def d'_def)
  have tp': "6 + 4 * length ris + 4 + 4 * d' = table_prefix w st" using tp by (simp only: d'_def)
  have le: "\<not> length ?pl < 6 + 4 * length ris + 4" "\<not> length ?pl < table_prefix w st" using len tp by auto
  have "dense_window ?pl i = Inr (Some (start, stop))"
    unfolding dense_window_def cur_reads(2) [OF c1(1)] cur_reads(3) [OF c2] rbind_simps prod.case n Let_def t4
      le_uint_le d [folded d'_def] o tp' s e
    using le lt jD by (simp add: d'_def)
  then show ?thesis by (simp add: start_def stop_def)
qed

lemma dense_entry_reads:
  assumes hold: "block_holds w es b payload" and v4: "db_v4 b" and i: "i < length es"
  shows "\<exists>start end'. dense_window payload i = Inr (Some (start, end'))
    \<and> decode_nth (i mod RESTART_INTERVAL) [] (cursor_new (take (end' - start) (drop start payload))) = Inr (es ! i)"
proof -
  have w: "sw_v4 w" "sw_v3 w" "sw_v2 w" using hold v4 by (auto simp: block_holds_def writer_ok_def)
  obtain st ss ris where pl: "payload = block_payload w st" and inv: "enc_inv w es st ss ris" and "sw_v2 w \<Longrightarrow> enc_fits w es st ss ris"
    using block_holds_enc [OF hold] by blast
  then have fit: "enc_fits w es st ss ris" using w by blast
  note b = enc_fits_basic [OF fit]
  define lo where "lo = RESTART_INTERVAL * (i div RESTART_INTERVAL)"
  define hi where "hi = min (lo + RESTART_INTERVAL) (length es)"
  have lo: "lo \<le> i" "i < lo + RESTART_INTERVAL" "lo < length es" "cadence lo"
    using i by (auto simp: lo_def RESTART_INTERVAL_def cadence_def)
  have hi: "lo \<le> hi" "hi \<le> length es" "i < hi" using lo i by (auto simp: hi_def)
  have z: "ss ! lo = 0" using inv w(1) lo by (auto simp: enc_inv_def)
  let ?start = "table_prefix w st + off (sw_v3 w) ss es lo"
  let ?stop = "if hi < length es then table_prefix w st + off (sw_v3 w) ss es hi else length payload"
  have win: "dense_window payload i = Inr (Some (?start, ?stop))"
    using dense_window_reads [OF fit w(1) i] pl by (simp add: lo_def hi_def)
  have sl: "take (?stop - ?start) (drop ?start payload) = images True (take (hi - lo) (drop lo ss)) (take (hi - lo) (drop lo es))"
    using payload_slice [OF fit hi(1,2) refl refl] unfolding pl eqTrueI [OF w(2)] .
  have ch: "chained [] (take (hi - lo) (drop lo ss)) (take (hi - lo) (drop lo es))"
    by (rule chained_take [OF chained_drop [OF b(2) lo(3) z]])
  have ok: "\<forall>e \<in> set (take (hi - lo) (drop lo es)). entry_ok True e"
    using fit w(2) unfolding enc_fits_def by (auto dest!: in_set_takeD in_set_dropD)
  have im: "i mod RESTART_INTERVAL = i - lo" by (simp add: lo_def minus_mult_div_eq_mod)
  have "decode_nth (i - lo) [] (cursor_new (images True (take (hi - lo) (drop lo ss)) (take (hi - lo) (drop lo es))))
      = Inr (take (hi - lo) (drop lo es) ! (i - lo))"
    by (rule decode_nth_reads [OF ch ok, where tail = "[]"]) (use lo hi in auto)
  moreover have "take (hi - lo) (drop lo es) ! (i - lo) = es ! i" using lo hi by (simp add: less_diff_conv)
  ultimately show ?thesis using win sl im by auto
qed

end
