(* ===== verification/SegmentFile.thy ===== *)
theory SegmentFile
  imports SegmentBlock
begin

text \<open>
  A published file and the reader opened on it. The dry pass tiles the entries into
  non-empty blocks; the publish loop writes one image per tile; \<open>open_inner\<close> finds the same
  blocks again. \<open>reader_holds\<close> is what the lookups need to know of the result.
\<close>

section \<open>Block boundaries\<close>

fun tiles :: "nat \<Rightarrow> (nat \<times> nat) list \<Rightarrow> nat \<Rightarrow> bool" where
  "tiles a [] b \<longleftrightarrow> a = b"
| "tiles a ((s, e) # bs) b \<longleftrightarrow> s = a \<and> s < e \<and> tiles e bs b"

lemma tiles_snoc: "tiles a (bs @ [(s, e)]) b \<longleftrightarrow> tiles a bs s \<and> s < e \<and> e = b"
  by (induction a bs b rule: tiles.induct) auto

lemma tiles_le: "tiles a bs b \<Longrightarrow> a \<le> b"
  by (induction a bs b rule: tiles.induct) auto

definition slice :: "'a list \<Rightarrow> nat \<times> nat \<Rightarrow> 'a list" where
  "slice xs b = take (snd b - fst b) (drop (fst b) xs)"

lemma tiles_concat: "tiles a bs b \<Longrightarrow> b \<le> length xs \<Longrightarrow> concat (map (slice xs) bs) = take (b - a) (drop a xs)"
proof (induction a bs b rule: tiles.induct)
  case (2 a s e bs b)
  then have "s = a" "a < e" "e \<le> b" by (auto dest: tiles_le)
  moreover have "take (b - a) (drop a xs) = take (e - a) (drop a xs) @ take (b - e) (drop e xs)"
    using calculation take_add [of "e - a" "b - e" "drop a xs"] by simp
  ultimately show ?case using 2 by (simp add: slice_def)
qed simp

lemma tiles_nonempty: "tiles a bs b \<Longrightarrow> b \<le> length xs \<Longrightarrow> p \<in> set bs \<Longrightarrow> slice xs p \<noteq> []"
proof (induction a bs b rule: tiles.induct)
  case (2 a s e bs b)
  then show ?case using tiles_le [of e bs b] by (auto simp: slice_def)
qed simp

definition bounds_inv :: "nat \<Rightarrow> bounds_state \<Rightarrow> bool" where
  "bounds_inv i st \<longleftrightarrow> tiles 0 (bd_bounds st) (bd_start st) \<and> bd_start st \<le> i \<and> (bd_start st < i \<longleftrightarrow> 0 < bd_len st)
    \<and> (0 < i \<longrightarrow> bd_start st < i)"

lemma bounds_split_inv:
  assumes "bounds_inv i st"
  shows "tiles 0 (bd_bounds (bounds_split target i est st)) (bd_start (bounds_split target i est st))
    \<and> bd_start (bounds_split target i est st) \<le> i"
  using assms by (auto simp: bounds_inv_def bounds_split_def tiles_snoc)

lemma bounds_step_inv:
  assumes "bounds_inv i st"
  shows "bounds_inv (Suc i) (bounds_step w (i, e) st)"
proof -
  define st1 where "st1 = bounds_split (sw_target w) i (entry_size (sw_v3 w) (shared_of (bd_prev st) e) e) st"
  have 1: "tiles 0 (bd_bounds st1) (bd_start st1)" "bd_start st1 \<le> i"
    using bounds_split_inv [OF assms] by (auto simp: st1_def)
  have "bd_bounds (bounds_step w (i, e) st) = bd_bounds st1" "bd_start (bounds_step w (i, e) st) = bd_start st1"
    by (simp_all add: bounds_step_def Let_def st1_def)
  moreover have "0 < bd_len (bounds_step w (i, e) st)"
    by (simp add: bounds_step_def Let_def entry_size_def)
  ultimately show ?thesis using 1 by (auto simp: bounds_inv_def)
qed

lemma bounds_fold_inv: "bounds_inv i st \<Longrightarrow> bounds_inv (i + length es) (fold (bounds_step w) (enumerate i es) st)"
proof (induction es arbitrary: i st)
  case (Cons e es)
  then show ?case using Cons.IH [OF bounds_step_inv [OF Cons.prems, of w e]] by simp
qed simp

lemma block_bounds_tiles: "es \<noteq> [] \<Longrightarrow> tiles 0 (block_bounds w es) (length es)"
proof -
  assume ne: "es \<noteq> []"
  have "bounds_inv 0 bounds_init" by (simp add: bounds_inv_def bounds_init_def)
  from bounds_fold_inv [OF this, of es w] have "bounds_inv (length es) (fold (bounds_step w) (enumerate 0 es) bounds_init)" by simp
  then show ?thesis using ne by (auto simp: block_bounds_def Let_def tiles_snoc bounds_inv_def)
qed

definition blocks :: "segment_writer \<Rightarrow> segment_entry list \<Rightarrow> segment_entry list list" where
  "blocks w es = map (slice es) (block_bounds w es)"

lemma concat_blocks: "es \<noteq> [] \<Longrightarrow> concat (blocks w es) = es"
  using tiles_concat [OF block_bounds_tiles, of es es w] by (simp add: blocks_def)

lemma blocks_nonempty: "es \<noteq> [] \<Longrightarrow> blk \<in> set (blocks w es) \<Longrightarrow> blk \<noteq> []"
  using tiles_nonempty [OF block_bounds_tiles, of es es _ w] by (auto simp: blocks_def)

lemma blocks_ne: "es \<noteq> [] \<Longrightarrow> blocks w es \<noteq> []"
  by (simp add: blocks_def block_bounds_def Let_def)

section \<open>What is written\<close>

definition block_bytes :: "digest_fn \<Rightarrow> segment_writer \<Rightarrow> segment_entry list \<Rightarrow> bytes" where
  "block_bytes sha w blk =
    encode_block sha BLOCK_DATA (word_of_nat (length blk)) (block_payload w (projr (encode_entries w blk))) (block_version w)"

fun index_image :: "digest_fn \<Rightarrow> segment_writer \<Rightarrow> nat \<Rightarrow> segment_entry list list \<Rightarrow> bytes" where
  "index_image sha w at [] = []"
| "index_image sha w at (blk # blks) = index_entry blk at @ index_image sha w (at + length (block_bytes sha w blk)) blks"

fun anchors_image :: "segment_writer \<Rightarrow> nat \<Rightarrow> segment_entry list list \<Rightarrow> anchors \<Rightarrow> anchors" where
  "anchors_image w k [] a = a"
| "anchors_image w k (blk # blks) a = anchors_image w (Suc k) blks (fold (anchor_entry w k) (enumerate 0 blk) a)"

lemma publish_blocks:
  assumes "\<forall>b \<in> set bs. fst b \<le> snd b \<and> snd b \<le> length es" and "\<forall>b \<in> set bs. \<exists>st. encode_entries w (slice es b) = Inr st"
  shows "rfold (publish_block sha w m es) (enumerate k bs) ps = Inr
    (ps\<lparr>ps_out := ps_out ps @ concat (map (block_bytes sha w) (map (slice es) bs)),
        ps_skeleton := ps_skeleton ps @ concat (map (take BLOCK_HEADER_LEN \<circ> block_bytes sha w) (map (slice es) bs)),
        ps_index := ps_index ps @ index_image sha w (length (ps_out ps)) (map (slice es) bs),
        ps_bits := fold (\<lambda>e. bloom_add sha m (se_key e)) (concat (map (slice es) bs)) (ps_bits ps),
        ps_anchors := anchors_image w k (map (slice es) bs) (ps_anchors ps)\<rparr>)"
  using assms
proof (induction bs arbitrary: k ps)
  case (Cons b bs)
  obtain s e where b: "b = (s, e)" by force
  obtain st where st: "encode_entries w (slice es b) = Inr st" using Cons.prems(2) by auto
  have len: "length (slice es b) = e - s" using Cons.prems(1) b by (auto simp: slice_def)
  have sl: "take (e - s) (drop s es) = slice es b" by (simp add: slice_def b)
  have bb: "encode_block sha BLOCK_DATA (word_of_nat (e - s)) (block_payload w st) (block_version w) = block_bytes sha w (slice es b)"
    using st len by (simp add: block_bytes_def)
  have "publish_block sha w m es (k, b) ps = Inr
     (ps\<lparr>ps_out := ps_out ps @ block_bytes sha w (slice es b),
        ps_skeleton := ps_skeleton ps @ take BLOCK_HEADER_LEN (block_bytes sha w (slice es b)),
        ps_index := ps_index ps @ index_entry (slice es b) (length (ps_out ps)),
        ps_bits := fold (\<lambda>e. bloom_add sha m (se_key e)) (slice es b) (ps_bits ps),
        ps_anchors := fold (anchor_entry w k) (enumerate 0 (slice es b)) (ps_anchors ps)\<rparr>)"
    unfolding publish_block_def b prod.case Let_def sl using st bb by (simp add: b)
  then show ?case using Cons.IH Cons.prems by simp
qed simp

section \<open>The file image\<close>

definition entry_before :: "segment_entry \<Rightarrow> segment_entry \<Rightarrow> bool" where
  "entry_before a b \<longleftrightarrow> se_key a < se_key b \<or> (se_key a = se_key b \<and> se_seq b < se_seq a)"

text \<open>The order the writer demands: keys ascending, sequence numbers descending within a key.\<close>

definition publish_order :: "segment_entry list \<Rightarrow> bool" where
  "publish_order es \<longleftrightarrow> sorted_wrt entry_before es"

lemma entry_before_trans: "transp entry_before"
  by (rule transpI) (auto simp: entry_before_def)

lemma entry_before_alt:
  "entry_before a b \<longleftrightarrow> \<not> (se_key a = se_key b \<and> se_seq a = se_seq b) \<and> \<not> misordered a b"
proof (cases "se_key a = se_key b")
  case True
  then show ?thesis by (auto simp: entry_before_def misordered_def)
next
  case False
  then show ?thesis using linorder_less_linear [of "se_key a" "se_key b"]
    by (auto simp: entry_before_def misordered_def dest: order.asym)
qed

lemma successive_zip: "(\<forall>p \<in> set (zip es (tl es)). P p) \<longleftrightarrow> (\<forall>i. Suc i < length es \<longrightarrow> P (es ! i, es ! Suc i))"
proof (induction es)
  case (Cons e es)
  then show ?case by (cases es) (auto simp: less_Suc_eq_0_disj nth_Cons split: nat.splits)
qed simp

lemma no_ex_iff: "\<not> list_ex P xs \<and> \<not> list_ex Q xs \<longleftrightarrow> (\<forall>x \<in> set xs. \<not> P x \<and> \<not> Q x)"
  by (auto simp: list_ex_iff)

lemma publish_guards:
  "\<not> list_ex (\<lambda>(a, b). se_key a = se_key b \<and> se_seq a = se_seq b) (zip es (tl es))
    \<and> \<not> list_ex (\<lambda>(a, b). misordered a b) (zip es (tl es)) \<longleftrightarrow> publish_order es"
proof -
  have "\<not> list_ex (\<lambda>(a, b). se_key a = se_key b \<and> se_seq a = se_seq b) (zip es (tl es))
      \<and> \<not> list_ex (\<lambda>(a, b). misordered a b) (zip es (tl es))
      \<longleftrightarrow> (\<forall>p \<in> set (zip es (tl es)). case p of (a, b) \<Rightarrow> entry_before a b)"
    unfolding no_ex_iff by (simp only: entry_before_alt split_beta)
  also have "\<dots> \<longleftrightarrow> (\<forall>i. Suc i < length es \<longrightarrow> entry_before (es ! i) (es ! Suc i))"
    by (simp add: successive_zip)
  also have "\<dots> \<longleftrightarrow> publish_order es"
    unfolding publish_order_def by (simp add: sorted_wrt_iff_nth_Suc_transp [OF entry_before_trans])
  finally show ?thesis .
qed

lemma publish_order_keys: "publish_order es \<Longrightarrow> keys_sorted es"
  unfolding publish_order_def keys_sorted_def sorted_map
  by (rule sorted_wrt_mono_rel [of _ entry_before]) (auto simp: entry_before_def)

definition file_header :: "digest_fn \<Rightarrow> segment_writer \<Rightarrow> segment_entry list \<Rightarrow> bytes" where
  "file_header sha w es = segment_header sha (word_of_nat (length (blocks w es))) es"

definition file_index :: "digest_fn \<Rightarrow> segment_writer \<Rightarrow> segment_entry list \<Rightarrow> bytes" where
  "file_index sha w es = index_image sha w (length (file_header sha w es)) (blocks w es)"

definition file_bloom :: "digest_fn \<Rightarrow> segment_entry list \<Rightarrow> bytes" where
  "file_bloom sha es =
    (let m = BLOOM_BITS_PER_KEY * length es in
     u32_le (word_of_nat m) @ fold (\<lambda>e. bloom_add sha m (se_key e)) es (replicate ((m + 7) div 8) 0))"

definition file_meta :: "digest_fn \<Rightarrow> segment_writer \<Rightarrow> segment_entry list \<Rightarrow> bytes" where
  "file_meta sha w es =
    encode_block sha BLOCK_INDEX (word_of_nat (length (blocks w es))) (file_index sha w es) SEGMENT_VERSION
    @ encode_block sha BLOCK_BLOOM (word_of_nat (length es)) (file_bloom sha es) SEGMENT_VERSION"

definition file_footer :: "digest_fn \<Rightarrow> segment_writer \<Rightarrow> segment_entry list \<Rightarrow> bytes" where
  "file_footer sha w es = footer_fields (length es) @ checksum8 sha (file_header sha w es
    @ concat (map (take BLOCK_HEADER_LEN \<circ> block_bytes sha w) (blocks w es)) @ file_meta sha w es @ footer_fields (length es))"

definition file_image :: "digest_fn \<Rightarrow> segment_writer \<Rightarrow> segment_entry list \<Rightarrow> bytes" where
  "file_image sha w es = file_header sha w es @ concat (map (block_bytes sha w) (blocks w es))
    @ file_meta sha w es @ file_footer sha w es"

text \<open>Entries within the limits of the format: 16-bit key lengths, 32-bit sizes of each block,
  of the index and of the Bloom filter, and no replica ids in a format that drops them.\<close>

definition index_size :: "segment_entry list list \<Rightarrow> nat" where
  "index_size blks = (\<Sum>blk\<leftarrow>blks. 16 + length (se_key (hd blk)) + length (se_key (last blk)))"

definition segment_fits :: "segment_writer \<Rightarrow> segment_entry list \<Rightarrow> bool" where
  "segment_fits w es \<longleftrightarrow> writer_ok w \<and> (\<forall>e \<in> set es. entry_ok (sw_v3 w) e)
    \<and> (\<forall>blk \<in> set (blocks w es). block_size w blk < 2 ^ 32)
    \<and> BLOOM_BITS_PER_KEY * length es < 2 ^ 32 \<and> index_size (blocks w es) < 2 ^ 32"

lemma block_bounds_range: "es \<noteq> [] \<Longrightarrow> \<forall>b \<in> set (block_bounds w es). fst b \<le> snd b \<and> snd b \<le> length es"
proof -
  have "tiles a bs b \<Longrightarrow> \<forall>p \<in> set bs. fst p \<le> snd p \<and> snd p \<le> b" for a bs b
    by (induction a bs b rule: tiles.induct) (auto dest: tiles_le)
  then show "es \<noteq> [] \<Longrightarrow> \<forall>b \<in> set (block_bounds w es). fst b \<le> snd b \<and> snd b \<le> length es"
    using block_bounds_tiles by blast
qed

lemma keys_sorted_block: "keys_sorted es \<Longrightarrow> blk \<in> set (blocks w es) \<Longrightarrow> keys_sorted blk"
  using keys_sorted_slice by (auto simp: blocks_def slice_def)

lemma in_blocks: "blk \<in> set (blocks w es) \<Longrightarrow> e \<in> set blk \<Longrightarrow> e \<in> set es"
  by (auto simp: blocks_def slice_def dest!: in_set_takeD in_set_dropD)

lemma blocks_encode:
  assumes "segment_fits w es" and "keys_sorted es" and "blk \<in> set (blocks w es)"
  shows "\<exists>st. encode_entries w blk = Inr st"
  using encode_entries_inv [OF keys_sorted_block [OF assms(2,3)], of w] assms(1,3)
  by (auto simp: segment_fits_def writer_ok_def)

lemma publish_image:
  assumes "segment_fits w es" and "publish_order es" and "es \<noteq> []" and "sw_target w \<noteq> 0"
  shows "publish_sorted_entries sha w es = Inr (file_image sha w es, le_u64 (take 8 (sha (file_image sha w es))),
    anchors_image w 0 (blocks w es) Map.empty)"
proof -
  have srt: "keys_sorted es" using publish_order_keys [OF assms(2)] .
  have keys: "\<not> list_ex (\<lambda>e. U16_MAX < length (se_key e)) es"
    using assms(1) by (auto simp: segment_fits_def list_ex_iff entry_ok_def)
  have enc: "\<forall>b \<in> set (block_bounds w es). \<exists>st. encode_entries w (slice es b) = Inr st"
    using blocks_encode [OF assms(1) srt] by (auto simp: blocks_def)
  have nb: "length (block_bounds w es) = length (blocks w es)" by (simp add: blocks_def)
  note pb = publish_blocks [OF block_bounds_range [OF assms(3)] enc, of sha _ 0, folded blocks_def]
  show ?thesis
    unfolding publish_sorted_entries_def
    using assms(3,4) keys publish_guards [of es] assms(2)
    by (simp add: Let_def pb nb seal_file_def file_image_def file_header_def file_index_def file_bloom_def file_meta_def
        file_footer_def concat_blocks)
qed

end
