(* ===== verification/SegmentOpen.thy ===== *)
theory SegmentOpen
  imports SegmentFile
begin

text \<open>
  Opening a published file. Each reader of \<open>open_inner\<close> is evaluated on the bytes that
  \<open>publish_sorted_entries\<close> wrote: the header, the walk over the block headers, the index
  payload, the footer. The outcome is \<open>reader_holds\<close>, the contract between an open reader
  and the entries it was written from, on which all lookups rest.
\<close>

section \<open>Evaluating a cursor\<close>

definition skip :: "nat \<Rightarrow> cursor \<Rightarrow> cursor" where
  "skip n c = c\<lparr>cpos := cpos c + n\<rparr>"

lemma skip_simps [simp]:
  "rest (skip n c) = drop n (rest c)" "cpos (skip n c) = cpos c + n" "cbytes (skip n c) = cbytes c"
  by (simp_all add: skip_def rest_skip)

lemma adv_skip: "rest c = bs @ ys \<Longrightarrow> adv c bs (skip (length bs) c)"
  by (simp add: adv_def skip_def rest_skip)

lemma cur_evals:
  "n \<le> length (rest c) \<Longrightarrow> cur_take n c = Inr (take n (rest c), skip n c)"
  "1 \<le> length (rest c) \<Longrightarrow> cur_u8 c = Inr (rest c ! 0, skip 1 c)"
  "2 \<le> length (rest c) \<Longrightarrow> cur_u16 c = Inr (le_u16 (take 2 (rest c)), skip 2 c)"
  "4 \<le> length (rest c) \<Longrightarrow> cur_u32 c = Inr (le_u32 (take 4 (rest c)), skip 4 c)"
  "8 \<le> length (rest c) \<Longrightarrow> cur_u64 c = Inr (le_u64 (take 8 (rest c)), skip 8 c)"
proof -
  have t: "cur_take n c = Inr (take n (rest c), skip n c)" if "n \<le> length (rest c)" for n
    using that by (simp add: cur_take_def skip_def remaining_rest) (simp add: rest_def)
  show "n \<le> length (rest c) \<Longrightarrow> cur_take n c = Inr (take n (rest c), skip n c)" by (rule t)
  show "1 \<le> length (rest c) \<Longrightarrow> cur_u8 c = Inr (rest c ! 0, skip 1 c)"
    unfolding cur_u8_def by (simp add: t)
  show "2 \<le> length (rest c) \<Longrightarrow> cur_u16 c = Inr (le_u16 (take 2 (rest c)), skip 2 c)"
    "4 \<le> length (rest c) \<Longrightarrow> cur_u32 c = Inr (le_u32 (take 4 (rest c)), skip 4 c)"
    "8 \<le> length (rest c) \<Longrightarrow> cur_u64 c = Inr (le_u64 (take 8 (rest c)), skip 8 c)"
    by (simp_all add: t cur_u16_def cur_u32_def cur_u64_def)
qed

lemma read_at: "file = a @ b @ c \<Longrightarrow> o' = length a \<Longrightarrow> n = length b \<Longrightarrow> read_segment_at file o' n = Inr b"
  by (simp add: read_segment_at_def)

section \<open>The header\<close>

lemma length_magics [simp]: "length SEGMENT_MAGIC = 4" "length BLOCK_MAGIC = 4" "length FOOTER_MAGIC = 4"
  by (simp_all add: SEGMENT_MAGIC_def BLOCK_MAGIC_def FOOTER_MAGIC_def)

definition opened_head :: "digest_fn \<Rightarrow> u32 \<Rightarrow> segment_entry list \<Rightarrow> segment_head" where
  "opened_head sha nb es = \<lparr>sh_bytes = segment_header sha nb es, sh_block_count = nb,
     sh_entry_count = word_of_nat (length es), sh_key_min = se_key (hd es), sh_key_max = se_key (last es),
     sh_seq_lo = Min (set (map se_seq es)), sh_seq_hi = Max (set (map se_seq es))\<rparr>"

lemma u32_key_fits: "n \<le> U16_MAX \<Longrightarrow> unat (word_of_nat n :: u32) = n"
  by (rule unat_of_nat_small) (simp add: U16_MAX_def)

lemma open_header_reads:
  assumes "sha_ok sha" and "es \<noteq> []" and "\<forall>e \<in> set es. length (se_key e) \<le> U16_MAX"
  shows "open_header sha (segment_header sha nb es @ tail) = Inr (opened_head sha nb es)"
proof -
  define k1 k2 where "k1 = se_key (hd es)" and "k2 = se_key (last es)"
  define lo hi where "lo = Min (se_seq ` set es)" and "hi = Max (se_seq ` set es)"
  define pre where "pre = SEGMENT_MAGIC @ u16_le SEGMENT_VERSION @ u32_le nb @ u64_le (word_of_nat (length es))
    @ u32_le (word_of_nat (length k1))"
  define body where "body = pre @ k1 @ u32_le (word_of_nat (length k2)) @ k2 @ u64_le lo @ u64_le hi"
  have len: "unat (word_of_nat (length k1) :: u32) = length k1" "unat (word_of_nat (length k2) :: u32) = length k2"
    using assms(2,3) by (simp_all add: k1_def k2_def u32_key_fits)
  have ord: "lo \<le> hi" using assms(2) unfolding lo_def hi_def
    by (intro order.trans [OF Min_le Max_ge, of _ "se_seq (hd es)"]) auto
  have hdr: "segment_header sha nb es = body @ checksum8 sha body"
    by (simp add: segment_header_def Let_def body_def pre_def k1_def k2_def lo_def hi_def)
  define fl where "fl = segment_header sha nb es @ tail"
  have f: "fl = pre @ k1 @ u32_le (word_of_nat (length k2)) @ k2 @ (u64_le lo @ u64_le hi @ checksum8 sha body) @ tail"
    by (simp add: fl_def hdr body_def)
  have lp: "length pre = 22" by (simp add: pre_def)
  have r1: "read_segment_at fl 0 22 = Inr pre" by (rule read_at [of _ "[]"]) (simp_all add: f lp)
  have r2: "read_segment_at fl 22 (length k1) = Inr k1" by (rule read_at [of _ pre]) (simp_all add: f lp)
  have r3: "read_segment_at fl (22 + length k1) 4 = Inr (u32_le (word_of_nat (length k2)))"
    by (rule read_at [of _ "pre @ k1"]) (simp_all add: f lp)
  have r4: "read_segment_at fl (26 + length k1) (length k2) = Inr k2"
    by (rule read_at [of _ "pre @ k1 @ u32_le (word_of_nat (length k2))"]) (simp_all add: f lp)
  have r5: "read_segment_at fl (26 + length k1 + length k2) 24 = Inr (u64_le lo @ u64_le hi @ checksum8 sha body)"
    by (rule read_at [of _ "pre @ k1 @ u32_le (word_of_nat (length k2)) @ k2"]) (simp_all add: f lp assms(1))
  have p: "take 4 pre = SEGMENT_MAGIC" "take 2 (drop 4 pre) = u16_le SEGMENT_VERSION" "take 4 (drop 6 pre) = u32_le nb"
    "take 8 (drop 10 pre) = u64_le (word_of_nat (length es))" "take 4 (drop 18 pre) = u32_le (word_of_nat (length k1))"
    by (simp_all add: pre_def)
  have b: "pre @ k1 @ u32_le (word_of_nat (length k2)) @ k2 @ u64_le lo @ u64_le hi = body" by (simp add: body_def)
  show ?thesis
    unfolding open_header_def fl_def [symmetric]
    using ord by (simp add: r1 r2 r3 r4 r5 cur_evals lp p len b assms(1) Let_def opened_head_def hdr
        k1_def [symmetric] k2_def [symmetric] lo_def [symmetric] hi_def [symmetric] not_less)
qed

section \<open>The block walk\<close>

definition block_head_of :: "digest_fn \<Rightarrow> byte \<Rightarrow> u32 \<Rightarrow> bytes \<Rightarrow> u16 \<Rightarrow> bytes" where
  "block_head_of sha kind n payload v = take BLOCK_HEADER_LEN (encode_block sha kind n payload v)"

lemma encode_block_split:
  assumes "sha_ok sha"
  shows "encode_block sha kind n payload v = block_head_of sha kind n payload v @ payload"
    and "length (block_head_of sha kind n payload v) = BLOCK_HEADER_LEN"
    and "length (encode_block sha kind n payload v) = BLOCK_HEADER_LEN + length payload"
    and "take 4 (encode_block sha kind n payload v) = BLOCK_MAGIC"
  using assms by (simp_all add: block_head_of_def encode_block_def Let_def BLOCK_HEADER_LEN_def)

lemma block_head_of_eq:
  "sha_ok sha \<Longrightarrow> block_head_of sha kind n payload v = BLOCK_MAGIC @ u16_le v @ [kind] @ [0] @ u32_le n
    @ u32_le (word_of_nat (length payload)) @ u32_le (word_of_nat (length payload))
    @ checksum8 sha (BLOCK_MAGIC @ u16_le v @ [kind] @ [0] @ u32_le n
        @ u32_le (word_of_nat (length payload)) @ u32_le (word_of_nat (length payload)) @ payload)"
  by (simp add: block_head_of_def encode_block_def Let_def BLOCK_HEADER_LEN_def)

lemma read_block_head_reads:
  assumes "sha_ok sha" and "length payload < 2 ^ 32" and "kind \<le> BLOCK_BLOOM" and "is_none_or (\<lambda>k. k \<le> kind) lk"
  shows "\<exists>stored. read_block_head lk (block_head_of sha kind n payload v)
    = Inr \<lparr>bh_version = v, bh_kind = kind, bh_entries = n, bh_compressed = length payload, bh_stored = stored\<rparr>"
  using assms unat_of_nat_small [of "length payload", where 'a = 32]
  by (simp add: read_block_head_def block_head_of_eq cur_evals not_less)

lemma magics_differ: "BLOCK_MAGIC \<noteq> FOOTER_MAGIC"
  by (simp add: BLOCK_MAGIC_def FOOTER_MAGIC_def)

text \<open>One block of any kind: the walk reads its header and adds it.\<close>

lemma walk_one:
  assumes "sha_ok sha" and "file = pre @ encode_block sha kind n payload v @ post" and "wk_cur st = length pre"
    and "length payload < 2 ^ 32" and "kind \<le> BLOCK_BLOOM" and "is_none_or (\<lambda>k. k \<le> kind) (wk_last_kind st)"
    and "v = SEGMENT_VERSION \<or> 2 \<le> v \<and> v \<le> 4 \<and> kind = BLOCK_DATA"
  shows "\<exists>h. walk_step sha file st = rbind (add_block (block_head_of sha kind n payload v) h st) (\<lambda>st. Inr (Some st))
    \<and> bh_version h = v \<and> bh_kind h = kind \<and> bh_entries h = n \<and> bh_compressed h = length payload"
proof -
  note e = encode_block_split [OF assms(1), of kind n payload v]
  obtain stored where h: "read_block_head (wk_last_kind st) (block_head_of sha kind n payload v)
      = Inr \<lparr>bh_version = v, bh_kind = kind, bh_entries = n, bh_compressed = length payload, bh_stored = stored\<rparr>"
    using read_block_head_reads [OF assms(1,4,5,6)] by blast
  have f: "file = pre @ block_head_of sha kind n payload v @ payload @ post" using assms(2) e(1) by simp
  have m: "take 4 (drop (length pre) file) = BLOCK_MAGIC" using e(4) assms(2) e(3) by (simp add: BLOCK_HEADER_LEN_def)
  have r: "read_segment_at file (length pre) BLOCK_HEADER_LEN = Inr (block_head_of sha kind n payload v)"
    by (rule read_at [OF f]) (simp_all add: e(2))
  let ?h = "\<lparr>bh_version = v, bh_kind = kind, bh_entries = n, bh_compressed = length payload, bh_stored = stored\<rparr>"
  have "version_in_set ?h" using assms(7) by (simp add: version_in_set_def)
  then have "walk_step sha file st = rbind (add_block (block_head_of sha kind n payload v) ?h st) (\<lambda>st. Inr (Some st))"
    unfolding walk_step_def Let_def assms(3) using magics_differ m r h f e(2) by (simp add: m r h)
  then show ?thesis by (intro exI [of _ ?h]) simp
qed

section \<open>Data blocks\<close>

abbreviation payload_of :: "segment_writer \<Rightarrow> segment_entry list \<Rightarrow> bytes" where
  "payload_of w blk \<equiv> block_payload w (projr (encode_entries w blk))"

definition data_of :: "segment_writer \<Rightarrow> nat \<Rightarrow> segment_entry list \<Rightarrow> data_block" where
  "data_of w at blk = \<lparr>db_header = at, db_payload_len = length (payload_of w blk), db_entries = word_of_nat (length blk),
     db_v2 = sw_v2 w, db_v3 = sw_v3 w, db_v4 = sw_v4 w, db_first = (0, 0), db_last = (0, 0)\<rparr>"

fun data_blocks :: "digest_fn \<Rightarrow> segment_writer \<Rightarrow> nat \<Rightarrow> segment_entry list list \<Rightarrow> data_block list" where
  "data_blocks sha w at [] = []"
| "data_blocks sha w at (blk # blks) = data_of w at blk # data_blocks sha w (at + length (block_bytes sha w blk)) blks"

lemma length_data_blocks [simp]: "length (data_blocks sha w at blks) = length blks"
  by (induction blks arbitrary: at) simp_all

definition block_fits :: "segment_writer \<Rightarrow> segment_entry list \<Rightarrow> bool" where
  "block_fits w blk \<longleftrightarrow> writer_ok w \<and> blk \<noteq> [] \<and> keys_sorted blk \<and> (\<forall>e \<in> set blk. entry_ok (sw_v3 w) e)
    \<and> block_size w blk < 2 ^ 32"

lemma block_fits_holds:
  assumes "block_fits w blk" and "db_v2 b = sw_v2 w" "db_v3 b = sw_v3 w" "db_v4 b = sw_v4 w"
    "db_entries b = word_of_nat (length blk)"
  shows "block_holds w blk b (payload_of w blk)"
proof -
  have "sw_v4 w \<Longrightarrow> sw_v2 w" using assms(1) by (auto simp: block_fits_def writer_ok_def)
  then obtain st where "encode_entries w blk = Inr st"
    using encode_entries_inv [of blk w] assms(1) by (auto simp: block_fits_def)
  then show ?thesis using assms by (auto simp: block_holds_def block_fits_def)
qed

lemma images_ge: "chained base ss es \<Longrightarrow> MIN_ENTRY_LEN * length es \<le> length (images v3 ss es)"
proof (induction base ss es rule: chained.induct)
  case (2 base s ss e es)
  then have "MIN_ENTRY_LEN \<le> length (entry_image v3 s e)"
    by (simp add: length_entry_image link_def) (auto simp: entry_size_def MIN_ENTRY_LEN_def)
  then show ?case using 2 by simp
qed simp_all

lemma block_fits_payload:
  assumes "block_fits w blk"
  shows "length (payload_of w blk) < 2 ^ 32" and "length blk \<le> length (payload_of w blk) div MIN_ENTRY_LEN"
    and "unat (word_of_nat (length blk) :: u32) = length blk"
proof -
  have hold: "block_holds w blk (data_of w 0 blk) (payload_of w blk)"
    by (rule block_fits_holds [OF assms]) (simp_all add: data_of_def)
  obtain st ss ris where "encode_entries w blk = Inr st" and e: "payload_of w blk = block_payload w st"
    "enc_inv w blk st ss ris" "sw_v2 w \<Longrightarrow> enc_fits w blk st ss ris"
    by (rule block_holds_enc [OF hold]) (rule that; simp)
  have c: "chained [] ss blk" "es_payload st = images (sw_v3 w) ss blk" using e(2) by (auto simp: enc_inv_def)
  have small: "block_size w blk < 2 ^ 32" using assms by (simp add: block_fits_def)
  show "length (payload_of w blk) < 2 ^ 32"
  proof (cases "sw_v2 w")
    case True
    then show ?thesis using e(1,3) enc_fits_small block_payload_eq by (simp add: length_block_table)
  next
    case False
    then show ?thesis using e(1) c images_lt_block_size [OF c(1), of w] small by (simp add: block_payload_def)
  qed
  have "MIN_ENTRY_LEN * length blk \<le> length (es_payload st)" using images_ge [OF c(1)] c(2) by simp
  also have "\<dots> \<le> length (payload_of w blk)" using e(1) by (simp add: block_payload_def)
  finally show "length blk \<le> length (payload_of w blk) div MIN_ENTRY_LEN"
    by (simp add: less_eq_div_iff_mult_less_eq MIN_ENTRY_LEN_def mult.commute)
  show "unat (word_of_nat (length blk) :: u32) = length blk"
    using block_holds_count [OF hold] by (simp add: data_of_def)
qed

lemma block_version_cases:
  assumes "writer_ok w"
  shows "block_version w = SEGMENT_VERSION \<or> 2 \<le> block_version w \<and> block_version w \<le> 4"
    and "(block_version w = 2 \<or> block_version w = 3 \<or> block_version w = 4) \<longleftrightarrow> sw_v2 w"
    and "(block_version w = 3 \<or> block_version w = 4) \<longleftrightarrow> sw_v3 w" and "block_version w = 4 \<longleftrightarrow> sw_v4 w"
  using assms by (auto simp: block_version_def writer_ok_def SEGMENT_VERSION_def)

lemma add_data_block:
  assumes "block_fits w blk" and "bh_version h = block_version w" "bh_kind h = BLOCK_DATA"
    "bh_entries h = word_of_nat (length blk)" "bh_compressed h = length (payload_of w blk)"
  shows "add_block hdr h st = Inr (st\<lparr>wk_last_kind := Some BLOCK_DATA,
      wk_cur := wk_cur st + BLOCK_HEADER_LEN + length (payload_of w blk), wk_headers := wk_headers st @ hdr,
      wk_data := wk_data st @ [data_of w (wk_cur st) blk]\<rparr>)"
  unfolding add_block_def Let_def using assms(2-5) block_fits_payload [OF assms(1)]
    block_version_cases(2-4) [of w] assms(1) by (simp add: data_of_def block_fits_def)

lemma walk_blocks_Some: "walk_step sha file st = Inr (Some st') \<Longrightarrow> walk_blocks sha file st = walk_blocks sha file st'"
  by (subst walk_blocks.simps) simp

lemma walk_blocks_None: "walk_step sha file st = Inr None \<Longrightarrow> walk_blocks sha file st = Inr st"
  by (subst walk_blocks.simps) simp

lemma BLOCK_kinds [simp]: "BLOCK_DATA \<le> BLOCK_BLOOM" "BLOCK_INDEX \<le> BLOCK_BLOOM" "BLOCK_DATA \<le> BLOCK_INDEX"
  "BLOCK_DATA \<noteq> BLOCK_INDEX" "BLOCK_INDEX \<noteq> BLOCK_DATA" "BLOCK_DATA \<noteq> BLOCK_BLOOM" "BLOCK_INDEX \<noteq> BLOCK_BLOOM" "BLOCK_BLOOM \<noteq> BLOCK_DATA" "BLOCK_BLOOM \<noteq> BLOCK_INDEX"
  by (simp_all add: BLOCK_DATA_def BLOCK_INDEX_def BLOCK_BLOOM_def)

lemma walk_data_block:
  assumes "sha_ok sha" and "block_fits w blk" and "file = pre @ block_bytes sha w blk @ post" and "wk_cur st = length pre"
    and "wk_last_kind st = None \<or> wk_last_kind st = Some BLOCK_DATA"
  shows "walk_blocks sha file st = walk_blocks sha file (st\<lparr>wk_last_kind := Some BLOCK_DATA,
      wk_cur := length pre + length (block_bytes sha w blk),
      wk_headers := wk_headers st @ take BLOCK_HEADER_LEN (block_bytes sha w blk),
      wk_data := wk_data st @ [data_of w (length pre) blk]\<rparr>)"
proof -
  have ok: "writer_ok w" using assms(2) by (simp add: block_fits_def)
  have "is_none_or (\<lambda>k. k \<le> BLOCK_DATA) (wk_last_kind st)" using assms(5) by (auto simp: is_none_or_def)
  from walk_one [OF assms(1) assms(3) [unfolded block_bytes_def] assms(4) block_fits_payload(1) [OF assms(2)] BLOCK_kinds(1) this]
  obtain h where "walk_step sha file st = rbind (add_block (take BLOCK_HEADER_LEN (block_bytes sha w blk)) h st) (\<lambda>st. Inr (Some st))"
    and h: "bh_version h = block_version w" "bh_kind h = BLOCK_DATA" "bh_entries h = word_of_nat (length blk)"
      "bh_compressed h = length (payload_of w blk)"
    using block_version_cases(1) [OF ok] by (auto simp: block_head_of_def block_bytes_def)
  then show ?thesis
    using add_data_block [OF assms(2) h] assms(4) encode_block_split(3) [OF assms(1)]
    by (intro walk_blocks_Some) (simp add: block_bytes_def add.assoc)
qed

lemma walk_data:
  assumes "sha_ok sha" and "\<forall>blk \<in> set blks. block_fits w blk"
    and "file = pre @ concat (map (block_bytes sha w) blks) @ post" and "wk_cur st = length pre"
    and "wk_last_kind st = None \<or> wk_last_kind st = Some BLOCK_DATA"
  shows "walk_blocks sha file st = walk_blocks sha file (st\<lparr>wk_last_kind := (if blks = [] then wk_last_kind st else Some BLOCK_DATA),
      wk_cur := length pre + length (concat (map (block_bytes sha w) blks)),
      wk_headers := wk_headers st @ concat (map (take BLOCK_HEADER_LEN \<circ> block_bytes sha w) blks),
      wk_data := wk_data st @ data_blocks sha w (length pre) blks\<rparr>)"
  using assms
proof (induction blks arbitrary: pre st)
  case Nil
  then have "st\<lparr>wk_cur := length pre\<rparr> = st" by (cases st) simp
  then show ?case by simp
next
  case (Cons blk blks)
  let ?st = "st\<lparr>wk_last_kind := Some BLOCK_DATA, wk_cur := length (pre @ block_bytes sha w blk),
      wk_headers := wk_headers st @ take BLOCK_HEADER_LEN (block_bytes sha w blk),
      wk_data := wk_data st @ [data_of w (length pre) blk]\<rparr>"
  have "walk_blocks sha file st = walk_blocks sha file ?st"
    using walk_data_block [of sha w blk "file" pre "concat (map (block_bytes sha w) blks) @ post" st] Cons.prems by simp
  also have "\<dots> = walk_blocks sha file (?st\<lparr>wk_last_kind := (if blks = [] then wk_last_kind ?st else Some BLOCK_DATA),
      wk_cur := length (pre @ block_bytes sha w blk) + length (concat (map (block_bytes sha w) blks)),
      wk_headers := wk_headers ?st @ concat (map (take BLOCK_HEADER_LEN \<circ> block_bytes sha w) blks),
      wk_data := wk_data ?st @ data_blocks sha w (length (pre @ block_bytes sha w blk)) blks\<rparr>)"
    by (rule Cons.IH) (use Cons.prems in simp_all)
  finally show ?case by (simp add: add.assoc comp_def)
qed

section \<open>Index, Bloom filter and footer\<close>

lemma walk_meta_block:
  assumes "sha_ok sha" and "file = pre @ encode_block sha kind n payload SEGMENT_VERSION @ post" and "wk_cur st = length pre"
    and "length payload < 2 ^ 32" and "is_none_or (\<lambda>k. k \<le> kind) (wk_last_kind st)"
    and "kind = BLOCK_INDEX \<and> wk_index st = None \<or> kind = BLOCK_BLOOM \<and> wk_bloom st = None"
  shows "walk_blocks sha file st = walk_blocks sha file (st\<lparr>wk_last_kind := Some kind,
      wk_cur := length pre + BLOCK_HEADER_LEN + length payload,
      wk_index := (if kind = BLOCK_INDEX then Some (length pre, length payload) else wk_index st),
      wk_bloom := (if kind = BLOCK_INDEX then wk_bloom st else Some (length pre, length payload))\<rparr>)"
proof -
  have "kind \<le> BLOCK_BLOOM" using assms(6) by auto
  from walk_one [OF assms(1-4) this assms(5)] obtain h
    where "walk_step sha file st = rbind (add_block (block_head_of sha kind n payload SEGMENT_VERSION) h st) (\<lambda>st. Inr (Some st))"
      and h: "bh_kind h = kind" "bh_compressed h = length payload" by blast
  moreover have "add_block hdr h st = Inr (st\<lparr>wk_last_kind := Some kind,
      wk_cur := length pre + BLOCK_HEADER_LEN + length payload,
      wk_index := (if kind = BLOCK_INDEX then Some (length pre, length payload) else wk_index st),
      wk_bloom := (if kind = BLOCK_INDEX then wk_bloom st else Some (length pre, length payload))\<rparr>)" for hdr
    using assms(6)
  proof (elim disjE conjE)
    assume "kind = BLOCK_INDEX" "wk_index st = None"
    then show ?thesis using h assms(3) by (simp add: add_block_def Let_def)
  next
    assume "kind = BLOCK_BLOOM" "wk_bloom st = None"
    then show ?thesis using h assms(3) by (simp add: add_block_def Let_def)
  qed
  ultimately show ?thesis by (intro walk_blocks_Some) simp
qed

lemma walk_meta:
  assumes "sha_ok sha"
    and "file = pre @ encode_block sha BLOCK_INDEX nb idx SEGMENT_VERSION @ encode_block sha BLOCK_BLOOM n blm SEGMENT_VERSION
      @ FOOTER_MAGIC @ tail"
    and "wk_cur st = length pre" and "length idx < 2 ^ 32" "length blm < 2 ^ 32"
    and "wk_last_kind st = None \<or> wk_last_kind st = Some BLOCK_DATA" and "wk_index st = None" "wk_bloom st = None"
  shows "walk_blocks sha file st = Inr (st\<lparr>wk_last_kind := Some BLOCK_BLOOM,
      wk_cur := length pre + BLOCK_HEADER_LEN + length idx + BLOCK_HEADER_LEN + length blm,
      wk_index := Some (length pre, length idx), wk_bloom := Some (length pre + BLOCK_HEADER_LEN + length idx, length blm)\<rparr>)"
proof -
  let ?ib = "encode_block sha BLOCK_INDEX nb idx SEGMENT_VERSION"
  let ?bb = "encode_block sha BLOCK_BLOOM n blm SEGMENT_VERSION"
  define st1 where "st1 = st\<lparr>wk_last_kind := Some BLOCK_INDEX, wk_cur := length pre + BLOCK_HEADER_LEN + length idx,
    wk_index := Some (length pre, length idx), wk_bloom := None\<rparr>"
  define st2 where "st2 = st1\<lparr>wk_last_kind := Some BLOCK_BLOOM,
    wk_cur := length (pre @ ?ib) + BLOCK_HEADER_LEN + length blm, wk_index := wk_index st1,
    wk_bloom := Some (length (pre @ ?ib), length blm)\<rparr>"
  have st1: "wk_cur st1 = length (pre @ ?ib)" "wk_last_kind st1 = Some BLOCK_INDEX" "wk_bloom st1 = None"
    by (simp_all add: st1_def encode_block_split(3) [OF assms(1)])
  note len = encode_block_split(3) [OF assms(1)]
  have "walk_blocks sha file st = walk_blocks sha file st1"
    unfolding st1_def using walk_meta_block [OF assms(1,2,3,4)] assms(6-8) by (auto simp: is_none_or_def)
  also have "\<dots> = walk_blocks sha file st2"
    unfolding st2_def using walk_meta_block [of sha "file" "pre @ ?ib" BLOCK_BLOOM n blm "FOOTER_MAGIC @ tail" st1] assms(1,2,5,8)
    by (simp add: st1 is_none_or_def)
  also have "\<dots> = Inr st2"
  proof (rule walk_blocks_None)
    have "drop (wk_cur st2) file = FOOTER_MAGIC @ tail" by (simp add: assms(2) st2_def len)
    moreover have "4 \<le> length file - wk_cur st2" by (simp add: assms(2) st2_def len)
    ultimately show "walk_step sha file st2 = Inr None" by (simp add: walk_step_def Let_def)
  qed
  finally show ?thesis by (simp add: st2_def st1_def len)
qed

text \<open>The index payload: the keys of every block, read back as ranges into the payload.\<close>

definition indexed :: "bytes \<Rightarrow> segment_entry list \<Rightarrow> data_block \<Rightarrow> data_block \<Rightarrow> bool" where
  "indexed idx blk db db' \<longleftrightarrow> db' = db\<lparr>db_first := db_first db', db_last := db_last db'\<rparr>
    \<and> take (snd (db_first db') - fst (db_first db')) (drop (fst (db_first db')) idx) = se_key (hd blk)
    \<and> take (snd (db_last db') - fst (db_last db')) (drop (fst (db_last db')) idx) = se_key (last blk)"

lemma adv_slice: "adv c bs c' \<Longrightarrow> take (cpos c' - cpos c) (drop (cpos c) (cbytes c)) = bs"
  using adv_rest [of c bs c'] adv_pos [of c bs c'] by (simp add: rest_def)

lemma index_loop_reads:
  assumes "\<forall>blk \<in> set blks. block_fits w blk" and "at + length (concat (map (block_bytes sha w) blks)) < 2 ^ 64"
    and "adv c (index_image sha w at blks) c'"
  shows "\<exists>dbs. index_loop (data_blocks sha w at blks) c n = Inr (dbs, n + length (concat blks), c')
    \<and> length dbs = length blks \<and> (\<forall>i < length blks. indexed (cbytes c) (blks ! i) (data_blocks sha w at blks ! i) (dbs ! i))"
  using assms
proof (induction blks arbitrary: at c n)
  case (Cons blk blks)
  let ?k1 = "se_key (hd blk)" and ?k2 = "se_key (last blk)"
  let ?at = "at + length (block_bytes sha w blk)"
  obtain c1 c2 c3 c4 c5 c6 where a: "adv c (u16_le (word_of_nat (length ?k1))) c1" "adv c1 ?k1 c2"
      "adv c2 (u16_le (word_of_nat (length ?k2))) c3" "adv c3 ?k2 c4" "adv c4 (u64_le (word_of_nat at)) c5"
      "adv c5 (u32_le (word_of_nat (length blk))) c6" "adv c6 (index_image sha w ?at blks) c'"
    using Cons.prems(3) by (auto simp: index_entry_def Let_def adv_append)
  have fit: "block_fits w blk" using Cons.prems(1) by simp
  then have k: "length ?k1 \<le> U16_MAX" "length ?k2 \<le> U16_MAX" by (auto simp: block_fits_def entry_ok_def)
  have at: "unat (word_of_nat at :: u64) = at" using Cons.prems(2) by (intro unat_of_nat_small) simp
  have reads: "cur_u16 c = Inr (word_of_nat (length ?k1), c1)" "cur_take (length ?k1) c1 = Inr (?k1, c2)"
    "cur_u16 c2 = Inr (word_of_nat (length ?k2), c3)" "cur_take (length ?k2) c3 = Inr (?k2, c4)"
    "cur_u64 c4 = Inr (word_of_nat at, c5)" "cur_u32 c5 = Inr (word_of_nat (length blk), c6)"
    using a by (simp_all add: cur_iffs)
  have same: "cbytes c1 = cbytes c" "cbytes c3 = cbytes c" "cbytes c6 = cbytes c"
    using a by (auto dest!: adv_bytes)
  from Cons.IH [OF _ _ a(7), of "n + length blk"] Cons.prems(1,2) obtain dbs where
    d: "index_loop (data_blocks sha w ?at blks) c6 (n + length blk) = Inr (dbs, n + length blk + length (concat blks), c')"
      "length dbs = length blks"
      "\<forall>i < length blks. indexed (cbytes c6) (blks ! i) (data_blocks sha w ?at blks ! i) (dbs ! i)"
    by (auto simp: add.assoc)
  let ?db = "(data_of w at blk)\<lparr>db_first := (cpos c1, cpos c2), db_last := (cpos c3, cpos c4)\<rparr>"
  have "indexed (cbytes c) blk (data_of w at blk) ?db"
    using adv_slice [OF a(2)] adv_slice [OF a(4)] same by (simp add: indexed_def)
  moreover have "index_loop (data_blocks sha w at (blk # blks)) c n = Inr (?db # dbs, n + length (concat (blk # blks)), c')"
    using reads d(1) at k block_fits_payload(3) [OF fit] by (simp add: u16_fits Let_def) (simp add: data_of_def add.assoc)
  ultimately show ?case using d(2,3) same(3)
    by (intro exI [of _ "?db # dbs"]) (auto simp: nth_Cons split: nat.splits)
qed simp

section \<open>Opening a published file\<close>

text \<open>What a reader knows of the entries it was opened on, block by block.\<close>

definition block_reads :: "digest_fn \<Rightarrow> segment_writer \<Rightarrow> segment_reader \<Rightarrow> nat \<Rightarrow> segment_entry list \<Rightarrow> bool" where
  "block_reads sha w r i blk \<longleftrightarrow> block_key r (db_first (rd_data r ! i)) = se_key (hd blk)
    \<and> block_key r (db_last (rd_data r ! i)) = se_key (last blk)
    \<and> (\<exists>raw. block_raw sha r i = Inr raw \<and> block_holds w blk (rd_data r ! i) (drop BLOCK_HEADER_LEN raw))"

definition reader_holds :: "digest_fn \<Rightarrow> segment_writer \<Rightarrow> segment_entry list list \<Rightarrow> segment_reader \<Rightarrow> bool" where
  "reader_holds sha w blks r \<longleftrightarrow> blks \<noteq> [] \<and> publish_order (concat blks) \<and> length (rd_data r) = length blks
    \<and> (\<forall>i < length blks. block_reads sha w r i (blks ! i))
    \<and> BLOOM_BITS_PER_KEY * length (concat blks) < 2 ^ 32
    \<and> rd_bloom r = file_bloom sha (concat blks)
    \<and> rd_bloom_m r = word_of_nat (BLOOM_BITS_PER_KEY * length (concat blks))"

lemma length_bloom_set [simp]: "length (bloom_set n bits) = length bits"
  by (simp add: bloom_set_def)

lemma length_bloom_sets [simp]: "length (fold (\<lambda>i. bloom_set (f i)) is bits) = length bits"
  by (induction "is" arbitrary: bits) simp_all

lemma length_bloom_add [simp]: "length (bloom_add sha m key bits) = length bits"
  by (simp add: bloom_add_def split: prod.splits)

lemma length_bloom_adds [simp]: "length (fold (\<lambda>e. bloom_add sha m (se_key e)) es bits) = length bits"
  by (induction es arbitrary: bits) simp_all

lemma length_file_bloom: "length (file_bloom sha es) = 4 + (BLOOM_BITS_PER_KEY * length es + 7) div 8"
  by (simp add: file_bloom_def Let_def)

lemma length_index_image: "length (index_image sha w at blks) = index_size blks"
  by (induction sha w at blks rule: index_image.induct) (simp_all add: index_size_def index_entry_def Let_def)

lemma length_le_concat: "\<forall>blk \<in> set blks. blk \<noteq> [] \<Longrightarrow> length blks \<le> length (concat blks)"
proof (induction blks)
  case (Cons blk blks)
  then show ?case by (cases blk) simp_all
qed simp

lemma segment_fits_blocks:
  assumes "segment_fits w es" and "publish_order es" and "es \<noteq> []" and "blk \<in> set (blocks w es)"
  shows "block_fits w blk"
  using assms(1,4) blocks_nonempty [OF assms(3,4)] keys_sorted_block [OF publish_order_keys [OF assms(2)] assms(4)]
  by (auto simp: segment_fits_def block_fits_def dest: in_blocks)

lemma data_blocks_nth:
  "i < length blks \<Longrightarrow> data_blocks sha w at blks ! i
    = data_of w (at + length (concat (map (block_bytes sha w) (take i blks)))) (blks ! i)"
  by (induction sha w at blks arbitrary: i rule: data_blocks.induct) (auto simp: nth_Cons add.assoc split: nat.splits)

lemma block_raw_reads:
  assumes "sha_ok sha" and "rd_file r = pre @ block_bytes sha w blk @ post" and "block_fits w blk"
    and "rd_data r ! i = (data_of w (length pre) blk)\<lparr>db_first := k1, db_last := k2\<rparr>"
  shows "\<exists>raw. block_raw sha r i = Inr raw \<and> block_holds w blk (rd_data r ! i) (drop BLOCK_HEADER_LEN raw)"
proof -
  let ?raw = "block_bytes sha w blk"
  note e = encode_block_split [OF assms(1)]
  have len: "length ?raw = BLOCK_HEADER_LEN + length (payload_of w blk)" by (simp add: block_bytes_def e(3))
  have "read_segment_at (rd_file r) (length pre) (BLOCK_HEADER_LEN + length (payload_of w blk)) = Inr ?raw"
    by (rule read_at [OF assms(2)]) (simp_all add: len)
  moreover have "verify_block sha ?raw"
    using assms(1) by (simp add: verify_block_def block_bytes_def encode_block_def Let_def BLOCK_HEADER_LEN_def) (simp add: checksum8_def sha_ok_def)
  ultimately have "block_raw sha r i = Inr ?raw" by (simp add: block_raw_def Let_def assms(4)) (simp add: data_of_def)
  moreover have "drop BLOCK_HEADER_LEN ?raw = payload_of w blk" by (simp add: block_bytes_def e(1,2))
  moreover have "block_holds w blk (rd_data r ! i) (payload_of w blk)"
    by (rule block_fits_holds [OF assms(3)]) (simp_all add: assms(4) data_of_def)
  ultimately show ?thesis by auto
qed

lemma file_image_parts:
  fixes sha :: digest_fn and w :: segment_writer and es :: "segment_entry list"
  defines "H \<equiv> file_header sha w es" and "D \<equiv> concat (map (block_bytes sha w) (blocks w es))"
    and "IB \<equiv> encode_block sha BLOCK_INDEX (word_of_nat (length (blocks w es))) (file_index sha w es) SEGMENT_VERSION"
    and "BB \<equiv> encode_block sha BLOCK_BLOOM (word_of_nat (length es)) (file_bloom sha es) SEGMENT_VERSION"
    and "F \<equiv> file_footer sha w es"
  shows "file_image sha w es = H @ D @ IB @ BB @ F"
  by (simp add: assms file_image_def file_meta_def)

lemma file_footer_reads:
  assumes "sha_ok sha"
  shows "length (file_footer sha w es) = FOOTER_LEN" and "take 14 (file_footer sha w es) = footer_fields (length es)"
    and "open_footer (word_of_nat (length es)) (file_footer sha w es) = Inr ()"
  using assms by (simp_all add: file_footer_def footer_fields_def FOOTER_LEN_def open_footer_def cur_evals)

lemma block_entry_field: "sha_ok sha \<Longrightarrow> take 4 (drop 8 (encode_block sha kind n payload v)) = u32_le n"
  by (simp add: encode_block_def Let_def)

lemma block_entry_split:
  assumes "sha_ok sha"
  shows "encode_block sha kind n payload v
    = take 8 (encode_block sha kind n payload v) @ u32_le n @ drop 12 (encode_block sha kind n payload v)"
    and "length (take 8 (encode_block sha kind n payload v)) = 8"
proof -
  let ?e = "encode_block sha kind n payload v"
  have "?e = take 8 ?e @ take 4 (drop 8 ?e) @ drop 4 (drop 8 ?e)" by (simp only: append_take_drop_id)
  then show "?e = take 8 ?e @ u32_le n @ drop 12 ?e" using block_entry_field [OF assms] by simp
  show "length (take 8 ?e) = 8" using assms by (simp add: encode_block_split(3) BLOCK_HEADER_LEN_def)
qed

lemma open_walk:
  fixes nb n :: u32
  assumes "sha_ok sha" and "\<forall>blk \<in> set blks. block_fits w blk" and "blks \<noteq> []"
    and "length idx < 2 ^ 32" "length blm < 2 ^ 32"
  defines "IB \<equiv> encode_block sha BLOCK_INDEX nb idx SEGMENT_VERSION"
    and "BB \<equiv> encode_block sha BLOCK_BLOOM n blm SEGMENT_VERSION"
    and "D \<equiv> concat (map (block_bytes sha w) blks)"
  shows "walk_blocks sha (H @ D @ IB @ BB @ FOOTER_MAGIC @ tail) \<lparr>wk_data = [], wk_headers = [], wk_last_kind = None,
      wk_index = None, wk_bloom = None, wk_cur = length H\<rparr>
    = Inr \<lparr>wk_data = data_blocks sha w (length H) blks,
        wk_headers = concat (map (take BLOCK_HEADER_LEN \<circ> block_bytes sha w) blks), wk_last_kind = Some BLOCK_BLOOM,
        wk_index = Some (length (H @ D), length idx), wk_bloom = Some (length (H @ D @ IB), length blm),
        wk_cur = length (H @ D @ IB @ BB)\<rparr>"
proof -
  let ?fl = "H @ D @ IB @ BB @ FOOTER_MAGIC @ tail"
  let ?st = "\<lparr>wk_data = [], wk_headers = [], wk_last_kind = None, wk_index = None, wk_bloom = None, wk_cur = length H\<rparr>"
  let ?st1 = "\<lparr>wk_data = data_blocks sha w (length H) blks,
    wk_headers = concat (map (take BLOCK_HEADER_LEN \<circ> block_bytes sha w) blks), wk_last_kind = Some BLOCK_DATA,
    wk_index = None, wk_bloom = None, wk_cur = length (H @ D)\<rparr>"
  have "walk_blocks sha ?fl ?st = walk_blocks sha ?fl ?st1"
    using walk_data [OF assms(1,2), of ?fl H "IB @ BB @ FOOTER_MAGIC @ tail" ?st] assms(3) by (simp add: D_def)
  also have "\<dots> = Inr (?st1\<lparr>wk_last_kind := Some BLOCK_BLOOM,
      wk_cur := length (H @ D) + BLOCK_HEADER_LEN + length idx + BLOCK_HEADER_LEN + length blm,
      wk_index := Some (length (H @ D), length idx),
      wk_bloom := Some (length (H @ D) + BLOCK_HEADER_LEN + length idx, length blm)\<rparr>)"
    by (rule walk_meta [OF assms(1) _ _ assms(4,5), of _ _ nb n tail]) (simp_all add: IB_def BB_def)
  finally show ?thesis by (simp add: IB_def BB_def encode_block_split(3) [OF assms(1)] add.assoc)
qed

lemma open_published:
  assumes "sha_ok sha" and "segment_fits w es" and "publish_order es" and "es \<noteq> []"
    and "length (file_image sha w es) < 2 ^ 64"
  shows "\<exists>r. open_inner sha (file_image sha w es) = Inr r \<and> reader_holds sha w (blocks w es) r
    \<and> rd_key_min r = se_key (hd es) \<and> rd_key_max r = se_key (last es)
    \<and> rd_seq_lo r = Min (set (map se_seq es)) \<and> rd_seq_hi r = Max (set (map se_seq es))
    \<and> unat (rd_entry_count r) = length es"
proof -
  define H where "H = file_header sha w es"
  define D where "D = concat (map (block_bytes sha w) (blocks w es))"
  define idx where "idx = file_index sha w es"
  define blm where "blm = file_bloom sha es"
  define nb :: u32 where "nb = word_of_nat (length (blocks w es))"
  define IB where "IB = encode_block sha BLOCK_INDEX nb idx SEGMENT_VERSION"
  define BB where "BB = encode_block sha BLOCK_BLOOM (word_of_nat (length es)) blm SEGMENT_VERSION"
  define F where "F = file_footer sha w es"
  define fl where "fl = file_image sha w es"
  have parts: "fl = H @ D @ IB @ BB @ F"
    by (simp add: fl_def file_image_parts H_def D_def IB_def BB_def F_def nb_def idx_def blm_def)
  have fits: "\<forall>blk \<in> set (blocks w es). block_fits w blk" using segment_fits_blocks [OF assms(2-4)] by blast
  define m where "m = BLOOM_BITS_PER_KEY * length es"
  have m32: "m < 2 ^ 32" and n32: "length es < 2 ^ 32"
    using assms(2) by (auto simp: segment_fits_def BLOOM_BITS_PER_KEY_def m_def)
  have nble: "length (blocks w es) \<le> length es"
    using length_le_concat [of "blocks w es"] concat_blocks [OF assms(4)] blocks_nonempty [OF assms(4)] by auto
  have cnt: "unat nb = length (blocks w es)" "unat (word_of_nat (length es) :: u32) = length es"
    "unat (word_of_nat (length es) :: u64) = length es" "unat (word_of_nat m :: u32) = m"
    using n32 m32 nble by (auto simp: nb_def intro!: unat_of_nat_small)
  have li: "length idx < 2 ^ 32" using assms(2) by (simp add: idx_def file_index_def length_index_image segment_fits_def)
  have lb: "length blm = 4 + (m + 7) div 8" by (simp add: blm_def length_file_bloom m_def)
  then have lb32: "length blm < 2 ^ 32" using m32 by simp
  define heads where "heads = concat (map (take BLOCK_HEADER_LEN \<circ> block_bytes sha w) (blocks w es))"
  note e = encode_block_split [OF assms(1)]
  have hdr: "open_header sha fl = Inr (opened_head sha nb es)"
    using open_header_reads [OF assms(1,4), of nb "D @ IB @ BB @ F"] assms(2)
    by (simp add: parts H_def file_header_def nb_def segment_fits_def entry_ok_def)
  have Hb: "sh_bytes (opened_head sha nb es) = H" by (simp add: opened_head_def H_def file_header_def nb_def)
  obtain tl' where F: "F = FOOTER_MAGIC @ tl'" by (simp add: F_def file_footer_def footer_fields_def)
  have wk: "walk_blocks sha fl \<lparr>wk_data = [], wk_headers = [], wk_last_kind = None, wk_index = None, wk_bloom = None, wk_cur = length H\<rparr>
    = Inr \<lparr>wk_data = data_blocks sha w (length H) (blocks w es), wk_headers = heads, wk_last_kind = Some BLOCK_BLOOM,
        wk_index = Some (length (H @ D), length idx), wk_bloom = Some (length (H @ D @ IB), length blm),
        wk_cur = length (H @ D @ IB @ BB)\<rparr>"
    unfolding parts F heads_def D_def IB_def BB_def by (rule open_walk [OF assms(1) fits blocks_ne [OF assms(4)] li lb32])
  have IB: "IB = take BLOCK_HEADER_LEN IB @ idx" "length (take BLOCK_HEADER_LEN IB) = BLOCK_HEADER_LEN" "length IB = BLOCK_HEADER_LEN + length idx"
    and BB: "BB = take BLOCK_HEADER_LEN BB @ blm" "length (take BLOCK_HEADER_LEN BB) = BLOCK_HEADER_LEN" "length BB = BLOCK_HEADER_LEN + length blm"
    using e by (simp_all add: IB_def BB_def block_head_of_def)
  have reads: "read_segment_at fl (length (H @ D @ IB @ BB)) FOOTER_LEN = Inr F"
    "read_segment_at fl (length (H @ D) + BLOCK_HEADER_LEN) (length idx) = Inr idx"
    "read_segment_at fl (length (H @ D @ IB) + BLOCK_HEADER_LEN) (length blm) = Inr blm"
    "read_segment_at fl (length (H @ D) + 8) 4 = Inr (u32_le nb)"
    "read_segment_at fl (length (H @ D @ IB) + 8) 4 = Inr (u32_le (word_of_nat (length es)))"
    "read_segment_at fl (length (H @ D)) (length IB + length BB) = Inr (IB @ BB)"
  proof -
    note be = block_entry_split [OF assms(1)]
    show "read_segment_at fl (length (H @ D @ IB @ BB)) FOOTER_LEN = Inr F"
      by (rule read_at [of _ "H @ D @ IB @ BB" _ "[]"]) (simp_all add: parts F_def file_footer_reads(1) [OF assms(1)])
    show "read_segment_at fl (length (H @ D) + BLOCK_HEADER_LEN) (length idx) = Inr idx"
      by (rule read_at [of _ "H @ D @ take BLOCK_HEADER_LEN IB" _ "BB @ F"]) (use parts IB in simp_all)
    show "read_segment_at fl (length (H @ D @ IB) + BLOCK_HEADER_LEN) (length blm) = Inr blm"
      by (rule read_at [of _ "H @ D @ IB @ take BLOCK_HEADER_LEN BB" _ "F"]) (use parts BB in simp_all)
    show "read_segment_at fl (length (H @ D) + 8) 4 = Inr (u32_le nb)"
      by (rule read_at [of _ "H @ D @ take 8 IB" _ "drop 12 IB @ BB @ F"]) (use parts be in \<open>simp_all add: IB_def\<close>)
    show "read_segment_at fl (length (H @ D @ IB) + 8) 4 = Inr (u32_le (word_of_nat (length es)))"
      by (rule read_at [of _ "H @ D @ IB @ take 8 BB" _ "drop 12 BB @ F"]) (use parts be in \<open>simp_all add: BB_def\<close>)
    show "read_segment_at fl (length (H @ D)) (length IB + length BB) = Inr (IB @ BB)"
      by (rule read_at [of _ "H @ D" _ "F"]) (simp_all add: parts)
  qed
  have "adv (cursor_new idx) (index_image sha w (length H) (blocks w es)) (skip (length idx) (cursor_new idx))"
    using adv_skip [of "cursor_new idx" idx "[]"] by (simp add: idx_def file_index_def H_def)
  moreover have cb: "cbytes (cursor_new idx) = idx" by (simp add: cursor_new_def)
  moreover have "length H + length D < 2 ^ 64" using assms(5) by (simp add: fl_def [symmetric] parts)
  ultimately obtain dbs where
    dbs: "index_loop (data_blocks sha w (length H) (blocks w es)) (cursor_new idx) 0
        = Inr (dbs, length es, skip (length idx) (cursor_new idx))" "length dbs = length (blocks w es)"
      "\<forall>i < length (blocks w es). indexed idx (blocks w es ! i) (data_blocks sha w (length H) (blocks w es) ! i) (dbs ! i)"
    using index_loop_reads [OF fits, of "length H" sha "cursor_new idx" "skip (length idx) (cursor_new idx)" 0]
      concat_blocks [OF assms(4)] cb by (auto simp: D_def)
  have empty: "cur_is_empty (skip (length idx) (cursor_new idx))" by (simp add: cur_is_empty_def remaining_rest)
  have bloom: "cur_u32 (cursor_new blm) = Inr (word_of_nat m, skip 4 (cursor_new blm))"
    "remaining (skip 4 (cursor_new blm)) = (m + 7) div 8"
    using lb by (simp_all add: cur_evals remaining_rest) (simp add: blm_def file_bloom_def Let_def m_def)
  have chk: "checksum8 sha (H @ heads @ IB @ BB @ take 14 F) = drop 14 F"
    using assms(1) by (simp add: F_def file_footer_reads(2)) (simp add: file_footer_def footer_fields_def heads_def H_def
        file_meta_def IB_def BB_def nb_def idx_def blm_def)
  let ?r = "\<lparr>rd_file = fl, rd_block_count = nb, rd_entry_count = word_of_nat (length es),
    rd_key_min = se_key (hd es), rd_key_max = se_key (last es), rd_seq_lo = Min (set (map se_seq es)),
    rd_seq_hi = Max (set (map se_seq es)), rd_data = dbs, rd_index = idx, rd_bloom = blm, rd_bloom_m = word_of_nat m\<rparr>"
  have len: "length fl - length (H @ D @ IB @ BB) = FOOTER_LEN"
    using file_footer_reads(1) [OF assms(1)] by (simp add: parts F_def)
  have span: "length (H @ D @ IB) + BLOCK_HEADER_LEN + length blm - length (H @ D) = length IB + length BB"
    using BB(3) by simp
  have "data_blocks sha w (length H) (blocks w es) \<noteq> []"
    using blocks_ne [OF assms(4), of w] length_data_blocks [of sha w "length H" "blocks w es"] by (metis length_0_conv)
  then have opened: "open_inner sha fl = Inr ?r"
    unfolding open_inner_def hdr rbind_simps Let_def Hb wk
    using file_footer_reads(3) [OF assms(1), of es w] cnt
    by (simp add: opened_head_def Hb len reads dbs(1) empty bloom span chk F_def [symmetric] del: length_append)
  have "block_reads sha w ?r i (blocks w es ! i)" if "i < length (blocks w es)" for i
  proof -
    let ?pre = "H @ concat (map (block_bytes sha w) (take i (blocks w es)))"
    have ix: "indexed idx (blocks w es ! i) (data_of w (length ?pre) (blocks w es ! i)) (dbs ! i)"
      using dbs(3) that by (simp add: data_blocks_nth)
    have "D = concat (map (block_bytes sha w) (take i (blocks w es))) @ block_bytes sha w (blocks w es ! i)
        @ concat (map (block_bytes sha w) (drop (Suc i) (blocks w es)))"
      unfolding D_def by (subst (1) id_take_nth_drop [OF that]) simp
    then have "rd_file ?r = ?pre @ block_bytes sha w (blocks w es ! i)
        @ concat (map (block_bytes sha w) (drop (Suc i) (blocks w es))) @ IB @ BB @ F"
      by (simp add: parts)
    from block_raw_reads [OF assms(1) this, of i "db_last (dbs ! i)" "db_first (dbs ! i)"]
    show ?thesis using ix fits that by (simp add: block_reads_def block_key_def indexed_def)
  qed
  then have "reader_holds sha w (blocks w es) ?r"
    using dbs(2) blocks_ne [OF assms(4)] concat_blocks [OF assms(4)] assms(3) m32
    by (simp add: reader_holds_def blm_def m_def)
  then show ?thesis using opened cnt(3) unfolding fl_def [symmetric] by (intro exI [of _ ?r]) simp
qed

end
