(* ===== verification/SegmentLookup.thy ===== *)
theory SegmentLookup
  imports SegmentOpen
begin

text \<open>
  The lookups of an open reader, stated against the list of entries it was published
  from: the point lookups find the newest row, the version walk and the range scan
  filter the list, the iterator enumerates it, the Bloom filter has no false negatives,
  the anchors lead to their rows, and reading through the block cache changes nothing.
\<close>

section \<open>Blocks in key order\<close>

lemma concat_block_split:
  "i < length blks \<Longrightarrow> concat blks = concat (take i blks) @ blks ! i @ concat (drop (Suc i) blks)"
  by (metis append_take_drop_id concat.simps(2) concat_append Cons_nth_drop_Suc)

lemma keys_sorted_append:
  "keys_sorted (xs @ ys) \<longleftrightarrow> keys_sorted xs \<and> keys_sorted ys \<and> (\<forall>a \<in> set xs. \<forall>b \<in> set ys. se_key a \<le> se_key b)"
  by (auto simp: keys_sorted_def sorted_append)

lemma keys_sorted_hd_last:
  assumes "keys_sorted xs" and "a \<in> set xs"
  shows "se_key (hd xs) \<le> se_key a" and "se_key a \<le> se_key (last xs)"
proof -
  obtain x ys where xs: "xs = x # ys" using assms(2) by (cases xs) auto
  then show "se_key (hd xs) \<le> se_key a" using assms by (auto simp: keys_sorted_def)
  have "xs = butlast xs @ [last xs]" using xs by simp
  then have "keys_sorted (butlast xs @ [last xs])" and "a \<in> set (butlast xs @ [last xs])" using assms by simp_all
  then show "se_key a \<le> se_key (last xs)" by (auto simp: keys_sorted_append)
qed

text \<open>The laws of a reader over its blocks, as the lookups use them.\<close>

lemma holds_basic:
  assumes "reader_holds sha w blks r"
  shows "publish_order (concat blks)" and "length (rd_data r) = length blks" and "blks \<noteq> []" and "keys_sorted (concat blks)"
  using assms publish_order_keys by (auto simp: reader_holds_def)

lemma holds_block:
  assumes "reader_holds sha w blks r" and "i < length blks"
  obtains raw where "block_raw sha r i = Inr raw" "block_holds w (blks ! i) (rd_data r ! i) (drop BLOCK_HEADER_LEN raw)"
    "block_key r (db_first (rd_data r ! i)) = se_key (hd (blks ! i))"
    "block_key r (db_last (rd_data r ! i)) = se_key (last (blks ! i))"
  using assms by (auto simp: reader_holds_def block_reads_def)

lemma holds_keys:
  assumes "reader_holds sha w blks r" and "i < length blks"
  shows "block_key r (db_first (rd_data r ! i)) = se_key (hd (blks ! i))"
    and "block_key r (db_last (rd_data r ! i)) = se_key (last (blks ! i))"
  using assms by (auto elim: holds_block)

lemma holds_entries: "reader_holds sha w blks r \<Longrightarrow> i < length blks \<Longrightarrow> block_entries sha r i = Inr (blks ! i)"
  using payload_entries_reads by (auto simp: block_entries_def elim!: holds_block)

lemma holds_version:
  assumes "reader_holds sha w blks r" and "i < length blks"
  shows "db_v2 (rd_data r ! i) = sw_v2 w" and "db_v3 (rd_data r ! i) = sw_v3 w" and "db_v4 (rd_data r ! i) = sw_v4 w"
    and "writer_ok w" and "blks ! i \<noteq> []" and "keys_sorted (blks ! i)" and "\<forall>e \<in> set (blks ! i). entry_ok (sw_v3 w) e"
  using assms by (auto simp: block_holds_def elim!: holds_block)

lemma holds_get_v2:
  assumes "reader_holds sha w blks r" and "i < length blks" and "sw_v2 w"
  shows "rbind (block_raw sha r i) (\<lambda>raw. block_get_v2 (rd_data r ! i) (drop BLOCK_HEADER_LEN raw) key rid)
    = Inr (find (matches key rid) (blks ! i))"
proof -
  obtain raw where "block_raw sha r i = Inr raw" "block_holds w (blks ! i) (rd_data r ! i) (drop BLOCK_HEADER_LEN raw)"
    using holds_block [OF assms(1,2)] by blast
  then show ?thesis using block_get_v2_reads holds_version(1) [OF assms(1,2)] assms(3) by simp
qed

lemma block_range:
  assumes "reader_holds sha w blks r" and "i < length blks" and "a \<in> set (blks ! i)"
  shows "block_key r (db_first (rd_data r ! i)) \<le> se_key a" and "se_key a \<le> block_key r (db_last (rd_data r ! i))"
  using keys_sorted_hd_last [OF holds_version(6) [OF assms(1,2)] assms(3)] assms(1,2) by (auto elim!: holds_block)

lemma first_le_last:
  assumes "reader_holds sha w blks r" and "i < length blks"
  shows "block_key r (db_first (rd_data r ! i)) \<le> block_key r (db_last (rd_data r ! i))"
  using block_range [OF assms hd_in_set [OF holds_version(5) [OF assms]]] by simp

lemma later_blocks:
  assumes "reader_holds sha w blks r" and "i < length blks" and "b \<in> set (concat (drop i blks))"
  shows "block_key r (db_first (rd_data r ! i)) \<le> se_key b"
proof -
  have "hd (blks ! i) \<in> set (blks ! i)" using holds_version(5) [OF assms(1,2)] by simp
  moreover have "keys_sorted (blks ! i @ concat (drop (Suc i) blks))"
    using holds_basic(4) [OF assms(1)] concat_block_split [OF assms(2)] by (simp add: keys_sorted_append)
  moreover have "b \<in> set (blks ! i) \<or> b \<in> set (concat (drop (Suc i) blks))"
    using assms(2,3) by (simp add: Cons_nth_drop_Suc [symmetric])
  ultimately show ?thesis
    using block_range(1) [OF assms(1,2)] assms(1,2) by (auto simp: keys_sorted_append elim!: holds_block)
qed

text \<open>Everything before the first block whose last key reaches \<open>start\<close> is below \<open>start\<close>.\<close>

lemma before_partition:
  assumes "reader_holds sha w blks r"
    and "a \<in> set (concat (take (partition_point (\<lambda>b. block_key r (db_last b) < start) (rd_data r)) blks))"
  shows "se_key a < start"
proof -
  let ?P = "\<lambda>b. block_key r (db_last b) < start"
  let ?n = "partition_point ?P (rd_data r)"
  obtain blk where "blk \<in> set (take ?n blks)" and a: "a \<in> set blk" using assms(2) by auto
  then obtain j where j: "j < ?n" "j < length blks" "blk = blks ! j" by (auto simp: in_set_conv_nth)
  then have "rd_data r ! j \<in> set (takeWhile ?P (rd_data r))"
    unfolding partition_point_def by (metis nth_mem takeWhile_nth)
  then have "?P (rd_data r ! j)" by (auto dest: set_takeWhileD)
  then show ?thesis using block_range(2) [OF assms(1) j(2)] a j(3) by fastforce
qed

lemma partition_bound: "reader_holds sha w blks r \<Longrightarrow> partition_point P (rd_data r) \<le> length blks"
  using length_takeWhile_le [of P "rd_data r"] holds_basic(2) by (fastforce simp: partition_point_def)

lemma at_partition:
  "reader_holds sha w blks r \<Longrightarrow> partition_point P (rd_data r) < length blks \<Longrightarrow> \<not> P (rd_data r ! partition_point P (rd_data r))"
  using nth_length_takeWhile [of P "rd_data r"] holds_basic(2) by (fastforce simp: partition_point_def)

lemma locate_None:
  assumes "reader_holds sha w blks r" and "locate r key = None" and "e \<in> set (concat blks)"
  shows "se_key e \<noteq> key"
proof -
  let ?i = "partition_point (\<lambda>b. block_key r (db_last b) < key) (rd_data r)"
  have "e \<in> set (concat (take ?i blks)) \<or> e \<in> set (concat (drop ?i blks))"
    using assms(3) by (metis Un_iff append_take_drop_id concat_append set_append)
  then show ?thesis
  proof
    assume "e \<in> set (concat (take ?i blks))"
    then show ?thesis using before_partition [OF assms(1)] by blast
  next
    assume e: "e \<in> set (concat (drop ?i blks))"
    then have "?i < length blks" by (cases "?i < length blks") auto
    then show ?thesis using later_blocks [OF assms(1) _ e] assms(2) holds_basic(2) [OF assms(1)]
      by (auto simp: locate_def Let_def split: if_splits)
  qed
qed

lemma locate_Some:
  assumes "reader_holds sha w blks r" and "locate r key = Some i"
  shows "i < length blks" and "\<And>e. e \<in> set (concat (take i blks)) \<Longrightarrow> se_key e < key"
    and "block_key r (db_first (rd_data r ! i)) \<le> key" and "key \<le> block_key r (db_last (rd_data r ! i))"
proof -
  have i: "i = partition_point (\<lambda>b. block_key r (db_last b) < key) (rd_data r)" "i < length blks"
    "block_key r (db_first (rd_data r ! i)) \<le> key"
    using assms(2) holds_basic(2) [OF assms(1)] by (auto simp: locate_def Let_def split: if_splits)
  then show "i < length blks" "block_key r (db_first (rd_data r ! i)) \<le> key" by simp_all
  show "se_key e < key" if "e \<in> set (concat (take i blks))" for e
    using before_partition [OF assms(1)] that i(1) by blast
  show "key \<le> block_key r (db_last (rd_data r ! i))"
    using at_partition [OF assms(1)] i(1,2) by (metis not_less)
qed

section \<open>Version walks and scans\<close>

lemma drop_blocks: "i < length blks \<Longrightarrow> concat (drop i blks) = blks ! i @ concat (drop (Suc i) blks)"
  by (simp add: Cons_nth_drop_Suc [symmetric])

lemma versions_loop_reads:
  assumes "reader_holds sha w blks r"
  shows "versions_loop sha r key i out = Inr (out @ filter (\<lambda>e. se_key e = key) (concat (drop i blks)))"
proof (induction "length blks - i" arbitrary: i out)
  case 0
  then show ?case using holds_basic(2) [OF assms] by (subst versions_loop.simps) simp
next
  case (Suc n)
  then have i: "i < length blks" by simp
  show ?case
  proof (cases "block_key r (db_first (rd_data r ! i)) \<le> key")
    case True
    then show ?thesis using Suc.hyps(1) [of "Suc i"] Suc.hyps(2) i holds_basic(2) [OF assms] holds_entries [OF assms i]
      by (subst versions_loop.simps) (simp add: drop_blocks)
  next
    case False
    then have "filter (\<lambda>e. se_key e = key) (concat (drop i blks)) = []"
      using later_blocks [OF assms i] by (fastforce simp: filter_empty_conv)
    then show ?thesis using False by (subst versions_loop.simps) simp
  qed
qed

lemma filter_before: "(\<And>e. e \<in> set xs \<Longrightarrow> \<not> P e) \<Longrightarrow> filter P (xs @ ys) = filter P ys"
  by (simp add: filter_empty_conv)

lemma segment_versions_reads:
  assumes "reader_holds sha w blks r"
  shows "segment_versions sha r key = Inr (filter (\<lambda>e. se_key e = key) (concat blks))"
proof (cases "locate r key")
  case None
  then show ?thesis using locate_None [OF assms] by (auto simp: segment_versions_def filter_empty_conv)
next
  case (Some i)
  have "filter (\<lambda>e. se_key e = key) (concat (take i blks) @ concat (drop i blks)) = filter (\<lambda>e. se_key e = key) (concat (drop i blks))"
    by (rule filter_before) (use locate_Some(2) [OF assms Some] in fastforce)
  then have "filter (\<lambda>e. se_key e = key) (concat blks) = filter (\<lambda>e. se_key e = key) (concat (drop i blks))"
    by (simp flip: concat_append)
  then show ?thesis using versions_loop_reads [OF assms, of key i "[]"] Some by (simp add: segment_versions_def)
qed

lemma scan_blocks_reads:
  assumes "reader_holds sha w blks r" and "i \<le> length blks"
  shows "scan_blocks sha r start end' [i..<length blks] out
    = Inr (out @ filter (\<lambda>e. start \<le> se_key e \<and> se_key e < end') (concat (drop i blks)))"
  using assms(2)
proof (induction "length blks - i" arbitrary: i out)
  case (Suc n)
  then have i: "i < length blks" by simp
  show ?case
  proof (cases "end' \<le> block_key r (db_first (rd_data r ! i))")
    case True
    then have "filter (\<lambda>e. start \<le> se_key e \<and> se_key e < end') (concat (drop i blks)) = []"
      using later_blocks [OF assms(1) i] by (fastforce simp: filter_empty_conv)
    then show ?thesis using True i by (simp add: upt_conv_Cons)
  next
    case False
    then show ?thesis using Suc.hyps(1) [of "Suc i"] Suc.hyps(2) i holds_entries [OF assms(1) i]
      by (simp add: drop_blocks upt_conv_Cons)
  qed
qed simp

lemma segment_scan_reads:
  assumes "reader_holds sha w blks r"
  shows "segment_scan sha r start end' = Inr (filter (\<lambda>e. start \<le> se_key e \<and> se_key e < end') (concat blks))"
proof -
  let ?i = "partition_point (\<lambda>b. block_key r (db_last b) < start) (rd_data r)"
  have "filter (\<lambda>e. start \<le> se_key e \<and> se_key e < end') (concat (take ?i blks) @ concat (drop ?i blks))
      = filter (\<lambda>e. start \<le> se_key e \<and> se_key e < end') (concat (drop ?i blks))"
    by (rule filter_before) (use before_partition [OF assms] in fastforce)
  then have "filter (\<lambda>e. start \<le> se_key e \<and> se_key e < end') (concat blks)
      = filter (\<lambda>e. start \<le> se_key e \<and> se_key e < end') (concat (drop ?i blks))"
    by (simp flip: concat_append)
  then show ?thesis using scan_blocks_reads [OF assms partition_bound [OF assms]] holds_basic(2) [OF assms]
    by (simp add: segment_scan_def)
qed

section \<open>Point lookups\<close>

lemma find_none: "(\<And>e. e \<in> set xs \<Longrightarrow> \<not> P e) \<Longrightarrow> find P xs = None"
  by (simp add: find_None_iff)

lemma beyond_last:
  assumes "reader_holds sha w blks r" and "i < length blks" and "e \<in> set (concat (drop (Suc i) blks))"
  shows "block_key r (db_last (rd_data r ! i)) \<le> se_key e"
proof -
  have "last (blks ! i) \<in> set (blks ! i)" using holds_version(5) [OF assms(1,2)] by simp
  moreover have "keys_sorted (blks ! i @ concat (drop (Suc i) blks))"
    using holds_basic(4) [OF assms(1)] concat_block_split [OF assms(2)] by (simp add: keys_sorted_append)
  ultimately show ?thesis using assms by (auto simp: keys_sorted_append elim!: holds_block)
qed

lemma get_by_rid_loop_reads:
  assumes "reader_holds sha w blks r" and "sw_v3 w" and "i < length blks" and "key \<le> block_key r (db_last (rd_data r ! i))"
  shows "get_by_rid_loop sha r key rid i = Inr (find (matches key (Some rid)) (concat (drop i blks)))"
  using assms(3,4)
proof (induction "length blks - i" arbitrary: i)
  case (Suc n)
  let ?b = "rd_data r ! i" and ?m = "matches key (Some rid)"
  have v2: "sw_v2 w" using holds_version(4) [OF assms(1) Suc.prems(1)] assms(2) by (simp add: writer_ok_def)
  have get: "rbind (block_raw sha r i) (\<lambda>raw. block_get_v2 ?b (drop BLOCK_HEADER_LEN raw) key (Some rid)) = Inr (find ?m (blks ! i))"
    by (rule holds_get_v2 [OF assms(1) Suc.prems(1) v2])
  show ?case
  proof (cases "find ?m (blks ! i)")
    case (Some e)
    then show ?thesis using get holds_version(2) [OF assms(1) Suc.prems(1)] assms(2)
      by (subst get_by_rid_loop.simps) (simp add: Let_def drop_blocks [OF Suc.prems(1)] find_append)
  next
    case None
    show ?thesis
    proof (cases "block_key r (db_last ?b) = key \<and> i + 1 < length blks")
      case True
      have "block_key r (db_first (rd_data r ! Suc i)) \<le> block_key r (db_last (rd_data r ! Suc i))"
        using first_le_last [OF assms(1), of "Suc i"] True by simp
      moreover have "key \<le> block_key r (db_first (rd_data r ! Suc i))"
      proof -
        have "hd (blks ! Suc i) \<in> set (concat (drop (Suc i) blks))"
          using holds_version(5) [OF assms(1), of "Suc i"] True by (simp add: drop_blocks)
        from beyond_last [OF assms(1) Suc.prems(1) this] show ?thesis
          using holds_keys(1) [OF assms(1), of "Suc i"] True by simp
      qed
      ultimately have "get_by_rid_loop sha r key rid (Suc i) = Inr (find ?m (concat (drop (Suc i) blks)))"
        using Suc.hyps True by (intro Suc.hyps(1)) auto
      then show ?thesis using True None get holds_version(2) [OF assms(1) Suc.prems(1)] assms(2) holds_basic(2) [OF assms(1)]
        by (subst get_by_rid_loop.simps) (simp add: Let_def drop_blocks [OF Suc.prems(1)] find_append)
    next
      case False
      have "find ?m (concat (drop (Suc i) blks)) = None"
      proof (rule find_none)
        fix e assume e: "e \<in> set (concat (drop (Suc i) blks))"
        then have "Suc i < length blks" by (cases "Suc i < length blks") auto
        then show "\<not> ?m e" using beyond_last [OF assms(1) Suc.prems(1) e] False Suc.prems(2) by auto
      qed
      then show ?thesis using False None get holds_version(2) [OF assms(1) Suc.prems(1)] assms(2) holds_basic(2) [OF assms(1)]
        by (subst get_by_rid_loop.simps) (auto simp: Let_def drop_blocks [OF Suc.prems(1)] find_append)
    qed
  qed
qed simp

lemma find_from_block:
  assumes "\<And>e. e \<in> set (concat (take i blks)) \<Longrightarrow> se_key e < key"
  shows "find (matches key rid) (concat blks) = find (matches key rid) (concat (drop i blks))"
proof -
  have "concat blks = concat (take i blks) @ concat (drop i blks)" by (simp flip: concat_append)
  moreover have "find (matches key rid) (concat (take i blks)) = None"
    by (rule find_none) (use assms in fastforce)
  ultimately show ?thesis by (simp add: find_append)
qed

lemma segment_get_by_rid_reads:
  assumes "reader_holds sha w blks r" and "sw_v3 w"
  shows "segment_get_by_rid sha r key rid = Inr (find (matches key (Some rid)) (concat blks))"
proof (cases "locate r key")
  case None
  then have "find (matches key (Some rid)) (concat blks) = None"
    using locate_None [OF assms(1)] by (intro find_none) auto
  then show ?thesis using None by (simp add: segment_get_by_rid_def)
next
  case (Some i)
  note l = locate_Some [OF assms(1) Some]
  show ?thesis using get_by_rid_loop_reads [OF assms l(1,4)] find_from_block [OF l(2)] Some
    by (simp add: segment_get_by_rid_def)
qed

text \<open>The byte-surface lookup answers from the located block alone.\<close>

lemma block_get_reads:
  assumes "reader_holds sha w blks r" and "i < length blks"
  shows "block_get sha r i key = Inr (find (matches key (Some (ReplicaId 0))) (blks ! i))"
proof (cases "sw_v2 w")
  case True
  then show ?thesis using holds_get_v2 [OF assms True] holds_version(1) [OF assms] by (simp add: block_get_def Let_def)
next
  case False
  then have "\<not> sw_v3 w" using holds_version(4) [OF assms] by (auto simp: writer_ok_def)
  then have z: "\<forall>e \<in> set (blks ! i). se_replica e = ReplicaId 0" using holds_version(7) [OF assms] by (auto simp: entry_ok_def)
  have "find (\<lambda>e. se_key e = key) (blks ! i) = find (matches key (Some (ReplicaId 0))) (blks ! i)"
    by (rule find_cong) (use z in \<open>auto simp: is_none_or_def\<close>)
  then show ?thesis using False holds_version(1) [OF assms] holds_entries [OF assms] by (simp add: block_get_def Let_def)
qed

lemma segment_get_located:
  assumes "reader_holds sha w blks r"
  shows "segment_get sha r key = (case locate r key of None \<Rightarrow> Inr None
    | Some i \<Rightarrow> Inr (find (matches key (Some (ReplicaId 0))) (blks ! i)))"
  using block_get_reads [OF assms] locate_Some(1) [OF assms] by (auto simp: segment_get_def split: option.splits)

lemma segment_get_bytes:
  assumes "reader_holds sha w blks r" and "\<forall>e \<in> set (concat blks). se_key e = key \<longrightarrow> se_replica e = ReplicaId 0"
  shows "segment_get sha r key = Inr (find (matches key (Some (ReplicaId 0))) (concat blks))"
proof (cases "locate r key")
  case None
  then have "find (matches key (Some (ReplicaId 0))) (concat blks) = None"
    using locate_None [OF assms(1)] by (intro find_none) auto
  then show ?thesis using None segment_get_located [OF assms(1)] by simp
next
  case (Some i)
  note l = locate_Some [OF assms(1) Some]
  let ?m = "matches key (Some (ReplicaId 0))"
  have "find ?m (concat (drop i blks)) = find ?m (blks ! i)"
  proof (cases "find ?m (blks ! i)")
    case None
    have nl: "block_key r (db_last (rd_data r ! i)) \<noteq> key"
    proof
      assume k: "block_key r (db_last (rd_data r ! i)) = key"
      let ?e = "last (blks ! i)"
      have "?e \<in> set (blks ! i)" using holds_version(5) [OF assms(1) l(1)] by simp
      moreover have "se_key ?e = key" using k holds_keys(2) [OF assms(1) l(1)] by simp
      ultimately have "?m ?e" using assms(2) l(1) by (auto simp: is_none_or_def)
      then show False using None \<open>?e \<in> set (blks ! i)\<close> by (auto simp: find_None_iff)
    qed
    have "find ?m (concat (drop (Suc i) blks)) = None"
      by (rule find_none) (use beyond_last [OF assms(1) l(1)] l(4) nl in fastforce)
    then show ?thesis using None by (simp add: drop_blocks [OF l(1)] find_append)
  qed (simp add: drop_blocks [OF l(1)] find_append)
  then show ?thesis using find_from_block [OF l(2)] Some segment_get_located [OF assms(1)] by simp
qed

section \<open>Batches\<close>

definition byte_answer :: "segment_reader \<Rightarrow> segment_entry list list \<Rightarrow> bytes \<Rightarrow> segment_entry option" where
  "byte_answer r blks key = (case locate r key of None \<Rightarrow> None
    | Some i \<Rightarrow> find (matches key (Some (ReplicaId 0))) (blks ! i))"

definition grouped :: "segment_reader \<Rightarrow> bytes list \<Rightarrow> nat \<Rightarrow> (nat, nat list) btree \<Rightarrow> bool" where
  "grouped r keys n m \<longleftrightarrow> bt_inv m \<and> (\<forall>i ps. bt_get m i = Some ps \<longrightarrow> ps \<noteq> [])
    \<and> (\<forall>i p. (\<exists>ps. bt_get m i = Some ps \<and> p \<in> set ps) \<longleftrightarrow> p < n \<and> locate r (keys ! p) = Some i)"

abbreviation group_step :: "segment_reader \<Rightarrow> nat \<Rightarrow> bytes \<Rightarrow> (nat, nat list) btree \<Rightarrow> (nat, nat list) btree" where
  "group_step r pos key m \<equiv> case locate r key of None \<Rightarrow> m
     | Some i \<Rightarrow> bt_put i ((case bt_get m i of None \<Rightarrow> [] | Some ps \<Rightarrow> ps) @ [pos]) m"

lemma grouped_step:
  assumes "grouped r keys n m"
  shows "grouped r keys (Suc n) (group_step r n (keys ! n) m)"
proof (cases "locate r (keys ! n)")
  case None
  then show ?thesis using assms by (auto simp: grouped_def less_Suc_eq)
next
  case (Some j)
  let ?m = "group_step r n (keys ! n) m"
  have m: "bt_inv m" "\<And>i p. (\<exists>ps. bt_get m i = Some ps \<and> p \<in> set ps) \<longleftrightarrow> p < n \<and> locate r (keys ! p) = Some i"
    using assms by (auto simp: grouped_def)
  have "(\<exists>ps. bt_get ?m i = Some ps \<and> p \<in> set ps) \<longleftrightarrow> p < Suc n \<and> locate r (keys ! p) = Some i" for i p
  proof (cases "i = j")
    case True
    have "(\<exists>ps. bt_get ?m i = Some ps \<and> p \<in> set ps) \<longleftrightarrow> p = n \<or> (\<exists>ps. bt_get m j = Some ps \<and> p \<in> set ps)"
      using Some True m(1) by (auto split: option.splits)
    then show ?thesis using m(2) Some True by (auto simp: less_Suc_eq)
  next
    case False
    then have "bt_get ?m i = bt_get m i" using Some m(1) by simp
    then show ?thesis using m(2) Some False by (auto simp: less_Suc_eq)
  qed
  then show ?thesis using Some assms by (auto simp: grouped_def bt_inv_put)
qed

lemma grouped_fold:
  assumes "grouped r keys n m" and "drop n keys = ks" and "n + length ks = length keys"
  shows "grouped r keys (length keys) (fold (\<lambda>(pos, key). group_step r pos key) (enumerate n ks) m)"
  using assms
proof (induction ks arbitrary: n m)
  case (Cons k ks)
  have k: "k = keys ! n" "drop (Suc n) keys = ks"
    using Cons.prems(2) by (metis nth_via_drop, metis drop_Suc list.sel(3) tl_drop)
  from Cons.IH [OF grouped_step [OF Cons.prems(1)] k(2)] show ?case using Cons.prems(3) k(1) by simp
qed simp

lemma group_by_block_ok:
  shows "(i, ps) \<in> set (group_by_block r keys) \<Longrightarrow> ps \<noteq> [] \<and> (\<forall>p \<in> set ps. locate r (keys ! p) = Some i)"
    and "p < length keys \<Longrightarrow> p \<in> set (concat (map snd (group_by_block r keys))) \<longleftrightarrow> locate r (keys ! p) \<noteq> None"
proof -
  have "grouped r keys 0 []" by (simp add: grouped_def bt_get_def)
  from grouped_fold [OF this] have g: "grouped r keys (length keys) (group_by_block r keys)"
    by (simp add: group_by_block_def)
  then have inv: "bt_inv (group_by_block r keys)" by (simp add: grouped_def)
  have iff: "(\<exists>ps. (i, ps) \<in> set (group_by_block r keys) \<and> p \<in> set ps) \<longleftrightarrow> p < length keys \<and> locate r (keys ! p) = Some i" for i p
    using g unfolding grouped_def bt_get_Some_iff [OF inv] by blast
  show "(i, ps) \<in> set (group_by_block r keys) \<Longrightarrow> ps \<noteq> [] \<and> (\<forall>p \<in> set ps. locate r (keys ! p) = Some i)"
    using g iff unfolding grouped_def bt_get_Some_iff [OF inv] by blast
  assume "p < length keys"
  moreover have "p \<in> set (concat (map snd (group_by_block r keys))) \<longleftrightarrow> (\<exists>i ps. (i, ps) \<in> set (group_by_block r keys) \<and> p \<in> set ps)"
    by force
  ultimately show "p \<in> set (concat (map snd (group_by_block r keys))) \<longleftrightarrow> locate r (keys ! p) \<noteq> None"
    using iff [of _ p] by simp
qed

lemma rfold_Inr: "(\<And>x s. x \<in> set xs \<Longrightarrow> f x s = Inr (g x s)) \<Longrightarrow> rfold f xs s = Inr (fold g xs s)"
  by (induction xs arbitrary: s) simp_all

lemma block_get_many_reads:
  assumes "reader_holds sha w blks r" and "i < length blks" and "\<forall>p \<in> set ps. locate r (keys ! p) = Some i"
  shows "block_get_many sha r keys (i, ps) out = Inr (fold (\<lambda>p out. out[p := byte_answer r blks (keys ! p)]) ps out)"
proof (cases "sw_v2 w")
  case True
  have "db_v2 (rd_data r ! i)" using holds_version(1) [OF assms(1,2)] True by simp
  moreover obtain raw where "block_raw sha r i = Inr raw"
    "block_holds w (blks ! i) (rd_data r ! i) (drop BLOCK_HEADER_LEN raw)"
    using holds_block [OF assms(1,2)] by blast
  moreover have "byte_answer r blks (keys ! p) = find (matches (keys ! p) (Some (ReplicaId 0))) (blks ! i)" if "p \<in> set ps" for p
    using assms(3) that by (simp add: byte_answer_def)
  ultimately show ?thesis
    by (simp add: block_get_many_def Let_def block_get_v2_reads) (rule rfold_Inr, simp add: block_get_v2_reads)
next
  case False
  then have "\<not> sw_v3 w" using holds_version(4) [OF assms(1,2)] by (auto simp: writer_ok_def)
  then have z: "\<forall>e \<in> set (blks ! i). se_replica e = ReplicaId 0" using holds_version(7) [OF assms(1,2)] by (auto simp: entry_ok_def)
  have "byte_answer r blks (keys ! p) = find (\<lambda>e. se_key e = keys ! p) (blks ! i)" if "p \<in> set ps" for p
    using assms(3) that z by (auto simp: byte_answer_def is_none_or_def intro!: find_cong)
  then have "fold (\<lambda>p out. out[p := byte_answer r blks (keys ! p)]) ps out
      = fold (\<lambda>p out. out[p := find (\<lambda>e. se_key e = keys ! p) (blks ! i)]) ps out"
    by (intro fold_cong) simp_all
  then show ?thesis using False holds_version(1) [OF assms(1,2)] holds_entries [OF assms(1,2)]
    by (simp add: block_get_many_def Let_def)
qed

lemma fold_update_nth:
  "q < length out \<Longrightarrow> fold (\<lambda>p out. out[p := f p]) ps out ! q = (if q \<in> set ps then f q else out ! q)"
  by (induction ps arbitrary: out) (auto simp: nth_list_update)

lemma length_fold_update [simp]: "length (fold (\<lambda>p out. out[p := f p]) ps out) = length out"
  by (induction ps arbitrary: out) simp_all

lemma fold_concat: "fold (\<lambda>x s. fold g (h x) s) xs s = fold g (concat (map h xs)) s"
  by (induction xs arbitrary: s) simp_all

lemma segment_get_many_reads:
  assumes "reader_holds sha w blks r"
  shows "segment_get_many sha r keys = Inr (map (byte_answer r blks) keys)"
proof -
  let ?m = "group_by_block r keys" and ?g = "\<lambda>p out. out[p := byte_answer r blks (keys ! p)]"
  let ?out = "replicate (length keys) None"
  have "block_get_many sha r keys ip out = Inr (fold ?g (snd ip) out)" if "ip \<in> set ?m" for ip out
  proof -
    obtain i ps where ip: "ip = (i, ps)" by fastforce
    then have ps: "ps \<noteq> []" "\<forall>p \<in> set ps. locate r (keys ! p) = Some i" using group_by_block_ok(1) that by blast+
    then have "i < length blks" using locate_Some(1) [OF assms] by (cases ps) auto
    then show ?thesis using block_get_many_reads [OF assms _ ps(2)] ip by simp
  qed
  then have "segment_get_many sha r keys = Inr (fold (\<lambda>ip. fold ?g (snd ip)) ?m ?out)"
    unfolding segment_get_many_def by (rule rfold_Inr)
  also have "\<dots> = Inr (fold ?g (concat (map snd ?m)) ?out)" by (simp add: fold_concat)
  also have "fold ?g (concat (map snd ?m)) ?out = map (byte_answer r blks) keys"
  proof (rule nth_equalityI)
    fix p assume "p < length (fold ?g (concat (map snd ?m)) ?out)"
    then have p: "p < length keys" by simp
    show "fold ?g (concat (map snd ?m)) ?out ! p = map (byte_answer r blks) keys ! p"
      using p group_by_block_ok(2) [OF p, of r] by (simp add: fold_update_nth byte_answer_def)
  qed simp
  finally show ?thesis .
qed

end
