(* ===== verification/SegmentAccess.thy ===== *)
theory SegmentAccess
  imports SegmentLookup
begin

text \<open>
  The rest of the read path: the Bloom probe, the streaming iterator, the direct read of
  an anchored entry, and block reads through the shared cache.
\<close>

section \<open>Bloom filter\<close>

definition bit_on :: "bytes \<Rightarrow> nat \<Rightarrow> bool" where
  "bit_on bits n \<longleftrightarrow> bit (bits ! (n div 8)) (n mod 8)"

lemma and_bit_iff: "k < 8 \<Longrightarrow> (b :: byte) AND 2 ^ k \<noteq> 0 \<longleftrightarrow> bit b k"
proof -
  assume k: "k < 8"
  have "b AND 2 ^ k = (if bit b k then 2 ^ k else 0)"
    by (rule bit_word_eqI) (auto simp: bit_and_iff bit_exp_iff)
  moreover have "bit (2 ^ k :: byte) k" using k by (simp add: bit_exp_iff)
  then have "(2 :: byte) ^ k \<noteq> 0" by (metis bit_0_eq bot_apply bot_bool_def)
  ultimately show ?thesis by simp
qed

lemma bit_on_set: "n div 8 < length bits \<Longrightarrow> bit_on (bloom_set n bits) n"
  by (simp add: bit_on_def bloom_set_def bit_or_iff bit_exp_iff)

lemma bit_on_keep: "bit_on bits k \<Longrightarrow> bit_on (bloom_set n bits) k"
  by (cases "n div 8 < length bits") (auto simp: bit_on_def bloom_set_def nth_list_update bit_or_iff list_update_beyond)

lemma bit_on_sets_keep: "bit_on bits k \<Longrightarrow> bit_on (fold (\<lambda>i. bloom_set (f i)) is bits) k"
  by (induction "is" arbitrary: bits) (simp_all add: bit_on_keep)

lemma bit_on_sets: "i \<in> set is \<Longrightarrow> f i div 8 < length bits \<Longrightarrow> bit_on (fold (\<lambda>i. bloom_set (f i)) is bits) (f i)"
proof (induction "is" arbitrary: bits)
  case (Cons j js)
  then show ?case by (auto simp: bit_on_set bit_on_sets_keep)
qed simp

definition probes_on :: "digest_fn \<Rightarrow> nat \<Rightarrow> bytes \<Rightarrow> bytes \<Rightarrow> bool" where
  "probes_on sha m key bits \<longleftrightarrow> (case bloom_hashes sha key of (h1, h2) \<Rightarrow> \<forall>i < BLOOM_PROBES. bit_on bits (bloom_bit h1 h2 m i))"

lemma probes_on_add:
  assumes "0 < m" and "(m + 7) div 8 = length bits"
  shows "probes_on sha m key (bloom_add sha m key bits)"
proof -
  obtain h1 h2 where h: "bloom_hashes sha key = (h1, h2)" by fastforce
  have "bloom_bit h1 h2 m i div 8 < length bits" for i
  proof -
    have "bloom_bit h1 h2 m i < m" using assms(1) by (simp add: bloom_bit_def)
    then show ?thesis using assms(2) by linarith
  qed
  then show ?thesis using h bit_on_sets [of _ "[0..<BLOOM_PROBES]" "bloom_bit h1 h2 m" bits]
    by (simp add: probes_on_def bloom_add_def)
qed

lemma probes_on_keep: "probes_on sha m key bits \<Longrightarrow> probes_on sha m key (bloom_add sha m key' bits)"
  by (auto simp: probes_on_def bloom_add_def bit_on_sets_keep split: prod.splits)

lemma probes_on_adds_keep: "probes_on sha m key bits \<Longrightarrow> probes_on sha m key (fold (\<lambda>e. bloom_add sha m (se_key e)) es bits)"
  by (induction es arbitrary: bits) (simp_all add: probes_on_keep)

lemma probes_on_adds:
  assumes "e \<in> set es" and "0 < m" and "(m + 7) div 8 = length bits"
  shows "probes_on sha m (se_key e) (fold (\<lambda>e. bloom_add sha m (se_key e)) es bits)"
  using assms
proof (induction es arbitrary: bits)
  case (Cons x es)
  then show ?case by (auto simp: probes_on_add probes_on_adds_keep)
qed simp

lemma bloom_no_false_negative:
  assumes "reader_holds sha w blks r" and "e \<in> set (concat blks)"
  shows "bloom_may_contain sha r (se_key e) = Some True"
proof -
  let ?m = "BLOOM_BITS_PER_KEY * length (concat blks)"
  obtain h1 h2 where h: "bloom_hashes sha (se_key e) = (h1, h2)" by fastforce
  have "concat blks \<noteq> []" using assms(2) by (metis empty_iff empty_set)
  then have m: "0 < ?m" by (simp add: BLOOM_BITS_PER_KEY_def del: concat_eq_Nil_conv)
  have r: "rd_bloom r = file_bloom sha (concat blks)" "rd_bloom_m r = word_of_nat ?m" "?m < 2 ^ 32"
    using assms(1) by (auto simp: reader_holds_def)
  have u: "unat (rd_bloom_m r) = ?m" unfolding r(2) by (rule unat_of_nat_small) (use r(3) in simp)
  then have nz: "rd_bloom_m r \<noteq> 0" using m unat_eq_0_iff by (metis less_irrefl_nat)
  define bits where "bits = fold (\<lambda>e. bloom_add sha ?m (se_key e)) (concat blks) (replicate ((?m + 7) div 8) 0)"
  have d: "drop 4 (rd_bloom r) = bits" by (simp add: r(1) file_bloom_def Let_def bits_def)
  have "probes_on sha ?m (se_key e) bits" unfolding bits_def by (rule probes_on_adds [OF assms(2) m]) simp
  then have "\<forall>i < BLOOM_PROBES. bit_on bits (bloom_bit h1 h2 ?m i)" by (simp add: probes_on_def h)
  then show ?thesis using h nz u d
    by (simp add: bloom_may_contain_def bloom_may_contain_hashes_def list_all_iff and_bit_iff bit_on_def Let_def)
qed

section \<open>The iterator\<close>

text \<open>The answers of \<open>n\<close> calls of \<^verbatim>\<open>next\<close>.\<close>

fun iter_drain :: "digest_fn \<Rightarrow> segment_reader \<Rightarrow> nat \<Rightarrow> segment_iter \<Rightarrow> segment_entry option fres list" where
  "iter_drain sha r 0 it = []"
| "iter_drain sha r (Suc n) it = (case iter_next sha r it of (x, it') \<Rightarrow> x # iter_drain sha r n it')"

definition iter_left :: "segment_entry list list \<Rightarrow> segment_iter \<Rightarrow> segment_entry list" where
  "iter_left blks it = it_entries it @ concat (drop (it_block it) blks)"

lemma iter_next_Cons:
  assumes "reader_holds sha w blks r" and "iter_left blks it = e # es"
  shows "\<exists>it'. iter_next sha r it = (Inr (Some e), it') \<and> iter_left blks it' = es"
proof (cases "it_entries it")
  case Nil
  let ?i = "it_block it"
  have i: "?i < length blks" using assms(2) Nil by (cases "?i < length blks") (auto simp: iter_left_def)
  obtain x xs where b: "blks ! ?i = x # xs" using holds_version(5) [OF assms(1) i] by (cases "blks ! ?i") auto
  have "x = e" "xs @ concat (drop (Suc ?i) blks) = es"
    using assms(2) Nil b by (simp_all add: iter_left_def drop_blocks [OF i])
  then show ?thesis using Nil i b holds_entries [OF assms(1) i] holds_basic(2) [OF assms(1)]
    by (subst iter_next.simps) (simp, subst iter_next.simps, simp add: iter_left_def)
next
  case (Cons x xs)
  then show ?thesis using assms(2) by (subst iter_next.simps) (simp add: iter_left_def)
qed

lemma iter_next_Nil:
  assumes "reader_holds sha w blks r" and "iter_left blks it = []"
  shows "iter_next sha r it = (Inr None, it)"
proof -
  have e: "it_entries it = []" "concat (drop (it_block it) blks) = []" using assms(2) by (auto simp: iter_left_def)
  have "\<not> it_block it < length blks"
    using e(2) holds_version(5) [OF assms(1), of "it_block it"] drop_blocks [of "it_block it" blks]
    by (metis append_is_Nil_conv)
  then show ?thesis using e(1) holds_basic(2) [OF assms(1)] by (subst iter_next.simps) simp
qed

lemma iter_drain_reads:
  assumes "reader_holds sha w blks r"
  shows "iter_drain sha r n it = map (Inr \<circ> Some) (take n (iter_left blks it)) @ replicate (n - length (iter_left blks it)) (Inr None)"
proof (induction n arbitrary: it)
  case (Suc n)
  show ?case
  proof (cases "iter_left blks it")
    case Nil
    then show ?thesis using iter_next_Nil [OF assms Nil] Suc.IH [of it] by simp
  next
    case (Cons e es)
    then show ?thesis using iter_next_Cons [OF assms Cons] Suc.IH by auto
  qed
qed simp

section \<open>Anchors\<close>

text \<open>The rows of a segment with their positions, in file order.\<close>

fun positions :: "nat \<Rightarrow> segment_entry list list \<Rightarrow> (nat \<times> nat \<times> segment_entry) list" where
  "positions k [] = []"
| "positions k (blk # blks) = map (\<lambda>(j, e). (k, j, e)) (enumerate 0 blk) @ positions (Suc k) blks"

lemma anchors_image_fold:
  "anchors_image w k blks a = fold (\<lambda>(k, j, e). anchor_entry w k (j, e)) (positions k blks) a"
proof (induction w k blks a rule: anchors_image.induct)
  case (2 w k blk blks a)
  then show ?case by (simp add: fold_map comp_def split_beta)
qed simp

lemma positions_mem:
  "(b, j, e) \<in> set (positions k blks) \<longleftrightarrow> k \<le> b \<and> b - k < length blks \<and> j < length (blks ! (b - k)) \<and> e = blks ! (b - k) ! j"
proof (induction k blks rule: positions.induct)
  case (2 k blk blks)
  have "(b, j, e) \<in> set (map (\<lambda>(j, e). (k, j, e)) (enumerate 0 blk)) \<longleftrightarrow> b = k \<and> j < length blk \<and> e = blk ! j"
    by (auto simp: image_iff in_set_enumerate_eq)
  then have step: "(b, j, e) \<in> set (positions k (blk # blks)) \<longleftrightarrow> (b = k \<and> j < length blk \<and> e = blk ! j)
      \<or> (Suc k \<le> b \<and> b - Suc k < length blks \<and> j < length (blks ! (b - Suc k)) \<and> e = blks ! (b - Suc k) ! j)"
    using 2 by simp
  show ?case
  proof (cases "k < b")
    case True
    then have "b - k = Suc (b - Suc k)" by simp
    then show ?thesis using True unfolding step by auto
  next
    case False
    then show ?thesis unfolding step by auto
  qed
qed simp

abbreviation row_entry :: "nat \<times> nat \<times> segment_entry \<Rightarrow> segment_entry" where
  "row_entry row \<equiv> snd (snd row)"

definition anchor_at :: "nat \<times> nat \<times> segment_entry \<Rightarrow> segment_anchor" where
  "anchor_at row = \<lparr>sa_replica = se_replica (row_entry row), sa_seq = se_seq (row_entry row),
     sa_block = BlockId (word_of_nat (fst row)), sa_offset = word_of_nat (fst (snd row))\<rparr>"

text \<open>The anchor of a replica: its newest row, if it has any.\<close>

definition anchor_of :: "(nat \<times> nat \<times> segment_entry) list \<Rightarrow> replica_id \<Rightarrow> segment_anchor option \<Rightarrow> bool" where
  "anchor_of rows rid x \<longleftrightarrow> (case x of
      None \<Rightarrow> \<forall>row \<in> set rows. se_replica (row_entry row) \<noteq> rid
    | Some an \<Rightarrow> \<exists>row \<in> set rows. an = anchor_at row \<and> se_replica (row_entry row) = rid
        \<and> (\<forall>row' \<in> set rows. se_replica (row_entry row') = rid \<longrightarrow> se_seq (row_entry row') \<le> se_seq (row_entry row)))"

lemma anchor_of_other: "se_replica (row_entry row) \<noteq> rid \<Longrightarrow> anchor_of (rows @ [row]) rid x = anchor_of rows rid x"
  by (cases x) (auto simp: anchor_of_def)

lemma anchor_of_same:
  assumes "anchor_of rows rid x" and "se_replica (row_entry row) = rid"
  shows "anchor_of (rows @ [row]) rid
    (case x of None \<Rightarrow> Some (anchor_at row) | Some o' \<Rightarrow> if sa_seq o' < se_seq (row_entry row) then Some (anchor_at row) else Some o')"
proof (cases x)
  case None
  then show ?thesis using assms by (simp add: anchor_of_def)
next
  case (Some an)
  then obtain row0 where row0: "row0 \<in> set rows" "an = anchor_at row0" "se_replica (row_entry row0) = rid"
    "\<And>row'. row' \<in> set rows \<Longrightarrow> se_replica (row_entry row') = rid \<Longrightarrow> se_seq (row_entry row') \<le> se_seq (row_entry row0)"
    using assms(1) unfolding anchor_of_def by auto
  show ?thesis
  proof (cases "se_seq (row_entry row0) < se_seq (row_entry row)")
    case True
    then have "\<And>row'. row' \<in> set rows \<Longrightarrow> se_replica (row_entry row') = rid \<Longrightarrow> se_seq (row_entry row') \<le> se_seq (row_entry row)"
      using row0(4) less_imp_le [OF True] order.trans by blast
    then have "anchor_of (rows @ [row]) rid (Some (anchor_at row))"
      unfolding anchor_of_def option.case by (intro bexI [of _ row]) (use assms(2) in simp_all)
    then show ?thesis using Some row0(2) True by (simp add: anchor_at_def)
  next
    case False
    then have "anchor_of (rows @ [row]) rid (Some an)"
      unfolding anchor_of_def option.case by (intro bexI [of _ row0]) (use row0 in \<open>simp_all add: not_less\<close>)
    then show ?thesis using Some row0(2) False by (simp add: anchor_at_def)
  qed
qed

lemma anchors_fold:
  assumes "sw_v3 w" and "rid \<noteq> ReplicaId 0" and "anchor_of rows rid (a rid)"
  shows "anchor_of (rows @ rows') rid (fold (\<lambda>(k, j, e). anchor_entry w k (j, e)) rows' a rid)"
  using assms(3)
proof (induction rows' arbitrary: rows a)
  case (Cons row rows')
  obtain b j e where row: "row = (b, j, e)" by (cases row) auto
  have "anchor_of (rows @ [row]) rid (anchor_entry w b (j, e) a rid)"
  proof (cases "se_replica e = rid")
    case True
    then show ?thesis using anchor_of_same [OF Cons.prems, of row] assms(1,2) row
      by (auto simp: anchor_entry_def Let_def anchor_at_def split: option.splits)
  next
    case False
    then have "anchor_entry w b (j, e) a rid = a rid" by (simp add: anchor_entry_def Let_def split: option.splits)
    then show ?thesis using Cons.prems False row by (simp add: anchor_of_other)
  qed
  then show ?case using Cons.IH [of "rows @ [row]"] row by simp
qed simp

lemma anchors_image_ok:
  "sw_v3 w \<Longrightarrow> rid \<noteq> ReplicaId 0 \<Longrightarrow> anchor_of (positions 0 blks) rid (anchors_image w 0 blks Map.empty rid)"
  using anchors_fold [of w rid "[]" Map.empty "positions 0 blks"] by (simp add: anchors_image_fold anchor_of_def)

section \<open>Direct reads\<close>

lemma get_entry_at_reads:
  assumes "reader_holds sha w blks r" and "sw_v4 w" and "unat b < length blks" and "unat j < length (blks ! unat b)"
  defines "e \<equiv> blks ! unat b ! unat j"
  shows "get_entry_at sha r (se_key e) (se_replica e) b j = Inr (Some e)"
proof -
  let ?db = "rd_data r ! unat b"
  obtain raw where raw: "block_raw sha r (unat b) = Inr raw" "block_holds w (blks ! unat b) ?db (drop BLOCK_HEADER_LEN raw)"
    using holds_block [OF assms(1,3)] by blast
  have v4: "db_v4 ?db" using holds_version(3) [OF assms(1,3)] assms(2) by simp
  obtain start end' where "dense_window (drop BLOCK_HEADER_LEN raw) (unat j) = Inr (Some (start, end'))"
    "decode_nth (unat j mod RESTART_INTERVAL) [] (cursor_new (take (end' - start) (drop start (drop BLOCK_HEADER_LEN raw)))) = Inr e"
    using dense_entry_reads [OF raw(2) v4 assms(4)] by (auto simp: e_def)
  moreover have "e \<in> set (blks ! unat b)" using assms(4) by (simp add: e_def)
  ultimately show ?thesis
    using raw(1) v4 assms(3) holds_basic(2) [OF assms(1)] block_range [OF assms(1,3)]
    by (simp add: get_entry_at_def Let_def not_less)
qed

lemma word_index_small:
  assumes "reader_holds sha w blks r" and "b < length blks" and "j < length (blks ! b)"
  shows "unat (word_of_nat b :: u32) = b" and "unat (word_of_nat j :: u32) = j"
proof -
  have n: "length (concat blks) < 2 ^ 32" using assms(1) by (simp add: reader_holds_def BLOOM_BITS_PER_KEY_def)
  have "length blks \<le> length (concat blks)"
    by (rule length_le_concat) (use holds_version(5) [OF assms(1)] in \<open>auto simp: in_set_conv_nth\<close>)
  then show "unat (word_of_nat b :: u32) = b" using n assms(2) by (intro unat_of_nat_small) simp
  have "length (blks ! b) \<le> length (concat blks)" by (subst concat_block_split [OF assms(2)]) simp
  then show "unat (word_of_nat j :: u32) = j" using n assms(3) by (intro unat_of_nat_small) simp
qed

text \<open>An anchor leads straight to the newest row of its replica.\<close>

lemma anchor_read:
  assumes "reader_holds sha w blks r" and "sw_v4 w" and "rid \<noteq> ReplicaId 0"
    and "anchors_image w 0 blks Map.empty rid = Some an"
  shows "\<exists>e \<in> set (concat blks). se_replica e = rid \<and> se_seq e = sa_seq an
    \<and> (\<forall>e' \<in> set (concat blks). se_replica e' = rid \<longrightarrow> se_seq e' \<le> se_seq e)
    \<and> get_entry_at sha r (se_key e) rid (bid_u32 (sa_block an)) (sa_offset an) = Inr (Some e)"
proof -
  have "writer_ok w" using holds_version(4) [OF assms(1), of 0] holds_basic(3) [OF assms(1)] by simp
  then have "sw_v3 w" using assms(2) by (simp add: writer_ok_def)
  from anchors_image_ok [OF this assms(3), of blks] assms(4) obtain row where
    row: "row \<in> set (positions 0 blks)" "an = anchor_at row" "se_replica (row_entry row) = rid"
      "\<And>row'. row' \<in> set (positions 0 blks) \<Longrightarrow> se_replica (row_entry row') = rid \<Longrightarrow> se_seq (row_entry row') \<le> se_seq (row_entry row)"
    unfolding anchor_of_def by auto
  obtain b j e where bje: "row = (b, j, e)" by (cases row) auto
  then have pos: "b < length blks" "j < length (blks ! b)" "e = blks ! b ! j" using row(1) by (auto simp: positions_mem)
  note u = word_index_small [OF assms(1) pos(1,2)]
  have "se_seq e' \<le> se_seq e" if el: "e' \<in> set (concat blks)" "se_replica e' = rid" for e'
  proof -
    obtain blk where "blk \<in> set blks" "e' \<in> set blk" using el(1) by auto
    then obtain b' j' where "b' < length blks" "j' < length (blks ! b')" "e' = blks ! b' ! j'"
      by (metis in_set_conv_nth)
    then have "(b', j', e') \<in> set (positions 0 blks)" by (simp add: positions_mem)
    then show ?thesis using row(4) el(2) bje by fastforce
  qed
  moreover have "get_entry_at sha r (se_key e) rid (word_of_nat b) (word_of_nat j) = Inr (Some e)"
    using get_entry_at_reads [OF assms(1,2), of "word_of_nat b" "word_of_nat j"] u pos row(3) bje by simp
  moreover have "e \<in> set (concat blks)" using pos by (force intro: bexI [of _ "blks ! b"])
  ultimately show ?thesis using row(2,3) bje by (intro bexI [of _ e]) (simp_all add: anchor_at_def)
qed

section \<open>Reads through the cache\<close>

text \<open>Several readers share one cache under distinct identities; \<open>rs\<close> maps an identity to
  its reader, \<open>val\<close> to the blocks it has verified.\<close>

definition cache_sound :: "digest_fn \<Rightarrow> (u64 \<rightharpoonup> segment_reader) \<Rightarrow> block_cache \<Rightarrow> (u64 \<Rightarrow> nat set) \<Rightarrow> bool" where
  "cache_sound sha rs c val \<longleftrightarrow> (\<forall>cid r i. rs cid = Some r \<longrightarrow> i < length (rd_data r) \<longrightarrow>
      (\<forall>e. cs_entries (bc_state c) (cid, word_of_nat i) = Some e \<longrightarrow> block_raw sha r i = Inr (ce_bytes e))
      \<and> (i \<in> val cid \<longrightarrow> (\<exists>raw. block_raw sha r i = Inr raw)))"

lemma cache_sound_new: "cache_sound sha rs (cache_new cap) (\<lambda>_. {})"
  by (simp add: cache_sound_def cache_new_def)

lemma entries_get:
  "cs_entries (bc_state (snd (cache_get c rid block))) k = Some e \<Longrightarrow>
    \<exists>e'. cs_entries (bc_state c) k = Some e' \<and> ce_bytes e' = ce_bytes e"
  by (auto simp: cache_get_def Let_def split: option.splits if_splits)

lemma block_raw_cached_ok:
  assumes "cache_sound sha rs c val" and "rs cid = Some r" and "i < length (rd_data r)"
    and "\<forall>cid r. rs cid = Some r \<longrightarrow> length (rd_data r) < 2 ^ 32"
    and "block_raw_cached sha iter cid r i (c, val cid) = (res, c', v)"
  shows "res = block_raw sha r i" and "cache_sound sha rs c' (val(cid := v))"
proof -
  obtain hit c1 where g: "cache_get c cid (word_of_nat i) = (hit, c1)" by fastforce
  have s1: "cache_sound sha rs c1 val"
    using assms(1) entries_get [of c cid "word_of_nat i"] g unfolding cache_sound_def by fastforce
  have hit: "hit = Some raw \<Longrightarrow> block_raw sha r i = Inr raw" for raw
    using g assms(1-3) by (fastforce simp: cache_get_def cache_sound_def Let_def split: option.splits)
  have inj: "j = i" if "j < length (rd_data r)" "(word_of_nat j :: u32) = word_of_nat i" for j
  proof -
    have "i < 2 ^ LENGTH(32)" "j < 2 ^ LENGTH(32)" using assms(2-4) that(1) by fastforce+
    then show ?thesis using that(2) unat_of_nat_small by metis
  qed
  let ?b = "rd_data r ! i"
  have "res = block_raw sha r i \<and> cache_sound sha rs c' (val(cid := v))"
  proof (cases hit)
    case (Some raw)
    then have "res = Inr raw" "c' = c1" "v = val cid" using assms(5) g by (auto simp: block_raw_cached_def Let_def)
    then show ?thesis using hit [OF Some] s1 by simp
  next
    case None
    show ?thesis
    proof (cases "read_segment_at (rd_file r) (db_header ?b) (BLOCK_HEADER_LEN + db_payload_len ?b)")
      case (Inl e)
      then have "res = Inl e" "c' = c1" "v = val cid" using None assms(5) g by (auto simp: block_raw_cached_def Let_def)
      then show ?thesis using s1 Inl by (simp add: block_raw_def Let_def)
    next
      case (Inr raw)
      have val: "i \<in> val cid \<Longrightarrow> verify_block sha raw"
        using assms(1-3) Inr by (fastforce simp: cache_sound_def block_raw_def Let_def split: if_splits)
      show ?thesis
      proof (cases "verify_block sha raw")
        case False
        then have "i \<notin> val cid" using val by blast
        then have "res = Inl (Corrupt ''data block checksum mismatch'')" "c' = c1" "v = val cid"
          using None Inr False assms(5) g by (auto simp: block_raw_cached_def Let_def)
        then show ?thesis using s1 Inr False by (simp add: block_raw_def Let_def)
      next
        case True
        then have res: "res = Inr raw" "c' = cache_insert iter c1 cid (word_of_nat i) raw" "v = insert i (val cid)"
          using None Inr assms(5) g by (auto simp: block_raw_cached_def Let_def)
        have raw: "block_raw sha r i = Inr raw" using Inr True by (simp add: block_raw_def Let_def)
        have "cache_sound sha rs c' (val(cid := v))"
          unfolding cache_sound_def
        proof (intro allI impI conjI)
          fix cid' r' j e assume j: "rs cid' = Some r'" "j < length (rd_data r')"
            and e: "cs_entries (bc_state c') (cid', word_of_nat j) = Some e"
          from entries_insert [OF e [unfolded res(2)]] show "block_raw sha r' j = Inr (ce_bytes e)"
          proof
            assume new: "(cid', word_of_nat j) = (cid, word_of_nat i :: u32) \<and> ce_bytes e = raw"
            then have "r' = r" using assms(2) j(1) by simp
            then show ?thesis using new inj [of j] j(2) raw by simp
          next
            assume "cs_entries (bc_state c1) (cid', word_of_nat j) = Some e"
            then show ?thesis using s1 j unfolding cache_sound_def by blast
          qed
        next
          fix cid' r' j assume "rs cid' = Some r'" "j < length (rd_data r')" "j \<in> (val(cid := v)) cid'"
          then show "\<exists>raw. block_raw sha r' j = Inr raw"
            using raw assms(2) s1 res(3) unfolding cache_sound_def by (auto split: if_splits)
        qed
        then show ?thesis using res(1) raw by simp
      qed
    qed
  qed
  then show "res = block_raw sha r i" "cache_sound sha rs c' (val(cid := v))" by simp_all
qed

text \<open>A run of reads of blocks \<open>(cid, i)\<close> by readers that share the cache.\<close>

fun cached_reads :: "digest_fn \<Rightarrow> cache_iter \<Rightarrow> (u64 \<rightharpoonup> segment_reader) \<Rightarrow> (u64 \<times> nat) list
    \<Rightarrow> block_cache \<Rightarrow> (u64 \<Rightarrow> nat set) \<Rightarrow> bytes fres list" where
  "cached_reads sha iter rs [] c val = []"
| "cached_reads sha iter rs ((cid, i) # ops) c val =
    (case rs cid of
       None \<Rightarrow> cached_reads sha iter rs ops c val
     | Some r \<Rightarrow> (case block_raw_cached sha iter cid r i (c, val cid) of
         (res, c', v) \<Rightarrow> res # cached_reads sha iter rs ops c' (val(cid := v))))"

lemma cached_reads_ok:
  assumes "cache_sound sha rs c val" and "\<forall>cid r. rs cid = Some r \<longrightarrow> length (rd_data r) < 2 ^ 32"
    and "\<forall>(cid, i) \<in> set ops. \<exists>r. rs cid = Some r \<and> i < length (rd_data r)"
  shows "cached_reads sha iter rs ops c val = map (\<lambda>(cid, i). block_raw sha (the (rs cid)) i) ops"
  using assms(1,3)
proof (induction ops arbitrary: c val)
  case (Cons op ops)
  obtain cid i where op: "op = (cid, i)" by fastforce
  then obtain r where r: "rs cid = Some r" "i < length (rd_data r)" using Cons.prems(2) by auto
  obtain res c' v where run: "block_raw_cached sha iter cid r i (c, val cid) = (res, c', v)" by (metis surj_pair)
  note ok = block_raw_cached_ok [OF Cons.prems(1) r assms(2) run]
  have "cached_reads sha iter rs ops c' (val(cid := v)) = map (\<lambda>(cid, i). block_raw sha (the (rs cid)) i) ops"
    by (rule Cons.IH [OF ok(2)]) (use Cons.prems(2) in simp)
  then show ?case using ok(1) op r run by (simp del: fun_upd_apply)
qed simp

end
