(* ===== verification/SegmentScan.thy ===== *)
theory SegmentScan
  imports SegmentAccess
begin

text \<open>
  The scan cursor of a reader yields, for every key of the range that has a byte row, its
  newest byte row, in key order. The restart seek only skips keys below the range.
\<close>

section \<open>What a scan yields\<close>

fun scan_spec :: "bytes \<Rightarrow> bytes option \<Rightarrow> bytes option \<Rightarrow> segment_entry list \<Rightarrow> segment_entry list" where
  "scan_spec start end' prev [] = []"
| "scan_spec start end' prev (e # es) =
    (if se_key e < start then scan_spec start end' prev es
     else if past_end end' (se_key e) then []
     else if prev = Some (se_key e) \<or> se_replica e \<noteq> ReplicaId 0 then scan_spec start end' prev es
     else e # scan_spec start end' (Some (se_key e)) es)"

lemma scan_spec_below: "\<forall>e \<in> set xs. se_key e < start \<Longrightarrow> scan_spec start end' prev (xs @ ys) = scan_spec start end' prev ys"
  by (induction xs) simp_all

lemma scan_spec_past: "\<forall>e \<in> set xs. past_end end' (se_key e) \<Longrightarrow> scan_spec start end' prev xs = []"
  by (induction xs) simp_all

lemma past_end_mono: "past_end end' a \<Longrightarrow> a \<le> b \<Longrightarrow> past_end end' b"
  by (auto simp: past_end_def split: option.splits)

lemma publish_order_Cons: "publish_order (e # es) \<longleftrightarrow> (\<forall>x \<in> set es. entry_before e x) \<and> publish_order es"
  by (simp add: publish_order_def)

definition newest_byte_row :: "segment_entry list \<Rightarrow> segment_entry \<Rightarrow> bool" where
  "newest_byte_row es e \<longleftrightarrow> e \<in> set es \<and> se_replica e = ReplicaId 0
    \<and> (\<forall>x \<in> set es. se_key x = se_key e \<and> se_replica x = ReplicaId 0 \<longrightarrow> se_seq x \<le> se_seq e)"

lemma newest_byte_row_Cons:
  assumes "publish_order (e # es)"
  shows "newest_byte_row (e # es) x \<longleftrightarrow> (x = e \<and> se_replica e = ReplicaId 0)
    \<or> (newest_byte_row es x \<and> \<not> (se_key e = se_key x \<and> se_replica e = ReplicaId 0))"
proof -
  have b: "\<forall>y \<in> set es. se_key e \<le> se_key y \<and> (se_key y = se_key e \<longrightarrow> se_seq y < se_seq e)"
    using assms by (auto simp: publish_order_Cons entry_before_def)
  show ?thesis
  proof (cases "x = e")
    case True
    then show ?thesis using b by (auto simp: newest_byte_row_def less_imp_le)
  next
    case False
    then show ?thesis using b by (fastforce simp: newest_byte_row_def)
  qed
qed

lemma scan_spec_mem:
  assumes "publish_order es" and "\<forall>k. prev = Some k \<longrightarrow> (\<forall>e \<in> set es. k \<le> se_key e)"
  shows "x \<in> set (scan_spec start end' prev es) \<longleftrightarrow> newest_byte_row es x \<and> start \<le> se_key x
    \<and> \<not> past_end end' (se_key x) \<and> prev \<noteq> Some (se_key x)"
  using assms
proof (induction start end' prev es rule: scan_spec.induct)
  case (1 start end' prev)
  then show ?case by (simp add: newest_byte_row_def)
next
  case (2 start end' prev e es)
  have ord: "publish_order es" "\<And>y. y \<in> set es \<Longrightarrow> se_key e \<le> se_key y"
    using "2.prems"(1) by (auto simp: publish_order_Cons entry_before_def)
  have mem: "newest_byte_row es x \<Longrightarrow> se_key e \<le> se_key x" using ord(2) by (simp add: newest_byte_row_def)
  have prev: "\<forall>k. prev = Some k \<longrightarrow> (\<forall>y \<in> set es. k \<le> se_key y)" using "2.prems"(2) by simp
  note nb = newest_byte_row_Cons [OF "2.prems"(1), of x]
  consider "se_key e < start" | "\<not> se_key e < start" "past_end end' (se_key e)"
    | "\<not> se_key e < start" "\<not> past_end end' (se_key e)" "prev = Some (se_key e) \<or> se_replica e \<noteq> ReplicaId 0"
    | "\<not> se_key e < start" "\<not> past_end end' (se_key e)" "prev \<noteq> Some (se_key e)" "se_replica e = ReplicaId 0"
    by blast
  then show ?case
  proof cases
    case 1
    then show ?thesis using "2.IH"(1) [OF 1 ord(1) prev] nb by auto
  next
    case 2
    then have "newest_byte_row (e # es) x \<Longrightarrow> past_end end' (se_key x)" using nb mem past_end_mono by auto
    then show ?thesis using 2 by auto
  next
    case 3
    then show ?thesis using "2.IH"(2) [OF 3 ord(1) prev] nb by auto
  next
    case 4
    have "\<forall>k. Some (se_key e) = Some k \<longrightarrow> (\<forall>y \<in> set es. k \<le> se_key y)" using ord(2) by simp
    moreover have "prev \<noteq> Some (se_key x)" if "newest_byte_row es x" "se_key x \<noteq> se_key e"
    proof
      assume "prev = Some (se_key x)"
      then have "se_key x \<le> se_key e" using "2.prems"(2) by simp
      then show False using mem [OF that(1)] that(2) by simp
    qed
    ultimately show ?thesis using "2.IH"(3) [OF 4(1,2) _ ord(1)] 4 nb by auto
  qed
qed

lemma scan_spec_sorted:
  assumes "publish_order es"
  shows "sorted_wrt (\<lambda>a b. se_key a < se_key b) (scan_spec start end' prev es)"
  using assms
proof (induction start end' prev es rule: scan_spec.induct)
  case (2 start end' prev e es)
  have ord: "publish_order es" "\<And>y. y \<in> set es \<Longrightarrow> se_key e \<le> se_key y"
    using "2.prems" by (auto simp: publish_order_Cons entry_before_def)
  have "se_key e < se_key y" if "y \<in> set (scan_spec start end' (Some (se_key e)) es)" for y
  proof -
    have "newest_byte_row es y" "se_key e \<noteq> se_key y"
      using that scan_spec_mem [OF ord(1), of "Some (se_key e)" y start end'] ord(2) by auto
    then show ?thesis using ord(2) [of y] by (auto simp: newest_byte_row_def)
  qed
  then show ?case using 2 ord(1) by auto
qed simp

section \<open>Positions inside a block\<close>

definition entry_cursor :: "segment_writer \<Rightarrow> segment_entry list \<Rightarrow> bytes \<Rightarrow> nat \<Rightarrow> nat \<Rightarrow> bytes \<Rightarrow> bool" where
  "entry_cursor w es payload j pos scratch \<longleftrightarrow> j \<le> length es \<and> pos \<le> length payload \<and> (\<forall>e \<in> set es. entry_ok (sw_v3 w) e)
    \<and> (\<exists>ss. chained scratch ss (drop j es) \<and> drop pos payload = images (sw_v3 w) ss (drop j es))"

lemma entry_cursor_end: "entry_cursor w es payload j pos scratch \<Longrightarrow> length payload \<le> pos \<longleftrightarrow> j = length es"
proof -
  assume a: "entry_cursor w es payload j pos scratch"
  then obtain ss where ss: "chained scratch ss (drop j es)" "drop pos payload = images (sw_v3 w) ss (drop j es)"
    and j: "j \<le> length es" by (auto simp: entry_cursor_def)
  have "length payload - pos = length (images (sw_v3 w) ss (drop j es))" using ss(2) by (metis length_drop)
  moreover have "length (images (sw_v3 w) ss (drop j es)) = 0 \<longleftrightarrow> drop j es = []"
    using images_ge [OF ss(1), of "sw_v3 w"] by (auto simp: MIN_ENTRY_LEN_def)
  ultimately show ?thesis using j by auto
qed

lemma entry_cursor_step:
  assumes "entry_cursor w es payload j pos scratch" and "j < length es"
  obtains c c' where "cur_entry_key scratch (cursor_new (drop pos payload)) = Inr (se_key (es ! j), c)"
    "cur_entry_body (sw_v3 w) (se_key (es ! j)) c = Inr (es ! j, c')" "skip_entry_body (sw_v3 w) c = Inr ((), c')"
    "entry_cursor w es payload (Suc j) (pos + cpos c') (se_key (es ! j))"
proof -
  let ?e = "es ! j" and ?c0 = "cursor_new (drop pos payload)"
  have es: "drop j es = ?e # drop (Suc j) es" using assms(2) by (simp add: Cons_nth_drop_Suc)
  have ok: "\<forall>e \<in> set es. entry_ok (sw_v3 w) e" and pos: "pos \<le> length payload" using assms(1) by (auto simp: entry_cursor_def)
  then have oke: "entry_ok (sw_v3 w) ?e" using assms(2) by simp
  obtain ss where "chained scratch ss (drop j es)" "drop pos payload = images (sw_v3 w) ss (drop j es)"
    using assms(1) by (auto simp: entry_cursor_def)
  then obtain s ss' where ss: "link scratch s (se_key ?e)" "chained (se_key ?e) ss' (drop (Suc j) es)"
      "drop pos payload = entry_image (sw_v3 w) s ?e @ images (sw_v3 w) ss' (drop (Suc j) es)"
    unfolding es by (cases ss) auto
  then obtain c' where c': "adv ?c0 (entry_image (sw_v3 w) s ?e) c'" "rest c' = images (sw_v3 w) ss' (drop (Suc j) es)"
    using adv_exists [of ?c0] by (metis rest_new)
  then obtain c where c: "adv ?c0 (entry_key_bytes s ?e) c" "adv c (entry_body (sw_v3 w) ?e) c'"
    using entry_image_split by blast
  have "cur_entry_key scratch ?c0 = Inr (se_key ?e, c)"
    by (rule cur_entry_key_reads [OF ss(1) _ c(1)]) (use oke in \<open>simp add: entry_ok_def\<close>)
  moreover have "cur_entry_body (sw_v3 w) (se_key ?e) c = Inr (?e, c')" "skip_entry_body (sw_v3 w) c = Inr ((), c')"
    using cur_entry_body_reads [OF oke c(2)] skip_entry_body_reads [OF oke c(2)] by auto
  moreover have "entry_cursor w es payload (Suc j) (pos + cpos c') (se_key ?e)"
  proof -
    have n: "cpos c' = length (entry_image (sw_v3 w) s ?e)" using adv_pos [OF c'(1)] by (simp add: cursor_new_def)
    have "drop (pos + cpos c') payload = drop (cpos c') (drop pos payload)" by (simp add: add.commute)
    then have "drop (pos + cpos c') payload = images (sw_v3 w) ss' (drop (Suc j) es)" using ss(3) n by simp
    moreover have "pos + cpos c' \<le> length payload"
      using arg_cong [OF ss(3), of length] n pos by simp
    ultimately show ?thesis using ss(2) assms(2) ok unfolding entry_cursor_def by auto
  qed
  ultimately show ?thesis using that by blast
qed

section \<open>The restart seek\<close>

lemma scan_seek_enc:
  assumes fit: "enc_fits w es st ss ris"
  shows "\<exists>i \<in> set ris. scan_seek_pos (block_payload w st) True (sw_v4 w) start = Inr (table_prefix w st + off (sw_v3 w) ss es i)
    \<and> (\<forall>k < i. se_key (es ! k) < start)"
proof -
  note b = enc_fits_basic [OF fit]
  let ?pl = "block_payload w st" and ?tp = "table_prefix w st"
  let ?os = "\<lambda>j. ?tp + off (sw_v3 w) ss es (ris ! j)"
  have ne: "es \<noteq> []" using fit by (simp add: enc_fits_def)
  then have ris: "ris \<noteq> []" "hd ris = 0" "\<forall>i \<in> set ris. run_start es i" using b(4) by (auto simp: restarts_ok_def)
  define offs where "offs = take (?tp - 6) (drop 6 ?pl)"
  let ?tail = "if sw_v4 w then u32_le (word_of_nat (length (es_dense st))) @ concat (map u32_le (abs_offsets w st (es_dense st))) else []"
  have offs: "offs = concat (map u32_le (abs_offsets w st (es_restarts st))) @ ?tail"
    using block_payload_eq [OF fit] length_block_table [of w st] unfolding offs_def by (simp add: block_table_eq)
  have pos: "table_offset offs j = ?os j" if "j < length ris" for j
    using take4_concat [of j "abs_offsets w st (es_restarts st)" ?tail] that unat_position(2) [OF fit, of "ris ! j"]
      abs_offsets_eq [OF fit, of ris] b(5) unfolding table_offset_def offs by simp
  have len: "4 * length ris \<le> length offs" using b(5) by (simp add: offs)
  have at: "restart_at ?pl offs ?tp j = Inr (se_key (es ! (ris ! j)))" if "j < length ris" for j
    using that pos [OF that] restart_key_reads [OF fit, of "ris ! j"] off_less [OF b(1), of "ris ! j" "sw_v3 w"] b(6)
      block_payload_eq [OF fit] by (simp add: restart_at_def length_block_table)
  have mono: "se_key (es ! (ris ! i)) \<le> se_key (es ! (ris ! j))" if "i \<le> j" "j < length ris" for i j
    using that restart_keys_sorted [OF fit] sorted_wrt_nth_less [of "(<)" "map (\<lambda>i. se_key (es ! i)) ris" i j]
    by (cases "i = j") (auto simp: less_imp_le)
  have "\<exists>r. bin_search (\<lambda>mid. rbind (restart_at ?pl offs ?tp mid) (\<lambda>k. Inr (k \<le> start))) 0 (length ris) = Inr r \<and> r \<le> length ris
      \<and> (\<forall>i < r. se_key (es ! (ris ! i)) \<le> start) \<and> (\<forall>i. r \<le> i \<longrightarrow> i < length ris \<longrightarrow> \<not> se_key (es ! (ris ! i)) \<le> start)"
    by (rule bin_search_finds) (use at mono in \<open>auto dest: order_trans\<close>)
  then obtain r where r: "bin_search (\<lambda>mid. rbind (restart_at ?pl offs ?tp mid) (\<lambda>k. Inr (k \<le> start))) 0 (length ris) = Inr r"
    "r \<le> length ris" "\<forall>i < r. se_key (es ! (ris ! i)) \<le> start" by blast
  have j: "r - 1 < length ris" using r(2) ris(1) by (cases ris) auto
  have "scan_seek_pos ?pl True (sw_v4 w) start = Inr (?os (r - 1))"
    unfolding scan_seek_pos_def table_len_reads [OF fit] rbind_simps prod.case Let_def offs_def [symmetric] r(1)
    using pos [OF j] len j by simp
  moreover have "\<forall>k < ris ! (r - 1). se_key (es ! k) < start"
  proof (cases "r = 0")
    case True
    then show ?thesis using ris(1,2) by (simp add: hd_conv_nth)
  next
    case False
    then have "se_key (es ! (ris ! (r - 1))) \<le> start" using r(3) by simp
    then show ?thesis using ris(3) j unfolding run_start_def by (meson less_le_trans nth_mem)
  qed
  ultimately show ?thesis using j by (metis nth_mem)
qed

lemma scan_seek_reads:
  assumes "block_holds w es b payload"
  shows "\<exists>pos j. scan_seek_pos payload (db_v2 b) (db_v4 b) start = Inr pos \<and> entry_cursor w es payload j pos []
    \<and> (\<forall>e \<in> set (take j es). se_key e < start)"
proof -
  have b: "db_v2 b = sw_v2 w" "db_v4 b = sw_v4 w" "\<forall>e \<in> set es. entry_ok (sw_v3 w) e"
    using assms by (auto simp: block_holds_def)
  obtain st ss ris where "encode_entries w es = Inr st" and e: "payload = block_payload w st" "enc_inv w es st ss ris"
    "sw_v2 w \<Longrightarrow> enc_fits w es st ss ris"
    by (rule block_holds_enc [OF assms]) (rule that; simp)
  have ch: "chained [] ss es" "es_payload st = images (sw_v3 w) ss es" using e(2) by (auto simp: enc_inv_def)
  show ?thesis
  proof (cases "sw_v2 w")
    case False
    then have "entry_cursor w es payload 0 0 []" using ch e(1) b(3) by (auto simp: entry_cursor_def block_payload_def)
    then show ?thesis using False b(1) by (intro exI [of _ 0]) (simp add: scan_seek_pos_def)
  next
    case True
    note fit = e(3) [OF True] and bs = enc_fits_basic [OF e(3) [OF True]]
    obtain i where i: "i \<in> set ris" "scan_seek_pos payload True (sw_v4 w) start = Inr (table_prefix w st + off (sw_v3 w) ss es i)"
      "\<forall>k < i. se_key (es ! k) < start" using scan_seek_enc [OF fit] e(1) by blast
    then have l: "i < length es" "ss ! i = 0" using bs(6) by auto
    have "chained [] (drop i ss) (drop i es)" by (rule chained_drop [OF ch(1) l])
    moreover have "drop (table_prefix w st + off (sw_v3 w) ss es i) payload = images (sw_v3 w) (drop i ss) (drop i es)"
      using payload_from [OF fit] e(1) by simp
    moreover have "table_prefix w st + off (sw_v3 w) ss es i \<le> length payload"
      using off_less [OF bs(1) l(1), of "sw_v3 w"] block_payload_eq [OF fit] e(1) by (simp add: length_block_table)
    ultimately have "entry_cursor w es payload i (table_prefix w st + off (sw_v3 w) ss es i) []"
      using l(1) b(3) by (auto simp: entry_cursor_def)
    moreover have "\<forall>e \<in> set (take i es). se_key e < start" using i(3) by (auto simp: in_set_conv_nth)
    ultimately show ?thesis using i(2) True b by auto
  qed
qed

section \<open>The cursor\<close>

text \<open>\<open>xs\<close> are the entries the cursor has not passed yet.\<close>

definition scan_inv :: "segment_writer \<Rightarrow> segment_entry list list \<Rightarrow> scan_cursor \<Rightarrow> segment_entry list \<Rightarrow> bool" where
  "scan_inv w blks st xs \<longleftrightarrow> \<not> sc_done st \<and> (case sc_raw st of
      None \<Rightarrow> xs = concat (drop (sc_block st) blks)
    | Some raw \<Rightarrow> \<exists>i j. sc_block st = Suc i \<and> i < length blks \<and> sc_v3 st = sw_v3 w
        \<and> entry_cursor w (blks ! i) (drop BLOCK_HEADER_LEN raw) j (sc_pos st) (sc_scratch st)
        \<and> xs = drop j (blks ! i) @ concat (drop (Suc i) blks))"

abbreviation scan_rest :: "scan_cursor \<Rightarrow> segment_entry list \<Rightarrow> segment_entry list" where
  "scan_rest st xs \<equiv> scan_spec (sc_start st) (sc_end st) (sc_last st) xs"

definition scan_goes_on :: "segment_writer \<Rightarrow> segment_entry list list \<Rightarrow> scan_cursor \<Rightarrow> segment_entry list \<Rightarrow> scan_out \<times> scan_cursor \<Rightarrow> bool" where
  "scan_goes_on w blks st xs res \<longleftrightarrow> (case res of
      (Again, st') \<Rightarrow> \<exists>xs'. scan_inv w blks st' xs' \<and> scan_rest st' xs' = scan_rest st xs
    | (Yield (Inr (Some e)), st') \<Rightarrow> \<exists>xs'. scan_inv w blks st' xs' \<and> scan_rest st xs = e # scan_rest st' xs'
    | (Yield (Inr None), st') \<Rightarrow> scan_rest st xs = [] \<and> (sc_done st' \<or> st' = st)
    | (Yield (Inl _), _) \<Rightarrow> False)"

lemma scan_load_ok:
  assumes "reader_holds sha w blks r" and "scan_inv w blks st xs" and "sc_raw st = None"
  shows "scan_goes_on w blks st xs (scan_step sha r st)"
proof -
  let ?i = "sc_block st"
  have xs: "xs = concat (drop ?i blks)" "\<not> sc_done st" using assms(2,3) by (auto simp: scan_inv_def)
  show ?thesis
  proof (cases "?i < length blks \<and> \<not> past_end (sc_end st) (block_key r (db_first (rd_data r ! ?i)))")
    case False
    have "scan_rest st xs = []"
    proof (rule scan_spec_past, rule ballI)
      fix e assume e: "e \<in> set xs"
      then have i: "?i < length blks" using xs(1) by (cases "?i < length blks") auto
      then show "past_end (sc_end st) (se_key e)"
        using False later_blocks [OF assms(1) i] e xs(1) past_end_mono by blast
    qed
    moreover have "load_block sha r st = Inr None"
      using False holds_basic(2) [OF assms(1)] by (auto simp: load_block_def Let_def)
    ultimately show ?thesis using assms(3) xs(2) by (simp add: scan_step_def scan_goes_on_def)
  next
    case True
    then have i: "?i < length blks" by simp
    obtain raw where raw: "block_raw sha r ?i = Inr raw" "block_holds w (blks ! ?i) (rd_data r ! ?i) (drop BLOCK_HEADER_LEN raw)"
      using holds_block [OF assms(1) i] by blast
    obtain pos j where pos: "scan_seek_pos (drop BLOCK_HEADER_LEN raw) (db_v2 (rd_data r ! ?i)) (db_v4 (rd_data r ! ?i)) (sc_start st) = Inr pos"
      "entry_cursor w (blks ! ?i) (drop BLOCK_HEADER_LEN raw) j pos []" "\<forall>e \<in> set (take j (blks ! ?i)). se_key e < sc_start st"
      using scan_seek_reads [OF raw(2)] by blast
    let ?st = "st\<lparr>sc_pos := pos, sc_raw := Some raw, sc_v3 := db_v3 (rd_data r ! ?i), sc_block := ?i + 1, sc_scratch := []\<rparr>"
    let ?xs = "drop j (blks ! ?i) @ concat (drop (Suc ?i) blks)"
    have "scan_inv w blks ?st ?xs"
      using pos(2) i xs(2) holds_version(2) [OF assms(1) i] by (auto simp: scan_inv_def)
    moreover have "xs = take j (blks ! ?i) @ ?xs" using xs(1) drop_blocks [OF i] by simp
    then have "scan_rest ?st ?xs = scan_rest st xs" using scan_spec_below [OF pos(3)] by simp
    moreover have "load_block sha r st = Inr (Some ?st)"
      using True raw(1) pos(1) holds_basic(2) [OF assms(1)] by (simp add: load_block_def Let_def)
    ultimately show ?thesis using assms(3) xs(2) by (auto simp: scan_step_def scan_goes_on_def)
  qed
qed

lemma scan_entry_ok:
  assumes "entry_cursor w es payload j (sc_pos st) (sc_scratch st)" and "j < length es" and "sc_v3 st = sw_v3 w"
  defines "e \<equiv> es ! j"
  shows "\<exists>st'. entry_cursor w es payload (Suc j) (sc_pos st') (sc_scratch st') \<and> sc_raw st' = sc_raw st \<and> sc_block st' = sc_block st
    \<and> sc_v3 st' = sc_v3 st \<and> sc_done st' = sc_done st \<and> sc_start st' = sc_start st \<and> sc_end st' = sc_end st
    \<and> (if se_key e < sc_start st then scan_entry payload st = (Again, st') \<and> sc_last st' = sc_last st
       else if past_end (sc_end st) (se_key e) then (\<exists>st''. scan_entry payload st = (Yield (Inr None), st'') \<and> sc_done st'')
       else if sc_last st = Some (se_key e) \<or> se_replica e \<noteq> ReplicaId 0
         then scan_entry payload st = (Again, st') \<and> sc_last st' = sc_last st
       else scan_entry payload st = (Yield (Inr (Some e)), st') \<and> sc_last st' = Some (se_key e))"
proof -
  obtain c c' where c: "cur_entry_key (sc_scratch st) (cursor_new (drop (sc_pos st) payload)) = Inr (se_key e, c)"
    "cur_entry_body (sw_v3 w) (se_key e) c = Inr (e, c')" "skip_entry_body (sw_v3 w) c = Inr ((), c')"
    "entry_cursor w es payload (Suc j) (sc_pos st + cpos c') (se_key e)"
    using entry_cursor_step [OF assms(1,2)] unfolding e_def by metis
  let ?st = "st\<lparr>sc_scratch := se_key e, sc_pos := sc_pos st + cpos c',
    sc_last := (if \<not> se_key e < sc_start st \<and> sc_last st \<noteq> Some (se_key e) \<and> se_replica e = ReplicaId 0 then Some (se_key e) else sc_last st)\<rparr>"
  show ?thesis
    by (rule exI [of _ ?st]) (use c assms(3) in \<open>auto simp: scan_entry_def scan_skip_def Let_def\<close>)
qed

lemma scan_step_ok:
  assumes "reader_holds sha w blks r" and "scan_inv w blks st xs"
  shows "scan_goes_on w blks st xs (scan_step sha r st)"
proof (cases "sc_raw st")
  case None
  then show ?thesis by (rule scan_load_ok [OF assms])
next
  case (Some raw)
  let ?pl = "drop BLOCK_HEADER_LEN raw"
  obtain i j where ij: "sc_block st = Suc i" "i < length blks" "sc_v3 st = sw_v3 w"
      "entry_cursor w (blks ! i) ?pl j (sc_pos st) (sc_scratch st)" "xs = drop j (blks ! i) @ concat (drop (Suc i) blks)"
    and nd: "\<not> sc_done st"
    using assms(2) Some by (auto simp: scan_inv_def)
  show ?thesis
  proof (cases "j < length (blks ! i)")
    case False
    then have "length ?pl \<le> sc_pos st" using entry_cursor_end [OF ij(4)] ij(4) by (auto simp: entry_cursor_def)
    then have "scan_step sha r st = (Again, st\<lparr>sc_raw := None\<rparr>)" using Some nd by (simp add: scan_step_def Let_def)
    moreover have "scan_inv w blks (st\<lparr>sc_raw := None\<rparr>) xs" using False ij(1,5) nd by (simp add: scan_inv_def)
    ultimately show ?thesis by (auto simp: scan_goes_on_def)
  next
    case True
    let ?e = "blks ! i ! j" and ?xs = "drop (Suc j) (blks ! i) @ concat (drop (Suc i) blks)"
    have "\<not> length ?pl \<le> sc_pos st" using entry_cursor_end [OF ij(4)] True by simp
    then have step: "scan_step sha r st = scan_entry ?pl st" using Some nd by (simp add: scan_step_def Let_def)
    have xs: "xs = ?e # ?xs" using ij(5) True by (simp add: Cons_nth_drop_Suc [symmetric])
    obtain st' where st': "entry_cursor w (blks ! i) ?pl (Suc j) (sc_pos st') (sc_scratch st')" "sc_raw st' = sc_raw st"
      "sc_block st' = sc_block st" "sc_v3 st' = sc_v3 st" "sc_done st' = sc_done st" "sc_start st' = sc_start st" "sc_end st' = sc_end st"
      and out: "if se_key ?e < sc_start st then scan_entry ?pl st = (Again, st') \<and> sc_last st' = sc_last st
       else if past_end (sc_end st) (se_key ?e) then (\<exists>st''. scan_entry ?pl st = (Yield (Inr None), st'') \<and> sc_done st'')
       else if sc_last st = Some (se_key ?e) \<or> se_replica ?e \<noteq> ReplicaId 0
         then scan_entry ?pl st = (Again, st') \<and> sc_last st' = sc_last st
       else scan_entry ?pl st = (Yield (Inr (Some ?e)), st') \<and> sc_last st' = Some (se_key ?e)"
      using scan_entry_ok [OF ij(4) True ij(3)] by blast
    have inv: "scan_inv w blks st' ?xs"
      unfolding scan_inv_def using st' Some ij(1-3) nd by (auto intro!: exI [of _ i] exI [of _ "Suc j"])
    show ?thesis
      using out inv st'(6,7) unfolding scan_goes_on_def step xs by (auto split: if_splits)
  qed
qed

lemma scan_next_ok:
  assumes "reader_holds sha w blks r" and "scan_inv w blks st xs"
  shows "case scan_rest st xs of
      [] \<Rightarrow> \<exists>st'. scan_next sha r st = (Inr None, st') \<and> (sc_done st' \<or> (\<exists>xs'. scan_inv w blks st' xs' \<and> scan_rest st' xs' = []))
    | e # ys \<Rightarrow> \<exists>st' xs'. scan_next sha r st = (Inr (Some e), st') \<and> scan_inv w blks st' xs' \<and> scan_rest st' xs' = ys"
  using assms
proof (induction sha r st arbitrary: xs rule: scan_next.induct)
  case (1 sha r st)
  have ok: "scan_goes_on w blks st xs (scan_step sha r st)" by (rule scan_step_ok [OF "1.prems"])
  obtain out st' where step: "scan_step sha r st = (out, st')" by fastforce
  show ?case
  proof (cases out)
    case Again
    then obtain xs' where xs': "scan_inv w blks st' xs'" "scan_rest st' xs' = scan_rest st xs"
      using ok step by (auto simp: scan_goes_on_def)
    have "scan_next sha r st = scan_next sha r st'" by (subst scan_next.simps) (simp add: step Again)
    then show ?thesis using "1.IH" [OF step [symmetric] Again "1.prems"(1) xs'(1)] unfolding xs'(2) by (simp only:)
  next
    case (Yield x)
    have nx: "scan_next sha r st = (x, st')" by (subst scan_next.simps) (simp add: step Yield)
    show ?thesis
    proof (cases x)
      case (Inl e)
      then show ?thesis using ok step Yield by (simp add: scan_goes_on_def)
    next
      case (Inr y)
      show ?thesis
      proof (cases y)
        case None
        then have "scan_rest st xs = []" "sc_done st' \<or> st' = st" using ok step Yield Inr by (auto simp: scan_goes_on_def)
        then show ?thesis using nx Inr None "1.prems"(2) by auto
      next
        case (Some e)
        then show ?thesis using ok step Yield Inr nx by (auto simp: scan_goes_on_def)
      qed
    qed
  qed
qed

text \<open>The answers of \<open>n\<close> calls of \<^verbatim>\<open>next\<close>.\<close>

fun scan_drain :: "digest_fn \<Rightarrow> segment_reader \<Rightarrow> nat \<Rightarrow> scan_cursor \<Rightarrow> segment_entry option fres list" where
  "scan_drain sha r 0 st = []"
| "scan_drain sha r (Suc n) st = (case scan_next sha r st of (x, st') \<Rightarrow> x # scan_drain sha r n st')"

lemma scan_drain_done: "sc_done st \<Longrightarrow> scan_drain sha r n st = replicate n (Inr None)"
proof (induction n arbitrary: st)
  case (Suc n)
  then have "scan_next sha r st = (Inr None, st)" by (subst scan_next.simps) (simp add: scan_step_def)
  then show ?case using Suc by simp
qed simp

lemma scan_drain_reads:
  assumes "reader_holds sha w blks r" and "scan_inv w blks st xs"
  shows "scan_drain sha r n st = map (Inr \<circ> Some) (take n (scan_rest st xs)) @ replicate (n - length (scan_rest st xs)) (Inr None)"
  using assms(2)
proof (induction n arbitrary: st xs)
  case (Suc n)
  note nx = scan_next_ok [OF assms(1) Suc.prems]
  show ?case
  proof (cases "scan_rest st xs")
    case Nil
    then obtain st' where st': "scan_next sha r st = (Inr None, st')"
      "sc_done st' \<or> (\<exists>xs'. scan_inv w blks st' xs' \<and> scan_rest st' xs' = [])" using nx by auto
    then have "scan_drain sha r n st' = replicate n (Inr None)" using Suc.IH scan_drain_done by fastforce
    then show ?thesis using Nil st'(1) by simp
  next
    case (Cons e ys)
    then obtain st' xs' where "scan_next sha r st = (Inr (Some e), st')" "scan_inv w blks st' xs'" "scan_rest st' xs' = ys"
      using nx by auto
    then show ?thesis using Suc.IH Cons by simp
  qed
qed simp

lemma scan_iter_inv:
  assumes "reader_holds sha w blks r"
  shows "\<exists>xs. scan_inv w blks (scan_iter r start end') xs \<and> scan_spec start end' None xs = scan_spec start end' None (concat blks)"
proof -
  let ?i = "partition_point (\<lambda>b. block_key r (db_last b) < start) (rd_data r)"
  have split: "concat blks = concat (take ?i blks) @ concat (drop ?i blks)" by (simp flip: concat_append)
  have "\<forall>e \<in> set (concat (take ?i blks)). se_key e < start"
    by (intro ballI) (rule before_partition [OF assms])
  then have "scan_spec start end' None (concat blks) = scan_spec start end' None (concat (drop ?i blks))"
    unfolding split by (rule scan_spec_below)
  then show ?thesis by (intro exI [of _ "concat (drop ?i blks)"]) (simp add: scan_inv_def scan_iter_def)
qed

lemma scan_iter_reads:
  assumes "reader_holds sha w blks r" and heads_def: "heads = scan_spec start end' None (concat blks)"
  shows "scan_drain sha r n (scan_iter r start end') = map (Inr \<circ> Some) (take n heads) @ replicate (n - length heads) (Inr None)"
proof -
  obtain xs where xs: "scan_inv w blks (scan_iter r start end') xs" "scan_spec start end' None xs = heads"
    using scan_iter_inv [OF assms(1)] by (auto simp: heads_def)
  moreover have "scan_rest (scan_iter r start end') xs = heads" using xs(2) by (simp add: scan_iter_def)
  ultimately show ?thesis using scan_drain_reads [OF assms(1) xs(1), of n] by simp
qed

end
