(* ===== verification/SegmentProps.thy ===== *)
theory SegmentProps
  imports SegmentScan
begin

text \<open>
  What a published segment answers. \<open>published sha w es r\<close> says that the writer \<open>w\<close> published
  the entries \<open>es\<close> within the limits of the format and that \<open>r\<close> is the reader
  \<^verbatim>\<open>SegmentReader::open\<close> returns for the file; every read of \<open>r\<close> is then described by \<open>es\<close> alone.
\<close>

section \<open>Published segments\<close>

definition published :: "digest_fn \<Rightarrow> segment_writer \<Rightarrow> segment_entry list \<Rightarrow> segment_reader \<Rightarrow> bool" where
  "published sha w es r \<longleftrightarrow> segment_fits w es
    \<and> (case publish_sorted_entries sha w es of Inl _ \<Rightarrow> False | Inr (file, _, _) \<Rightarrow> open_inner sha file = Inr r)"

lemma length_block_bytes:
  assumes "sha_ok sha" and "block_fits w blk"
  shows "length (block_bytes sha w blk) < 2 ^ 32 + 28"
  using block_fits_payload(1) [OF assms(2)] assms(1) by (simp add: block_bytes_def encode_block_def Let_def)

text \<open>The limits of the format keep every offset within 64 bits.\<close>

lemma segment_fits_length:
  assumes "sha_ok sha" and "segment_fits w es" and "publish_order es" and "es \<noteq> []"
  shows "length (file_image sha w es) < 2 ^ 64"
proof -
  have n: "10 * length es < 2 ^ 32" and ix: "index_size (blocks w es) < 2 ^ 32"
    using assms(2) by (auto simp: segment_fits_def BLOOM_BITS_PER_KEY_def)
  have "length (blocks w es) \<le> length (concat (blocks w es))"
    using blocks_nonempty [OF assms(4)] by (intro length_le_concat) blast
  then have nb: "10 * length (blocks w es) < 2 ^ 32" using n concat_blocks [OF assms(4)] by simp
  have "length (block_bytes sha w blk) \<le> 2 ^ 32 + 28" if "blk \<in> set (blocks w es)" for blk
    using length_block_bytes [OF assms(1) segment_fits_blocks [OF assms(2-4) that]] by simp
  then have "sum_list (map (length \<circ> block_bytes sha w) (blocks w es)) \<le> sum_list (map (\<lambda>_. 2 ^ 32 + 28) (blocks w es))"
    by (intro sum_list_mono) simp
  then have data: "length (concat (map (block_bytes sha w) (blocks w es))) \<le> length (blocks w es) * (2 ^ 32 + 28)"
    by (simp add: length_concat comp_def sum_list_triv)
  have keys: "length (se_key (hd es)) \<le> 65535" "length (se_key (last es)) \<le> 65535"
    using assms(2,4) by (auto simp: segment_fits_def entry_ok_def U16_MAX_def)
  have "length (file_header sha w es) \<le> 140000"
    using keys assms(1) by (simp add: file_header_def segment_header_def Let_def)
  moreover have "length (file_meta sha w es) \<le> 2 ^ 32 + 2 ^ 32 + 100"
    using assms(1) n ix length_file_bloom [of sha es]
    by (simp add: file_meta_def encode_block_def Let_def file_index_def length_index_image BLOOM_BITS_PER_KEY_def)
  moreover have "length (file_footer sha w es) \<le> 100" using assms(1) by (simp add: file_footer_def footer_fields_def)
  ultimately show ?thesis using data nb by (simp add: file_image_def)
qed

lemma publish_Inr:
  assumes "publish_sorted_entries sha w es = Inr x"
  shows "es \<noteq> []" and "sw_target w \<noteq> 0" and "publish_order es"
  using assms publish_guards [of es] by (auto simp: publish_sorted_entries_def split: if_splits)

lemma published_holds:
  assumes "sha_ok sha" and "published sha w es r"
  shows "reader_holds sha w (blocks w es) r" and "es \<noteq> []" and "publish_order es" and "concat (blocks w es) = es"
    and "sw_target w \<noteq> 0" and "segment_fits w es" and "unat (rd_entry_count r) = length es"
proof -
  obtain x where x: "publish_sorted_entries sha w es = Inr x" "segment_fits w es"
    using assms(2) by (auto simp: published_def split: sum.splits)
  note p = publish_Inr [OF x(1)]
  show "es \<noteq> []" "publish_order es" "sw_target w \<noteq> 0" "segment_fits w es" "concat (blocks w es) = es"
    by (fact p x concat_blocks [OF p(1)])+
  have "open_inner sha (file_image sha w es) = Inr r"
    using assms(2) unfolding published_def publish_image [OF x(2) p(3,1,2)] by simp
  then show "reader_holds sha w (blocks w es) r" and "unat (rd_entry_count r) = length es"
    using open_published [OF assms(1) x(2) p(3,1) segment_fits_length [OF assms(1) x(2) p(3,1)]] by auto
qed

lemma published_exists:
  assumes "sha_ok sha" and "segment_fits w es" and "publish_order es" and "es \<noteq> []" and "sw_target w \<noteq> 0"
  shows "\<exists>r. published sha w es r"
  unfolding published_def publish_image [OF assms(2-5)]
  using open_published [OF assms(1-4) segment_fits_length [OF assms(1-4)]] assms(2) by auto

text \<open>The newest row of a key and a replica.\<close>

definition newest_row :: "segment_entry list \<Rightarrow> bytes \<Rightarrow> replica_id \<Rightarrow> segment_entry \<Rightarrow> bool" where
  "newest_row es key rid e \<longleftrightarrow> e \<in> set es \<and> se_key e = key \<and> se_replica e = rid
    \<and> (\<forall>x \<in> set es. se_key x = key \<and> se_replica x = rid \<longrightarrow> se_seq x \<le> se_seq e)"

lemma newest_row_Cons:
  assumes "publish_order (x # es)"
  shows "newest_row (x # es) key rid e \<longleftrightarrow> (if se_key x = key \<and> se_replica x = rid then e = x else newest_row es key rid e)"
proof -
  have later: "\<And>y. y \<in> set es \<Longrightarrow> se_key y = se_key x \<Longrightarrow> se_seq y < se_seq x"
    using assms by (auto simp: publish_order_Cons entry_before_def)
  show ?thesis
  proof (cases "se_key x = key \<and> se_replica x = rid")
    case True
    then show ?thesis using later by (auto simp: newest_row_def less_imp_le dest: leD)
  next
    case False
    then show ?thesis by (auto simp: newest_row_def)
  qed
qed

lemma find_newest:
  "publish_order es \<Longrightarrow> find (matches key (Some rid)) es = Some e \<longleftrightarrow> newest_row es key rid e"
proof (induction es)
  case (Cons x es)
  have IH: "find (matches key (Some rid)) es = Some e \<longleftrightarrow> newest_row es key rid e"
    using Cons by (simp add: publish_order_Cons)
  show ?case unfolding newest_row_Cons [OF Cons.prems] IH [symmetric]
    by (simp add: is_none_or_def eq_commute)
qed (simp add: newest_row_def)

section \<open>A small segment\<close>

text \<open>Two keys; the key \<open>[7]\<close> has an identity row newer than its two byte rows.\<close>

definition demo_sha :: digest_fn where
  "demo_sha _ = replicate 32 0"

definition demo_row :: "bytes \<Rightarrow> u64 \<Rightarrow> u64 \<Rightarrow> segment_entry" where
  "demo_row key seq rid = \<lparr>se_key = key, se_value = [1], se_seq = seq, se_flags = 0, se_replica = ReplicaId rid\<rparr>"

definition demo_rows :: "segment_entry list" where
  "demo_rows = [demo_row [7] 3 5, demo_row [7] 2 0, demo_row [7] 1 0, demo_row [9] 4 0]"

definition demo_writer :: "nat \<Rightarrow> segment_writer" where
  "demo_writer target = \<lparr>sw_target = target, sw_entries = [], sw_v2 = True, sw_v3 = True, sw_v4 = True\<rparr>"

lemma demo_sha_ok: "sha_ok demo_sha"
  by (simp add: sha_ok_def demo_sha_def)

lemma demo_order: "publish_order demo_rows"
  by (simp add: demo_rows_def demo_row_def publish_order_def entry_before_def)

lemma demo_bounds: "block_bounds (demo_writer 64) demo_rows = [(0, 2), (2, 4)]"
  by code_simp

lemma demo_blocks: "blocks (demo_writer 64) demo_rows = [take 2 demo_rows, drop 2 demo_rows]"
  by (simp add: blocks_def demo_bounds slice_def) (simp add: demo_rows_def)

lemma demo_fits: "segment_fits (demo_writer 64) demo_rows"
  unfolding segment_fits_def demo_blocks
  by (simp add: demo_rows_def demo_row_def demo_writer_def writer_ok_def entry_ok_def block_size_def entry_size_def
      BLOOM_BITS_PER_KEY_def U16_MAX_def index_size_def)

text \<open>With a block size of two bytes every row has a block of its own.\<close>

lemma tiny_bounds: "block_bounds (demo_writer 2) demo_rows = [(0, 1), (1, 2), (2, 3), (3, 4)]"
  by code_simp

lemma tiny_blocks: "blocks (demo_writer 2) demo_rows = map (\<lambda>e. [e]) demo_rows"
  by (simp add: blocks_def tiny_bounds slice_def) (simp add: demo_rows_def)

lemma tiny_fits: "segment_fits (demo_writer 2) demo_rows"
  unfolding segment_fits_def tiny_blocks
  by (simp add: demo_rows_def demo_row_def demo_writer_def writer_ok_def entry_ok_def block_size_def entry_size_def
      BLOOM_BITS_PER_KEY_def U16_MAX_def index_size_def)

lemma demo_published: "\<exists>r. published demo_sha (demo_writer 64) demo_rows r"
  by (rule published_exists [OF demo_sha_ok demo_fits demo_order]) (simp_all add: demo_rows_def demo_writer_def)

lemma tiny_published: "\<exists>r. published demo_sha (demo_writer 2) demo_rows r"
  by (rule published_exists [OF demo_sha_ok tiny_fits demo_order]) (simp_all add: demo_rows_def demo_writer_def)

section \<open>Properties\<close>

lemma writer_v4: "sha_ok sha \<Longrightarrow> published sha w es r \<Longrightarrow> sw_v4 w \<Longrightarrow> sw_v3 w"
  using published_holds(6) by (auto simp: segment_fits_def writer_ok_def)

text \<open>C22. Publishing sorted entries and opening the file gives a reader with the entries' bounds,
  whose streaming iterator yields exactly the entries in order and then ends, however often it is
  called.\<close>

theorem segment_roundtrip:
  assumes "sha_ok sha" and "segment_fits w es" and "publish_order es" and "es \<noteq> []" and "sw_target w \<noteq> 0"
  shows "\<exists>file sum anchors r. publish_sorted_entries sha w es = Inr (file, sum, anchors)
    \<and> sum = le_u64 (take 8 (sha file)) \<and> open_inner sha file = Inr r
    \<and> rd_key_min r = se_key (hd es) \<and> rd_key_max r = se_key (last es)
    \<and> rd_seq_lo r = Min (set (map se_seq es)) \<and> rd_seq_hi r = Max (set (map se_seq es))
    \<and> unat (rd_entry_count r) = length es
    \<and> (\<forall>n. iter_drain sha r n segment_iter_new = map (Inr \<circ> Some) (take n es) @ replicate (n - length es) (Inr None))"
proof -
  let ?file = "file_image sha w es"
  obtain r where r: "open_inner sha ?file = Inr r" "reader_holds sha w (blocks w es) r"
    "rd_key_min r = se_key (hd es)" "rd_key_max r = se_key (last es)" "rd_seq_lo r = Min (set (map se_seq es))"
    "rd_seq_hi r = Max (set (map se_seq es))" "unat (rd_entry_count r) = length es"
    using open_published [OF assms(1-4) segment_fits_length [OF assms(1-4)]] by blast
  have "iter_drain sha r n segment_iter_new = map (Inr \<circ> Some) (take n es) @ replicate (n - length es) (Inr None)" for n
    using iter_drain_reads [OF r(2), of n segment_iter_new] concat_blocks [OF assms(4), of w]
    by (simp add: iter_left_def segment_iter_new_def)
  then show ?thesis using publish_image [OF assms(2-5), of sha] r by blast
qed

theorem segment_roundtrip_witness:
  "\<exists>file sum anchors r. publish_sorted_entries demo_sha (demo_writer 64) demo_rows = Inr (file, sum, anchors)
    \<and> open_inner demo_sha file = Inr r \<and> rd_key_min r = [7] \<and> rd_key_max r = [9]
    \<and> iter_drain demo_sha r 3 segment_iter_new = map (Inr \<circ> Some) (take 3 demo_rows)"
proof -
  have "demo_rows \<noteq> []" "sw_target (demo_writer 64) \<noteq> 0" "length demo_rows = 4"
    and keys: "se_key (hd demo_rows) = [7]" "se_key (last demo_rows) = [9]"
    by (simp_all add: demo_rows_def demo_writer_def demo_row_def)
  then obtain fl sm an r where
    p: "publish_sorted_entries demo_sha (demo_writer 64) demo_rows = Inr (fl, sm, an)" "open_inner demo_sha fl = Inr r"
      "rd_key_min r = se_key (hd demo_rows)" "rd_key_max r = se_key (last demo_rows)"
    and it: "\<And>n. iter_drain demo_sha r n segment_iter_new
      = map (Inr \<circ> Some) (take n demo_rows) @ replicate (n - length demo_rows) (Inr None)"
    using segment_roundtrip [OF demo_sha_ok demo_fits demo_order] by blast
  show ?thesis using p it [of 3] keys \<open>length demo_rows = 4\<close> by auto
qed

text \<open>C23. In a segment with replica ids, \<^verbatim>\<open>get_by_rid\<close> never fails and answers with the newest
  row of the key that carries the replica id, across block boundaries, or with nothing when there is no
  such row.\<close>

theorem segment_get_by_rid_newest:
  assumes "sha_ok sha" and "published sha w es r" and "sw_v3 w"
  shows "\<exists>x. segment_get_by_rid sha r key rid = Inr x \<and> (\<forall>e. x = Some e \<longleftrightarrow> newest_row es key rid e)"
  using segment_get_by_rid_reads [OF published_holds(1) [OF assms(1,2)] assms(3)]
    published_holds(4) [OF assms(1,2)] find_newest [OF published_holds(3) [OF assms(1,2)]] by auto

theorem segment_get_by_rid_newest_witness:
  "\<exists>r. published demo_sha (demo_writer 2) demo_rows r
    \<and> segment_get_by_rid demo_sha r [7] (ReplicaId 0) = Inr (Some (demo_row [7] 2 0))"
proof -
  obtain r where r: "published demo_sha (demo_writer 2) demo_rows r" using tiny_published by blast
  have "newest_row demo_rows [7] (ReplicaId 0) (demo_row [7] 2 0)"
    by (simp add: newest_row_def demo_rows_def demo_row_def)
  moreover have "sw_v3 (demo_writer 2)" by (simp add: demo_writer_def)
  ultimately show ?thesis using segment_get_by_rid_newest [OF demo_sha_ok r, of "[7]" "ReplicaId 0"] r by auto
qed

text \<open>\<^verbatim>\<open>versions\<close> returns exactly the rows of the key, newest first, and the range
  \<^verbatim>\<open>scan\<close> exactly the rows with a key in the half-open range, in file order.\<close>

lemma segment_versions_scan:
  assumes "sha_ok sha" and "published sha w es r"
  shows "segment_versions sha r key = Inr (filter (\<lambda>e. se_key e = key) es)
    \<and> sorted_wrt (\<lambda>a b. se_seq b < se_seq a) (filter (\<lambda>e. se_key e = key) es)
    \<and> segment_scan sha r start end' = Inr (filter (\<lambda>e. start \<le> se_key e \<and> se_key e < end') es)"
proof -
  note holds = published_holds(1) [OF assms] and es = published_holds(4) [OF assms]
  have "sorted_wrt entry_before (filter (\<lambda>e. se_key e = key) es)"
    using published_holds(3) [OF assms] by (simp add: publish_order_def sorted_wrt_filter)
  then have "sorted_wrt (\<lambda>a b. se_seq b < se_seq a) (filter (\<lambda>e. se_key e = key) es)"
    by (rule sorted_wrt_mono_rel [rotated]) (auto simp: entry_before_def)
  then show ?thesis using segment_versions_reads [OF holds] segment_scan_reads [OF holds] es by simp
qed

text \<open>C24. For a key without identity rows, \<^verbatim>\<open>get\<close> answers with the key's newest row, or with
  nothing when the segment has no row of the key.\<close>

theorem segment_get_newest:
  assumes "sha_ok sha" and "published sha w es r" and "\<forall>e \<in> set es. se_key e = key \<longrightarrow> se_replica e = ReplicaId 0"
  shows "\<exists>x. segment_get sha r key = Inr x \<and> (\<forall>e. x = Some e \<longleftrightarrow> newest_row es key (ReplicaId 0) e)"
  using segment_get_bytes [OF published_holds(1) [OF assms(1,2)], of key] assms(3)
    published_holds(4) [OF assms(1,2)] find_newest [OF published_holds(3) [OF assms(1,2)]] by auto

theorem segment_get_newest_witness:
  "\<exists>r. published demo_sha (demo_writer 64) demo_rows r
    \<and> segment_get demo_sha r [9] = Inr (Some (demo_row [9] 4 0)) \<and> segment_get demo_sha r [8] = Inr None"
proof -
  obtain r where r: "published demo_sha (demo_writer 64) demo_rows r" using demo_published by blast
  have "newest_row demo_rows [9] (ReplicaId 0) (demo_row [9] 4 0)" "\<And>e. \<not> newest_row demo_rows [8] (ReplicaId 0) e"
    by (auto simp: newest_row_def demo_rows_def demo_row_def)
  moreover have "\<forall>e \<in> set demo_rows. se_key e = k \<longrightarrow> se_replica e = ReplicaId 0" if "k = [8] \<or> k = [9]" for k
    using that by (auto simp: demo_rows_def demo_row_def)
  ultimately show ?thesis
    using segment_get_newest [OF demo_sha_ok r, of "[9]"] segment_get_newest [OF demo_sha_ok r, of "[8]"] r
    by (metis not_Some_eq)
qed

text \<open>C25. \<^verbatim>\<open>get\<close> does not answer with the newest byte row in general: when identity rows fill
  the end of the block where the key's run starts, the byte row in the next block is missed, although
  \<^verbatim>\<open>get_by_rid\<close> with replica 0 finds it. The documentation promises the newest row with
  replica id 0.\<close>

theorem segment_get_misses_row:
  "\<exists>r. published demo_sha (demo_writer 2) demo_rows r
    \<and> newest_row demo_rows [7] (ReplicaId 0) (demo_row [7] 2 0)
    \<and> segment_get demo_sha r [7] = Inr None
    \<and> segment_get_by_rid demo_sha r [7] (ReplicaId 0) = Inr (Some (demo_row [7] 2 0))"
proof -
  obtain r where r: "published demo_sha (demo_writer 2) demo_rows r" using tiny_published by blast
  note holds = published_holds(1) [OF demo_sha_ok r] and es = published_holds(4) [OF demo_sha_ok r]
  have new: "newest_row demo_rows [7] (ReplicaId 0) (demo_row [7] 2 0)"
    by (simp add: newest_row_def demo_rows_def demo_row_def)
  have v3: "sw_v3 (demo_writer 2)" by (simp add: demo_writer_def)
  have "segment_get_by_rid demo_sha r [7] (ReplicaId 0) = Inr (Some (demo_row [7] 2 0))"
    using segment_get_by_rid_reads [OF holds v3] es find_newest [OF demo_order] new by simp
  moreover have "segment_get demo_sha r [7] = Inr None"
  proof (cases "locate r [7]")
    case (Some i)
    have "demo_row [7] 3 5 \<notin> set (concat (take i (blocks (demo_writer 2) demo_rows)))"
      using locate_Some(2) [OF holds Some, of "demo_row [7] 3 5"] by (auto simp: demo_row_def)
    then have "i = 0" unfolding tiny_blocks by (cases i) (simp_all add: demo_rows_def)
    then show ?thesis using segment_get_located [OF holds, of "[7]"] Some
      unfolding tiny_blocks by (simp add: demo_rows_def demo_row_def is_none_or_def)
  qed (simp add: segment_get_located [OF holds])
  ultimately show ?thesis using r new by blast
qed

text \<open>\<^verbatim>\<open>get_many\<close> fetches each block once for all its keys and still answers every key as
  \<^verbatim>\<open>get\<close> does, in the order of the keys.\<close>

lemma segment_get_many_agrees:
  assumes "sha_ok sha" and "published sha w es r"
  shows "\<exists>xs. segment_get_many sha r keys = Inr xs \<and> list_all2 (\<lambda>key x. segment_get sha r key = Inr x) keys xs"
proof -
  note holds = published_holds(1) [OF assms]
  have "segment_get sha r key = Inr (byte_answer r (blocks w es) key)" for key
    using segment_get_located [OF holds] by (simp add: byte_answer_def split: option.splits)
  then show ?thesis using segment_get_many_reads [OF holds] by (simp add: list_all2_conv_all_nth)
qed

text \<open>The Bloom filter of a published segment has no false negatives: a probe for a stored key
  answers that the key may be present.\<close>

lemma segment_bloom_sound:
  assumes "sha_ok sha" and "published sha w es r" and "e \<in> set es"
  shows "bloom_may_contain sha r (se_key e) = Some True"
  using bloom_no_false_negative [OF published_holds(1) [OF assms(1,2)]] published_holds(4) [OF assms(1,2)] assms(3)
  by simp

lemma positions_rows: "map row_entry (positions k blks) = concat blks"
  by (induction k blks rule: positions.induct) (simp_all add: comp_def split_beta map_snd_enumerate [unfolded o_def])

lemma anchors_exact:
  assumes "sha_ok sha" and "published sha w es r" and "sw_v4 w" and "rid \<noteq> ReplicaId 0"
    and "publish_sorted_entries sha w es = Inr (file, checksum, anchors)"
  shows "case anchors rid of
      None \<Rightarrow> \<forall>e \<in> set es. se_replica e \<noteq> rid
    | Some an \<Rightarrow> \<exists>e \<in> set es. se_replica e = rid \<and> se_seq e = sa_seq an
        \<and> (\<forall>e' \<in> set es. se_replica e' = rid \<longrightarrow> se_seq e' \<le> se_seq e)
        \<and> get_entry_at sha r (se_key e) rid (bid_u32 (sa_block an)) (sa_offset an) = Inr (Some e)"
proof -
  note pub = published_holds [OF assms(1,2)]
  have a: "anchors = anchors_image w 0 (blocks w es) Map.empty"
    using publish_image [OF pub(6,3,2,5), of sha] assms(5) by simp
  show ?thesis
  proof (cases "anchors rid")
    case None
    then have "\<forall>row \<in> set (positions 0 (blocks w es)). se_replica (row_entry row) \<noteq> rid"
      using anchors_image_ok [OF writer_v4 [OF assms(1-3)] assms(4), of "blocks w es"] by (simp add: a anchor_of_def)
    then have "\<forall>e \<in> row_entry ` set (positions 0 (blocks w es)). se_replica e \<noteq> rid" by simp
    then have "\<forall>e \<in> set (concat (blocks w es)). se_replica e \<noteq> rid" unfolding positions_rows [of 0, symmetric] by simp
    then show ?thesis using None pub(4) by simp
  next
    case (Some an)
    then show ?thesis using anchor_read [OF pub(1) assms(3,4)] pub(4) by (simp add: a)
  qed
qed

text \<open>C26. The anchor the writer records for a replica leads \<^verbatim>\<open>get_entry_at\<close> to the newest row
  of that replica in the segment; a replica without an anchor has no row.\<close>

theorem segment_anchors_exact:
  assumes "sha_ok sha" and "published sha w es r" and "sw_v4 w" and "rid \<noteq> ReplicaId 0"
    and "publish_sorted_entries sha w es = Inr (file, checksum, anchors)"
  shows "case anchors rid of
      None \<Rightarrow> \<forall>e \<in> set es. se_replica e \<noteq> rid
    | Some an \<Rightarrow> \<exists>e \<in> set es. se_replica e = rid \<and> se_seq e = sa_seq an
        \<and> (\<forall>e' \<in> set es. se_replica e' = rid \<longrightarrow> se_seq e' \<le> se_seq e)
        \<and> get_entry_at sha r (se_key e) rid (bid_u32 (sa_block an)) (sa_offset an) = Inr (Some e)"
  by (rule anchors_exact [OF assms])

theorem segment_anchors_exact_witness:
  "\<exists>r (an :: segment_anchor). published demo_sha (demo_writer 64) demo_rows r
    \<and> get_entry_at demo_sha r [7] (ReplicaId 5) (bid_u32 (sa_block an)) (sa_offset an) = Inr (Some (demo_row [7] 3 5))"
proof -
  obtain r where r: "published demo_sha (demo_writer 64) demo_rows r" using demo_published by blast
  then obtain fl sm an where p: "publish_sorted_entries demo_sha (demo_writer 64) demo_rows = Inr (fl, sm, an)"
    by (auto simp: published_def split: sum.splits)
  have "sw_v4 (demo_writer 64)" by (simp add: demo_writer_def)
  note ex = segment_anchors_exact [OF demo_sha_ok r this _ p, of "ReplicaId 5"]
  have rows: "e = demo_row [7] 3 5" if "e \<in> set demo_rows" "se_replica e = ReplicaId 5" for e
    using that by (auto simp: demo_rows_def demo_row_def)
  have "demo_row [7] 3 5 \<in> set demo_rows" "se_replica (demo_row [7] 3 5) = ReplicaId 5" "se_key (demo_row [7] 3 5) = [7]"
    by (simp_all add: demo_rows_def demo_row_def)
  note row = this
  show ?thesis
  proof (cases "an (ReplicaId 5)")
    case None
    then show ?thesis using ex row(1,2) by auto
  next
    case (Some x)
    then obtain e where e: "e \<in> set demo_rows" "se_replica e = ReplicaId 5"
      "get_entry_at demo_sha r (se_key e) (ReplicaId 5) (bid_u32 (sa_block x)) (sa_offset x) = Inr (Some e)"
      using ex by auto
    show ?thesis using e(3) r unfolding rows [OF e(1,2)] row(3) by blast
  qed
qed

text \<open>C27. Block reads through the shared cache return what an uncached, verified read returns, for
  any sequence of reads by any set of readers that share one cache under different ids, whatever the
  cache evicts and although a block is verified only the first time.\<close>

theorem segment_cached_reads:
  assumes "\<forall>cid r. rs cid = Some r \<longrightarrow> length (rd_data r) < 2 ^ 32"
    and "\<forall>op \<in> set ops. \<exists>r. rs (fst op) = Some r \<and> snd op < length (rd_data r)"
  shows "cached_reads sha iter rs ops (cache_new cap) (\<lambda>_. {}) = map (\<lambda>op. block_raw sha (the (rs (fst op))) (snd op)) ops"
proof -
  have "\<forall>(cid, i) \<in> set ops. \<exists>r. rs cid = Some r \<and> i < length (rd_data r)" using assms(2) by (simp add: split_beta)
  from cached_reads_ok [OF cache_sound_new assms(1) this] show ?thesis by (simp add: split_beta)
qed

theorem segment_cached_reads_witness:
  "\<exists>r raw. published demo_sha (demo_writer 64) demo_rows r \<and> block_raw demo_sha r 1 = Inr raw
    \<and> cached_reads demo_sha lru_iter [3 \<mapsto> r] [(3, 1), (3, 1)] (cache_new 1000) (\<lambda>_. {}) = [Inr raw, Inr raw]"
proof -
  obtain r where r: "published demo_sha (demo_writer 64) demo_rows r" using demo_published by blast
  note holds = published_holds(1) [OF demo_sha_ok r]
  have n: "length (blocks (demo_writer 64) demo_rows) = 2" by (simp add: demo_blocks)
  then have len: "length (rd_data r) = 2" using holds_basic(2) [OF holds] by simp
  obtain raw where "block_raw demo_sha r 1 = Inr raw" using holds_block [OF holds, of 1] n by auto
  moreover have "cached_reads demo_sha lru_iter [3 \<mapsto> r] [(3, 1), (3, 1)] (cache_new 1000) (\<lambda>_. {})
      = map (\<lambda>op. block_raw demo_sha (the ([3 :: u64 \<mapsto> r] (fst op))) (snd op)) [(3, 1), (3, 1)]"
    by (rule segment_cached_reads) (simp_all add: len)
  ultimately show ?thesis using r by auto
qed

text \<open>C28. Every range scan ends, and until it ends each call yields a row: the scan cursor yields
  rows of strictly ascending keys, exactly the newest byte row of each key of the range that has one,
  and from then on answers that it is exhausted.\<close>

theorem segment_scan_heads:
  assumes "sha_ok sha" and "published sha w es r"
  shows "\<exists>heads. (\<forall>n. scan_drain sha r n (scan_iter r start end')
        = map (Inr \<circ> Some) (take n heads) @ replicate (n - length heads) (Inr None))
    \<and> sorted_wrt (\<lambda>a b. se_key a < se_key b) heads
    \<and> (\<forall>e. e \<in> set heads \<longleftrightarrow> newest_byte_row es e \<and> start \<le> se_key e \<and> \<not> past_end end' (se_key e))"
proof -
  let ?heads = "scan_spec start end' None es"
  note pub = published_holds [OF assms]
  have "\<forall>n. scan_drain sha r n (scan_iter r start end') = map (Inr \<circ> Some) (take n ?heads) @ replicate (n - length ?heads) (Inr None)"
    using scan_iter_reads [OF pub(1) refl] pub(4) by simp
  moreover have "e \<in> set ?heads \<longleftrightarrow> newest_byte_row es e \<and> start \<le> se_key e \<and> \<not> past_end end' (se_key e)" for e
    using scan_spec_mem [OF pub(3), of None] by simp
  ultimately show ?thesis using scan_spec_sorted [OF pub(3)] by blast
qed

theorem segment_scan_heads_witness:
  "\<exists>r. published demo_sha (demo_writer 64) demo_rows r
    \<and> scan_drain demo_sha r 4 (scan_iter r [7] None)
      = [Inr (Some (demo_row [7] 2 0)), Inr (Some (demo_row [9] 4 0)), Inr None, Inr None]"
proof -
  obtain r where r: "published demo_sha (demo_writer 64) demo_rows r" using demo_published by blast
  obtain heads where h: "\<And>n. scan_drain demo_sha r n (scan_iter r [7] None)
        = map (Inr \<circ> Some) (take n heads) @ replicate (n - length heads) (Inr None)"
    "sorted_wrt (\<lambda>a b. se_key a < se_key b) heads"
    "\<And>e. e \<in> set heads \<longleftrightarrow> newest_byte_row demo_rows e \<and> [7] \<le> se_key e \<and> \<not> past_end None (se_key e)"
    using segment_scan_heads [OF demo_sha_ok r, of "[7]" None] by auto
  have "newest_byte_row demo_rows e \<longleftrightarrow> e = demo_row [7] 2 0 \<or> e = demo_row [9] 4 0" for e
    by (auto simp: newest_byte_row_def demo_rows_def demo_row_def word_le_nat_alt)
  moreover have "[7] \<le> se_key (demo_row [7] 2 0)" "[7] \<le> se_key (demo_row [9] 4 0)" "\<And>k. \<not> past_end None k"
    by (simp_all add: demo_row_def past_end_def)
  ultimately have set: "e \<in> set heads \<longleftrightarrow> e = demo_row [7] 2 0 \<or> e = demo_row [9] 4 0" for e unfolding h(3) by blast
  have keys: "se_key (demo_row [7] 2 0) = [7]" "se_key (demo_row [9] 4 0) = [9]" by (simp_all add: demo_row_def)
  have "set heads = {demo_row [7] 2 0, demo_row [9] 4 0}" using set by blast
  then have "se_key ` set heads = {[7], [9]}" using keys by simp
  then have "map se_key heads = [[7], [9]]" using h(2) by (intro strict_sorted_equal) (simp_all add: sorted_wrt_map)
  then obtain a b where ab: "heads = [a, b]" "se_key a = [7]" "se_key b = [9]" by (auto simp: map_eq_Cons_conv)
  moreover have "a = demo_row [7] 2 0" "b = demo_row [9] 4 0" using set [of a] set [of b] ab keys by auto
  ultimately have "heads = [demo_row [7] 2 0, demo_row [9] 4 0]" by simp
  then show ?thesis using h(1) [of 4] r by (auto simp: numeral_eq_Suc)
qed

end
