(* ===== verification/DbLayers.thy ===== *)
theory DbLayers
  imports DbRead SegmentProps
begin

text \<open>
  The point reads of the database over published segments: what the layers hold, that \<^verbatim>\<open>get\<close> answers
  from the newest layer that has the key, and that the batch read answers each key as \<^verbatim>\<open>get\<close> does.
\<close>

section \<open>Layers\<close>

text \<open>A layer maps a key to the value of its newest byte row; the value of a tombstone is \<open>None\<close>.\<close>

definition mem_layer :: "memtable \<Rightarrow> bytes \<Rightarrow> bytes option option" where
  "mem_layer m k = map_option br_value (mt_get m k)"

definition rows_layer :: "segment_entry list \<Rightarrow> bytes \<Rightarrow> bytes option option" where
  "rows_layer es k = map_option row_value (find (matches k (Some (ReplicaId 0))) es)"

text \<open>All layers of a state, newest first, with the rows \<open>ess\<close> of its segments.\<close>

definition state_layers :: "db_state \<Rightarrow> segment_entry list list \<Rightarrow> (bytes \<Rightarrow> bytes option option) list" where
  "state_layers st ess = mem_layer (st_active st) # map mem_layer (rev (st_immutables st)) @ map rows_layer (rev ess)"

definition visible :: "db_state \<Rightarrow> segment_entry list list \<Rightarrow> bytes \<Rightarrow> bytes option" where
  "visible st ess k = (case find_map (\<lambda>l. l k) (state_layers st ess) of Some v \<Rightarrow> v | None \<Rightarrow> None)"

definition holds_segments :: "digest_fn \<Rightarrow> db_state \<Rightarrow> segment_entry list list \<Rightarrow> bool" where
  "holds_segments sha st ess \<longleftrightarrow> list_all2 (\<lambda>r es. \<exists>w. published sha w es r) (st_segments st) ess"

definition byte_key :: "segment_entry list list \<Rightarrow> bytes \<Rightarrow> bool" where
  "byte_key ess k \<longleftrightarrow> (\<forall>es \<in> set ess. \<forall>e \<in> set es. se_key e = k \<longrightarrow> se_replica e = ReplicaId 0)"

section \<open>One segment\<close>

lemma published_range:
  assumes "sha_ok sha" and "published sha w es r"
  shows "rd_key_min r = se_key (hd es)" and "rd_key_max r = se_key (last es)"
    and "rd_seq_lo r = Min (set (map se_seq es))" and "rd_seq_hi r = Max (set (map se_seq es))"
proof -
  note pub = published_holds [OF assms]
  have "open_inner sha (file_image sha w es) = Inr r"
    using assms(2) unfolding published_def publish_image [OF pub(6,3,2,5)] by simp
  then show "rd_key_min r = se_key (hd es)" "rd_key_max r = se_key (last es)"
    "rd_seq_lo r = Min (set (map se_seq es))" "rd_seq_hi r = Max (set (map se_seq es))"
    using open_published [OF assms(1) pub(6,3,2) segment_fits_length [OF assms(1) pub(6,3,2)]] by auto
qed

lemma publish_order_range:
  assumes "publish_order es" and "e \<in> set es"
  shows "se_key (hd es) \<le> se_key e" and "se_key e \<le> se_key (last es)"
proof -
  have s: "sorted (map se_key es)" using publish_order_keys [OF assms(1)] by (simp add: keys_sorted_def)
  obtain i where i: "i < length es" "e = es ! i" using assms(2) by (auto simp: in_set_conv_nth)
  have ne: "es \<noteq> []" using assms(2) by auto
  show "se_key (hd es) \<le> se_key e" using sorted_nth_mono [OF s, of 0 i] i ne by (simp add: hd_conv_nth)
  show "se_key e \<le> se_key (last es)" using sorted_nth_mono [OF s, of i "length es - 1"] i ne by (simp add: last_conv_nth)
qed

lemma bloom_total:
  assumes "reader_holds sha w blks r" and "concat blks \<noteq> []"
  shows "bloom_may_contain_hashes r h1 h2 \<noteq> None"
proof -
  let ?m = "BLOOM_BITS_PER_KEY * length (concat blks)"
  have m: "0 < ?m" using assms(2) by (simp add: BLOOM_BITS_PER_KEY_def del: concat_eq_Nil_conv)
  have r: "rd_bloom_m r = word_of_nat ?m" "?m < 2 ^ 32" using assms(1) by (auto simp: reader_holds_def)
  have "unat (rd_bloom_m r) = ?m" unfolding r(1) by (rule unat_of_nat_small) (use r(2) in simp)
  then have "rd_bloom_m r \<noteq> 0" using m unat_eq_0_iff by (metis less_irrefl_nat)
  then show ?thesis by (simp add: bloom_may_contain_hashes_def)
qed

text \<open>A segment that the range or the filter skips has no row of the key.\<close>

lemma segment_skips_ok:
  assumes "sha_ok sha" and "published sha w es r"
  shows "\<exists>b. segment_skips (bloom_hashes sha key) key r = Inr b \<and> (b \<longrightarrow> (\<forall>e \<in> set es. se_key e \<noteq> key))"
proof -
  note pub = published_holds [OF assms] and range = published_range(1,2) [OF assms]
  have "concat (blocks w es) \<noteq> []" using pub(2) by (simp only: pub(4)) simp
  from bloom_total [OF pub(1) this]
  obtain may where may: "bloom_may_contain_hashes r (fst (bloom_hashes sha key)) (snd (bloom_hashes sha key)) = Some may"
    by blast
  have "may" if "e \<in> set es" "se_key e = key" for e
    using bloom_no_false_negative [OF pub(1), of e] that may pub(4) by (simp add: bloom_may_contain_def split: prod.splits)
  moreover have "\<not> (key < rd_key_min r \<or> rd_key_max r < key)" if "e \<in> set es" "se_key e = key" for e
    using publish_order_range [OF pub(3) that(1)] that(2) range by (simp add: not_less)
  ultimately show ?thesis using may by (auto simp: segment_skips_def)
qed

section \<open>Point reads\<close>

text \<open>The entry a probe of one segment comes back with.\<close>

definition seg_found :: "digest_fn \<Rightarrow> segment_reader \<Rightarrow> bytes \<Rightarrow> segment_entry option" where
  "seg_found sha r key =
    (if segment_skips (bloom_hashes sha key) key r = Inr True then None else projr (segment_get sha r key))"

lemma segment_get_total:
  assumes "sha_ok sha" and "published sha w es r"
  shows "segment_get sha r key = Inr (byte_answer r (blocks w es) key)"
  using segment_get_located [OF published_holds(1) [OF assms]] by (simp add: byte_answer_def split: option.splits)

lemma probe_segments_found:
  assumes "sha_ok sha" and "\<forall>r \<in> set rs. \<exists>w es. published sha w es r"
  shows "probe_segments sha key rs = Inr (case find_map (\<lambda>r. seg_found sha r key) rs of Some e \<Rightarrow> row_value e | None \<Rightarrow> None)"
  using assms(2)
proof (induction rs)
  case (Cons r rs)
  then obtain w es where r: "published sha w es r" by auto
  obtain b where "segment_skips (bloom_hashes sha key) key r = Inr b" using segment_skips_ok [OF assms(1) r] by blast
  then show ?case using Cons segment_get_total [OF assms(1) r] by (auto simp: seg_found_def split: option.splits)
qed simp

lemma seg_found_rows:
  assumes "sha_ok sha" and "published sha w es r" and "\<forall>e \<in> set es. se_key e = key \<longrightarrow> se_replica e = ReplicaId 0"
  shows "seg_found sha r key = find (matches key (Some (ReplicaId 0))) es"
proof -
  note pub = published_holds [OF assms(1,2)]
  have "segment_get sha r key = Inr (find (matches key (Some (ReplicaId 0))) es)"
    using segment_get_bytes [OF pub(1), of key] assms(3) pub(4) by simp
  moreover have "find (matches key (Some (ReplicaId 0))) es = None"
    if "segment_skips (bloom_hashes sha key) key r = Inr True"
    using segment_skips_ok [OF assms(1,2), of key] that by (auto intro!: find_none)
  ultimately show ?thesis by (simp add: seg_found_def)
qed

lemma mem_probe_layers:
  "map_option br_value (mem_probe st k) = find_map (\<lambda>l. l k) (mem_layer (st_active st) # map mem_layer (rev (st_immutables st)))"
proof -
  have "map_option br_value (find_map (\<lambda>m. mt_get m k) ms) = find_map (\<lambda>l. l k) (map mem_layer ms)" for ms
    by (induction ms) (simp_all add: mem_layer_def split: option.splits)
  then show ?thesis by (simp add: mem_probe_def mem_layer_def split: option.splits)
qed

lemma get_inner_layers:
  assumes "sha_ok sha" and "holds_segments sha st ess" and "byte_key ess key"
  shows "get_inner sha st key = Inr (visible st ess key)"
proof -
  have seg: "find_map (\<lambda>l. l key) (map rows_layer yss) = map_option row_value (find_map (\<lambda>r. seg_found sha r key) xs)"
    if "list_all2 (\<lambda>r es. \<exists>w. published sha w es r) xs yss" "byte_key yss key" for xs yss
    using that
  proof (induction rule: list_all2_induct)
    case (Cons r rs es ess)
    then obtain w where r: "published sha w es r" by blast
    have "byte_key ess key" "\<forall>e \<in> set es. se_key e = key \<longrightarrow> se_replica e = ReplicaId 0"
      using Cons.prems by (auto simp: byte_key_def)
    then show ?case using Cons.IH seg_found_rows [OF assms(1) r] by (auto simp: rows_layer_def split: option.splits)
  qed simp
  have rs: "list_all2 (\<lambda>r es. \<exists>w. published sha w es r) (rev (st_segments st)) (rev ess)" "byte_key (rev ess) key"
    using assms(2,3) by (auto simp: holds_segments_def byte_key_def)
  then have "\<forall>r \<in> set (rev (st_segments st)). \<exists>w es. published sha w es r" by (fastforce simp: list_all2_conv_all_nth in_set_conv_nth)
  from probe_segments_found [OF assms(1) this] seg [OF rs] mem_probe_layers [of st key]
  show ?thesis
    by (cases "mem_probe st key")
      (auto simp: get_inner_def visible_def state_layers_def find_map_append split: option.splits)
qed

section \<open>Batch reads\<close>

lemma unique_positions_ok:
  "case unique_positions keys of (fp, unique) \<Rightarrow>
    (\<forall>k p. fp k = Some p \<longrightarrow> p < length keys \<and> keys ! p = k \<and> p \<in> set unique) \<and> (\<forall>k \<in> set keys. fp k \<noteq> None)
    \<and> (\<forall>p \<in> set unique. p < length keys)"
proof (induction keys rule: rev_induct)
  case (snoc x xs)
  obtain fp unique where u: "unique_positions xs = (fp, unique)" by fastforce
  have step: "unique_positions (xs @ [x]) = (if fp x = None then (fp(x \<mapsto> length xs), unique @ [length xs]) else (fp, unique))"
    using u by (simp add: unique_positions_def enumerate_append_eq)
  have IH: "\<And>k p. fp k = Some p \<Longrightarrow> p < length xs \<and> xs ! p = k \<and> p \<in> set unique" "\<And>k. k \<in> set xs \<Longrightarrow> fp k \<noteq> None"
    "\<And>p. p \<in> set unique \<Longrightarrow> p < length xs" using snoc u by auto
  have *: "p < Suc (length xs) \<and> (xs @ [x]) ! p = k \<and> p \<in> set unique" if "fp k = Some p" for k p
    using IH(1) [OF that] by (simp add: nth_append)
  show ?case
  proof (cases "fp x = None")
    case True
    then show ?thesis using step * IH(2,3) by (auto simp: less_SucI)
  next
    case False
    then show ?thesis using step * IH(2,3) by (auto simp: less_SucI)
  qed
qed (simp add: unique_positions_def)

definition put_all :: "(nat \<Rightarrow> 'a option) \<Rightarrow> nat list \<Rightarrow> 'a list \<Rightarrow> 'a list" where
  "put_all f ps xs = fold (\<lambda>p xs. case f p of None \<Rightarrow> xs | Some v \<Rightarrow> xs[p := v]) ps xs"

lemma put_all_simps [simp]:
  "put_all f [] xs = xs"
  "put_all f (p # ps) xs = put_all f ps (case f p of None \<Rightarrow> xs | Some v \<Rightarrow> xs[p := v])"
  by (simp_all add: put_all_def)

lemma put_all_nth:
  "q < length xs \<Longrightarrow> put_all f ps xs ! q
    = (case (if q \<in> set ps then f q else None) of None \<Rightarrow> xs ! q | Some v \<Rightarrow> v)"
proof (induction ps arbitrary: xs)
  case (Cons p ps)
  show ?case
  proof (cases "f p")
    case None
    then show ?thesis using Cons by (cases "q = p") simp_all
  next
    case (Some v)
    then show ?thesis using Cons by (cases "q = p"; cases "q \<in> set ps") (simp_all split: option.splits)
  qed
qed simp

lemma put_all_length: "length (put_all f ps xs) = length xs"
  by (induction ps arbitrary: xs) (auto split: option.splits)

lemma mem_pass_ok:
  "mem_pass st keys unique answers =
    (put_all (\<lambda>p. map_option br_value (mem_probe st (keys ! p))) unique answers,
     filter (\<lambda>p. mem_probe st (keys ! p) = None) unique)"
proof -
  have "fold (\<lambda>pos (answers, left). case mem_probe st (keys ! pos) of
        Some e \<Rightarrow> (answers[pos := br_value e], left) | None \<Rightarrow> (answers, left @ [pos])) unique (answers, left) =
    (put_all (\<lambda>p. map_option br_value (mem_probe st (keys ! p))) unique answers,
     left @ filter (\<lambda>p. mem_probe st (keys ! p) = None) unique)" for left
    by (induction unique arbitrary: answers left) (auto split: option.splits)
  then show ?thesis by (simp add: mem_pass_def)
qed

lemma wanted_positions_ok:
  assumes "sha_ok sha" and "published sha w es r"
  shows "wanted_positions sha keys r left =
    Inr (filter (\<lambda>p. segment_skips (bloom_hashes sha (keys ! p)) (keys ! p) r \<noteq> Inr True) left)"
proof (induction left)
  case (Cons p ps)
  obtain b where "segment_skips (bloom_hashes sha (keys ! p)) (keys ! p) r = Inr b"
    using segment_skips_ok [OF assms] by blast
  then show ?case using Cons by simp
qed simp

lemma fill_answers_map:
  "fill_answers (map (\<lambda>p. (p, f p)) ps) xs = put_all (\<lambda>p. map_option row_value (f p)) ps xs"
  unfolding fill_answers_def by (induction ps arbitrary: xs) (simp_all split: option.splits)

lemma resolved_now_map: "p \<in> resolved_now (map (\<lambda>p. (p, f p)) ps) \<longleftrightarrow> p \<in> set ps \<and> f p \<noteq> None"
  by (auto simp: resolved_now_def filter_map comp_def)

lemma segment_passes_ok:
  assumes "sha_ok sha" and "\<forall>r \<in> set rs. \<exists>w es. published sha w es r" and "\<forall>p \<in> set left. p < length answers"
  shows "\<exists>xs. segment_passes sha keys rs left answers = Inr xs \<and> length xs = length answers
    \<and> (\<forall>q < length answers. xs ! q = (case (if q \<in> set left then find_map (\<lambda>r. seg_found sha r (keys ! q)) rs else None) of
        None \<Rightarrow> answers ! q | Some e \<Rightarrow> row_value e))"
  using assms(2,3)
proof (induction rs arbitrary: left answers)
  case (Cons r rs)
  then obtain w es where r: "published sha w es r" by auto
  let ?skip = "\<lambda>p. segment_skips (bloom_hashes sha (keys ! p)) (keys ! p) r = Inr True"
  let ?f = "\<lambda>p. byte_answer r (blocks w es) (keys ! p)"
  let ?w = "filter (\<lambda>p. \<not> ?skip p) left"
  have found: "seg_found sha r (keys ! p) = (if ?skip p then None else ?f p)" for p
    using segment_get_total [OF assms(1) r] by (simp add: seg_found_def)
  have many: "segment_get_many sha r (map (\<lambda>p. keys ! p) ?w) = Inr (map ?f ?w)"
    using segment_get_many_reads [OF published_holds(1) [OF assms(1) r]] by (simp add: comp_def)
  define a where "a = fill_answers (map (\<lambda>p. (p, ?f p)) ?w) answers"
  let ?left = "filter (\<lambda>p. p \<notin> resolved_now (map (\<lambda>p. (p, ?f p)) ?w)) left"
  have none: "?w = [] \<Longrightarrow> a = answers \<and> ?left = left" by (simp add: a_def fill_answers_def resolved_now_def)
  have "zip ?w (map ?f ?w) = map (\<lambda>p. (p, ?f p)) ?w" by (simp add: zip_map2 zip_same_conv_map)
  then have step: "segment_passes sha keys (r # rs) left answers = segment_passes sha keys rs ?left a"
    using many wanted_positions_ok [OF assms(1) r] none by (cases "?w = []") (simp_all add: a_def Let_def del: filter_empty_conv)
  have a: "length a = length answers" "\<And>q. q < length answers \<Longrightarrow> a ! q
      = (case (if q \<in> set ?w then map_option row_value (?f q) else None) of None \<Rightarrow> answers ! q | Some v \<Rightarrow> v)"
    unfolding a_def fill_answers_map by (simp_all add: put_all_length put_all_nth)
  have left: "p \<in> set ?left \<longleftrightarrow> p \<in> set left \<and> seg_found sha r (keys ! p) = None" for p
    by (auto simp: resolved_now_map found)
  obtain xs where xs: "segment_passes sha keys rs ?left a = Inr xs" "length xs = length answers"
    "\<forall>q < length answers. xs ! q = (case (if q \<in> set ?left then find_map (\<lambda>r. seg_found sha r (keys ! q)) rs else None) of
        None \<Rightarrow> a ! q | Some e \<Rightarrow> row_value e)"
    using Cons.IH [of ?left a] Cons.prems a(1) by auto
  have "xs ! q = (case (if q \<in> set left then find_map (\<lambda>r. seg_found sha r (keys ! q)) (r # rs) else None) of
        None \<Rightarrow> answers ! q | Some e \<Rightarrow> row_value e)" if "q < length answers" for q
    using xs(3) that a(2) [OF that] left [of q] found [of q] by (auto split: option.splits if_splits)
  then show ?case using step xs(1,2) by auto
qed simp

lemma fill_duplicates_ok:
  assumes "\<forall>k \<in> set keys. \<exists>p. fp k = Some p \<and> p < length keys \<and> keys ! p = k" and "length xs = length keys"
    and "\<forall>k \<in> set keys. xs ! (the (fp k)) = g k"
  shows "fold (\<lambda>(pos, key) xs. case fp key of Some first \<Rightarrow> if first \<noteq> pos then xs[pos := xs ! first] else xs | None \<Rightarrow> xs)
    (enumerate 0 keys) xs = map g keys"
proof -
  let ?step = "\<lambda>(pos, key) xs. case fp key of Some first \<Rightarrow> if first \<noteq> pos then xs[pos := xs ! first] else xs | None \<Rightarrow> xs"
  have "length (fold ?step (enumerate 0 (take n keys)) xs) = length keys
      \<and> (\<forall>q < length keys. fold ?step (enumerate 0 (take n keys)) xs ! q
          = (if q < n \<or> fp (keys ! q) = Some q then g (keys ! q) else xs ! q))" if "n \<le> length keys" for n
    using that
  proof (induction n)
    case 0
    have "xs ! q = g (keys ! q)" if "q < length keys" "fp (keys ! q) = Some q" for q
      using assms(3) that by (metis nth_mem option.sel)
    then show ?case using assms(2) by simp
  next
    case (Suc n)
    let ?ys = "fold ?step (enumerate 0 (take n keys)) xs"
    obtain p where p: "fp (keys ! n) = Some p" "p < length keys" "keys ! p = keys ! n"
      using assms(1) Suc.prems by (metis Suc_le_lessD nth_mem)
    have "take (Suc n) keys = take n keys @ [keys ! n]" using Suc.prems by (simp add: take_Suc_conv_app_nth)
    then have "fold ?step (enumerate 0 (take (Suc n) keys)) xs = (if p \<noteq> n then ?ys[n := ?ys ! p] else ?ys)"
      using p(1) Suc.prems by (simp add: enumerate_append_eq)
    moreover have "?ys ! p = g (keys ! n)" using Suc p by simp
    ultimately show ?case using Suc p by (auto simp: nth_list_update less_Suc_eq)
  qed
  from this [of "length keys"] show ?thesis by (intro nth_equalityI) simp_all
qed

lemma get_many_get:
  assumes "sha_ok sha" and "\<forall>r \<in> set (st_segments st). \<exists>w es. published sha w es r"
  shows "get_many_inner sha st keys = Inr (map (\<lambda>k. projr (get_inner sha st k)) keys) \<and> (\<exists>v. get_inner sha st k = Inr v)"
proof -
  let ?ans = "\<lambda>k. projr (get_inner sha st k)"
  let ?probe = "\<lambda>k. find_map (\<lambda>r. seg_found sha r k) (rev (st_segments st))"
  have seg: "\<forall>r \<in> set (rev (st_segments st)). \<exists>w es. published sha w es r" using assms(2) by simp
  have ans: "get_inner sha st k = Inr (case mem_probe st k of Some e \<Rightarrow> br_value e
      | None \<Rightarrow> (case ?probe k of Some e \<Rightarrow> row_value e | None \<Rightarrow> None))" for k
    using probe_segments_found [OF assms(1) seg] by (simp add: get_inner_def split: option.splits)
  obtain fp unique where u: "unique_positions keys = (fp, unique)" by fastforce
  have fp: "\<And>k p. fp k = Some p \<Longrightarrow> p < length keys \<and> keys ! p = k \<and> p \<in> set unique" "\<And>k. k \<in> set keys \<Longrightarrow> fp k \<noteq> None"
    "\<forall>p \<in> set unique. p < length keys"
    using unique_positions_ok [of keys] u by auto
  define a where "a = put_all (\<lambda>p. map_option br_value (mem_probe st (keys ! p))) unique
    (replicate (length keys) None)"
  let ?left = "filter (\<lambda>p. mem_probe st (keys ! p) = None) unique"
  have mem: "mem_pass st keys unique (replicate (length keys) None) = (a, ?left)" by (simp add: mem_pass_ok a_def)
  have a: "length a = length keys" "\<And>q. q < length keys \<Longrightarrow> a ! q = (case (if q \<in> set unique
      then map_option br_value (mem_probe st (keys ! q)) else None) of None \<Rightarrow> None | Some v \<Rightarrow> v)"
    unfolding a_def by (simp_all add: put_all_length put_all_nth split: option.splits)
  obtain xs where xs: "segment_passes sha keys (rev (st_segments st)) ?left a = Inr xs" "length xs = length keys"
    "\<forall>q < length keys. xs ! q = (case (if q \<in> set ?left then ?probe (keys ! q) else None) of None \<Rightarrow> a ! q | Some e \<Rightarrow> row_value e)"
    using segment_passes_ok [OF assms(1) seg, of ?left a keys] fp(3) a(1) by auto
  have "xs ! (the (fp k)) = ?ans k" if k: "k \<in> set keys" for k
  proof -
    obtain p where p: "fp k = Some p" "p < length keys" "keys ! p = k" "p \<in> set unique" using fp(1,2) k by fastforce
    then show ?thesis using xs(3) a(2) [OF p(2)] by (auto simp: ans split: option.splits)
  qed
  moreover have "\<forall>k \<in> set keys. \<exists>p. fp k = Some p \<and> p < length keys \<and> keys ! p = k" using fp(1,2) by fastforce
  ultimately show ?thesis using fill_duplicates_ok [of keys fp xs ?ans] xs(1,2) u mem ans
    by (simp add: get_many_inner_def)
qed

end
