(* ===== verification/DbScan.thy ===== *)
theory DbScan
  imports DbLayers
begin

text \<open>
  The prefix scan of the database: the range that \<^verbatim>\<open>prefix_end\<close> bounds, what the streams of the layers
  yield, and that the heap merge returns the newest value of every key once, in ascending order, after a
  number of pops bounded by the rows of the layers.
\<close>

section \<open>The end of a prefix\<close>

lemma bump_rev_Some:
  "bump_rev bs = Some cs \<Longrightarrow> \<exists>n b ys. bs = replicate n (- 1) @ b # ys \<and> cs = replicate n 0 @ (b + 1) # ys \<and> b + 1 \<noteq> 0"
proof (induction bs arbitrary: cs)
  case (Cons b bs)
  show ?case
  proof (cases "b + 1 = 0")
    case True
    then have b: "b = - 1" by (simp add: add_eq_0_iff2)
    obtain ds where ds: "bump_rev bs = Some ds" "cs = 0 # ds" using Cons.prems True by auto
    obtain n c ys where "bs = replicate n (- 1) @ c # ys" "ds = replicate n 0 @ (c + 1) # ys" "c + 1 \<noteq> 0"
      using Cons.IH [OF ds(1)] by blast
    then show ?thesis using b ds(2) by (intro exI [of _ "Suc n"]) auto
  next
    case False
    then show ?thesis using Cons.prems by (intro exI [of _ 0] exI [of _ b] exI [of _ bs]) auto
  qed
qed simp

lemma bump_rev_None: "bump_rev bs = None \<Longrightarrow> bs = replicate (length bs) (- 1)"
proof (induction bs)
  case (Cons b bs)
  then have "b + 1 = 0" "bump_rev bs = None" by (auto split: if_splits)
  then show ?case using Cons.IH by (simp add: add_eq_0_iff2)
qed simp

lemma prefix_end_Some:
  assumes "prefix_end pre = Some e"
  shows "\<exists>xs b n. pre = xs @ b # replicate n (- 1) \<and> e = xs @ (b + 1) # replicate n 0 \<and> b + 1 \<noteq> 0"
proof -
  obtain cs where cs: "bump_rev (rev pre) = Some cs" "e = rev cs" using assms by (auto simp: prefix_end_def split: if_splits)
  obtain n b ys where "rev pre = replicate n (- 1) @ b # ys" "cs = replicate n 0 @ (b + 1) # ys" "b + 1 \<noteq> 0"
    using bump_rev_Some [OF cs(1)] by blast
  moreover from this(1) have "pre = rev ys @ b # replicate n (- 1)" by (metis append_Cons append_assoc append_Nil rev_append rev_rev_ident rev_replicate rev.simps(2))
  ultimately show ?thesis using cs(2) by (intro exI [of _ "rev ys"] exI [of _ b] exI [of _ n]) simp
qed

lemma append_less_same: "(xs @ ys < xs @ zs) = (ys < (zs :: 'a :: linorder list))"
  by (induction xs) simp_all

lemma append_le_same: "(xs @ ys \<le> xs @ zs) = (ys \<le> (zs :: 'a :: linorder list))"
  by (induction xs) simp_all

lemma word_between: "b \<le> c \<Longrightarrow> c < b + 1 \<Longrightarrow> c = (b :: 'a :: len word)"
  by (metis leD inc_le order_le_less)

lemma between_same_head:
  assumes "xs @ us \<le> k" and "k < xs @ vs"
  shows "\<exists>t. k = xs @ t \<and> us \<le> t \<and> t < (vs :: 'a :: linorder list)"
  using assms
proof (induction xs arbitrary: k)
  case (Cons x xs)
  then obtain c k' where k: "k = c # k'" by (cases k) simp_all
  then have "c = x" "xs @ us \<le> k'" "k' < xs @ vs" using Cons.prems by auto
  then show ?case using Cons.IH k by auto
qed simp

text \<open>Every key with the prefix lies below the bound; the keys between are exactly those with the prefix
  when the last byte of the prefix does not wrap.\<close>

lemma prefix_end_covers:
  assumes "prefix_end pre = Some e" and "starts_with k pre"
  shows "pre \<le> k \<and> k < e"
proof -
  obtain xs b n where d: "pre = xs @ b # replicate n (- 1)" "e = xs @ (b + 1) # replicate n 0" "b + 1 \<noteq> 0"
    using prefix_end_Some [OF assms(1)] by blast
  obtain t where "k = pre @ t" using assms(2) unfolding starts_with_def by (metis append_take_drop_id)
  moreover have "b < b + 1" using d(3) by (rule word_succ_less)
  ultimately show ?thesis using starts_with_ge [OF assms(2)] by (simp add: d append_less_same)
qed

lemma prefix_end_exact:
  assumes "prefix_end pre = Some e" and "last pre \<noteq> - 1" and "pre \<le> k" and "k < e"
  shows "starts_with k pre"
proof -
  obtain xs b n where d: "pre = xs @ b # replicate n (- 1)" "e = xs @ (b + 1) # replicate n 0" "b + 1 \<noteq> 0"
    using prefix_end_Some [OF assms(1)] by blast
  have "n = 0" using assms(2) d(1) by (cases n) (simp_all flip: replicate_append_same)
  then have le: "xs @ [b] \<le> k" "k < xs @ [b + 1]" using assms(3,4) d by simp_all
  obtain t where t: "k = xs @ t" "[b] \<le> t" "t < [b + 1]" using between_same_head [OF le] by blast
  then obtain c t' where "t = c # t'" by (cases t) simp_all
  then have "c = b" using t word_between [of b c] by auto
  then show ?thesis using t \<open>t = c # t'\<close> d(1) \<open>n = 0\<close> by (simp add: starts_with_def)
qed

lemma prefix_end_leak:
  assumes "prefix_end pre = Some e" and "last pre = - 1"
  shows "\<exists>k. pre \<le> k \<and> k < e \<and> \<not> starts_with k pre"
proof -
  obtain xs b n where d: "pre = xs @ b # replicate n (- 1)" "e = xs @ (b + 1) # replicate n 0" "b + 1 \<noteq> 0"
    using prefix_end_Some [OF assms(1)] by blast
  have lt: "b < b + 1" using d(3) by (rule word_succ_less)
  have "n \<noteq> 0" using assms(2) d(1,3) by (cases n) auto
  then have "xs @ [b + 1] < e" using d(2) by (cases n) (simp_all add: append_less_same)
  moreover have "pre \<le> xs @ [b + 1]" using lt by (simp add: d(1) append_le_same)
  moreover have "\<not> starts_with (xs @ [b + 1]) pre" using lt by (auto simp: d(1) starts_with_def)
  ultimately show ?thesis by blast
qed

lemma prefix_end_None:
  assumes "prefix_end pre = None" and "pre \<le> k"
  shows "starts_with k pre"
proof -
  have "bump_rev (rev pre) = None \<or> pre = []" using assms(1) by (auto simp: prefix_end_def split: if_splits)
  then have "rev pre = replicate (length pre) (- 1)" using bump_rev_None [of "rev pre"] by auto
  then have pre: "pre = replicate (length pre) (- 1)" by (metis rev_replicate rev_rev_ident)
  have "replicate n (- 1) \<le> k \<Longrightarrow> take n k = replicate n (- 1 :: byte)" for n
  proof (induction n arbitrary: k)
    case (Suc n)
    then obtain c k' where k: "k = c # k'" by (cases k) simp_all
    have "\<not> - 1 < c" by (simp add: not_less)
    then show ?case using Suc k by auto
  qed simp
  from this [of "length pre"] show ?thesis using assms(2) pre by (simp add: starts_with_def)
qed

section \<open>Streams\<close>

primrec stream_drain :: "digest_fn \<Rightarrow> nat \<Rightarrow> scan_stream \<Rightarrow> merge_entry option fres list" where
  "stream_drain sha 0 s = []"
| "stream_drain sha (Suc n) s = (case stream_next sha s of (x, s') \<Rightarrow> x # stream_drain sha n s')"

definition yields :: "digest_fn \<Rightarrow> scan_stream \<Rightarrow> merge_entry list \<Rightarrow> bool" where
  "yields sha s xs \<longleftrightarrow>
    (\<forall>n. stream_drain sha n s = map (Inr \<circ> Some) (take n xs) @ replicate (n - length xs) (Inr None))"

lemma yields_next:
  assumes "yields sha s xs"
  shows "\<exists>s'. stream_next sha s = (Inr (case xs of [] \<Rightarrow> None | x # _ \<Rightarrow> Some x), s') \<and> yields sha s' (tl xs)"
proof -
  obtain x s' where x: "stream_next sha s = (x, s')" by fastforce
  have d: "stream_drain sha (Suc n) s = map (Inr \<circ> Some) (take (Suc n) xs) @ replicate (Suc n - length xs) (Inr None)" for n
    using assms unfolding yields_def by blast
  then have "x # stream_drain sha n s' = (case xs of [] \<Rightarrow> Inr None | y # _ \<Rightarrow> Inr (Some y))
      # map (Inr \<circ> Some) (take n (tl xs)) @ replicate (n - length (tl xs)) (Inr None)" for n
    using d [of n] x by (cases xs) simp_all
  then show ?thesis using x by (cases xs) (simp_all add: yields_def)
qed

lemma yields_mem: "yields sha (MemStream xs) xs"
proof -
  have "stream_drain sha n (MemStream xs) = map (Inr \<circ> Some) (take n xs) @ replicate (n - length xs) (Inr None)" for n
    by (induction n arbitrary: xs) (case_tac xs; simp)+
  then show ?thesis by (simp add: yields_def)
qed

lemma yields_seg:
  assumes "\<And>n. scan_drain sha r n sc = map (Inr \<circ> Some) (take n heads) @ replicate (n - length heads) (Inr None)"
  shows "yields sha (SegStream r sc) (map (\<lambda>e. (se_key e, row_value e)) heads)"
proof -
  have drain: "stream_drain sha n (SegStream r sc) = map (map_sum id (map_option (\<lambda>e. (se_key e, row_value e)))) (scan_drain sha r n sc)" for n
  proof (induction n arbitrary: sc)
    case (Suc n)
    obtain x sc' where "scan_next sha r sc = (x, sc')" by fastforce
    then show ?case using Suc by (cases x) (auto split: option.splits)
  qed simp
  show ?thesis unfolding yields_def drain assms by (simp add: take_map)
qed

section \<open>The merge\<close>

text \<open>The newest run that has the key, the newest being the last.\<close>

definition winner :: "merge_entry list list \<Rightarrow> bytes \<Rightarrow> bytes option option" where
  "winner runs k = find_map (\<lambda>r. map_of r k) (rev runs)"

definition run_keys :: "merge_entry list list \<Rightarrow> bytes set" where
  "run_keys runs = (\<Union>r \<in> set runs. fst ` set r)"

definition merged_rows :: "merge_entry list list \<Rightarrow> (bytes \<times> bytes) list" where
  "merged_rows runs = concat (map (\<lambda>k. case winner runs k of Some (Some v) \<Rightarrow> [(k, v)] | _ \<Rightarrow> [])
    (sorted_list_of_set (run_keys runs)))"

definition ascending :: "merge_entry list \<Rightarrow> bool" where
  "ascending r \<longleftrightarrow> sorted_wrt (<) (map fst r)"

text \<open>The heads with the least key are taken off.\<close>

definition pop_key :: "bytes \<Rightarrow> merge_entry list \<Rightarrow> merge_entry list" where
  "pop_key k r = (case r of [] \<Rightarrow> [] | x # r' \<Rightarrow> if fst x = k then r' else r)"

lemma ascending_Cons: "ascending (x # r) \<longleftrightarrow> ascending r \<and> (\<forall>y \<in> set r. fst x < fst y)"
  by (auto simp: ascending_def)

lemma pop_key_map_of:
  assumes "ascending r" and "\<forall>x \<in> set r. k \<le> fst x"
  shows "map_of (pop_key k r) = (map_of r)(k := None)" and "fst ` set (pop_key k r) = fst ` set r - {k}"
    and "ascending (pop_key k r)"
proof -
  have *: "map_of (pop_key k r) = (map_of r)(k := None) \<and> fst ` set (pop_key k r) = fst ` set r - {k} \<and> ascending (pop_key k r)"
  proof (cases r)
    case (Cons x r')
    have later: "\<forall>y \<in> set r'. fst y \<noteq> k"
      using assms Cons by (auto simp: ascending_Cons dest: bspec leD)
    then have n: "map_of r' k = None" by (auto simp: map_of_eq_None_iff)
    obtain a b where x: "x = (a, b)" by fastforce
    show ?thesis
    proof (cases "fst x = k")
      case True
      then have "pop_key k r = r'" using Cons by (simp add: pop_key_def)
      then show ?thesis using Cons True later n assms(1) x
        by (auto simp: ascending_Cons fun_eq_iff)
    next
      case False
      then have "pop_key k r = r" "\<forall>y \<in> set r. fst y \<noteq> k" using Cons later by (auto simp: pop_key_def)
      moreover from this(2) have "map_of r k = None" by (auto simp: map_of_eq_None_iff)
      ultimately show ?thesis using assms(1) by (auto simp: fun_upd_idem)
    qed
  qed (simp add: pop_key_def ascending_def fun_eq_iff)
  then show "map_of (pop_key k r) = (map_of r)(k := None)" and "fst ` set (pop_key k r) = fst ` set r - {k}"
    and "ascending (pop_key k r)" by blast+
qed

lemma winner_cong:
  "(\<And>r. r \<in> set runs \<Longrightarrow> map_of (f r) k = map_of r k) \<Longrightarrow> winner (map f runs) k = winner runs k"
proof -
  assume "\<And>r. r \<in> set runs \<Longrightarrow> map_of (f r) k = map_of r k"
  then have "\<And>r. r \<in> set (rev runs) \<Longrightarrow> map_of (f r) k = map_of r k" by simp
  moreover have "(\<And>r. r \<in> set rs \<Longrightarrow> map_of (f r) k = map_of r k) \<Longrightarrow>
      find_map (\<lambda>r. map_of r k) (map f rs) = find_map (\<lambda>r. map_of r k) rs" for rs
    by (induction rs) (auto split: option.splits)
  ultimately show ?thesis unfolding winner_def rev_map by blast
qed

lemma merged_rows_pop:
  assumes "\<forall>r \<in> set runs. ascending r" and "k \<in> run_keys runs" and "\<forall>x \<in> run_keys runs. k \<le> x"
  shows "merged_rows runs = (case winner runs k of Some (Some v) \<Rightarrow> [(k, v)] | _ \<Rightarrow> []) @ merged_rows (map (pop_key k) runs)"
proof -
  have least: "\<forall>x \<in> set r. k \<le> fst x" if "r \<in> set runs" for r using assms(3) that by (force simp: run_keys_def)
  have fin: "finite (run_keys runs)" by (simp add: run_keys_def)
  have keys: "run_keys (map (pop_key k) runs) = run_keys runs - {k}"
    using pop_key_map_of(2) [OF _ least] assms(1) by (auto simp: run_keys_def)
  have win: "winner (map (pop_key k) runs) x = winner runs x" if "x \<noteq> k" for x
    using pop_key_map_of(1) [OF _ least] assms(1) that by (intro winner_cong) simp
  have "Min (run_keys runs) = k" using fin assms(2,3) by (intro Min_eqI) auto
  then have "sorted_list_of_set (run_keys runs) = k # sorted_list_of_set (run_keys runs - {k})"
    using sorted_list_of_set_nonempty [OF fin] assms(2) by auto
  moreover have "map (\<lambda>x. case winner (map (pop_key k) runs) x of Some (Some v) \<Rightarrow> [(x, v)] | _ \<Rightarrow> []) (sorted_list_of_set (run_keys runs - {k}))
    = map (\<lambda>x. case winner runs x of Some (Some v) \<Rightarrow> [(x, v)] | _ \<Rightarrow> []) (sorted_list_of_set (run_keys runs - {k}))"
    using fin win by (intro map_cong) auto
  ultimately show ?thesis unfolding merged_rows_def keys by (simp only: list.map concat.simps)
qed

text \<open>The heap holds one head of every run that is not empty, except for the streams in \<open>T\<close>, which
  have not been asked for their next element yet.\<close>

definition head_of :: "merge_entry list list \<Rightarrow> nat \<Rightarrow> scan_head" where
  "head_of runs i = \<lparr>hd_key = fst (hd (runs ! i)), hd_idx = i, hd_val = snd (hd (runs ! i))\<rparr>"

lemma head_of_simps [simp]:
  "hd_key (head_of runs i) = fst (hd (runs ! i))" "hd_idx (head_of runs i) = i" "hd_val (head_of runs i) = snd (hd (runs ! i))"
  by (simp_all add: head_of_def)

definition merge_inv :: "digest_fn \<Rightarrow> nat set \<Rightarrow> scan_stream list \<Rightarrow> scan_head list \<Rightarrow> merge_entry list list \<Rightarrow> bool" where
  "merge_inv sha T streams heap runs \<longleftrightarrow> length streams = length runs \<and> distinct heap
    \<and> set heap = head_of runs ` {i. i < length runs \<and> i \<notin> T \<and> runs ! i \<noteq> []}
    \<and> (\<forall>i < length runs. yields sha (streams ! i) (if i \<in> T then runs ! i else tl (runs ! i)))"

lemma refill_ok:
  assumes "merge_inv sha T streams heap runs" and "i \<in> T" and "i < length runs"
  shows "\<exists>streams' heap'. refill sha i (streams, heap) = Inr (streams', heap') \<and> merge_inv sha (T - {i}) streams' heap' runs"
proof -
  have len: "length streams = length runs" and dist: "distinct heap"
    and heap: "set heap = head_of runs ` {i. i < length runs \<and> i \<notin> T \<and> runs ! i \<noteq> []}"
    and y: "\<And>j. j < length runs \<Longrightarrow> yields sha (streams ! j) (if j \<in> T then runs ! j else tl (runs ! j))"
    using assms(1) by (auto simp: merge_inv_def)
  obtain s' where s': "stream_next sha (streams ! i) = (Inr (case runs ! i of [] \<Rightarrow> None | x # _ \<Rightarrow> Some x), s')"
    "yields sha s' (tl (runs ! i))" using yields_next [OF y [OF assms(3)]] assms(2) by auto
  have y': "yields sha (streams[i := s'] ! j) (if j \<in> T - {i} then runs ! j else tl (runs ! j))" if "j < length runs" for j
    using y [OF that] s'(2) len that by (cases "j = i") auto
  show ?thesis
  proof (cases "runs ! i")
    case Nil
    then have "{j. j < length runs \<and> j \<notin> T - {i} \<and> runs ! j \<noteq> []} = {j. j < length runs \<and> j \<notin> T \<and> runs ! j \<noteq> []}" by auto
    then have "merge_inv sha (T - {i}) (streams[i := s']) heap runs" unfolding merge_inv_def using len dist heap y' by simp
    then show ?thesis using s'(1) Nil by (simp add: refill_def)
  next
    case (Cons x r)
    have "{j. j < length runs \<and> j \<notin> T - {i} \<and> runs ! j \<noteq> []} = insert i {j. j < length runs \<and> j \<notin> T \<and> runs ! j \<noteq> []}"
      using Cons assms(3) by auto
    moreover have "head_of runs i \<notin> set heap" using assms(2) by (auto simp: heap head_of_def)
    ultimately have "merge_inv sha (T - {i}) (streams[i := s']) (heap @ [head_of runs i]) runs"
      unfolding merge_inv_def using len dist heap y' by simp
    moreover have "refill sha i (streams, heap) = Inr (streams[i := s'], heap @ [head_of runs i])"
      using s'(1) Cons by (simp add: refill_def head_of_def split: prod.splits)
    ultimately show ?thesis by blast
  qed
qed

lemma refill_all_ok:
  assumes "merge_inv sha (set run) streams heap runs" and "distinct run" and "\<forall>i \<in> set run. i < length runs"
  shows "\<exists>streams' heap'. rfold (refill sha) run (streams, heap) = Inr (streams', heap') \<and> merge_inv sha {} streams' heap' runs"
  using assms
proof (induction run arbitrary: streams heap)
  case (Cons i run)
  obtain s h where 1: "refill sha i (streams, heap) = Inr (s, h)" "merge_inv sha (set (i # run) - {i}) s h runs"
    using refill_ok [OF Cons.prems(1), of i] Cons.prems(3) by auto
  moreover have "set (i # run) - {i} = set run" using Cons.prems(2) by auto
  ultimately show ?case using Cons.IH [of s h] Cons.prems(2,3) by auto
qed auto

text \<open>The heap pops a head that no other head precedes.\<close>

lemma scan_peek_least:
  assumes "scan_peek heap = Some h" and "x \<in> set heap"
  shows "\<not> head_pops_after h x"
proof (cases heap)
  case (Cons y ys)
  have "\<forall>x \<in> insert m (set xs). \<not> head_pops_after (fold (\<lambda>a m. if head_pops_after m a then a else m) xs m) x" for m xs
  proof (induction xs arbitrary: m)
    case (Cons a xs)
    let ?m = "if head_pops_after m a then a else m"
    have "\<not> head_pops_after h' x" if "\<not> head_pops_after h' ?m" "x = m \<or> x = a" for h' x
      using that by (auto simp: head_pops_after_def split: if_splits)
    moreover have "\<forall>x \<in> insert ?m (set xs). \<not> head_pops_after (fold (\<lambda>a m. if head_pops_after m a then a else m) xs ?m) x"
      by (rule Cons.IH)
    ultimately show ?case unfolding fold.simps comp_def list.set ball_simps by blast
  qed (simp add: head_pops_after_def)
  then show ?thesis using assms Cons by auto
qed (use assms in simp)

lemma filter_remove1_out: "\<not> P x \<Longrightarrow> filter P (remove1 x xs) = filter P xs"
  by (induction xs) auto

lemma drain_equal_ok:
  assumes "drain_equal k heap run best win = (run', v, heap')" and "distinct (map hd_idx heap)"
    and "\<forall>h \<in> set heap. k \<le> hd_key h \<and> (hd_key h = k \<longrightarrow> hd_idx h < best)"
  shows "v = win \<and> heap' = filter (\<lambda>h. hd_key h \<noteq> k) heap
    \<and> set run' = set run \<union> hd_idx ` {h \<in> set heap. hd_key h = k}
    \<and> (distinct run \<and> set run \<inter> hd_idx ` set heap = {} \<longrightarrow> distinct run')"
  using assms
proof (induction k heap run best win rule: drain_equal.induct)
  case (1 k heap run best win)
  show ?case
  proof (cases "scan_peek heap")
    case None
    then have "heap = []" by (cases heap) simp_all
    then show ?thesis using "1.prems"(1) by (subst (asm) drain_equal.simps) simp
  next
    case (Some h)
    note least = scan_peek_least [OF Some] and inh = scan_peek_in [OF Some]
    show ?thesis
    proof (cases "hd_key h = k")
      case False
      have "k < hd_key h" using "1.prems"(3) inh False by (auto simp: order_less_le)
      then have "\<forall>x \<in> set heap. hd_key x \<noteq> k" using least by (fastforce simp: head_pops_after_def)
      moreover have "(run', v, heap') = (run, win, heap)" using "1.prems"(1) Some False by (subst (asm) drain_equal.simps) simp
      ultimately show ?thesis by (auto simp: filter_id_conv)
    next
      case True
      have d: "distinct heap" using "1.prems"(2) by (simp add: distinct_map)
      let ?heap = "remove1 h heap"
      have set': "set ?heap = set heap - {h}" using d by simp
      have idx: "hd_idx h \<notin> hd_idx ` set ?heap" "distinct (map hd_idx ?heap)"
        using "1.prems"(2) inh unfolding set' by (auto simp: distinct_map inj_on_def intro: distinct_remove1)
      have less: "hd_idx h < best" using "1.prems"(3) inh True by simp
      have eq: "drain_equal k ?heap (run @ [hd_idx h]) best win = (run', v, heap')"
        using "1.prems"(1) Some True less by (subst (asm) drain_equal.simps) simp
      have f: "filter (\<lambda>h. hd_key h \<noteq> k) ?heap = filter (\<lambda>h. hd_key h \<noteq> k) heap"
        using True by (simp add: filter_remove1_out)
      have "set (run @ [hd_idx h]) \<union> hd_idx ` {x \<in> set ?heap. hd_key x = k} = set run \<union> hd_idx ` {x \<in> set heap. hd_key x = k}"
        using True inh unfolding set' by auto
      moreover have "set (run @ [hd_idx h]) \<inter> hd_idx ` set ?heap = {}" "distinct (run @ [hd_idx h])"
        if "distinct run" "set run \<inter> hd_idx ` set heap = {}"
        using that idx(1) inh unfolding set' by auto
      ultimately show ?thesis
        using "1.IH" [OF Some] True less eq idx(2) "1.prems"(3) f unfolding set' by auto
    qed
  qed
qed

lemma merge_inv_idx: "merge_inv sha T streams heap runs \<Longrightarrow> distinct (map hd_idx heap)"
  by (auto simp: merge_inv_def distinct_map inj_on_def head_of_def)

lemma merge_inv_keys:
  assumes "merge_inv sha {} streams heap runs" and "\<forall>r \<in> set runs. ascending r" and "x \<in> run_keys runs"
  shows "\<exists>h \<in> set heap. hd_key h \<le> x"
proof -
  obtain r y where r: "r \<in> set runs" "y \<in> set r" "fst y = x" using assms(3) by (auto simp: run_keys_def)
  then obtain i where i: "i < length runs" "y \<in> set (runs ! i)" "fst y = x" by (auto simp: in_set_conv_nth)
  then have "runs ! i \<noteq> []" by auto
  moreover have "ascending (runs ! i)" using assms(2) i(1) by simp
  ultimately have "fst (hd (runs ! i)) \<le> x" using i(2,3)
    by (cases "runs ! i") (auto simp: ascending_Cons intro: less_imp_le)
  then show ?thesis using assms(1) i(1) \<open>runs ! i \<noteq> []\<close> by (auto simp: merge_inv_def head_of_def)
qed

lemma winner_head:
  assumes "j < length runs" and "map_of (runs ! j) k = Some v"
    and "\<And>i. j < i \<Longrightarrow> i < length runs \<Longrightarrow> map_of (runs ! i) k = None"
  shows "winner runs k = Some v"
proof -
  have "runs = take j runs @ runs ! j # drop (Suc j) runs" using assms(1) by (simp add: id_take_nth_drop)
  then have "rev runs = rev (drop (Suc j) runs) @ runs ! j # rev (take j runs)" by (metis append.assoc append_Cons append_Nil rev.simps(2) rev_append)
  moreover have "find_map (\<lambda>r. map_of r k) (rev (drop (Suc j) runs)) = None"
    using assms(3) by (auto simp: find_map_None_iff in_set_conv_nth)
  ultimately show ?thesis using assms(2) by (simp add: winner_def find_map_append)
qed

lemma pop_key_len: "length (pop_key k r) = (if r \<noteq> [] \<and> fst (hd r) = k then length r - 1 else length r)"
  by (cases r) (simp_all add: pop_key_def)

definition heads_at :: "merge_entry list list \<Rightarrow> bytes \<Rightarrow> nat set" where
  "heads_at runs k = {i. i < length runs \<and> runs ! i \<noteq> [] \<and> fst (hd (runs ! i)) = k}"

lemma pop_key_nth:
  "i < length runs \<Longrightarrow> pop_key k (runs ! i) = (if i \<in> heads_at runs k then tl (runs ! i) else runs ! i)"
  by (cases "runs ! i") (auto simp: pop_key_def heads_at_def)

lemma merge_popped:
  assumes "merge_inv sha {} streams heap runs"
  shows "merge_inv sha (heads_at runs k) streams (filter (\<lambda>x. hd_key x \<noteq> k) heap) (map (pop_key k) runs)"
proof -
  let ?runs = "map (pop_key k) runs" and ?R = "heads_at runs k"
  let ?I = "{i. i < length runs \<and> i \<notin> ?R \<and> runs ! i \<noteq> []}"
  have heap: "set heap = head_of runs ` {i. i < length runs \<and> runs ! i \<noteq> []}" using assms by (auto simp: merge_inv_def)
  have same: "head_of ?runs i = head_of runs i" if "i \<in> ?I" for i using that by (simp add: head_of_def pop_key_nth)
  have "set (filter (\<lambda>x. hd_key x \<noteq> k) heap) = head_of runs ` {i. (i < length runs \<and> runs ! i \<noteq> []) \<and> fst (hd (runs ! i)) \<noteq> k}"
    by (simp add: heap Compr_image_eq)
  also have "{i. (i < length runs \<and> runs ! i \<noteq> []) \<and> fst (hd (runs ! i)) \<noteq> k} = ?I" by (auto simp: heads_at_def)
  also have "head_of runs ` ?I = head_of ?runs ` ?I" using same by (intro image_cong) simp_all
  also have "?I = {i. i < length ?runs \<and> i \<notin> ?R \<and> ?runs ! i \<noteq> []}" by (intro Collect_cong) (simp add: pop_key_nth cong: conj_cong)
  finally show ?thesis using assms by (simp add: merge_inv_def pop_key_nth)
qed

text \<open>The popped head is the value of the newest layer that has its key.\<close>

lemma popped_wins:
  assumes inv: "merge_inv sha {} streams heap runs" and asc: "\<forall>r \<in> set runs. ascending r" and peek: "scan_peek heap = Some h"
  shows "hd_key h \<in> run_keys runs" and "\<forall>x \<in> run_keys runs. hd_key h \<le> x" and "winner runs (hd_key h) = Some (hd_val h)"
proof -
  note least = scan_peek_least [OF peek]
  have heap: "set heap = head_of runs ` {i. i < length runs \<and> runs ! i \<noteq> []}" using inv by (auto simp: merge_inv_def)
  obtain j where j: "j < length runs" "runs ! j \<noteq> []" "h = head_of runs j" using scan_peek_in [OF peek] heap by auto
  then have hj: "(hd_key h, hd_val h) \<in> set (runs ! j)" "map_of (runs ! j) (hd_key h) = Some (hd_val h)"
    by (cases "runs ! j"; simp)+
  then have "(hd_key h, hd_val h) \<in> (\<Union>r \<in> set runs. set r)" using j(1) nth_mem by blast
  then show "hd_key h \<in> run_keys runs" unfolding run_keys_def by (force simp del: head_of_simps)
  have min: "hd_key h \<le> hd_key x" if "x \<in> set heap" for x using least [OF that] by (simp add: head_pops_after_def not_less)
  then show "\<forall>x \<in> run_keys runs. hd_key h \<le> x" using merge_inv_keys [OF inv asc] by (meson order_trans)
  have "map_of (runs ! i) (hd_key h) = None" if i: "j < i" "i < length runs" for i
  proof (cases "runs ! i")
    case (Cons x r)
    have "head_of runs i \<in> set heap" using i Cons by (simp add: heap)
    then have "\<not> head_pops_after h (head_of runs i)" by (rule least)
    then have "hd_key h < fst x" using i(1) Cons by (auto simp: head_pops_after_def j(3) not_less order_less_le)
    moreover have "ascending (x # r)" using asc i(2) Cons nth_mem by metis
    ultimately have "\<forall>y \<in> set (x # r). fst y \<noteq> hd_key h" by (auto simp: ascending_Cons dest: less_trans)
    then show ?thesis unfolding Cons map_of_eq_None_iff by fastforce
  qed simp
  then show "winner runs (hd_key h) = Some (hd_val h)" using winner_head [OF j(1) hj(2)] by blast
qed

text \<open>One turn of the outer loop: the popped key, the winner among the layers and the runs behind it.\<close>

lemma merge_turn:
  assumes inv: "merge_inv sha {} streams heap runs" and peek: "scan_peek heap = Some h"
  defines "k \<equiv> hd_key h"
  shows "\<exists>run heap1 streams' heap'. drain_equal k (remove1 h heap) [hd_idx h] (hd_idx h) (hd_val h) = (run, hd_val h, heap1)
    \<and> rfold (refill sha) run (streams, heap1) = Inr (streams', heap') \<and> merge_inv sha {} streams' heap' (map (pop_key k) runs)"
proof -
  have dist: "distinct heap" and heap: "set heap = head_of runs ` {i. i < length runs \<and> runs ! i \<noteq> []}"
    using inv by (auto simp: merge_inv_def)
  note inh = scan_peek_in [OF peek] and least = scan_peek_least [OF peek] and idx = merge_inv_idx [OF inv]
  have rm: "set (remove1 h heap) = set heap - {h}" using dist by simp
  have idx1: "distinct (map hd_idx (remove1 h heap))" using idx dist rm by (auto simp: distinct_map inj_on_def)
  have idx2: "hd_idx x \<noteq> hd_idx h" if "x \<in> set heap - {h}" for x using idx inh that by (auto simp: distinct_map inj_on_def)
  then have idx3: "set [hd_idx h] \<inter> hd_idx ` (set heap - {h}) = {}" by fastforce
  have pre: "\<forall>x \<in> set (remove1 h heap). k \<le> hd_key x \<and> (hd_key x = k \<longrightarrow> hd_idx x < hd_idx h)"
  proof
    fix x assume "x \<in> set (remove1 h heap)"
    then have x: "x \<in> set heap - {h}" by (simp only: rm)
    then have "\<not> head_pops_after h x" by (intro least) simp
    then have "k \<le> hd_key x" "hd_key x = k \<longrightarrow> hd_idx x \<le> hd_idx h" by (simp_all add: head_pops_after_def k_def not_less)
    then show "k \<le> hd_key x \<and> (hd_key x = k \<longrightarrow> hd_idx x < hd_idx h)" using idx2 [OF x] by (simp add: le_neq_implies_less)
  qed
  obtain run v heap1 where de: "drain_equal k (remove1 h heap) [hd_idx h] (hd_idx h) (hd_val h) = (run, v, heap1)"
    by (metis prod_cases3)
  have "filter (\<lambda>x. hd_key x \<noteq> k) (remove1 h heap) = filter (\<lambda>x. hd_key x \<noteq> k) heap"
    by (rule filter_remove1_out) (simp add: k_def)
  then have d: "v = hd_val h" "heap1 = filter (\<lambda>x. hd_key x \<noteq> k) heap" "distinct run"
    "set run = insert (hd_idx h) (hd_idx ` {x \<in> set heap - {h}. hd_key x = k})"
    using drain_equal_ok [OF de idx1 pre] idx3 unfolding rm by simp_all
  have "set run = hd_idx ` {x \<in> set heap. hd_key x = k}" unfolding d(4) using inh by (auto simp: k_def)
  also have "\<dots> = heads_at runs k" unfolding heap Compr_image_eq image_image heads_at_def by simp
  finally have run: "set run = heads_at runs k" .
  have "merge_inv sha (set run) streams heap1 (map (pop_key k) runs)" unfolding run d(2) by (rule merge_popped [OF inv])
  from refill_all_ok [OF this d(3)] show ?thesis using de d(1) run by (auto simp: heads_at_def)
qed

lemma pop_key_shrinks:
  assumes "k \<in> run_keys runs" and "\<forall>x \<in> run_keys runs. k \<le> x" and "\<forall>r \<in> set runs. ascending r"
  shows "sum_list (map length (map (pop_key k) runs)) < sum_list (map length runs)"
proof -
  obtain r where r: "r \<in> set runs" "k \<in> fst ` set r" using assms(1) by (auto simp: run_keys_def)
  have "\<forall>x \<in> set r. k \<le> fst x" using assms(2) r(1) by (force simp: run_keys_def)
  moreover have "ascending r" using assms(3) r(1) by blast
  ultimately have "r \<noteq> [] \<and> fst (hd r) = k" using r(2)
    by (cases r) (force simp: ascending_Cons dest: leD)+
  then have "length (pop_key k r) < length r" by (simp add: pop_key_len)
  moreover have "length (pop_key k x) \<le> length x" for x by (simp add: pop_key_len)
  ultimately show ?thesis using r(1) by (induction runs) (auto intro: add_less_le_mono add_le_less_mono sum_list_mono simp: comp_def)
qed

lemma scan_loop_ok:
  assumes "merge_inv sha {} streams heap runs" and "\<forall>r \<in> set runs. ascending r" and "sum_list (map length runs) < fuel"
  shows "scan_loop sha fuel streams heap out = Some (Inr (out @ merged_rows runs))"
  using assms
proof (induction fuel arbitrary: streams heap runs out)
  case (Suc fuel)
  show ?case
  proof (cases "scan_peek heap")
    case None
    then have "heap = []" by (cases heap) simp_all
    then have "\<forall>i < length runs. runs ! i = []" using Suc.prems(1) by (auto simp: merge_inv_def)
    then have "run_keys runs = {}" by (auto simp: run_keys_def in_set_conv_nth)
    then show ?thesis using None by (simp add: merged_rows_def)
  next
    case (Some h)
    let ?runs = "map (pop_key (hd_key h)) runs"
    note k = popped_wins [OF Suc.prems(1,2) Some]
    obtain run heap1 streams' heap' where t:
      "drain_equal (hd_key h) (remove1 h heap) [hd_idx h] (hd_idx h) (hd_val h) = (run, hd_val h, heap1)"
      "rfold (refill sha) run (streams, heap1) = Inr (streams', heap')" "merge_inv sha {} streams' heap' ?runs"
      using merge_turn [OF Suc.prems(1) Some] by blast
    have "\<forall>r \<in> set ?runs. ascending r"
    proof -
      have "\<forall>x \<in> set r. hd_key h \<le> fst x" if "r \<in> set runs" for r using k(2) that by (force simp: run_keys_def)
      then show ?thesis using pop_key_map_of(3) Suc.prems(2) by auto
    qed
    moreover have "sum_list (map length ?runs) < fuel" using pop_key_shrinks [OF k(1,2) Suc.prems(2)] Suc.prems(3) by simp
    ultimately show ?thesis using Suc.IH [OF t(3)] Some t(1,2) merged_rows_pop [OF Suc.prems(2) k(1,2)] k(3)
      by (auto split: option.splits)
  qed
qed simp

lemma winner_key: "winner runs k = Some v \<Longrightarrow> k \<in> run_keys runs"
  by (auto simp: winner_def run_keys_def dest!: find_map_SomeD map_of_SomeD) force

lemma merged_rows_mem: "(k, v) \<in> set (merged_rows runs) \<longleftrightarrow> winner runs k = Some (Some v)"
proof -
  have "finite (run_keys runs)" by (simp add: run_keys_def)
  then show ?thesis using winner_key [of runs k] by (auto simp: merged_rows_def split: option.splits)
qed

lemma merged_rows_sorted: "sorted_wrt (<) (map fst (merged_rows runs))"
proof -
  have "sorted_wrt (<) ks \<Longrightarrow> sorted_wrt (<) (map fst (concat (map (\<lambda>k. case winner runs k of Some (Some v) \<Rightarrow> [(k, v)] | _ \<Rightarrow> []) ks)))"
    for ks
  proof (induction ks)
    case (Cons k ks)
    have "fst x \<in> set ks" if "x \<in> set (concat (map (\<lambda>k. case winner runs k of Some (Some v) \<Rightarrow> [(k, v)] | _ \<Rightarrow> []) ks))" for x
      using that by (auto split: option.splits)
    then show ?case using Cons by (auto split: option.splits)
  qed simp
  then show ?thesis by (simp add: merged_rows_def strict_sorted_list_of_set)
qed

section \<open>The streams of a state\<close>

definition layer_runs :: "db_state \<Rightarrow> segment_entry list list \<Rightarrow> bytes \<Rightarrow> bytes \<Rightarrow> merge_entry list list" where
  "layer_runs st ess pre start =
    map (\<lambda>es. map (\<lambda>e. (se_key e, row_value e)) (scan_spec start (prefix_end pre) None es)) ess
    @ map (mem_run pre start) (st_immutables st) @ [mem_run pre start (st_active st)]"

definition mem_ok :: "db_state \<Rightarrow> bool" where
  "mem_ok st \<longleftrightarrow> mt_inv (st_active st) \<and> (\<forall>m \<in> set (st_immutables st). mt_inv m)"

lemma mem_run_ascending: "mt_inv m \<Longrightarrow> ascending (mem_run pre start m)"
proof -
  assume "mt_inv m"
  then have "sorted_wrt (<) (map fst (mt_prefix_heads m pre))"
    using prefix_heads_loop_sorted [OF bt_from_inv] by (simp add: mt_prefix_heads_def mt_inv_def flip: bt_inv_def)
  then have "sorted_wrt (\<lambda>a b. fst a < fst b) (filter (\<lambda>(k, _). start \<le> k) (mt_prefix_heads m pre))"
    by (simp add: sorted_wrt_map sorted_wrt_filter)
  then show ?thesis by (simp add: ascending_def mem_run_def sorted_wrt_map split_beta)
qed

lemma ascending_map_of: "ascending r \<Longrightarrow> map_of r k = Some v \<longleftrightarrow> (k, v) \<in> set r"
  by (simp add: ascending_def map_of_eq_Some_iff strict_sorted_iff)

lemma option_eq_if:
  assumes "\<And>v. x = Some v \<longleftrightarrow> P \<and> y = Some v"
  shows "x = (if P then y else None)"
proof (cases x)
  case None
  then have "\<not> (P \<and> y = Some v)" for v using assms [of v] by simp
  then show ?thesis using None by (cases y) auto
next
  case (Some v)
  then show ?thesis using assms [of v] by simp
qed

lemma mem_run_map_of:
  assumes "mt_inv m"
  shows "map_of (mem_run pre start m) k = (if starts_with k pre \<and> start \<le> k then mem_layer m k else None)"
proof -
  have "map_of (mem_run pre start m) k = Some v \<longleftrightarrow> (starts_with k pre \<and> start \<le> k) \<and> mem_layer m k = Some v" for v
    unfolding ascending_map_of [OF mem_run_ascending [OF assms]] mem_layer_def
    by (force simp: mem_run_def mt_prefix_heads_iff [OF assms])
  then show ?thesis by (rule option_eq_if)
qed

lemma newest_byte_row_find:
  "publish_order es \<Longrightarrow> find (matches k (Some (ReplicaId 0))) es = Some e \<longleftrightarrow> newest_byte_row es e \<and> se_key e = k"
  unfolding find_newest newest_row_def newest_byte_row_def by auto

lemma seg_run_ascending:
  assumes "publish_order es"
  shows "ascending (map (\<lambda>e. (se_key e, row_value e)) (scan_spec start end' None es))"
  using scan_spec_sorted [OF assms] by (simp add: ascending_def sorted_wrt_map)

lemma seg_run_map_of:
  assumes "publish_order es"
  shows "map_of (map (\<lambda>e. (se_key e, row_value e)) (scan_spec start end' None es)) k
    = (if start \<le> k \<and> \<not> past_end end' k then rows_layer es k else None)" (is "map_of ?r k = _")
proof -
  have "map_of ?r k = Some v \<longleftrightarrow> (start \<le> k \<and> \<not> past_end end' k) \<and> rows_layer es k = Some v" for v
    unfolding ascending_map_of [OF seg_run_ascending [OF assms]] rows_layer_def
    by (auto simp: scan_spec_mem [OF assms] newest_byte_row_find [OF assms] image_iff)
  then show ?thesis by (rule option_eq_if)
qed

lemma scan_streams_yield:
  assumes "sha_ok sha" and "holds_segments sha st ess"
  shows "length (scan_streams st pre start) = length (layer_runs st ess pre start)"
    and "i < length (layer_runs st ess pre start) \<Longrightarrow> yields sha (scan_streams st pre start ! i) (layer_runs st ess pre start ! i)"
proof -
  have "yields sha (SegStream r (scan_iter r start (prefix_end pre)))
      (map (\<lambda>e. (se_key e, row_value e)) (scan_spec start (prefix_end pre) None es))" if "published sha w es r" for r w es
    using scan_iter_reads [OF published_holds(1) [OF assms(1) that] refl] published_holds(4) [OF assms(1) that]
    by (intro yields_seg) simp
  then have "list_all2 (yields sha) (scan_streams st pre start) (layer_runs st ess pre start)"
    unfolding scan_streams_def layer_runs_def using assms(2) yields_mem
    by (intro list_all2_appendI) (auto simp: holds_segments_def list_all2_conv_all_nth)
  then show "length (scan_streams st pre start) = length (layer_runs st ess pre start)"
    and "i < length (layer_runs st ess pre start) \<Longrightarrow> yields sha (scan_streams st pre start ! i) (layer_runs st ess pre start ! i)"
    by (auto simp: list_all2_conv_all_nth)
qed

lemma holds_segments_order: "sha_ok sha \<Longrightarrow> holds_segments sha st ess \<Longrightarrow> es \<in> set ess \<Longrightarrow> publish_order es"
  using published_holds(3) by (fastforce simp: holds_segments_def list_all2_conv_all_nth in_set_conv_nth)

lemma scan_from_merges:
  assumes "sha_ok sha" and "holds_segments sha st ess" and "mem_ok st"
    and "sum_list (map length (layer_runs st ess pre (max start pre))) < fuel"
  shows "scan_from sha fuel st pre start = Some (Inr (merged_rows (layer_runs st ess pre (max start pre))))"
proof -
  let ?s = "scan_streams st pre (max start pre)" and ?r = "layer_runs st ess pre (max start pre)"
  note y = scan_streams_yield [OF assms(1,2), where pre = pre and start = "max start pre"]
  have "merge_inv sha (set [0..<length ?s]) ?s [] ?r" using y by (auto simp: merge_inv_def)
  from refill_all_ok [OF this] y(1)
  obtain streams heap where h: "rfold (refill sha) [0..<length ?s] (?s, []) = Inr (streams, heap)" "merge_inv sha {} streams heap ?r"
    by auto
  have "\<forall>r \<in> set ?r. ascending r"
    using seg_run_ascending [OF holds_segments_order [OF assms(1,2)]] mem_run_ascending assms(3)
    by (auto simp: layer_runs_def mem_ok_def)
  from scan_loop_ok [OF h(2) this assms(4), of "[]"] show ?thesis using h(1) by (simp add: scan_from_def Let_def)
qed

text \<open>The newest layer that has a key of the range; segments and memtables bound the range differently.\<close>

lemma winner_layers:
  assumes "sha_ok sha" and "holds_segments sha st ess" and "mem_ok st"
  shows "winner (layer_runs st ess pre start) k =
    find_map (\<lambda>l. l k) (map (\<lambda>m k. if starts_with k pre \<and> start \<le> k then mem_layer m k else None)
        (st_active st # rev (st_immutables st))
      @ map (\<lambda>es k. if start \<le> k \<and> \<not> past_end (prefix_end pre) k then rows_layer es k else None) (rev ess))"
proof -
  have fm: "find_map (\<lambda>r. map_of r k) (map f xs) = find_map (\<lambda>l. l k) (map g xs)" if "\<And>x. x \<in> set xs \<Longrightarrow> map_of (f x) k = g x k"
    for f and g :: "'x \<Rightarrow> bytes \<Rightarrow> bytes option option" and xs
    using that by (induction xs) (auto split: option.splits)
  have "rev (layer_runs st ess pre start) = map (mem_run pre start) (st_active st # rev (st_immutables st))
      @ map (\<lambda>es. map (\<lambda>e. (se_key e, row_value e)) (scan_spec start (prefix_end pre) None es)) (rev ess)"
    by (simp add: layer_runs_def rev_map)
  moreover have "find_map (\<lambda>r. map_of r k) (map (mem_run pre start) (st_active st # rev (st_immutables st)))
      = find_map (\<lambda>l. l k) (map (\<lambda>m k. if starts_with k pre \<and> start \<le> k then mem_layer m k else None) (st_active st # rev (st_immutables st)))"
    using mem_run_map_of assms(3) by (intro fm) (auto simp: mem_ok_def)
  moreover have "find_map (\<lambda>r. map_of r k) (map (\<lambda>es. map (\<lambda>e. (se_key e, row_value e)) (scan_spec start (prefix_end pre) None es)) (rev ess))
      = find_map (\<lambda>l. l k) (map (\<lambda>es k. if start \<le> k \<and> \<not> past_end (prefix_end pre) k then rows_layer es k else None) (rev ess))"
    using seg_run_map_of [OF holds_segments_order [OF assms(1,2)]] by (intro fm) simp
  ultimately show ?thesis by (simp only: winner_def find_map_append)
qed

lemma find_map_layers:
  "(\<And>x. x \<in> set xs \<Longrightarrow> g x k = h x k) \<Longrightarrow> find_map (\<lambda>l. l k) (map g xs) = find_map (\<lambda>l. l k) (map h xs)"
  by (induction xs) (auto split: option.splits)

lemma winner_visible:
  assumes "sha_ok sha" and "holds_segments sha st ess" and "mem_ok st" and "pre \<le> start"
    and "prefix_end pre = None \<or> last pre \<noteq> - 1"
  shows "winner (layer_runs st ess pre start) k = Some (Some v) \<longleftrightarrow> starts_with k pre \<and> start \<le> k \<and> visible st ess k = Some v"
proof -
  let ?in = "starts_with k pre \<and> start \<le> k"
  have range: "start \<le> k \<and> \<not> past_end (prefix_end pre) k \<longleftrightarrow> ?in"
  proof (cases "prefix_end pre")
    case None
    then show ?thesis using prefix_end_None assms(4) by (auto simp: past_end_def dest: order_trans)
  next
    case (Some e)
    then have "last pre \<noteq> - 1" using assms(5) by simp
    then show ?thesis using Some prefix_end_exact [OF Some] prefix_end_covers [OF Some] assms(4)
      by (auto simp: past_end_def not_le dest: order_trans)
  qed
  have "winner (layer_runs st ess pre start) k = (if ?in then find_map (\<lambda>l. l k) (state_layers st ess) else None)"
  proof (cases ?in)
    case True
    have "find_map (\<lambda>l. l k) (map (\<lambda>m k. if starts_with k pre \<and> start \<le> k then mem_layer m k else None) ms)
        = find_map (\<lambda>l. l k) (map mem_layer ms)" for ms
      using True by (intro find_map_layers) simp
    moreover have "find_map (\<lambda>l. l k) (map (\<lambda>es k. if start \<le> k \<and> \<not> past_end (prefix_end pre) k then rows_layer es k else None) es)
        = find_map (\<lambda>l. l k) (map rows_layer es)" for es
      using True range by (intro find_map_layers) simp
    moreover have "state_layers st ess = map mem_layer (st_active st # rev (st_immutables st)) @ map rows_layer (rev ess)"
      by (simp add: state_layers_def)
    ultimately show ?thesis using True by (simp only: winner_layers [OF assms(1-3)] find_map_append simp_thms if_True)
  next
    case False
    have "find_map (\<lambda>l. l k) (map (\<lambda>m k. if starts_with k pre \<and> start \<le> k then mem_layer m k else None)
        (st_active st # rev (st_immutables st))
      @ map (\<lambda>es k. if start \<le> k \<and> \<not> past_end (prefix_end pre) k then rows_layer es k else None) (rev ess)) = None"
      unfolding find_map_None_iff using False range by auto
    then have "winner (layer_runs st ess pre start) k = None" by (simp only: winner_layers [OF assms(1-3)])
    then show ?thesis using False by auto
  qed
  then show ?thesis by (auto simp: visible_def split: option.splits)
qed

section \<open>Properties\<close>

text \<open>A state over one small segment: the rows of \<open>demo_rows\<close> and an empty active memtable.\<close>

definition one_segment :: "segment_reader \<Rightarrow> db_state \<Rightarrow> db_state" where
  "one_segment r st = st\<lparr>st_active := mt_apply [9] 5 None mt_new, st_immutables := [], st_segments := [r]\<rparr>"

lemma one_segment_holds:
  "published sha w es r \<Longrightarrow> holds_segments sha (one_segment r st) [es]" "mem_ok (one_segment r st)"
  by (auto simp: holds_segments_def one_segment_def mem_ok_def mt_apply_def mt_inv_insert)

lemma one_segment_probe: "mem_probe (one_segment r st) k = (if k = [9] then Some \<lparr>br_value = None\<rparr> else None)"
  by (simp add: mem_probe_def one_segment_def mt_apply_def mt_get_def mt_insert_def mt_new_def bt_get_def byte_head_def)

text \<open>C3. A point read answers from the newest layer that has a byte row of the key: the active memtable,
  the immutable memtables newest first, the segments newest first. A tombstone in a newer layer hides every
  older value. The range check and the Bloom filter never change the answer. (The key has no identity rows
  in the segments.)\<close>

theorem get_newest_layer:
  assumes "sha_ok sha" and "holds_segments sha st ess" and "byte_key ess key"
  shows "get_inner sha st key = Inr (visible st ess key)"
  by (rule get_inner_layers [OF assms])

theorem get_newest_layer_witness:
  "\<forall>st. \<exists>r. published demo_sha (demo_writer 64) demo_rows r \<and> get_inner demo_sha (one_segment r st) [9] = Inr None
    \<and> get_inner demo_sha (one_segment r st) [8] = Inr None" (is "\<forall>st. ?W st")
proof
  fix st :: db_state
  obtain r where r: "published demo_sha (demo_writer 64) demo_rows r" using demo_published by blast
  have "byte_key [demo_rows] k" if "k = [8] \<or> k = [9]" for k
    using that by (auto simp: byte_key_def demo_rows_def demo_row_def)
  moreover have "visible (one_segment r st) [demo_rows] [9] = None" "visible (one_segment r st) [demo_rows] [8] = None"
    by (simp_all add: visible_def state_layers_def one_segment_def mem_layer_def mt_apply_def mt_get_def mt_insert_def mt_new_def
        bt_get_def byte_head_def rows_layer_def demo_rows_def demo_row_def)
  ultimately show "?W st"
    using get_newest_layer [OF demo_sha_ok one_segment_holds(1) [OF r], of "[9]" st]
      get_newest_layer [OF demo_sha_ok one_segment_holds(1) [OF r], of "[8]" st] r by auto
qed

text \<open>C4. The batch read answers every key as a point read of that key would, duplicates included, although it
  reads each segment once for all the keys that are still open; neither of them fails.\<close>

theorem get_many_agrees:
  assumes "sha_ok sha" and "holds_segments sha st ess"
  shows "\<exists>xs. get_many_inner sha st keys = Inr xs \<and> list_all2 (\<lambda>k x. get_inner sha st k = Inr x) keys xs"
proof -
  have seg: "\<forall>r \<in> set (st_segments st). \<exists>w es. published sha w es r"
    using assms(2) by (fastforce simp: holds_segments_def list_all2_conv_all_nth in_set_conv_nth)
  have "get_inner sha st k = Inr (projr (get_inner sha st k))" for k using get_many_get [OF assms(1) seg, of keys k] by auto
  then show ?thesis using get_many_get [OF assms(1) seg, of keys] by (auto simp: list_all2_conv_all_nth)
qed

theorem get_many_agrees_witness:
  "\<forall>st. \<exists>r. published demo_sha (demo_writer 64) demo_rows r \<and> get_many_inner demo_sha (one_segment r st) [[9], [8], [9]] = Inr [None, None, None]" (is "\<forall>st. ?W st")
proof
  fix st :: db_state
  obtain r where r: "published demo_sha (demo_writer 64) demo_rows r" using demo_published by blast
  have "byte_key [demo_rows] [8]" by (auto simp: byte_key_def demo_rows_def demo_row_def)
  from get_inner_layers [OF demo_sha_ok one_segment_holds(1) [OF r] this, of st]
  have "get_inner demo_sha (one_segment r st) [8] = Inr None"
    by (simp add: visible_def state_layers_def one_segment_def mem_layer_def mt_apply_def mt_get_def mt_insert_def mt_new_def
        bt_get_def rows_layer_def demo_rows_def demo_row_def)
  moreover have "get_inner demo_sha (one_segment r st) [9] = Inr None" by (simp add: get_inner_def one_segment_probe)
  ultimately show "?W st"
    using get_many_agrees [OF demo_sha_ok one_segment_holds(1) [OF r], of st "[[9], [8], [9]]"] r
    by (auto simp: list_all2_Cons1)
qed

text \<open>C5. A prefix scan returns every key of the prefix at or above the start that has a value in its newest
  layer, with that value, once, in ascending order; it ends after finitely many pops and does not fail. This
  holds when the last byte of the prefix is not 0xFF or all its bytes are.\<close>

theorem scan_newest_values:
  assumes "sha_ok sha" and "holds_segments sha st ess" and "mem_ok st" and "prefix_end pre = None \<or> last pre \<noteq> - 1"
  shows "\<exists>out. (\<exists>N. \<forall>fuel \<ge> N. scan_from sha fuel st pre start = Some (Inr out)) \<and> sorted_wrt (<) (map fst out)
    \<and> set out = {(k, v). starts_with k pre \<and> start \<le> k \<and> visible st ess k = Some v}"
proof -
  let ?r = "layer_runs st ess pre (max start pre)"
  have "scan_from sha fuel st pre start = Some (Inr (merged_rows ?r))" if "Suc (sum_list (map length ?r)) \<le> fuel" for fuel
    using scan_from_merges [OF assms(1-3)] that by simp
  moreover have "(k, v) \<in> set (merged_rows ?r) \<longleftrightarrow> starts_with k pre \<and> start \<le> k \<and> visible st ess k = Some v" for k v
    unfolding merged_rows_mem winner_visible [OF assms(1-3) max.cobounded2 assms(4)] using starts_with_ge by auto
  ultimately show ?thesis using merged_rows_sorted [of ?r] by (intro exI [of _ "merged_rows ?r"]) auto
qed

theorem scan_newest_values_witness:
  "\<forall>st. \<exists>r N. published demo_sha (demo_writer 64) demo_rows r
    \<and> scan_from demo_sha N (one_segment r st) [] [3] = Some (Inr [([7], [1])])" (is "\<forall>st. ?W st")
proof
  fix st :: db_state
  obtain r where r: "published demo_sha (demo_writer 64) demo_rows r" using demo_published by blast
  have "prefix_end [] = None \<or> last [] \<noteq> (- 1 :: byte)" by (simp add: prefix_end_def)
  from scan_newest_values [OF demo_sha_ok one_segment_holds(1) [OF r] one_segment_holds(2) this, of st "[3]"]
  obtain out N where out: "scan_from demo_sha N (one_segment r st) [] [3] = Some (Inr out)" "sorted_wrt (<) (map fst out)"
    "set out = {(k, v). starts_with k [] \<and> [3] \<le> k \<and> visible (one_segment r st) [demo_rows] k = Some v}" by auto
  have "visible (one_segment r st) [demo_rows] k = (if k = [7] then Some [1] else None)" for k
    by (simp add: visible_def state_layers_def one_segment_def mem_layer_def mt_apply_def mt_get_def mt_insert_def mt_new_def
        bt_get_def byte_head_def rows_layer_def demo_rows_def demo_row_def row_value_def is_none_or_def)
  then have "set out = {([7], [1])}" unfolding out(3) by (auto simp: starts_with_def split: if_splits)
  then have "out = [([7], [1])]" using out(2) by (cases out; cases "tl out") auto
  then show "?W st" using r out(1) by blast
qed

text \<open>C39. The bound that \<^verbatim>\<open>prefix_end\<close> computes lies above every key with the prefix, and the half-open range up
  to it holds only such keys exactly when the last byte of the prefix is not 0xFF: a byte that wraps is left in
  place as zero instead of being cut off.\<close>

theorem prefix_end_range:
  assumes "prefix_end pre = Some e"
  shows "(\<forall>k. starts_with k pre \<longrightarrow> pre \<le> k \<and> k < e) \<and> ((\<forall>k. pre \<le> k \<and> k < e \<longrightarrow> starts_with k pre) \<longleftrightarrow> last pre \<noteq> - 1)"
  using prefix_end_covers [OF assms] prefix_end_exact [OF assms] prefix_end_leak [OF assms] by blast

theorem prefix_end_range_witness:
  "prefix_end [1, 255] = Some [2, 0] \<and> \<not> (\<forall>k. [1, 255 :: byte] \<le> k \<and> k < [2, 0] \<longrightarrow> starts_with k [1, 255])"
  using prefix_end_range [of "[1, 255]" "[2, 0]"] by (simp add: prefix_end_def)

text \<open>C40. A prefix scan can return a key without the prefix: over a segment with the key \<open>[2]\<close>, the scan of
  the prefix \<open>[1, 255]\<close> returns it.\<close>

theorem scan_leaves_prefix:
  "\<exists>r N. published demo_sha (demo_writer 64) [demo_row [2] 1 0] r
    \<and> db_scan demo_sha N (one_segment r st) [1, 255] = Some (Inr [([2], [1])]) \<and> \<not> starts_with [2] [1, 255 :: byte]"
proof -
  let ?es = "[demo_row [2] 1 0]" and ?pre = "[1, 255]"
  have b: "block_bounds (demo_writer 64) ?es = [(0, 1)]" by code_simp
  have "blocks (demo_writer 64) ?es = [?es]" by (simp add: blocks_def b slice_def)
  then have fits: "segment_fits (demo_writer 64) ?es" unfolding segment_fits_def
    by (simp add: demo_row_def demo_writer_def writer_ok_def entry_ok_def block_size_def entry_size_def BLOOM_BITS_PER_KEY_def
        U16_MAX_def index_size_def)
  have "publish_order ?es" by (simp add: publish_order_def)
  from published_exists [OF demo_sha_ok fits this] obtain r where r: "published demo_sha (demo_writer 64) ?es r"
    by (auto simp: demo_writer_def)
  let ?runs = "layer_runs (one_segment r st) [?es] ?pre ?pre"
  let ?m = "mt_apply [9] 5 None mt_new"
  have "mt_get ?m k = None" if "k \<noteq> [9]" for k
    using that by (simp add: mt_apply_def mt_get_def mt_insert_def mt_new_def bt_get_def)
  then have "(k, b) \<notin> set (mt_prefix_heads ?m ?pre)" for k b
    using mt_prefix_heads_iff [of ?m k b ?pre] by (cases "k = [9]") (auto simp: mt_apply_def mt_inv_insert starts_with_def)
  then have "mt_prefix_heads ?m ?pre = []" by (metis list.set_intros(1) neq_Nil_conv surj_pair)
  then have runs: "?runs = [[([2], Some [1])], []]"
    by (simp add: layer_runs_def one_segment_def prefix_end_def demo_row_def past_end_def row_value_def mem_run_def)
  have "merged_rows ?runs = [([2], [1])]" unfolding runs by (simp add: merged_rows_def run_keys_def winner_def)
  then have "db_scan demo_sha 2 (one_segment r st) ?pre = Some (Inr [([2], [1])])"
    using scan_from_merges [OF demo_sha_ok one_segment_holds(1) [OF r] one_segment_holds(2), of st ?pre ?pre 2] runs by (simp add: db_scan_def)
  then show ?thesis using r by (auto simp: starts_with_def)
qed

end
