(* ===== verification/Checkpoint.thy ===== *)
theory Checkpoint
  imports Placement
begin

text \<open>
  The directory checkpoint of \<^verbatim>\<open>checkpoint.rs\<close>: the snapshot of the identity, replica and
  placement directories at one manifest generation, its file, the choice of the newest one at open, the
  validation that the delta logs published after it are all there, and the pruning of the history it
  subsumes. A hash map is iterated in an order the standard library leaves open: the iteration is an
  argument, and the snapshot sorts what it yields.
\<close>

section \<open>The snapshot\<close>

definition CHECKPOINT_MAGIC :: bytes where "CHECKPOINT_MAGIC = [0x41, 0x4B, 0x43, 0x4B]"
definition CHECKPOINT_HEADER_LEN :: nat where "CHECKPOINT_HEADER_LEN = 4 + 2 + 8 + 3 * 4"

record directory_checkpoint =
  ck_format_version :: u16
  ck_generation :: u64
  ck_identities :: "identity_record list"
  ck_replicas :: "replica_record list"
  ck_placements :: "placement_record list"
  ck_next_logical_id :: u64
  ck_next_replica_id :: u64
  ck_next_placement_generation :: u64
  ck_identity_chain :: u64
  ck_replica_chain :: u64
  ck_placement_chain :: u64

record directory_iters =
  it_identity :: "(object_id \<rightharpoonup> logical_id) \<Rightarrow> (object_id \<times> logical_id) list"
  it_replicas :: "(logical_id \<rightharpoonup> replica_id) \<Rightarrow> (logical_id \<times> replica_id) list"
  it_placements :: "placements \<Rightarrow> (replica_id \<times> placement) list"

definition checkpoint_path :: "u64 \<Rightarrow> string" where
  "checkpoint_path gen = ''CHECKPOINT-'' @ pad6 (dec_digits (unat gen)) @ ''.log''"

definition checkpoint_generation :: "string \<Rightarrow> u64 option" where
  "checkpoint_generation name = log_generation name ''CHECKPOINT-''"

definition from_state ::
    "directory_iters \<Rightarrow> u64 \<Rightarrow> (object_id \<rightharpoonup> logical_id) \<Rightarrow> (logical_id \<rightharpoonup> replica_id) \<Rightarrow> placements
      \<Rightarrow> u64 \<Rightarrow> u64 \<Rightarrow> u64 \<Rightarrow> u64 \<Rightarrow> u64 \<Rightarrow> u64 \<Rightarrow> directory_checkpoint" where
  "from_state it gen identity replicas placements next_lid next_rid next_pgen ichain rchain pchain =
    \<lparr>ck_format_version = FORMAT_VERSION, ck_generation = gen,
     ck_identities = sort_key (\<lambda>r. oid_bytes (ir_oid r)) (map (\<lambda>(oid, lid). \<lparr>ir_oid = oid, ir_lid = lid\<rparr>) (it_identity it identity)),
     ck_replicas = sort_key rr_lid (map (\<lambda>(lid, rid). \<lparr>rr_lid = lid, rr_node = LOCAL_NODE_ID, rr_rid = rid\<rparr>) (it_replicas it replicas)),
     ck_placements = sort_key pr_rid (map (\<lambda>(rid, p). \<lparr>pr_rid = rid, pr_placement = p\<rparr>) (it_placements it placements)),
     ck_next_logical_id = next_lid, ck_next_replica_id = next_rid, ck_next_placement_generation = next_pgen,
     ck_identity_chain = ichain, ck_replica_chain = rchain, ck_placement_chain = pchain\<rparr>"

section \<open>The file\<close>

text \<open>A counted run of fixed-width records.\<close>

definition counted :: "('r \<Rightarrow> bytes) \<Rightarrow> 'r list \<Rightarrow> bytes" where
  "counted enc rs = u32_le (word_of_nat (length rs)) @ concat (map enc rs)"

definition cur_counted :: "string \<Rightarrow> nat \<Rightarrow> 'r parser \<Rightarrow> 'r list parser" where
  "cur_counted fam reclen dec c =
    rbind (cur_u32 c) (\<lambda>(count, c).
    if unat count > remaining c div reclen then Inl (Corrupt (''checkpoint '' @ fam @ '' count cannot fit''))
    else parse_n dec (unat count) c)"

definition checkpoint_body :: "directory_checkpoint \<Rightarrow> bytes" where
  "checkpoint_body ck =
    CHECKPOINT_MAGIC @ u16_le (ck_format_version ck) @ u64_le (ck_generation ck)
    @ counted identity_record_encode (ck_identities ck) @ counted replica_record_encode (ck_replicas ck)
    @ counted placement_record_encode (ck_placements ck)
    @ u64_le (ck_next_logical_id ck) @ u64_le (ck_next_replica_id ck) @ u64_le (ck_next_placement_generation ck)
    @ u64_le (ck_identity_chain ck) @ u64_le (ck_replica_chain ck) @ u64_le (ck_placement_chain ck)"

text \<open>\<^verbatim>\<open>write_streamed\<close> feeds the hash with exactly the bytes it writes before the digest.\<close>

definition write_streamed :: "digest_fn \<Rightarrow> directory_checkpoint \<Rightarrow> bytes" where
  "write_streamed sha ck = (let bs = checkpoint_body ck in bs @ take 8 (sha bs))"

definition checkpoint_fields :: "directory_checkpoint parser" where
  "checkpoint_fields c =
    rbind (cur_take 4 c) (\<lambda>(magic, c).
    if magic \<noteq> CHECKPOINT_MAGIC then Inl (Corrupt ''checkpoint bad magic'') else
    rbind (cur_u16 c) (\<lambda>(version, c).
    if version \<noteq> FORMAT_VERSION then Inl (Unsupported ''checkpoint format version'') else
    rbind (cur_u64 c) (\<lambda>(gen, c).
    rbind (cur_counted ''identity'' IDENTITY_RECORD_LEN identity_record_decode c) (\<lambda>(identities, c).
    rbind (cur_counted ''replica'' REPLICA_RECORD_LEN replica_record_decode c) (\<lambda>(replicas, c).
    rbind (cur_counted ''placement'' PLACEMENT_RECORD_LEN placement_record_decode c) (\<lambda>(placements, c).
    rbind (cur_u64 c) (\<lambda>(next_lid, c).
    rbind (cur_u64 c) (\<lambda>(next_rid, c).
    rbind (cur_u64 c) (\<lambda>(next_pgen, c).
    rbind (cur_u64 c) (\<lambda>(ichain, c).
    rbind (cur_u64 c) (\<lambda>(rchain, c).
    rbind (cur_u64 c) (\<lambda>(pchain, c).
    Inr (\<lparr>ck_format_version = version, ck_generation = gen, ck_identities = identities, ck_replicas = replicas,
          ck_placements = placements, ck_next_logical_id = next_lid, ck_next_replica_id = next_rid,
          ck_next_placement_generation = next_pgen, ck_identity_chain = ichain, ck_replica_chain = rchain,
          ck_placement_chain = pchain\<rparr>, c)))))))))))))"

definition Checkpoint_decode :: "digest_fn \<Rightarrow> bytes \<Rightarrow> directory_checkpoint fres" where
  "Checkpoint_decode sha bs =
    rbind (checkpoint_fields (cursor_new bs)) (\<lambda>(ck, c).
    rbind (cur_take 8 c) (\<lambda>(stored_ck, c).
    if \<not> cur_is_empty c then Inl (Corrupt ''checkpoint trailing bytes'')
    else if checksum8 sha (take (length bs - 8) bs) \<noteq> stored_ck then Inl (Corrupt ''checkpoint checksum mismatch'')
    else Inr ck))"

definition Checkpoint_read :: "digest_fn \<Rightarrow> directory \<Rightarrow> string \<Rightarrow> directory_checkpoint fres" where
  "Checkpoint_read sha dir name =
    (case map_of dir name of None \<Rightarrow> Inl (Io ''read checkpoint'') | Some bs \<Rightarrow> Checkpoint_decode sha bs)"

section \<open>Recovery\<close>

definition newest_checkpoint :: "directory \<Rightarrow> u64 \<Rightarrow> (u64 \<times> string) option" where
  "newest_checkpoint dir current_generation =
    fold (\<lambda>(name, _) best.
      case checkpoint_generation name of
        None \<Rightarrow> best
      | Some gen \<Rightarrow>
          if gen \<le> current_generation \<and> (case best of None \<Rightarrow> True | Some (g, _) \<Rightarrow> g < gen)
          then Some (gen, name) else best) dir None"

definition load_newest :: "digest_fn \<Rightarrow> directory \<Rightarrow> u64 \<Rightarrow> directory_checkpoint option fres" where
  "load_newest sha dir current_generation =
    (case newest_checkpoint dir current_generation of
       None \<Rightarrow> Inr None
     | Some (gen, name) \<Rightarrow>
         rbind (Checkpoint_read sha dir name) (\<lambda>ck.
         if ck_generation ck \<noteq> gen then Inl (Corrupt ''CHECKPOINT carries another generation'')
         else Inr (Some ck)))"

text \<open>The family is given by its file stem and by the generation its decoder reads from a file.\<close>

definition require_delta :: "string \<Rightarrow> (bytes \<Rightarrow> u64 fres) \<Rightarrow> directory \<Rightarrow> u64 \<Rightarrow> unit fres" where
  "require_delta stem gen_of dir g =
    (case map_of dir (delta_log_name stem g) of
       None \<Rightarrow> Inl (Corrupt ''required authoritative delta missing'')
     | Some bs \<Rightarrow> rbind (gen_of bs) (\<lambda>gen.
         if gen \<noteq> g then Inl (Corrupt ''delta carries another generation'') else Inr ()))"

definition coverage_gens :: "string \<Rightarrow> directory \<Rightarrow> u64 \<Rightarrow> u64 \<Rightarrow> u64 list" where
  "coverage_gens stem dir ck_gen current_gen =
    sort (filter (\<lambda>g. ck_gen < g \<and> g \<le> current_gen) (log_gens stem dir))"

definition validate_family_coverage ::
    "digest_fn \<Rightarrow> string \<Rightarrow> (bytes \<Rightarrow> u64 fres) \<Rightarrow> directory \<Rightarrow> u64 \<Rightarrow> u64 \<Rightarrow> u64 \<Rightarrow> u64 \<Rightarrow> u64 \<Rightarrow> unit fres" where
  "validate_family_coverage sha stem gen_of dir ck_gen current_gen base_chain current_chain current_floor =
    (let gens = coverage_gens stem dir ck_gen current_gen in
     rbind (rfold (\<lambda>g chain. rbind (require_delta stem gen_of dir g) (\<lambda>_. Inr (chain_extend sha chain g))) gens base_chain) (\<lambda>chain.
     if ck_gen < current_floor \<and> (gens = [] \<or> last gens \<noteq> current_floor)
     then Inl (Corrupt ''required authoritative delta missing'')
     else if chain \<noteq> current_chain then Inl (Corrupt ''post-checkpoint delta coverage incomplete'')
     else Inr ()))"

definition validate_delta_coverage :: "digest_fn \<Rightarrow> directory \<Rightarrow> directory_checkpoint option \<Rightarrow> manifest \<Rightarrow> unit fres" where
  "validate_delta_coverage sha dir checkpoint m =
    (case checkpoint of
       None \<Rightarrow> Inr ()
     | Some ck \<Rightarrow>
         if mf_generation m \<le> ck_generation ck then Inr () else
         rbind (validate_family_coverage sha ''IDENTITY-'' (\<lambda>bs. rbind (IdentityLog_decode sha bs) (Inr \<circ> dl_generation)) dir
             (ck_generation ck) (mf_generation m) (ck_identity_chain ck) (mf_identity_chain m) (mf_identity_floor m)) (\<lambda>_.
         rbind (validate_family_coverage sha ''REPLICA-'' (\<lambda>bs. rbind (ReplicaLog_decode sha bs) (Inr \<circ> dl_generation)) dir
             (ck_generation ck) (mf_generation m) (ck_replica_chain ck) (mf_replica_chain m) (mf_replica_floor m)) (\<lambda>_.
         validate_family_coverage sha ''PLACEMENT-'' (\<lambda>bs. rbind (PlacementLog_decode sha bs) (Inr \<circ> dl_generation)) dir
             (ck_generation ck) (mf_generation m) (ck_placement_chain ck) (mf_placement_chain m) (mf_placement_floor m))))"

section \<open>Pruning and accounting\<close>

definition delta_generation :: "string \<Rightarrow> u64 option" where
  "delta_generation name =
    (case identity_log_generation name of Some g \<Rightarrow> Some g | None \<Rightarrow>
     case replica_log_generation name of Some g \<Rightarrow> Some g | None \<Rightarrow> placement_log_generation name)"

definition prunable :: "u64 \<Rightarrow> string set \<Rightarrow> string \<Rightarrow> bool" where
  "prunable gen pins name \<longleftrightarrow>
    name \<notin> pins \<and> (case delta_generation name of
      Some g \<Rightarrow> g \<le> gen
    | None \<Rightarrow> (case checkpoint_generation name of Some g \<Rightarrow> g < gen | None \<Rightarrow> False))"

text \<open>\<open>io\<close> is what the file system answers to an operation on a file; a failed removal only warns.\<close>

definition prune_deltas_before :: "(string \<Rightarrow> string option) \<Rightarrow> u64 \<Rightarrow> string set \<Rightarrow> directory \<Rightarrow> directory" where
  "prune_deltas_before io gen pins dir = filter (\<lambda>(name, _). \<not> (prunable gen pins name \<and> io name = None)) dir"

definition directory_log_bytes :: "directory \<Rightarrow> u64 \<Rightarrow> u64" where
  "directory_log_bytes dir after_generation =
    fold (\<lambda>(name, bs) n.
      case delta_generation name of
        None \<Rightarrow> n
      | Some gen \<Rightarrow> if gen \<le> after_generation then n else n + word_of_nat (length bs)) dir 0"

end
