(* ===== verification/DbFlush.thy ===== *)
theory DbFlush
  imports DbState Checkpoint
begin

text \<open>
  The flush of \<^verbatim>\<open>db.rs\<close> in its three phases: detach the memtables under the lock, build their
  segments without it, publish under the lock again (directory logs, manifest, \<^verbatim>\<open>CURRENT\<close>, WAL
  truncation, readers, checkpoint). Other operations run between the phases; each phase is one
  definition, and a failing phase keeps the state it reached. \<open>io\<close> is what the file system answers to the
  publication of the file of that name, and to the calls on the WAL handle: nothing, or the reason it
  failed.
\<close>

section \<open>Files\<close>

type_synonym file_io = "string \<Rightarrow> string option"

definition manifest_path :: "u64 \<Rightarrow> string" where
  "manifest_path gen = ''MANIFEST-'' @ pad6 (dec_digits (unat gen))"

definition rlog_path :: "u64 \<Rightarrow> string" where
  "rlog_path first_seq = (let ds = dec_digits (unat first_seq) in ''rlog/'' @ replicate (20 - length ds) (CHR ''0'') @ ds @ ''.wal'')"

definition dir_put :: "string \<Rightarrow> bytes \<Rightarrow> directory \<Rightarrow> directory" where
  "dir_put name bs dir =
    (if map_of dir name = None then dir @ [(name, bs)]
     else map (\<lambda>(n, b). if n = name then (n, bs) else (n, b)) dir)"

text \<open>Write beside the target, sync, rename: the target has the new contents or is untouched.\<close>

definition publish_atomic :: "file_io \<Rightarrow> string \<Rightarrow> bytes \<Rightarrow> directory \<Rightarrow> unit fres \<times> directory" where
  "publish_atomic io name bs dir =
    (case io name of Some why \<Rightarrow> (Inl (Io why), dir) | None \<Rightarrow> (Inr (), dir_put name bs dir))"

definition publish_file :: "file_io \<Rightarrow> string \<Rightarrow> bytes \<Rightarrow> database \<Rightarrow> unit fres \<times> database" where
  "publish_file io name bs d = (case publish_atomic io name bs (dx_dir d) of (r, dir) \<Rightarrow> (r, d\<lparr>dx_dir := dir\<rparr>))"

section \<open>Phase A: detach\<close>

record flush_plan =
  fp_immutables :: "memtable list"
  fp_segment_ids :: "u64 list"
  fp_wal_truncate_len :: nat

definition rotate_state :: "db_state \<Rightarrow> db_state" where
  "rotate_state st =
    (if mt_is_empty (st_active st) then st
     else st\<lparr>st_active := mt_new, st_immutables := st_immutables st @ [st_active st]\<rparr>)"

definition rotate_db :: "database \<Rightarrow> database" where
  "rotate_db d = d\<lparr>dx_state := rotate_state (dx_state d)\<rparr>"

definition flush_phase_a :: "file_io \<Rightarrow> database \<Rightarrow> flush_plan option fres \<times> database" where
  "flush_phase_a io d =
    (let st = rotate_state (dx_state d); d = d\<lparr>dx_state := st\<rparr> in
     if st_immutables st = [] then (Inr None, d) else
     let n = length (st_immutables st);
         d = d\<lparr>dx_state := st\<lparr>st_immutables := [], st_next_segment_id := st_next_segment_id st + word_of_nat n\<rparr>\<rparr> in
     case io ''WAL metadata'' of
       Some why \<Rightarrow> (Inl (Io why), d)
     | None \<Rightarrow>
         (Inr (Some \<lparr>fp_immutables = st_immutables st,
            fp_segment_ids = map (\<lambda>i. st_next_segment_id st + word_of_nat i) [0..<n],
            fp_wal_truncate_len = length (dx_wal d)\<rparr>), d))"

section \<open>Phase B: build\<close>

type_synonym anchor_slot = "u64 \<times> segment_id \<times> block_id \<times> u32"

record flush_build =
  fb_new_segments :: "segment_reader list"
  fb_records :: "segment_record list"
  fb_anchors :: "(replica_id, anchor_slot) btree"

definition flush_row :: "(bytes \<times> u64) \<times> mem_entry \<Rightarrow> segment_entry" where
  "flush_row = (\<lambda>((key, seq), e).
    let (val, rid) = me_into_parts e in
    \<lparr>se_key = key, se_value = (case val of Some v \<Rightarrow> v | None \<Rightarrow> []), se_seq = seq,
     se_flags = (if val \<noteq> None then FLAG_PUT else FLAG_DELETE), se_replica = rid\<rparr>)"

definition flush_writer :: "nat \<Rightarrow> memtable \<Rightarrow> segment_writer" where
  "flush_writer block_target mem =
    fold (\<lambda>x. writer_push (flush_row x)) (mt_into_entries mem)
      (if mt_has_identity mem then writer_new_v4 block_target else writer_new_v2 block_target)"

text \<open>The anchors of one segment are offered to the table of the flush: the highest sequence number
  wins, the earlier segment on a tie. \<open>rids\<close> lists the replicas that may have an anchor.\<close>

definition offer_anchor :: "u64 \<Rightarrow> anchors \<Rightarrow> replica_id \<Rightarrow> (replica_id, anchor_slot) btree \<Rightarrow> (replica_id, anchor_slot) btree" where
  "offer_anchor segid seg_anchors rid table =
    (case seg_anchors rid of
       None \<Rightarrow> table
     | Some a \<Rightarrow>
         (case bt_get table rid of
            Some (best_seq, _) \<Rightarrow>
              if sa_seq a \<le> best_seq then table
              else bt_put rid (sa_seq a, SegmentId segid, sa_block a, sa_offset a) table
          | None \<Rightarrow> bt_put rid (sa_seq a, SegmentId segid, sa_block a, sa_offset a) table))"

definition segment_record_of :: "u64 \<Rightarrow> byte \<Rightarrow> segment_reader \<Rightarrow> nat \<Rightarrow> u64 \<Rightarrow> segment_record" where
  "segment_record_of segid lev rdr file_size checksum =
    \<lparr>sr_segment_id = segid, sr_level = lev, sr_key_min = rd_key_min rdr, sr_key_max = rd_key_max rdr,
     sr_seq_lo = rd_seq_lo rdr, sr_seq_hi = rd_seq_hi rdr, sr_record_count = rd_entry_count rdr,
     sr_file_size = word_of_nat file_size, sr_checksum = checksum\<rparr>"

definition flush_one ::
    "digest_fn \<Rightarrow> file_io \<Rightarrow> nat \<Rightarrow> memtable \<times> u64 \<Rightarrow> flush_build \<times> directory \<Rightarrow> unit fres \<times> flush_build \<times> directory" where
  "flush_one sha io block_target = (\<lambda>(mem, segid) (build, dir).
    let w = flush_writer block_target mem in
    case publish_with_anchors_sorted sha w of
      Inl e \<Rightarrow> (Inl e, build, dir)
    | Inr (bs, checksum, seg_anchors) \<Rightarrow>
        (case publish_atomic io (segment_path segid) bs dir of
           (Inl e, dir) \<Rightarrow> (Inl e, build, dir)
         | (Inr _, dir) \<Rightarrow>
             (case open_inner sha bs of
                Inl e \<Rightarrow> (Inl e, build, dir)
              | Inr rdr \<Rightarrow>
                  (Inr (), \<lparr>fb_new_segments = fb_new_segments build @ [rdr],
                    fb_records = fb_records build @ [segment_record_of segid 0 rdr (length bs) checksum],
                    fb_anchors = fold (offer_anchor segid seg_anchors) (map se_replica (sw_entries w)) (fb_anchors build)\<rparr>, dir))))"

definition flush_phase_b :: "digest_fn \<Rightarrow> file_io \<Rightarrow> flush_plan \<Rightarrow> database \<Rightarrow> flush_build fres \<times> database" where
  "flush_phase_b sha io plan d =
    (case tfold (flush_one sha io (cf_block_target (dx_config d))) (zip (fp_immutables plan) (fp_segment_ids plan))
        (\<lparr>fb_new_segments = [], fb_records = [], fb_anchors = []\<rparr>, dx_dir d) of
       (Inl e, _, dir) \<Rightarrow> (Inl e, d\<lparr>dx_dir := dir\<rparr>)
     | (Inr _, build, dir) \<Rightarrow> (Inr build, d\<lparr>dx_dir := dir\<rparr>))"

section \<open>Phase C: publish\<close>

definition on_state :: "(db_state \<Rightarrow> db_state) \<Rightarrow> database \<Rightarrow> database" where
  "on_state f d = d\<lparr>dx_state := f (dx_state d)\<rparr>"

definition count_records :: "segment_record list \<Rightarrow> db_state \<Rightarrow> db_state" where
  "count_records records st =
    st\<lparr>st_l0_count := st_l0_count st + length records,
       st_l0_bytes := st_l0_bytes st + sum_list (map sr_file_size records),
       st_segment_records := st_segment_records st @ records\<rparr>"

text \<open>Every flushed replica moves to its segment under a fresh generation.\<close>

definition place_anchor :: "replica_id \<times> anchor_slot \<Rightarrow> db_state \<Rightarrow> unit fres \<times> db_state" where
  "place_anchor = (\<lambda>(rid, (_, segid, block, offset)) st.
    let pgen = st_next_placement_generation st;
        st = st\<lparr>st_next_placement_generation := pgen + 1\<rparr>;
        placement = InSegment \<lparr>pl_segment_id = segid, pl_block_id = block, pl_entry_offset = offset, pl_generation = pgen\<rparr> in
    case merge_placement rid placement (st_placements st) of
      Inl e \<Rightarrow> (Inl e, st)
    | Inr (placements, _) \<Rightarrow>
        (Inr (), st\<lparr>st_placements := placements,
           st_pending_placements := st_pending_placements st @ [\<lparr>pr_rid = rid, pr_placement = placement\<rparr>]\<rparr>))"

definition publish_identity_log :: "digest_fn \<Rightarrow> file_io \<Rightarrow> database \<Rightarrow> unit fres \<times> database" where
  "publish_identity_log sha io d =
    (let st = dx_state d; gen = st_generation st in
     if st_pending_identity st = [] then (Inr (), d) else
     let log = \<lparr>dl_format_version = FORMAT_VERSION, dl_generation = gen, dl_records = st_pending_identity st\<rparr>;
         d = on_state (\<lambda>st. st\<lparr>st_pending_identity := [],
               st_bytes_since_checkpoint := st_bytes_since_checkpoint st + word_of_nat (IdentityLog_encoded_len log)\<rparr>) d in
     tbind (publish_file io (identity_log_path gen) (IdentityLog_encode sha log) d) (\<lambda>_ d.
     (Inr (), on_state (\<lambda>st. st\<lparr>st_identity_floor := gen, st_identity_chain := chain_extend sha (st_identity_chain st) gen\<rparr>) d)))"

definition publish_replica_log :: "digest_fn \<Rightarrow> file_io \<Rightarrow> database \<Rightarrow> unit fres \<times> database" where
  "publish_replica_log sha io d =
    (let st = dx_state d; gen = st_generation st in
     if st_pending_replicas st = [] then (Inr (), d) else
     let log = \<lparr>dl_format_version = FORMAT_VERSION, dl_generation = gen, dl_records = st_pending_replicas st\<rparr>;
         d = on_state (\<lambda>st. st\<lparr>st_pending_replicas := [],
               st_bytes_since_checkpoint := st_bytes_since_checkpoint st + word_of_nat (ReplicaLog_encoded_len log)\<rparr>) d in
     tbind (publish_file io (replica_log_path gen) (ReplicaLog_encode sha log) d) (\<lambda>_ d.
     (Inr (), on_state (\<lambda>st. st\<lparr>st_replica_floor := gen, st_replica_chain := chain_extend sha (st_replica_chain st) gen\<rparr>) d)))"

definition publish_placement_log :: "digest_fn \<Rightarrow> file_io \<Rightarrow> database \<Rightarrow> unit fres \<times> database" where
  "publish_placement_log sha io d =
    (let st = dx_state d; gen = st_generation st in
     if st_pending_placements st = [] then (Inr (), d) else
     let log = \<lparr>dl_format_version = FORMAT_VERSION, dl_generation = gen, dl_records = st_pending_placements st\<rparr>;
         d = on_state (\<lambda>st. st\<lparr>st_pending_placements := [],
               st_bytes_since_checkpoint := st_bytes_since_checkpoint st + word_of_nat (PlacementLog_encoded_len log)\<rparr>) d in
     tbind (publish_file io (placement_log_path gen) (PlacementLog_encode sha log) d) (\<lambda>_ d.
     (Inr (), on_state (\<lambda>st. st\<lparr>st_placement_floor := gen, st_placement_chain := chain_extend sha (st_placement_chain st) gen\<rparr>) d)))"

definition manifest_of :: "db_state \<Rightarrow> segment_record list \<Rightarrow> manifest" where
  "manifest_of st records =
    \<lparr>mf_format_version = FORMAT_VERSION, mf_generation = st_generation st, mf_segments = records, mf_wal_ids = [],
     mf_identity_floor = st_identity_floor st, mf_replica_floor = st_replica_floor st, mf_placement_floor = st_placement_floor st,
     mf_identity_chain = st_identity_chain st, mf_replica_chain = st_replica_chain st, mf_placement_chain = st_placement_chain st\<rparr>"

definition publish_manifest :: "digest_fn \<Rightarrow> file_io \<Rightarrow> segment_record list \<Rightarrow> database \<Rightarrow> unit fres \<times> database" where
  "publish_manifest sha io records d =
    (let st = dx_state d; gen = st_generation st in
     tbind (publish_file io (manifest_path gen) (Manifest_encode sha (manifest_of st records)) d) (\<lambda>_.
     publish_file io ''CURRENT'' (Current_encode sha \<lparr>cu_format_version = FORMAT_VERSION, cu_manifest_generation = gen\<rparr>)))"

text \<open>The WAL keeps the frames appended since phase A: the tail is read, the covered prefix archived
  when the configuration retains it, the file emptied and the tail written again. A \<^verbatim>\<open>write_all\<close> can fail
  after any number of bytes, which are then in the file: \<open>io\<close> is asked for every byte.\<close>

definition wal_call :: "file_io \<Rightarrow> string \<Rightarrow> (database \<Rightarrow> database) \<Rightarrow> database \<Rightarrow> unit fres \<times> database" where
  "wal_call io call f d = (case io call of Some why \<Rightarrow> (Inl (Io why), d) | None \<Rightarrow> (Inr (), f d))"

definition wal_read :: "file_io \<Rightarrow> string \<Rightarrow> string \<Rightarrow> database \<Rightarrow> unit fres \<times> database" where
  "wal_read io seek_call read_call d =
    tbind (wal_call io seek_call (\<lambda>d. d) d) (\<lambda>_ d. wal_call io read_call (\<lambda>d. d) d)"

definition tail_byte :: "nat \<Rightarrow> string" where
  "tail_byte i = ''WAL tail re-append, byte '' @ dec_digits i"

definition rewrite_tail :: "file_io \<Rightarrow> bytes \<Rightarrow> database \<Rightarrow> unit fres \<times> database" where
  "rewrite_tail io tail d =
    tbind (wal_call io ''WAL reset seek'' (\<lambda>d. d) d) (\<lambda>_ d.
    case find (\<lambda>i. io (tail_byte i) \<noteq> None) [0..<length tail] of
      None \<Rightarrow> (Inr (), d\<lparr>dx_wal := tail\<rparr>)
    | Some k \<Rightarrow> (Inl (Io (the (io (tail_byte k)))), d\<lparr>dx_wal := take k tail\<rparr>))"

definition archive_covered :: "digest_fn \<Rightarrow> file_io \<Rightarrow> nat \<Rightarrow> database \<Rightarrow> unit fres \<times> database" where
  "archive_covered sha io n d =
    (if cf_retain_log (dx_config d) \<and> n > 0 then
       tbind (wal_read io ''WAL archive seek'' ''WAL archive read'' d) (\<lambda>_ d.
       if length (dx_wal d) < n then (Inl (Io ''WAL archive read''), d)
       else let covered = take n (dx_wal d) in
         case decode_frame sha covered of
           Inl e \<Rightarrow> (Inl e, d)
         | Inr (frame, _) \<Rightarrow> publish_file io (rlog_path (fr_seq frame)) covered d)
     else (Inr (), d))"

definition truncate_wal :: "digest_fn \<Rightarrow> file_io \<Rightarrow> nat \<Rightarrow> database \<Rightarrow> unit fres \<times> database" where
  "truncate_wal sha io n d =
    tbind (wal_call io ''WAL metadata'' (\<lambda>d. d) d) (\<lambda>_ d.
    let tail = drop n (dx_wal d) in
    tbind (if tail = [] then (Inr (), d) else wal_read io ''WAL tail seek'' ''WAL tail read'' d) (\<lambda>_ d.
    tbind (archive_covered sha io n d) (\<lambda>_ d.
    tbind (wal_call io ''WAL truncate'' (\<lambda>d. d\<lparr>dx_wal := []\<rparr>) d) (\<lambda>_ d.
    tbind (if tail = [] then (Inr (), d) else rewrite_tail io tail d) (\<lambda>_ d.
    wal_call io ''WAL sync'' (\<lambda>d. d) d)))))"

definition write_checkpoint :: "digest_fn \<Rightarrow> file_io \<Rightarrow> directory_iters \<Rightarrow> database \<Rightarrow> unit fres \<times> database" where
  "write_checkpoint sha io it d =
    (let st = dx_state d; gen = st_generation st;
         ck = from_state it gen (st_identity st) (st_replicas st) (st_placements st) (st_next_logical_id st)
           (st_next_replica_id st) (st_next_placement_generation st) (st_identity_chain st) (st_replica_chain st)
           (st_placement_chain st) in
     tbind (publish_file io (checkpoint_path gen) (write_streamed sha ck) d) (\<lambda>_ d.
     case Checkpoint_read sha (dx_dir d) (checkpoint_path gen) of
       Inl e \<Rightarrow> (Inl e, d)
     | Inr read_back \<Rightarrow>
         if read_back \<noteq> ck then (Inl (Corrupt ''checkpoint read-back differs from the published bytes''), d)
         else (Inr (), d\<lparr>dx_dir := prune_deltas_before io gen (st_snapshot_pins st) (dx_dir d),
                dx_state := (dx_state d)\<lparr>st_bytes_since_checkpoint := 0\<rparr>\<rparr>)))"

definition maybe_checkpoint :: "digest_fn \<Rightarrow> file_io \<Rightarrow> directory_iters \<Rightarrow> database \<Rightarrow> unit fres \<times> database" where
  "maybe_checkpoint sha io it d =
    (let n = cf_checkpoint_bytes (dx_config d) in
     if n > 0 \<and> n \<le> unat (st_bytes_since_checkpoint (dx_state d)) then write_checkpoint sha io it d else (Inr (), d))"

definition place_anchors :: "(replica_id \<times> anchor_slot) list \<Rightarrow> database \<Rightarrow> unit fres \<times> database" where
  "place_anchors anchors d =
    (case tfold place_anchor anchors (dx_state d) of (r, st) \<Rightarrow> (r, d\<lparr>dx_state := st\<rparr>))"

text \<open>What the publication makes durable before the WAL is touched.\<close>

definition flush_publish :: "digest_fn \<Rightarrow> file_io \<Rightarrow> flush_build \<Rightarrow> database \<Rightarrow> unit fres \<times> database" where
  "flush_publish sha io build d =
    (let d = on_state (count_records (fb_records build)) d in
     tbind (place_anchors (fb_anchors build) d) (\<lambda>_ d.
     let d = on_state (\<lambda>st. st\<lparr>st_generation := st_generation st + 1\<rparr>) d in
     tbind (publish_identity_log sha io d) (\<lambda>_ d.
     tbind (publish_replica_log sha io d) (\<lambda>_ d.
     tbind (publish_placement_log sha io d) (\<lambda>_ d.
     publish_manifest sha io (st_segment_records (dx_state d)) d)))))"

definition flush_phase_c :: "digest_fn \<Rightarrow> file_io \<Rightarrow> directory_iters \<Rightarrow> flush_build \<Rightarrow> nat \<Rightarrow> database \<Rightarrow> unit fres \<times> database" where
  "flush_phase_c sha io it build wal_truncate_len d =
    tbind (flush_publish sha io build d) (\<lambda>_ d.
    tbind (truncate_wal sha io wal_truncate_len d) (\<lambda>_ d.
    let d = on_state (\<lambda>st. st\<lparr>st_segments := st_segments st @ fb_new_segments build\<rparr>) d in
    maybe_checkpoint sha io it d))"

definition flush_entry :: "digest_fn \<Rightarrow> file_io \<Rightarrow> directory_iters \<Rightarrow> database \<Rightarrow> unit fres \<times> database" where
  "flush_entry sha io it d =
    tbind (flush_phase_a io d) (\<lambda>plan d.
    case plan of
      None \<Rightarrow> (Inr (), d)
    | Some plan \<Rightarrow>
        tbind (flush_phase_b sha io plan d) (\<lambda>build d.
        flush_phase_c sha io it build (fp_wal_truncate_len plan) d))"

end
