(* ===== verification/Compaction.thy ===== *)
theory Compaction
  imports SegmentProps
begin

text \<open>
  Compaction (\<^verbatim>\<open>compaction.rs\<close>): a k-way merge of segments into a sequence of bounded
  segments, with the retention policy as an input, and the relocation of replicas. The standard
  library's \<^verbatim>\<open>BinaryHeap\<close> is a list from which \<open>heap_pop\<close> takes a greatest element.
\<close>

section \<open>The merge source\<close>

record heap_entry =
  he_entry :: segment_entry
  he_idx :: nat

text \<open>\<^verbatim>\<open>HeapEntry::cmp\<close>: the greatest entry has the least key, then the highest sequence number.\<close>

definition he_less :: "heap_entry \<Rightarrow> heap_entry \<Rightarrow> bool" where
  "he_less a b \<longleftrightarrow> se_key (he_entry b) < se_key (he_entry a)
    \<or> (se_key (he_entry a) = se_key (he_entry b)
        \<and> (se_seq (he_entry a) < se_seq (he_entry b)
            \<or> (se_seq (he_entry a) = se_seq (he_entry b) \<and> he_idx a < he_idx b)))"

definition heap_max :: "heap_entry \<Rightarrow> heap_entry list \<Rightarrow> heap_entry" where
  "heap_max h hs = fold (\<lambda>a m. if he_less m a then a else m) hs h"

fun heap_peek :: "heap_entry list \<Rightarrow> heap_entry option" where
  "heap_peek [] = None"
| "heap_peek (h # hs) = Some (heap_max h hs)"

definition merge_heap_pop :: "heap_entry list \<Rightarrow> (heap_entry \<times> heap_entry list) option" where
  "merge_heap_pop heap = (case heap_peek heap of None \<Rightarrow> None | Some h \<Rightarrow> Some (h, remove1 h heap))"

text \<open>An iterator borrows its reader; an index past the iterators would panic.\<close>

record merge_source =
  ms_iters :: "(segment_reader \<times> segment_iter) list"
  ms_heap :: "heap_entry list"

definition advance :: "digest_fn \<Rightarrow> nat \<Rightarrow> merge_source \<Rightarrow> merge_source fres" where
  "advance sha i src =
    (if length (ms_iters src) \<le> i then Inl Panicked else
     let (r, it) = ms_iters src ! i in
     case iter_next sha r it of
       (Inl e, _) \<Rightarrow> Inl e
     | (Inr None, it) \<Rightarrow> Inr (src\<lparr>ms_iters := (ms_iters src)[i := (r, it)]\<rparr>)
     | (Inr (Some e), it) \<Rightarrow>
         Inr (src\<lparr>ms_iters := (ms_iters src)[i := (r, it)], ms_heap := \<lparr>he_entry = e, he_idx = i\<rparr> # ms_heap src\<rparr>))"

definition merge_start :: "digest_fn \<Rightarrow> segment_reader list \<Rightarrow> merge_source fres" where
  "merge_start sha rs =
    rfold (advance sha) [0..<length rs] \<lparr>ms_iters = map (\<lambda>r. (r, segment_iter_new)) rs, ms_heap = []\<rparr>"

text \<open>The entries an iterator can still yield bound the rounds of the merge, for any readers.\<close>

definition block_yield :: "digest_fn \<Rightarrow> segment_reader \<Rightarrow> nat \<Rightarrow> nat" where
  "block_yield sha r i = (case block_entries sha r i of Inl _ \<Rightarrow> 0 | Inr v \<Rightarrow> length v)"

definition iter_yield :: "digest_fn \<Rightarrow> segment_reader \<times> segment_iter \<Rightarrow> nat" where
  "iter_yield sha p = (case p of (r, it) \<Rightarrow>
    length (it_entries it) + (\<Sum>i\<leftarrow>[it_block it..<length (rd_data r)]. block_yield sha r i))"

definition source_yield :: "digest_fn \<Rightarrow> merge_source \<Rightarrow> nat" where
  "source_yield sha src = length (ms_heap src) + (\<Sum>p\<leftarrow>ms_iters src. iter_yield sha p)"

lemma iter_next_yield:
  "iter_next sha r it = (Inr x, it') \<Longrightarrow> iter_yield sha (r, it') + (if x = None then 0 else 1) \<le> iter_yield sha (r, it)"
proof (induction sha r it rule: iter_next.induct)
  case (1 sha r it)
  show ?case
  proof (cases "it_entries it")
    case (Cons y ys)
    then show ?thesis using "1.prems" by (subst (asm) iter_next.simps) (auto simp: iter_yield_def)
  next
    case Nil
    show ?thesis
    proof (cases "length (rd_data r) \<le> it_block it")
      case True
      then show ?thesis using Nil "1.prems" by (subst (asm) iter_next.simps) auto
    next
      case False
      then obtain v where v: "block_entries sha r (it_block it) = Inr v"
        "iter_next sha r (it\<lparr>it_entries := v, it_block := it_block it + 1\<rparr>) = (Inr x, it')"
        using "1.prems" Nil by (subst (asm) iter_next.simps) (auto split: sum.splits)
      have "iter_yield sha (r, it') + (if x = None then 0 else 1)
          \<le> iter_yield sha (r, it\<lparr>it_entries := v, it_block := it_block it + 1\<rparr>)"
        by (rule "1.IH" [OF Nil False v])
      also have "\<dots> = iter_yield sha (r, it)"
        using Nil False v(1) by (simp add: iter_yield_def block_yield_def upt_conv_Cons)
      finally show ?thesis .
    qed
  qed
qed

lemma sum_list_update_le:
  "i < length xs \<Longrightarrow> f y + n \<le> f (xs ! i) \<Longrightarrow> (\<Sum>x\<leftarrow>xs[i := y]. f x) + n \<le> (\<Sum>x\<leftarrow>xs. f x :: nat)"
proof (induction xs arbitrary: i)
  case (Cons x xs)
  then show ?case by (cases i) auto
qed simp

lemma advance_yield:
  assumes "advance sha i src = Inr src'"
  shows "source_yield sha src' \<le> source_yield sha src"
proof -
  obtain r it where p: "ms_iters src ! i = (r, it)" by fastforce
  have i: "i < length (ms_iters src)" using assms by (simp add: advance_def split: if_splits)
  obtain x it' where n: "iter_next sha r it = (Inr x, it')"
    "src' = src\<lparr>ms_iters := (ms_iters src)[i := (r, it')],
       ms_heap := (case x of None \<Rightarrow> ms_heap src | Some e \<Rightarrow> \<lparr>he_entry = e, he_idx = i\<rparr> # ms_heap src)\<rparr>"
    using assms p i by (auto simp: advance_def split: prod.splits sum.splits option.splits)
  have "(\<Sum>p\<leftarrow>(ms_iters src)[i := (r, it')]. iter_yield sha p) + (if x = None then 0 else 1)
      \<le> (\<Sum>p\<leftarrow>ms_iters src. iter_yield sha p)"
    by (rule sum_list_update_le [OF i]) (use iter_next_yield [OF n(1)] p in simp)
  then show ?thesis by (auto simp: source_yield_def n(2) split: option.splits if_splits)
qed

lemma heap_max_in: "heap_max h hs \<in> set (h # hs)"
proof (induction hs arbitrary: h)
  case (Cons a hs)
  then show ?case using Cons.IH [of a] Cons.IH [of h] by (auto simp: heap_max_def)
qed (simp add: heap_max_def)

lemma merge_heap_pop_yield:
  "merge_heap_pop (ms_heap src) = Some (h, heap) \<Longrightarrow> source_yield sha (src\<lparr>ms_heap := heap\<rparr>) < source_yield sha src"
  using heap_max_in
  by (cases "ms_heap src") (auto simp: merge_heap_pop_def source_yield_def length_remove1 simp del: remove1.simps split: if_splits)

text \<open>The rest of the run of the popped key.\<close>

function drain_run :: "digest_fn \<Rightarrow> merge_source \<Rightarrow> segment_entry list \<Rightarrow> (merge_source \<times> segment_entry list) fres" where
  "drain_run sha src run =
    (case merge_heap_pop (ms_heap src) of
       None \<Rightarrow> Inr (src, run)
     | Some (h, heap) \<Rightarrow>
         if se_key (he_entry h) \<noteq> se_key (hd run) then Inr (src, run)
         else rbind (advance sha (he_idx h) (src\<lparr>ms_heap := heap\<rparr>)) (\<lambda>src. drain_run sha src (run @ [he_entry h])))"
  by pat_completeness auto
termination
  by (relation "measure (\<lambda>(sha, src, run). source_yield sha src)")
    (auto dest!: advance_yield dest: merge_heap_pop_yield intro: le_less_trans)

declare drain_run.simps [simp del]

lemma drain_run_yield: "drain_run sha src run = Inr (src', run') \<Longrightarrow> source_yield sha src' \<le> source_yield sha src"
proof (induction sha src run rule: drain_run.induct)
  case (1 sha src run)
  show ?case
  proof (cases "merge_heap_pop (ms_heap src)")
    case None
    then show ?thesis using "1.prems" by (subst (asm) drain_run.simps) simp
  next
    case (Some p)
    obtain h heap where p: "p = (h, heap)" by fastforce
    show ?thesis
    proof (cases "se_key (he_entry h) = se_key (hd run)")
      case True
      then obtain src2 where a: "advance sha (he_idx h) (src\<lparr>ms_heap := heap\<rparr>) = Inr src2"
        "drain_run sha src2 (run @ [he_entry h]) = Inr (src', run')"
        using "1.prems" Some p by (subst (asm) drain_run.simps) (auto simp: rbind_Inr_iff)
      have "source_yield sha src' \<le> source_yield sha src2"
        by (rule "1.IH" [OF Some p [symmetric] _ a]) (use True in simp)
      then show ?thesis using advance_yield [OF a(1)] merge_heap_pop_yield [of src h heap sha] Some p by simp
    next
      case False
      then show ?thesis using "1.prems" Some p by (subst (asm) drain_run.simps) simp
    qed
  qed
qed

section \<open>The sinks\<close>

datatype retention = Keep | Drop | Archive

text \<open>The policy is an input of the merge; \<open>keep_all\<close> is the default one.\<close>

definition keep_all :: "bytes \<Rightarrow> retention" where
  "keep_all _ = Keep"

definition DEDUP_CROSSOVER :: nat where "DEDUP_CROSSOVER = 64"

definition entry_bytes :: "segment_entry \<Rightarrow> nat" where
  "entry_bytes e = length (se_key e) + length (se_value e) + 17"

record live_chunk =
  lc_id :: u64
  lc_reader :: segment_reader
  lc_size :: u64
  lc_checksum :: u64
  lc_anchors :: anchors

record live_sink =
  ls_writer :: segment_writer
  ls_len :: nat
  ls_chunks :: "live_chunk list"

definition publish_chunk :: "digest_fn \<Rightarrow> live_sink \<Rightarrow> u64 \<Rightarrow> (live_sink \<times> u64) fres" where
  "publish_chunk sha sink next_id =
    rbind (publish_with_anchors_sorted_staged sha (ls_writer sink)) (\<lambda>(file, checksum, anchors).
    rbind (open_inner sha file) (\<lambda>reader.
    Inr (sink\<lparr>ls_writer := (ls_writer sink)\<lparr>sw_entries := []\<rparr>, ls_len := 0,
              ls_chunks := ls_chunks sink @ [\<lparr>lc_id = next_id, lc_reader = reader,
                lc_size = word_of_nat (length file), lc_checksum = checksum, lc_anchors = anchors\<rparr>]\<rparr>,
         next_id + 1)))"

definition push_live :: "digest_fn \<Rightarrow> nat \<Rightarrow> segment_entry \<Rightarrow> live_sink \<times> u64 \<Rightarrow> (live_sink \<times> u64) fres" where
  "push_live sha chunk_bytes e st =
    (let (sink, next_id) = st; est = entry_bytes e in
     rbind (if 0 < chunk_bytes \<and> 0 < ls_len sink \<and> chunk_bytes < ls_len sink + est
            then publish_chunk sha sink next_id else Inr (sink, next_id)) (\<lambda>(sink, next_id).
     let w = (if se_replica e \<noteq> ReplicaId 0 then enable_v4 (ls_writer sink) else ls_writer sink) in
     Inr (sink\<lparr>ls_len := ls_len sink + est, ls_writer := writer_push e w\<rparr>, next_id)))"

text \<open>The archive sink; the published archive files are recorded under their names.\<close>

record archive_sink =
  as_writer :: segment_writer
  as_len :: nat
  as_chunk :: nat
  as_id :: "u64 option"
  as_files :: "(string \<times> bytes) list"

definition archive_sink_new :: "nat \<Rightarrow> archive_sink" where
  "archive_sink_new block_target =
    \<lparr>as_writer = writer_new_v2 block_target, as_len = 0, as_chunk = 0, as_id = None, as_files = []\<rparr>"

definition archive_name :: "u64 \<Rightarrow> nat \<Rightarrow> string" where
  "archive_name aid chunk =
    (if chunk = 0 then ''ARCHIVE-'' @ pad6 (dec_digits (unat aid)) @ ''.seg''
     else ''ARCHIVE-'' @ pad6 (dec_digits (unat aid)) @ ''-'' @ dec_digits chunk @ ''.seg'')"

text \<open>The archive id is taken from the counter on first use.\<close>

definition archive_id :: "archive_sink \<Rightarrow> u64 \<Rightarrow> archive_sink \<times> u64 \<times> u64" where
  "archive_id sink next_id =
    (case as_id sink of Some aid \<Rightarrow> (sink, aid, next_id) | None \<Rightarrow> (sink\<lparr>as_id := Some next_id\<rparr>, next_id, next_id + 1))"

definition publish_archive_chunk :: "digest_fn \<Rightarrow> archive_sink \<Rightarrow> u64 \<Rightarrow> archive_sink fres" where
  "publish_archive_chunk sha sink aid =
    rbind (publish_with_anchors_sorted_staged sha (as_writer sink)) (\<lambda>(file, _, _).
    Inr (sink\<lparr>as_writer := (as_writer sink)\<lparr>sw_entries := []\<rparr>, as_len := 0,
              as_files := as_files sink @ [(archive_name aid (as_chunk sink), file)]\<rparr>))"

definition push_archive :: "digest_fn \<Rightarrow> nat \<Rightarrow> segment_entry \<Rightarrow> archive_sink \<times> u64 \<Rightarrow> (archive_sink \<times> u64) fres" where
  "push_archive sha chunk_bytes e st =
    (let (sink, next_id) = st; est = entry_bytes e in
     rbind (if 0 < chunk_bytes \<and> 0 < as_len sink \<and> chunk_bytes < as_len sink + est
            then let (sink, aid, next_id) = archive_id sink next_id in
                 rbind (publish_archive_chunk sha sink aid) (\<lambda>sink. Inr (sink\<lparr>as_chunk := as_chunk sink + 1\<rparr>, next_id))
            else Inr (sink, next_id)) (\<lambda>(sink, next_id).
     let w = (if se_replica e \<noteq> ReplicaId 0 then enable_v4 (as_writer sink) else as_writer sink) in
     Inr (sink\<lparr>as_len := as_len sink + est, as_writer := writer_push e w\<rparr>, next_id)))"

section \<open>The merge\<close>

record compact_stats =
  co_segments_in :: u64
  co_segments_out :: u64
  co_entries_in :: u64
  co_entries_out :: u64
  co_entries_archived :: u64
  co_rids_seen :: u64
  co_dedup_compares :: u64
  co_stale :: bool

record merge_state =
  mg_live :: live_sink
  mg_archive :: "archive_sink option"
  mg_next :: u64
  mg_seen :: "replica_id list"
  mg_grouped :: "replica_id list"
  mg_set :: "replica_id list"
  mg_stats :: compact_stats

text \<open>The membership test of the vector tier, with the number of comparisons it makes.\<close>

fun grouped_scan :: "replica_id list \<Rightarrow> replica_id \<Rightarrow> nat \<times> bool" where
  "grouped_scan [] rid = (0, True)"
| "grouped_scan (x # xs) rid = (if x = rid then (1, False) else (case grouped_scan xs rid of (n, fresh) \<Rightarrow> (Suc n, fresh)))"

text \<open>Per-key deduplication on one of the two tiers.\<close>

definition dedup :: "bool \<Rightarrow> replica_id \<Rightarrow> merge_state \<Rightarrow> bool \<times> merge_state" where
  "dedup use_set rid st =
    (if use_set then
       (rid \<notin> set (mg_set st),
        st\<lparr>mg_set := List.insert rid (mg_set st),
           mg_stats := (mg_stats st)\<lparr>co_dedup_compares := co_dedup_compares (mg_stats st) + 1\<rparr>\<rparr>)
     else
       let (n, fresh) = grouped_scan (mg_grouped st) rid in
       (fresh,
        st\<lparr>mg_grouped := (if fresh then mg_grouped st @ [rid] else mg_grouped st),
           mg_stats := (mg_stats st)\<lparr>co_dedup_compares := co_dedup_compares (mg_stats st) + word_of_nat n\<rparr>\<rparr>))"

definition keep_entry :: "digest_fn \<Rightarrow> nat \<Rightarrow> bool \<Rightarrow> segment_entry \<Rightarrow> merge_state \<Rightarrow> merge_state fres" where
  "keep_entry sha chunk_bytes use_set e st =
    (let (fresh, st) = dedup use_set (se_replica e) st in
     if fresh \<and> se_flags e AND FLAG_DELETE = 0 then
       rbind (push_live sha chunk_bytes e (mg_live st, mg_next st)) (\<lambda>(live, next_id).
       Inr (st\<lparr>mg_live := live, mg_next := next_id,
               mg_stats := (mg_stats st)\<lparr>co_entries_out := co_entries_out (mg_stats st) + 1\<rparr>\<rparr>))
     else Inr st)"

definition archive_entry :: "digest_fn \<Rightarrow> nat \<Rightarrow> nat \<Rightarrow> segment_entry \<Rightarrow> merge_state \<Rightarrow> merge_state fres" where
  "archive_entry sha block_target chunk_bytes e st =
    (let sink = (case mg_archive st of None \<Rightarrow> archive_sink_new block_target | Some sink \<Rightarrow> sink) in
     rbind (push_archive sha chunk_bytes e (sink, mg_next st)) (\<lambda>(sink, next_id).
     Inr (st\<lparr>mg_archive := Some sink, mg_next := next_id,
             mg_stats := (mg_stats st)\<lparr>co_entries_archived := co_entries_archived (mg_stats st) + 1\<rparr>\<rparr>)))"

text \<open>One key's run: note its replicas, classify the key, clear the deduplication buffers.\<close>

definition note_seen :: "segment_entry list \<Rightarrow> replica_id list \<Rightarrow> replica_id list" where
  "note_seen run seen = fold (\<lambda>e. if se_replica e \<noteq> ReplicaId 0 then List.insert (se_replica e) else (\<lambda>s. s)) run seen"

definition merge_run ::
    "digest_fn \<Rightarrow> (bytes \<Rightarrow> retention) \<Rightarrow> nat \<Rightarrow> nat \<Rightarrow> segment_entry list \<Rightarrow> merge_state \<Rightarrow> merge_state fres" where
  "merge_run sha policy block_target chunk_bytes run st =
    (let st = st\<lparr>mg_seen := note_seen run (mg_seen st),
           mg_stats := (mg_stats st)\<lparr>co_entries_in := co_entries_in (mg_stats st) + word_of_nat (length run)\<rparr>\<rparr>;
         use_set = (DEDUP_CROSSOVER < length run) in
     rbind (case policy (se_key (hd run)) of
         Keep \<Rightarrow> rfold (keep_entry sha chunk_bytes use_set) run st
       | Drop \<Rightarrow> Inr st
       | Archive \<Rightarrow> rfold (archive_entry sha block_target chunk_bytes) run st) (\<lambda>st.
     Inr (st\<lparr>mg_grouped := [], mg_set := (if use_set then [] else mg_set st)\<rparr>)))"

function merge_loop ::
    "digest_fn \<Rightarrow> (bytes \<Rightarrow> retention) \<Rightarrow> nat \<Rightarrow> nat \<Rightarrow> merge_source \<Rightarrow> merge_state \<Rightarrow> merge_state fres" where
  "merge_loop sha policy block_target chunk_bytes src st =
    (case merge_heap_pop (ms_heap src) of
       None \<Rightarrow> Inr st
     | Some (h, heap) \<Rightarrow>
         rbind (rbind (advance sha (he_idx h) (src\<lparr>ms_heap := heap\<rparr>)) (\<lambda>src. drain_run sha src [he_entry h])) (\<lambda>(src, run).
         rbind (merge_run sha policy block_target chunk_bytes run st) (\<lambda>st.
         merge_loop sha policy block_target chunk_bytes src st)))"
  by pat_completeness auto
termination
  by (relation "measure (\<lambda>(sha, _, _, _, src, _). source_yield sha src)")
    (auto simp: rbind_Inr_iff dest!: advance_yield drain_run_yield dest: merge_heap_pop_yield intro: le_less_trans)

declare merge_loop.simps [simp del]

text \<open>The last live chunk, and the last archive chunk even when no row stays live.\<close>

definition finish_live :: "digest_fn \<Rightarrow> merge_state \<Rightarrow> merge_state fres" where
  "finish_live sha st =
    (if 0 < ls_len (mg_live st)
     then rbind (publish_chunk sha (mg_live st) (mg_next st)) (\<lambda>(live, next_id). Inr (st\<lparr>mg_live := live, mg_next := next_id\<rparr>))
     else Inr st)"

definition finish_archive :: "digest_fn \<Rightarrow> merge_state \<Rightarrow> merge_state fres" where
  "finish_archive sha st =
    (case mg_archive st of
       None \<Rightarrow> Inr st
     | Some sink \<Rightarrow>
         if 0 < as_len sink then
           let (sink, aid, next_id) = archive_id sink (mg_next st) in
           rbind (publish_archive_chunk sha sink aid) (\<lambda>sink. Inr (st\<lparr>mg_archive := Some sink, mg_next := next_id\<rparr>))
         else Inr st)"

text \<open>The relocation set: the anchor with the highest sequence number over all chunks.\<close>

type_synonym relocation = "(segment_id \<times> block_id \<times> u32) option"

definition anchor_chunk :: "live_chunk \<Rightarrow> (replica_id \<rightharpoonup> u64 \<times> segment_id \<times> block_id \<times> u32)
    \<Rightarrow> (replica_id \<rightharpoonup> u64 \<times> segment_id \<times> block_id \<times> u32)" where
  "anchor_chunk c anchored = (\<lambda>rid.
    case lc_anchors c rid of
      None \<Rightarrow> anchored rid
    | Some a \<Rightarrow> (case anchored rid of
          Some (best, x) \<Rightarrow> if sa_seq a \<le> best then Some (best, x) else Some (sa_seq a, SegmentId (lc_id c), sa_block a, sa_offset a)
        | None \<Rightarrow> Some (sa_seq a, SegmentId (lc_id c), sa_block a, sa_offset a)))"

definition relocations :: "replica_id list \<Rightarrow> live_chunk list \<Rightarrow> (replica_id \<rightharpoonup> relocation)" where
  "relocations seen chunks = (\<lambda>rid. if rid \<in> set seen then Some (map_option snd (fold anchor_chunk chunks Map.empty rid)) else None)"

definition merge_init :: "nat \<Rightarrow> nat \<Rightarrow> u64 \<Rightarrow> merge_state" where
  "merge_init block_target n next_id =
    \<lparr>mg_live = \<lparr>ls_writer = writer_new_v2 block_target, ls_len = 0, ls_chunks = []\<rparr>, mg_archive = None,
     mg_next = next_id, mg_seen = [], mg_grouped = [], mg_set = [],
     mg_stats = \<lparr>co_segments_in = word_of_nat n, co_segments_out = 0, co_entries_in = 0, co_entries_out = 0,
       co_entries_archived = 0, co_rids_seen = 0, co_dedup_compares = 0, co_stale = False\<rparr>\<rparr>"

definition merge_finish :: "digest_fn \<Rightarrow> merge_state \<Rightarrow> merge_state fres" where
  "merge_finish sha st =
    rbind (finish_live sha st) (\<lambda>st.
    rbind (finish_archive sha st) (\<lambda>st.
    Inr (st\<lparr>mg_stats := (mg_stats st)\<lparr>co_segments_out := word_of_nat (length (ls_chunks (mg_live st))),
            co_rids_seen := word_of_nat (length (mg_seen st))\<rparr>\<rparr>)))"

definition merge_segments ::
    "digest_fn \<Rightarrow> segment_reader list \<Rightarrow> nat \<Rightarrow> nat \<Rightarrow> u64 \<Rightarrow> (bytes \<Rightarrow> retention)
      \<Rightarrow> (merge_state \<times> (replica_id \<rightharpoonup> relocation)) fres" where
  "merge_segments sha inputs block_target chunk_bytes next_id policy =
    rbind (merge_start sha inputs) (\<lambda>src.
    rbind (merge_loop sha policy block_target chunk_bytes src (merge_init block_target (length inputs) next_id)) (\<lambda>st.
    rbind (merge_finish sha st) (\<lambda>st.
    Inr (st, relocations (mg_seen st) (ls_chunks (mg_live st))))))"

end
