(* ===== verification/DbCompact.thy ===== *)
theory DbCompact
  imports DbFlush Compaction
begin

text \<open>
  The compaction of \<^verbatim>\<open>db.rs\<close> (\<^verbatim>\<open>compact_impl\<close>) in its three phases: capture the segments and the
  generation, merge them into a staging namespace without the lock, and publish under the lock only if
  the generation is still the captured one: real segment ids, renamed files, relocated placements,
  manifest, \<^verbatim>\<open>CURRENT\<close>, new readers. The trigger of the write path and the counters it reads are here
  as well. The staging directory and its removal are not modelled: nothing refers to it.
\<close>

section \<open>The backlog and its trigger\<close>

definition scan_l0 :: "segment_record list \<Rightarrow> nat \<times> u64 \<times> u64" where
  "scan_l0 records =
    fold (\<lambda>r (l0, l0_bytes, l1_bytes).
      if sr_level r = 0 then (l0 + 1, l0_bytes + sr_file_size r, l1_bytes)
      else (l0, l0_bytes, l1_bytes + sr_file_size r)) records (0, 0, 0)"

definition compact_due :: "db_config \<Rightarrow> db_state \<Rightarrow> bool" where
  "compact_due cfg st \<longleftrightarrow>
    cf_l0_compact_trigger cfg \<noteq> 0 \<and> cf_l0_compact_trigger cfg \<le> st_l0_count st
    \<and> (cf_l0_tier_ratio cfg = 0 \<or> st_l1_bytes st = 0
        \<or> st_l1_bytes st div word_of_nat (cf_l0_tier_ratio cfg) \<le> st_l0_bytes st)"

section \<open>Phase A: capture\<close>

record compact_plan =
  cp_inputs :: "segment_reader list"
  cp_generation :: u64
  cp_next_id :: u64

definition compact_phase_a :: "db_state \<Rightarrow> compact_plan option" where
  "compact_phase_a st =
    (if st_segments st = [] then None
     else Some \<lparr>cp_inputs = st_segments st, cp_generation = st_generation st, cp_next_id = st_next_segment_id st\<rparr>)"

section \<open>Phase B: merge\<close>

record compact_build =
  cb_state :: merge_state
  cb_relocations :: "replica_id \<rightharpoonup> relocation"

definition compact_phase_b :: "digest_fn \<Rightarrow> db_config \<Rightarrow> (bytes \<Rightarrow> retention) \<Rightarrow> compact_plan \<Rightarrow> compact_build fres" where
  "compact_phase_b sha cfg policy plan =
    rbind (merge_segments sha (cp_inputs plan) (cf_block_target cfg) (cf_merge_chunk_bytes cfg) (cp_next_id plan) policy)
      (\<lambda>(ms, relocs). Inr \<lparr>cb_state = ms, cb_relocations = relocs\<rparr>)"

section \<open>Phase C: publish\<close>

text \<open>Real ids for the staged chunks, each file renamed into the directory.\<close>

definition rename_chunk :: "file_io \<Rightarrow> live_chunk \<Rightarrow> (u64 \<rightharpoonup> u64) \<times> live_chunk list \<times> database
    \<Rightarrow> unit fres \<times> (u64 \<rightharpoonup> u64) \<times> live_chunk list \<times> database" where
  "rename_chunk io c = (\<lambda>(remap, out, d).
    let new_id = st_next_segment_id (dx_state d);
        d = on_state (\<lambda>st. st\<lparr>st_next_segment_id := new_id + 1\<rparr>) d in
    case publish_file io (segment_path new_id) (rd_file (lc_reader c)) d of
      (Inl e, d) \<Rightarrow> (Inl e, remap, out, d)
    | (Inr _, d) \<Rightarrow> (Inr (), remap(lc_id c \<mapsto> new_id), out @ [c\<lparr>lc_id := new_id\<rparr>], d))"

text \<open>An archive file keeps its name but for the id: one real id for all the chunks of a staged one.\<close>

definition archive_digits :: "string \<Rightarrow> string option" where
  "archive_digits name =
    Option.bind (strip_prefix name ''ARCHIVE-'') (\<lambda>s.
      let ds = takeWhile (\<lambda>ch. digit_val ch \<noteq> None) s in if ds = [] then None else Some ds)"

fun replace_first :: "string \<Rightarrow> string \<Rightarrow> string \<Rightarrow> string" where
  "replace_first pat new [] = (if pat = [] then new else [])"
| "replace_first pat new (c # cs) =
    (if take (length pat) (c # cs) = pat then new @ drop (length pat) (c # cs) else c # replace_first pat new cs)"

definition rename_archive :: "file_io \<Rightarrow> string \<times> bytes \<Rightarrow> (u64 \<rightharpoonup> u64) \<times> database \<Rightarrow> unit fres \<times> (u64 \<rightharpoonup> u64) \<times> database" where
  "rename_archive io = (\<lambda>(name, bs) (remap, d).
    case archive_digits name of
      None \<Rightarrow> (Inl (Corrupt ''staging archive name not ARCHIVE-id''), remap, d)
    | Some ds \<Rightarrow>
        (case parse_u64 ds of
           None \<Rightarrow> (Inl (Corrupt ''staging archive id not numeric''), remap, d)
         | Some old_id \<Rightarrow>
             let (new_id, remap, d) =
               (case remap old_id of
                  Some n \<Rightarrow> (n, remap, d)
                | None \<Rightarrow> let n = st_next_segment_id (dx_state d) in
                    (n, remap(old_id \<mapsto> n), on_state (\<lambda>st. st\<lparr>st_next_segment_id := n + 1\<rparr>) d));
               new_name = replace_first (''ARCHIVE-'' @ pad6 (dec_digits (unat old_id)))
                 (''ARCHIVE-'' @ pad6 (dec_digits (unat new_id))) name in
             (case publish_file io (''archive/'' @ new_name) bs d of (r, d) \<Rightarrow> (r, remap, d))))"

definition staged_archives :: "merge_state \<Rightarrow> (string \<times> bytes) list" where
  "staged_archives ms = sort_key (\<lambda>(name, _). map (of_char :: char \<Rightarrow> nat) name)
     (case mg_archive ms of None \<Rightarrow> [] | Some sink \<Rightarrow> as_files sink)"

text \<open>The relocation set with the real ids; \<open>seen\<close> lists its replicas.\<close>

definition remap_relocations :: "(u64 \<rightharpoonup> u64) \<Rightarrow> replica_id list \<Rightarrow> (replica_id \<rightharpoonup> relocation) \<Rightarrow> (replica_id \<rightharpoonup> relocation) fres" where
  "remap_relocations remap seen relocs =
    (if list_ex (\<lambda>rid. case relocs rid of Some (Some (sid, _)) \<Rightarrow> remap (sid_u64 sid) = None | _ \<Rightarrow> False) seen
     then Inl (Corrupt ''relocation names a staged segment id the remap lacks'')
     else Inr (\<lambda>rid. case relocs rid of
         Some (Some (sid, block, offset)) \<Rightarrow> Some (Some (SegmentId (the (remap (sid_u64 sid))), block, offset))
       | x \<Rightarrow> x))"

text \<open>Every replica placed in a segment moves, under a fresh generation.\<close>

fun relocate_all :: "(replica_id \<rightharpoonup> relocation) \<Rightarrow> replica_id list \<Rightarrow> u64 \<Rightarrow> placement_record list fres \<times> u64" where
  "relocate_all relocs [] pgen = (Inr [], pgen)"
| "relocate_all relocs (rid # rids) pgen =
    (case relocs rid of
       None \<Rightarrow> (Inl (Corrupt ''segment-placed replica absent from the relocation set''), pgen + 1)
     | Some loc \<Rightarrow>
         let p = (case loc of
               Some (sid, block, offset) \<Rightarrow> InSegment \<lparr>pl_segment_id = sid, pl_block_id = block, pl_entry_offset = offset, pl_generation = pgen\<rparr>
             | None \<Rightarrow> Retired pgen) in
         case relocate_all relocs rids (pgen + 1) of
           (Inl e, g) \<Rightarrow> (Inl e, g)
         | (Inr recs, g) \<Rightarrow> (Inr (\<lparr>pr_rid = rid, pr_placement = p\<rparr> # recs), g))"

definition segment_placed :: "directory_iters \<Rightarrow> placements \<Rightarrow> replica_id list" where
  "segment_placed it placements =
    sort (map fst (filter (\<lambda>(_, p). case p of InSegment _ \<Rightarrow> True | _ \<Rightarrow> False) (it_placements it placements)))"

definition take_placement_records ::
    "directory_iters \<Rightarrow> (replica_id \<rightharpoonup> relocation) \<Rightarrow> database \<Rightarrow> placement_record list fres \<times> database" where
  "take_placement_records it relocs d =
    (let st = dx_state d; pending = st_pending_placements st in
     case relocate_all relocs (segment_placed it (st_placements st)) (st_next_placement_generation st) of
       (r, g) \<Rightarrow> (case r of Inl e \<Rightarrow> Inl e | Inr recs \<Rightarrow> Inr (pending @ recs),
         on_state (\<lambda>st. st\<lparr>st_pending_placements := [], st_next_placement_generation := g\<rparr>) d))"

definition publish_relocations :: "digest_fn \<Rightarrow> file_io \<Rightarrow> placement_record list \<Rightarrow> database \<Rightarrow> unit fres \<times> database" where
  "publish_relocations sha io recs d =
    (if recs = [] then (Inr (), d) else
     let gen = st_generation (dx_state d);
         log = \<lparr>dl_format_version = FORMAT_VERSION, dl_generation = gen, dl_records = recs\<rparr>;
         d = on_state (\<lambda>st. st\<lparr>st_bytes_since_checkpoint := st_bytes_since_checkpoint st + word_of_nat (PlacementLog_encoded_len log)\<rparr>) d in
     tbind (publish_file io (placement_log_path gen) (PlacementLog_encode sha log) d) (\<lambda>_ d.
     (Inr (), on_state (\<lambda>st. st\<lparr>st_placement_floor := gen, st_placement_chain := chain_extend sha (st_placement_chain st) gen\<rparr>) d)))"

definition merge_records :: "placement_record list \<Rightarrow> db_state \<Rightarrow> unit fres \<times> db_state" where
  "merge_records recs =
    tfold (\<lambda>rec st. case merge_placement (pr_rid rec) (pr_placement rec) (st_placements st) of
        Inl e \<Rightarrow> (Inl e, st)
      | Inr (placements, _) \<Rightarrow> (Inr (), st\<lparr>st_placements := placements\<rparr>)) recs"

definition swap_segments :: "segment_record list \<Rightarrow> segment_reader list \<Rightarrow> db_state \<Rightarrow> db_state" where
  "swap_segments records readers st =
    (case scan_l0 records of (l0, l0_bytes, l1_bytes) \<Rightarrow>
      st\<lparr>st_segments := readers, st_segment_records := records,
         st_l0_count := l0, st_l0_bytes := l0_bytes, st_l1_bytes := l1_bytes\<rparr>)"

definition delete_obsolete :: "file_io \<Rightarrow> segment_record list \<Rightarrow> database \<Rightarrow> database" where
  "delete_obsolete io old d =
    d\<lparr>dx_dir := filter (\<lambda>(name, _). \<not> (name \<in> set (map (\<lambda>r. segment_path (sr_segment_id r)) old)
        \<and> name \<notin> st_snapshot_pins (dx_state d) \<and> io name = None)) (dx_dir d)\<rparr>"

text \<open>The tail of the publication, from the new generation to the checkpoint.\<close>

definition compact_publish ::
    "digest_fn \<Rightarrow> file_io \<Rightarrow> directory_iters \<Rightarrow> live_chunk list \<Rightarrow> placement_record list \<Rightarrow> database \<Rightarrow> unit fres \<times> database" where
  "compact_publish sha io it chunks recs d =
    (let old = st_segment_records (dx_state d);
         records = map (\<lambda>c. segment_record_of (lc_id c) 1 (lc_reader c) (unat (lc_size c)) (lc_checksum c)) chunks;
         d = on_state (\<lambda>st. st\<lparr>st_generation := st_generation st + 1\<rparr>) d in
     tbind (publish_relocations sha io recs d) (\<lambda>_ d.
     tbind (publish_manifest sha io records d) (\<lambda>_ d.
     let d = on_state (swap_segments records (map lc_reader chunks)) d in
     case merge_records recs (dx_state d) of
       (Inl e, st) \<Rightarrow> (Inl e, d\<lparr>dx_state := st\<rparr>)
     | (Inr _, st) \<Rightarrow> maybe_checkpoint sha io it (delete_obsolete io old (d\<lparr>dx_state := st\<rparr>)))))"

definition compact_phase_c ::
    "digest_fn \<Rightarrow> file_io \<Rightarrow> directory_iters \<Rightarrow> compact_plan \<Rightarrow> compact_build \<Rightarrow> database \<Rightarrow> compact_stats fres \<times> database" where
  "compact_phase_c sha io it plan build d =
    (let ms = cb_state build; stats = mg_stats ms in
     if st_generation (dx_state d) \<noteq> cp_generation plan then (Inr (stats\<lparr>co_stale := True\<rparr>), d) else
     case tfold (rename_chunk io) (ls_chunks (mg_live ms)) (Map.empty, [], d) of
       (Inl e, _, _, d) \<Rightarrow> (Inl e, d)
     | (Inr _, remap, chunks, d) \<Rightarrow>
         (case tfold (rename_archive io) (staged_archives ms) (remap, d) of
            (Inl e, _, d) \<Rightarrow> (Inl e, d)
          | (Inr _, remap, d) \<Rightarrow>
              (case remap_relocations remap (mg_seen ms) (cb_relocations build) of
                 Inl e \<Rightarrow> (Inl e, d)
               | Inr relocs \<Rightarrow>
                   tbind (take_placement_records it relocs d) (\<lambda>recs d.
                   tbind (compact_publish sha io it chunks recs d) (\<lambda>_ d. (Inr stats, d))))))"

definition no_stats :: compact_stats where
  "no_stats = \<lparr>co_segments_in = 0, co_segments_out = 0, co_entries_in = 0, co_entries_out = 0,
     co_entries_archived = 0, co_rids_seen = 0, co_dedup_compares = 0, co_stale = False\<rparr>"

definition compact_impl ::
    "digest_fn \<Rightarrow> file_io \<Rightarrow> directory_iters \<Rightarrow> (bytes \<Rightarrow> retention) \<Rightarrow> database \<Rightarrow> compact_stats fres \<times> database" where
  "compact_impl sha io it policy d =
    (case compact_phase_a (dx_state d) of
       None \<Rightarrow> (Inr no_stats, d)
     | Some plan \<Rightarrow>
         (case compact_phase_b sha (dx_config d) policy plan of
            Inl e \<Rightarrow> (Inl e, d)
          | Inr build \<Rightarrow> compact_phase_c sha io it plan build d))"

definition db_compact :: "digest_fn \<Rightarrow> file_io \<Rightarrow> directory_iters \<Rightarrow> database \<Rightarrow> compact_stats fres \<times> database" where
  "db_compact sha io it d =
    (if length (st_segments (dx_state d)) \<le> 1 then (Inr no_stats, d) else compact_impl sha io it keep_all d)"

end
