(* ===== verification/DbEngine.thy ===== *)
theory DbEngine
  imports DbRead DbCompact
begin

text \<open>
  The public operations of \<^verbatim>\<open>db.rs\<close> composed from their parts: \<^verbatim>\<open>write\<close> and its variants with the
  flush and the compaction they trigger, the object operations, group commit, replication, and the
  background compactor. \<open>env\<close> bundles what the operating system decides: the answers of the file system
  (to the appends of one operation by their number) and the iteration order of the hash maps.
\<close>

record engine_env =
  en_sha :: digest_fn
  en_io :: file_io
  en_iters :: directory_iters
  en_wal :: "nat \<Rightarrow> wal_fault"

section \<open>Compaction on the write path\<close>

text \<open>The result says whether the caller then blocks until the compactor is idle.\<close>

definition maybe_compact :: "engine_env \<Rightarrow> database \<Rightarrow> bool fres \<times> database" where
  "maybe_compact env d =
    (if \<not> compact_due (dx_config d) (dx_state d) then (Inr False, d)
     else if \<not> cf_compact_background (dx_config d)
     then tbind (db_compact (en_sha env) (en_io env) (en_iters env) d) (\<lambda>_ d. (Inr False, d))
     else
       let (already, sg) = kick (dx_signal d);
           bound = cf_backlog_hard_bound_bytes (dx_config d) in
       (Inr (already \<and> 0 < bound \<and> bound < st_l0_bytes (dx_state d)), d\<lparr>dx_signal := sg\<rparr>))"

text \<open>The compactor's inner loop, at most \<open>fuel\<close> rounds; the result says whether the last merge failed.\<close>

primrec compactor_rounds :: "engine_env \<Rightarrow> nat \<Rightarrow> database \<Rightarrow> (bool \<times> database) option" where
  "compactor_rounds env 0 d = None"
| "compactor_rounds env (Suc fuel) d =
    (if sg_shutdown (dx_signal d) then Some (False, d)
     else if \<not> (cf_l0_compact_trigger (dx_config d) \<le> st_l0_count (dx_state d)
        \<and> (cf_l0_tier_ratio (dx_config d) = 0 \<or> st_l1_bytes (dx_state d) = 0
            \<or> st_l1_bytes (dx_state d) div word_of_nat (cf_l0_tier_ratio (dx_config d)) \<le> st_l0_bytes (dx_state d)))
        \<or> length (st_segments (dx_state d)) \<le> 1 then Some (False, d)
     else case compact_impl (en_sha env) (en_io env) (en_iters env) keep_all d of
       (Inr _, d) \<Rightarrow> compactor_rounds env fuel d
     | (Inl _, d) \<Rightarrow> Some (True, d))"

definition compactor_turn :: "engine_env \<Rightarrow> nat \<Rightarrow> database \<Rightarrow> database option" where
  "compactor_turn env fuel d =
    map_option (\<lambda>(_, d). d\<lparr>dx_signal := clear_pending (dx_signal d)\<rparr>) (compactor_rounds env fuel d)"

section \<open>Group commit\<close>

definition batch_bytes_of :: "op list \<Rightarrow> nat" where
  "batch_bytes_of ops = sum_list (map (\<lambda>op. case op of
      Put k v \<Rightarrow> length k + length v
    | Delete k \<Rightarrow> length k
    | CreateObject _ _ _ _ \<Rightarrow> 40
    | PutObject _ k v \<Rightarrow> 8 + length k + length v
    | DeleteObject _ k \<Rightarrow> 8 + length k) ops)"

text \<open>The committer's drain: the batches that join the first one, in submission order, and what is
  left. \<open>queue\<close> is what arrives before the window closes.\<close>

fun drain_group :: "db_config \<Rightarrow> nat \<Rightarrow> nat \<Rightarrow> op list list \<Rightarrow> op list list \<times> op list list" where
  "drain_group cfg ops_n bytes_n [] = ([], [])"
| "drain_group cfg ops_n bytes_n (b # queue) =
    (if cf_max_batch_ops cfg \<le> ops_n \<or> cf_max_batch_bytes cfg \<le> bytes_n then ([], b # queue)
     else if cf_max_batch_ops cfg < ops_n + length b \<or> cf_max_batch_bytes cfg < bytes_n + batch_bytes_of b then ([], b # queue)
     else case drain_group cfg (ops_n + length b) (bytes_n + batch_bytes_of b) queue of (g, left) \<Rightarrow> (b # g, left))"

text \<open>The whole queue in groups, each led by the batch that did not fit the one before.\<close>

lemma drain_group_left: "length (snd (drain_group cfg n m queue)) \<le> length queue"
  by (induction cfg n m queue rule: drain_group.induct) (auto split: prod.splits)

function commit_groups :: "db_config \<Rightarrow> op list list \<Rightarrow> op list list list" where
  "commit_groups cfg [] = []"
| "commit_groups cfg (b # queue) =
    (case drain_group cfg (length b) (batch_bytes_of b) queue of (g, left) \<Rightarrow> (b # g) # commit_groups cfg left)"
  by pat_completeness auto
termination
  by (relation "measure (\<lambda>(cfg, queue). length queue)")
    (auto dest!: arg_cong [where f = snd] simp: less_Suc_eq_le drain_group_left)

text \<open>Append every frame up to the first failure; \<open>seqs\<close> are the numbers handed out, the one of the batch
  that failed included.\<close>

fun append_group :: "digest_fn \<Rightarrow> (nat \<Rightarrow> wal_fault) \<Rightarrow> op list list \<Rightarrow> u64 list \<Rightarrow> database \<Rightarrow> unit fres \<times> u64 list \<times> database" where
  "append_group sha flt [] seqs d = (Inr (), seqs, d)"
| "append_group sha flt (ops # grp) seqs d =
    (let seq = st_next_seq (dx_state d);
         d = on_state (\<lambda>st. st\<lparr>st_next_seq := seq + 1\<rparr>) d in
     case encode_frame sha seq ops of
       Inl e \<Rightarrow> (Inl e, seqs @ [seq], d)
     | Inr frame \<Rightarrow>
         (case flt (length seqs) of
            SeekFails why \<Rightarrow> (Inl (Io why), seqs @ [seq], d)
          | WriteFails n why \<Rightarrow> (Inl (Io why), seqs @ [seq], d\<lparr>dx_wal := dx_wal d @ take n frame\<rparr>)
          | _ \<Rightarrow> append_group sha flt grp (seqs @ [seq]) (d\<lparr>dx_wal := dx_wal d @ frame\<rparr>)))"

text \<open>The committer's apply of a create does not raise the allocators.\<close>

definition group_apply_op :: "u64 \<Rightarrow> op \<Rightarrow> db_state \<Rightarrow> unit fres \<times> db_state" where
  "group_apply_op seq op st =
    (case op of
       CreateObject oid lid rid pgen \<Rightarrow>
         (case apply_create oid lid rid pgen st of
            (r, st') \<Rightarrow> (r, st'\<lparr>st_next_logical_id := st_next_logical_id st, st_next_replica_id := st_next_replica_id st,
                 st_next_placement_generation := st_next_placement_generation st\<rparr>))
     | _ \<Rightarrow> apply_op seq op st)"

text \<open>An error ends the batch it is in; the batches after it are still applied.\<close>

fun apply_group :: "(op list \<times> u64) list \<Rightarrow> db_state \<Rightarrow> unit fres \<times> db_state" where
  "apply_group [] st = (Inr (), st)"
| "apply_group ((ops, seq) # grp) st =
    (case tfold (group_apply_op seq) ops st of
       (Inr _, st) \<Rightarrow> apply_group grp st
     | (Inl e, st) \<Rightarrow> (case apply_group grp st of (Inr _, st) \<Rightarrow> (Inl e, st) | (Inl e', st) \<Rightarrow> (Inl e', st)))"

text \<open>One sync, apply, flush when the trigger is crossed, and one outcome for every batch that got a number.
  The batches behind a failed append get no acknowledgement: their writers see a closed queue.\<close>

definition commit_synced :: "engine_env \<Rightarrow> op list list \<Rightarrow> u64 list \<Rightarrow> database \<Rightarrow> unit fres \<times> database" where
  "commit_synced env grp seqs d =
    (case en_wal env (length seqs) of
       SyncFails why \<Rightarrow> (Inl (Io why), d)
     | _ \<Rightarrow>
         let d = d\<lparr>dx_fsyncs := dx_fsyncs d + 1\<rparr> in
         case apply_group (zip grp seqs) (dx_state d) of
           (Inl e, st) \<Rightarrow> (Inl e, d\<lparr>dx_state := st\<rparr>)
         | (Inr _, st) \<Rightarrow>
             let d = d\<lparr>dx_state := st\<rparr> in
             if cf_memtable_bytes (dx_config d) \<le> mt_bytes (st_active st)
             then flush_entry (en_sha env) (en_io env) (en_iters env) d
             else (Inr (), d))"

definition commit_group :: "engine_env \<Rightarrow> op list list \<Rightarrow> database \<Rightarrow> u64 fres list \<times> database" where
  "commit_group env grp d =
    (let (appended, seqs, d) = append_group (en_sha env) (en_wal env) grp [] d;
         (outcome, d) = (case appended of Inl e \<Rightarrow> (Inl e, d) | Inr _ \<Rightarrow> commit_synced env grp seqs d)
     in (map (\<lambda>seq. rbind outcome (\<lambda>_. Inr seq)) seqs
           @ replicate (length grp - length seqs) (Inl (Io ''commit queue closed'')), d))"

text \<open>A batch submitted through a handle, when nothing else is queued.\<close>

definition CommitWriter_write :: "engine_env \<Rightarrow> op list \<Rightarrow> database \<Rightarrow> u64 fres \<times> database" where
  "CommitWriter_write env ops d =
    (if ops = [] then (Inl (Invalid ''empty write batch''), d)
     else case commit_group env [ops] d of (acks, d) \<Rightarrow> (hd acks, d))"

section \<open>Writes\<close>

definition write_at :: "engine_env \<Rightarrow> op list \<Rightarrow> u64 option \<Rightarrow> database \<Rightarrow> u64 fres \<times> database" where
  "write_at env ops expected d =
    (case write_guards ops expected d of
       Inl e \<Rightarrow> (Inl e, d)
     | Inr _ \<Rightarrow>
         if expected = None \<and> cf_durability (dx_config d) = GroupCommit then
           tbind (CommitWriter_write env ops d) (\<lambda>seq d.
           tbind (maybe_compact env d) (\<lambda>_ d. (Inr seq, d)))
         else
           tbind (write_locked (en_sha env) (en_wal env 0) ops expected d) (\<lambda>out d.
           case out of
             Redelivered e \<Rightarrow> (Inr e, d)
           | Committed seq need_flush \<Rightarrow>
               tbind (if need_flush then flush_entry (en_sha env) (en_io env) (en_iters env) d else (Inr (), d)) (\<lambda>_ d.
               tbind (maybe_compact env d) (\<lambda>_ d. (Inr seq, d)))))"

text \<open>\<open>gate\<close> is the synchronous-replication wait, when one is armed.\<close>

definition db_write :: "engine_env \<Rightarrow> (u64 \<Rightarrow> string option) option \<Rightarrow> op list \<Rightarrow> database \<Rightarrow> u64 fres \<times> database" where
  "db_write env gate ops d =
    tbind (write_at env ops None d) (\<lambda>seq d.
    case gate of
      None \<Rightarrow> (Inr seq, d)
    | Some g \<Rightarrow> (case g seq of None \<Rightarrow> (Inr seq, d) | Some why \<Rightarrow> (Inl (Io (''not replicated: '' @ why)), d)))"

definition db_put :: "engine_env \<Rightarrow> (u64 \<Rightarrow> string option) option \<Rightarrow> bytes \<Rightarrow> bytes \<Rightarrow> database \<Rightarrow> u64 fres \<times> database" where
  "db_put env gate key v = db_write env gate [Put key v]"

definition db_delete :: "engine_env \<Rightarrow> (u64 \<Rightarrow> string option) option \<Rightarrow> bytes \<Rightarrow> database \<Rightarrow> u64 fres \<times> database" where
  "db_delete env gate key = db_write env gate [Delete key]"

definition apply_replicated :: "engine_env \<Rightarrow> u64 \<Rightarrow> op list \<Rightarrow> database \<Rightarrow> u64 fres \<times> database" where
  "apply_replicated env seq ops d =
    (if cf_durability (dx_config d) \<noteq> Sync then (Inl (Invalid ''apply_replicated requires DurabilityMode::Sync''), d)
     else write_at env ops (Some seq) d)"

definition fence :: "string \<Rightarrow> database \<Rightarrow> database" where
  "fence why d = d\<lparr>dx_fenced := Some why\<rparr>"

section \<open>Objects\<close>

definition create_object :: "engine_env \<Rightarrow> (u64 \<Rightarrow> string option) option \<Rightarrow> database \<Rightarrow> object_id fres \<times> database" where
  "create_object env gate d =
    (case reserve_identity (dx_state d) of ((lid, rid, pgen), st) \<Rightarrow>
       let oid = ObjectId (take 16 (en_sha env (lid_to_bytes lid))) in
       tbind (db_write env gate [CreateObject oid lid rid pgen] (d\<lparr>dx_state := st\<rparr>)) (\<lambda>_ d. (Inr oid, d)))"

definition put_object :: "engine_env \<Rightarrow> (u64 \<Rightarrow> string option) option \<Rightarrow> object_id \<Rightarrow> bytes \<Rightarrow> bytes \<Rightarrow> database \<Rightarrow> u64 fres \<times> database" where
  "put_object env gate oid key v d =
    (case resolve_object (dx_state d) oid of
       Some lid \<Rightarrow>
         (case resolve_local (dx_state d) lid of
            None \<Rightarrow> (Inl (Corrupt ''logical has no local replica''), d)
          | Some rid \<Rightarrow> db_write env gate [PutObject rid key v] d)
     | None \<Rightarrow>
         (case reserve_identity (dx_state d) of ((lid, rid, pgen), st) \<Rightarrow>
            db_write env gate [CreateObject oid lid rid pgen, PutObject rid key v] (d\<lparr>dx_state := st\<rparr>)))"

definition delete_object :: "engine_env \<Rightarrow> (u64 \<Rightarrow> string option) option \<Rightarrow> object_id \<Rightarrow> bytes \<Rightarrow> database \<Rightarrow> u64 fres \<times> database" where
  "delete_object env gate oid key d =
    (case resolve_object (dx_state d) oid of
       None \<Rightarrow> (Inl (Invalid ''delete_object on unknown ObjectId''), d)
     | Some lid \<Rightarrow>
         (case resolve_local (dx_state d) lid of
            None \<Rightarrow> (Inl (Corrupt ''logical has no local replica''), d)
          | Some rid \<Rightarrow> db_write env gate [DeleteObject rid key] d))"

section \<open>The replication log\<close>

definition db_last_seq :: "database \<Rightarrow> u64" where
  "db_last_seq d = st_next_seq (dx_state d) - 1"

definition rlog_seq :: "string \<Rightarrow> u64 option" where
  "rlog_seq name = Option.bind (strip_prefix name ''rlog/'') (\<lambda>s. Option.bind (strip_suffix s ''.wal'') parse_u64)"

definition rlog_files :: "directory \<Rightarrow> (u64 \<times> string \<times> bytes) list" where
  "rlog_files dir =
    sort_key (\<lambda>(seq, name, _). (seq, map (of_char :: char \<Rightarrow> nat) name))
      (List.map_filter (\<lambda>(name, bs). map_option (\<lambda>seq. (seq, name, bs)) (rlog_seq name)) dir)"

text \<open>One source's frames; the flag says that the limit was reached.\<close>

fun take_frames :: "nat \<Rightarrow> wal_frame list \<Rightarrow> u64 \<Rightarrow> wal_frame list \<Rightarrow> (bool \<times> u64 \<times> wal_frame list) fres" where
  "take_frames mx [] lst out = Inr (False, lst, out)"
| "take_frames mx (f # fs) lst out =
    (if fr_seq f \<le> lst then take_frames mx fs lst out
     else if fr_seq f \<noteq> lst + 1 then Inl (Invalid ''replication log gap'')
     else if mx \<le> length (out @ [f]) then Inr (True, fr_seq f, out @ [f])
     else take_frames mx fs (fr_seq f) (out @ [f]))"

fun take_sources :: "digest_fn \<Rightarrow> nat \<Rightarrow> bytes list \<Rightarrow> u64 \<Rightarrow> wal_frame list \<Rightarrow> wal_frame list fres" where
  "take_sources sha mx [] lst out = Inr out"
| "take_sources sha mx (bs # sources) lst out =
    rbind (replay_frames sha bs) (\<lambda>(frames, _).
    rbind (take_frames mx frames lst out) (\<lambda>(full, lst, out).
    if full then Inr out else take_sources sha mx sources lst out))"

definition log_since :: "digest_fn \<Rightarrow> u64 \<Rightarrow> nat \<Rightarrow> database \<Rightarrow> wal_frame list fres" where
  "log_since sha after mx d =
    (let sources = (if cf_retain_log (dx_config d) then map (\<lambda>(_, _, bs). bs) (rlog_files (dx_dir d)) else []) @ [dx_wal d] in
     rbind (take_sources sha mx sources after []) (\<lambda>out.
     if out = [] \<and> after + 1 < db_last_seq d + 1 then Inl (Invalid ''replication log gap: frames are no longer held'')
     else Inr out))"

fun release_files :: "file_io \<Rightarrow> u64 \<Rightarrow> (u64 \<times> string \<times> bytes) list \<Rightarrow> database \<Rightarrow> unit fres \<times> database" where
  "release_files io lim (a # b # files) d =
    (if fst b \<le> lim + 1 then
       (case io (fst (snd a)) of
          Some why \<Rightarrow> (Inl (Io why), d)
        | None \<Rightarrow> release_files io lim (b # files) (d\<lparr>dx_dir := filter (\<lambda>(n, _). n \<noteq> fst (snd a)) (dx_dir d)\<rparr>))
     else release_files io lim (b # files) d)"
| "release_files io lim files d = (Inr (), d)"

definition release_log :: "file_io \<Rightarrow> u64 \<Rightarrow> database \<Rightarrow> unit fres \<times> database" where
  "release_log io lim d = release_files io lim (rlog_files (dx_dir d)) d"

end
