(* ===== verification/DbOpen.thy ===== *)
theory DbOpen
  imports DbEngine
begin

text \<open>
  \<^verbatim>\<open>Db::open\<close>: \<^verbatim>\<open>CURRENT\<close> names the manifest, the newest checkpoint seeds the directories, the delta
  logs after it are merged, the referenced segments are opened, the surviving placements are validated
  against them, and the WAL is replayed over the result. The directory lock, the sweep of staging
  directories and the reports of orphan files have no effect on the result and are left out, as are the
  threads that open spawns.
\<close>

section \<open>The recovery base\<close>

definition fresh_manifest :: manifest where
  "fresh_manifest =
    \<lparr>mf_format_version = FORMAT_VERSION, mf_generation = 1, mf_segments = [], mf_wal_ids = [],
     mf_identity_floor = 0, mf_replica_floor = 0, mf_placement_floor = 0,
     mf_identity_chain = 0, mf_replica_chain = 0, mf_placement_chain = 0\<rparr>"

text \<open>Any failure to read \<^verbatim>\<open>CURRENT\<close> is taken for a fresh database.\<close>

definition read_current :: "engine_env \<Rightarrow> directory \<Rightarrow> (current \<times> directory) fres" where
  "read_current env dir =
    (case (en_io env ''read CURRENT'', map_of dir ''CURRENT'') of
       (None, Some bs) \<Rightarrow> rbind (Current_decode (en_sha env) bs) (\<lambda>c. Inr (c, dir))
     | _ \<Rightarrow>
         (let c = \<lparr>cu_format_version = FORMAT_VERSION, cu_manifest_generation = 1\<rparr> in
          case publish_atomic (en_io env) (manifest_path 1) (Manifest_encode (en_sha env) fresh_manifest) dir of
            (Inl e, _) \<Rightarrow> Inl e
          | (Inr _, dir) \<Rightarrow>
              (case publish_atomic (en_io env) ''CURRENT'' (Current_encode (en_sha env) c) dir of
                 (Inl e, _) \<Rightarrow> Inl e
               | (Inr _, dir) \<Rightarrow> Inr (c, dir))))"

definition read_manifest :: "digest_fn \<Rightarrow> directory \<Rightarrow> current \<Rightarrow> manifest fres" where
  "read_manifest sha dir cu =
    (case map_of dir (manifest_path (cu_manifest_generation cu)) of
       None \<Rightarrow> Inl (Io ''read manifest'')
     | Some bs \<Rightarrow>
         rbind (Manifest_decode sha bs) (\<lambda>m.
         rbind (verify_pair cu m) (\<lambda>_.
         rbind (validate_manifest (\<lambda>i. map_option (\<lambda>bs. word_of_nat (length bs)) (map_of dir (segment_path i))) m) (\<lambda>_.
         Inr m))))"

definition record_agrees :: "segment_record \<Rightarrow> segment_reader \<Rightarrow> bool" where
  "record_agrees r rdr \<longleftrightarrow> sr_key_min r = rd_key_min rdr \<and> sr_key_max r = rd_key_max rdr \<and> sr_seq_lo r = rd_seq_lo rdr
    \<and> sr_seq_hi r = rd_seq_hi rdr \<and> sr_record_count r = rd_entry_count rdr"

fun open_segments :: "digest_fn \<Rightarrow> directory \<Rightarrow> segment_record list \<Rightarrow> segment_reader list fres" where
  "open_segments sha dir [] = Inr []"
| "open_segments sha dir (r # rs) =
    (case map_of dir (segment_path (sr_segment_id r)) of
       None \<Rightarrow> Inl (Io ''open segment'')
     | Some bs \<Rightarrow>
         rbind (open_inner sha bs) (\<lambda>rdr.
         if \<not> record_agrees r rdr then Inl (Corrupt ''manifest record disagrees with the segment header'')
         else rbind (open_segments sha dir rs) (\<lambda>rdrs. Inr (rdr # rdrs))))"

text \<open>The records of a directory after the checkpoint's, oldest log first.\<close>

definition later_records :: "u64 \<Rightarrow> 'r delta_log list \<Rightarrow> 'r list" where
  "later_records ck_gen logs = concat (map dl_records (filter (\<lambda>log. ck_gen < dl_generation log) logs))"

definition checkpoint_gen :: "directory_checkpoint option \<Rightarrow> u64" where
  "checkpoint_gen ck = (case ck of None \<Rightarrow> 0 | Some c \<Rightarrow> ck_generation c)"

definition merge_identities :: "identity_record list \<Rightarrow> (object_id \<rightharpoonup> logical_id) \<Rightarrow> (object_id \<rightharpoonup> logical_id) fres" where
  "merge_identities = rfold (\<lambda>r. merge_identity (ir_oid r, ir_lid r))"

definition merge_replicas :: "replica_record list \<Rightarrow> (logical_id \<rightharpoonup> replica_id) \<Rightarrow> (logical_id \<rightharpoonup> replica_id) fres" where
  "merge_replicas = rfold (\<lambda>r. merge_replica (rr_lid r, rr_node r, rr_rid r))"

definition recover_directories ::
    "digest_fn \<Rightarrow> directory \<Rightarrow> u64 \<Rightarrow> directory_checkpoint option \<Rightarrow> ((object_id \<rightharpoonup> logical_id) \<times> (logical_id \<rightharpoonup> replica_id)) fres" where
  "recover_directories sha dir current_gen ck =
    rbind (merge_identities (case ck of None \<Rightarrow> [] | Some c \<Rightarrow> ck_identities c) Map.empty) (\<lambda>identity.
    rbind (merge_replicas (case ck of None \<Rightarrow> [] | Some c \<Rightarrow> ck_replicas c) Map.empty) (\<lambda>replicas.
    rbind (load_identity_logs sha dir current_gen) (\<lambda>ilogs.
    rbind (merge_identities (later_records (checkpoint_gen ck) ilogs) identity) (\<lambda>identity.
    rbind (load_replica_logs sha dir current_gen) (\<lambda>rlogs.
    rbind (merge_replicas (later_records (checkpoint_gen ck) rlogs) replicas) (\<lambda>replicas.
    Inr (identity, replicas)))))))"

definition recover_placements :: "digest_fn \<Rightarrow> directory \<Rightarrow> u64 \<Rightarrow> directory_checkpoint option \<Rightarrow> placements fres" where
  "recover_placements sha dir current_gen ck =
    rbind (rfold merge_placement_rec (case ck of None \<Rightarrow> [] | Some c \<Rightarrow> ck_placements c) Map.empty) (\<lambda>placements.
    rbind (load_placement_logs sha dir current_gen) (\<lambda>logs.
    rfold merge_placement_rec (later_records (checkpoint_gen ck) logs) placements))"

text \<open>A surviving placement names a segment of the manifest and an entry inside its block.\<close>

definition check_location :: "segment_record list \<Rightarrow> segment_reader list \<Rightarrow> physical_location \<Rightarrow> unit fres" where
  "check_location records rdrs loc =
    (case map_of (zip (map sr_segment_id records) rdrs) (sid_u64 (pl_segment_id loc)) of
       None \<Rightarrow> Inl (Corrupt ''placement references a segment absent from the manifest'')
     | Some rdr \<Rightarrow>
         validate_segment_location loc (set (map sr_segment_id records)) (block_entry_count rdr (unat (bid_u32 (pl_block_id loc)))))"

definition check_placements :: "segment_record list \<Rightarrow> segment_reader list \<Rightarrow> placement list \<Rightarrow> unit fres" where
  "check_placements records rdrs ps = validate_placements (check_location records rdrs) ps"

definition max_generation :: "directory_iters \<Rightarrow> placements \<Rightarrow> u64 \<Rightarrow> u64" where
  "max_generation it placements orphan_max =
    max (fold (\<lambda>(_, p) g. max g (placement_generation p)) (it_placements it placements) 0) orphan_max"

section \<open>Open\<close>

definition max_of :: "u64 list \<Rightarrow> u64" where
  "max_of xs = fold max xs 0"

definition recovered_state ::
    "engine_env \<Rightarrow> directory \<Rightarrow> manifest \<Rightarrow> directory_checkpoint option \<Rightarrow> segment_reader list \<Rightarrow> u64 \<Rightarrow> replay_state \<Rightarrow> db_state" where
  "recovered_state env dir m ck rdrs orphan_max rp =
    (let (l0, l0_bytes, l1_bytes) = scan_l0 (mf_segments m);
         floors = (case ck of None \<Rightarrow> (0, 0, 0) | Some c \<Rightarrow> (ck_next_logical_id c, ck_next_replica_id c, ck_next_placement_generation c)) in
     \<lparr>st_active = rp_active rp, st_immutables = [], st_segments = rdrs, st_segment_records = mf_segments m,
      st_l0_count = l0, st_l0_bytes = l0_bytes, st_l1_bytes = l1_bytes,
      st_next_seq = max (rp_max rp) (max_of (map sr_seq_hi (mf_segments m))) + 1,
      st_next_segment_id = max_of (map sr_segment_id (mf_segments m)) + 1,
      st_generation = mf_generation m, st_identity = rp_identity rp, st_replicas = rp_replicas rp,
      st_pending_identity = rp_pending_identity rp, st_pending_replicas = rp_pending_replicas rp,
      st_next_logical_id = max (max_of (map (\<lambda>(_, l). lid_u64 l) (it_identity (en_iters env) (rp_identity rp))) + 1) (fst floors),
      st_next_replica_id = max (max_of (map (\<lambda>(_, r). rid_u64 r) (it_replicas (en_iters env) (rp_replicas rp))) + 1) (fst (snd floors)),
      st_placements = rp_placements rp, st_pending_placements = rp_pending_placements rp,
      st_next_placement_generation = max (max_generation (en_iters env) (rp_placements rp) orphan_max + 1) (snd (snd floors)),
      st_bytes_since_checkpoint = directory_log_bytes dir (checkpoint_gen ck),
      st_identity_floor = mf_identity_floor m, st_replica_floor = mf_replica_floor m, st_placement_floor = mf_placement_floor m,
      st_identity_chain = mf_identity_chain m, st_replica_chain = mf_replica_chain m, st_placement_chain = mf_placement_chain m,
      st_snapshot_pins = {}\<rparr>)"

text \<open>Everything open builds from the directory, up to the replay.\<close>

record open_base =
  ob_dir :: directory
  ob_manifest :: manifest
  ob_checkpoint :: "directory_checkpoint option"
  ob_segments :: "segment_reader list"
  ob_orphan_max :: u64
  ob_replay :: replay_state

definition db_open_base :: "engine_env \<Rightarrow> directory \<Rightarrow> open_base fres" where
  "db_open_base env dir =
    rbind (read_current env dir) (\<lambda>(cu, dir).
    let sha = en_sha env; it = en_iters env; gen = cu_manifest_generation cu in
    rbind (read_manifest sha dir cu) (\<lambda>m.
    rbind (load_newest sha dir gen) (\<lambda>ck.
    rbind (validate_delta_coverage sha dir ck m) (\<lambda>_.
    rbind (recover_directories sha dir gen ck) (\<lambda>(identity, replicas).
    rbind (open_segments sha dir (mf_segments m)) (\<lambda>rdrs.
    rbind (recover_placements sha dir gen ck) (\<lambda>placements.
    let orphan_max = orphan_placement_max_generation sha dir gen in
    rbind (check_placements (mf_segments m) rdrs (map snd (it_placements it placements))) (\<lambda>_.
    Inr \<lparr>ob_dir = dir, ob_manifest = m, ob_checkpoint = ck, ob_segments = rdrs, ob_orphan_max = orphan_max,
      ob_replay = \<lparr>rp_active = mt_new, rp_identity = identity, rp_replicas = replicas, rp_placements = placements,
        rp_pending_identity = [], rp_pending_replicas = [], rp_pending_placements = [],
        rp_pgen = max_generation it placements orphan_max + 1, rp_max = 0\<rparr>\<rparr>))))))))"

text \<open>A torn tail is cut off and the cut is synced.\<close>

definition drop_torn_tail :: "file_io \<Rightarrow> nat \<Rightarrow> nat \<Rightarrow> bytes \<Rightarrow> bytes fres" where
  "drop_torn_tail io consumed wal_end wal =
    (if consumed = wal_end then Inr wal
     else case (io ''WAL truncate'', io ''WAL sync'') of
       (Some why, _) \<Rightarrow> Inl (Io why)
     | (None, Some why) \<Rightarrow> Inl (Io why)
     | (None, None) \<Rightarrow> Inr (take consumed wal))"

definition db_open :: "engine_env \<Rightarrow> db_config \<Rightarrow> directory \<Rightarrow> bytes \<Rightarrow> database fres" where
  "db_open env cfg dir wal =
    (if cf_block_target cfg = 0 then Inl (Invalid ''target block size must be > 0'') else
     rbind (db_open_base env dir) (\<lambda>ob.
     rbind (replay_reader (en_sha env) replay_op wal (ob_replay ob)) (\<lambda>(rp, consumed, wal_end).
     rbind (drop_torn_tail (en_io env) consumed wal_end wal) (\<lambda>wal.
     Inr \<lparr>dx_config = cfg, dx_wal = wal,
          dx_state = recovered_state env (ob_dir ob) (ob_manifest ob) (ob_checkpoint ob) (ob_segments ob) (ob_orphan_max ob) rp,
          dx_dir = ob_dir ob, dx_fsyncs = 0, dx_wal_fail_next = cf_wal_fail_next cfg, dx_fenced = None, dx_signal = signal_new\<rparr>))))"

end
