(* ===== verification/DbDurable.thy ===== *)
theory DbDurable
  imports DbOpen
begin

text \<open>
  What the log is worth: the rows, identities and replicas a database acknowledged are the ones a replay
  of its WAL rebuilds. \<open>mirrors\<close> relates a replayed state to a live one, \<open>recoverable\<close> says that the
  WAL of a database replays to a state that mirrors it, and every committed write keeps it.
\<close>

section \<open>A clean log\<close>

lemma replay_reader_step:
  assumes "sha_ok sha" and "frame_ok (fr_ops g)" and "drop pos r = frame_bytes sha g @ t" and "pos < length r"
  shows "replay_reader_loop sha f r (length r) pos last_seq s =
    (if seq_regresses last_seq (fr_seq g) then Inl (Corrupt ''WAL sequence must increase'')
     else rbind (rfold (f (fr_seq g)) (fr_ops g) s) (\<lambda>s.
       replay_reader_loop sha f r (length r) (pos + length (frame_bytes sha g)) (Some (fr_seq g)) s))"
proof -
  have d: "decode_frame sha (drop pos r) = Inr (g, length (frame_bytes sha g))"
    unfolding assms(3) by (rule decode_frame_bytes [OF assms(1,2)])
  then obtain seq body where rd: "read_frame_bytes r pos (length r) = Some (seq, body)"
    using decode_frame_read_None [OF assms(1), of r pos] by (cases "read_frame_bytes r pos (length r)") auto
  have ck: "body_checks sha body" and ops: "decode_payload (body_payload body) = Inr (fr_ops g)"
    and eq: "seq = fr_seq g" "length body = length (frame_bytes sha g)"
    using d unfolding decode_frame_read_Some [OF rd] by (auto simp: rbind_Inr_iff split: if_splits)
  show ?thesis
    using assms(4) rd ck eq walk_payload_decoded [OF ops, of "f (fr_seq g)" s]
    by (subst replay_reader_loop.simps) simp
qed

lemma length_frame_bytes_pos: "0 < length (frame_bytes sha g)"
  by (simp add: frame_bytes_def frame_image_def Let_def)

lemma replay_reader_clean:
  assumes "sha_ok sha" and "\<forall>g \<in> set fs. frame_ok (fr_ops g)" and "seqs_from last_seq fs"
    and "drop pos r = concat (map (frame_bytes sha) fs)" and "pos \<le> length r"
  shows "replay_reader_loop sha f r (length r) pos last_seq s =
    rbind (rfold (\<lambda>g. rfold (f (fr_seq g)) (fr_ops g)) fs s) (\<lambda>s. Inr (s, length r, length r))"
  using assms(2-)
proof (induction fs arbitrary: pos last_seq s)
  case Nil
  then have "pos = length r" by simp
  then show ?case by (subst replay_reader_loop.simps) simp
next
  case (Cons g fs)
  have pos: "pos < length r"
    using Cons.prems(3) length_frame_bytes_pos [of sha g] by (cases "pos < length r") auto
  have d: "drop pos r = frame_bytes sha g @ concat (map (frame_bytes sha) fs)" using Cons.prems(3) by simp
  have "drop (pos + length (frame_bytes sha g)) r = drop (length (frame_bytes sha g)) (drop pos r)"
    by (simp add: add.commute)
  then have d': "drop (pos + length (frame_bytes sha g)) r = concat (map (frame_bytes sha) fs)" unfolding d by simp
  have "length (drop pos r) = length (frame_bytes sha g) + length (concat (map (frame_bytes sha) fs))" unfolding d by simp
  then have le: "pos + length (frame_bytes sha g) \<le> length r" using pos by simp
  show ?case
    using replay_reader_step [OF assms(1) _ d pos, of f last_seq s] Cons.prems(1,2) Cons.IH [OF _ _ d' le]
    by (cases "rfold (f (fr_seq g)) (fr_ops g) s") auto
qed

definition wal_of :: "digest_fn \<Rightarrow> wal_frame list \<Rightarrow> bytes" where
  "wal_of sha fs = concat (map (frame_bytes sha) fs)"

definition replay_ops :: "wal_frame list \<Rightarrow> replay_state \<Rightarrow> replay_state fres" where
  "replay_ops fs = rfold (\<lambda>g. rfold (replay_op (fr_seq g)) (fr_ops g)) fs"

text \<open>A log written frame by frame replays completely, with nothing to cut off.\<close>

lemma replay_wal_of:
  assumes "sha_ok sha" and "\<forall>g \<in> set fs. frame_ok (fr_ops g)" and "sorted_wrt (<) (map fr_seq fs)"
  shows "replay_reader sha replay_op (wal_of sha fs) rp =
    rbind (replay_ops fs rp) (\<lambda>rp. Inr (rp, length (wal_of sha fs), length (wal_of sha fs)))"
  using replay_reader_clean [OF assms(1,2), of None 0 "wal_of sha fs" replay_op rp] assms(3)
  by (simp add: replay_reader_def replay_ops_def wal_of_def seqs_from_None)

section \<open>Rows\<close>

definition mem_rows :: "memtable list \<Rightarrow> bytes \<times> u64 \<rightharpoonup> mem_entry" where
  "mem_rows ms = foldl (\<lambda>rows m. rows ++ mt_abs m) Map.empty ms"

definition state_rows :: "db_state \<Rightarrow> bytes \<times> u64 \<rightharpoonup> mem_entry" where
  "state_rows st = mem_rows (st_immutables st @ [st_active st])"

lemma mem_rows_snoc: "mem_rows (ms @ [m]) = mem_rows ms ++ mt_abs m"
  by (simp add: mem_rows_def)

fun op_row :: "u64 \<Rightarrow> op \<Rightarrow> (bytes \<times> u64) \<rightharpoonup> mem_entry" where
  "op_row seq (Put k v) = [(k, seq) \<mapsto> Byte \<lparr>br_value = Some v\<rparr>]"
| "op_row seq (Delete k) = [(k, seq) \<mapsto> Byte \<lparr>br_value = None\<rparr>]"
| "op_row seq (PutObject rid k v) = [(k, seq) \<mapsto> Object \<lparr>or_value = Some v, or_replica_id = rid\<rparr>]"
| "op_row seq (DeleteObject rid k) = [(k, seq) \<mapsto> Object \<lparr>or_value = None, or_replica_id = rid\<rparr>]"
| "op_row seq (CreateObject oid lid rid pgen) = Map.empty"

lemmas apply_defs = mt_apply_def mt_apply_object_def mt_inv_insert mt_abs_insert

text \<open>What the live apply of one operation leaves alone, and the row it adds.\<close>

lemma state_placement_frame:
  assumes "state_placement rid st = (r, st')"
  shows "st_active st' = st_active st" "st_immutables st' = st_immutables st" "st_segments st' = st_segments st"
    "st_identity st' = st_identity st" "st_replicas st' = st_replicas st" "st_next_seq st' = st_next_seq st"
    "st_segment_records st' = st_segment_records st" "st_generation st' = st_generation st"
    "st_next_segment_id st' = st_next_segment_id st"
  using assms by (auto simp: state_placement_def split: prod.splits)

lemma apply_create_frame:
  assumes "apply_create oid lid rid pgen st = (r, st')"
  shows "st_active st' = st_active st" "st_immutables st' = st_immutables st" "st_segments st' = st_segments st"
    "st_next_seq st' = st_next_seq st" "st_segment_records st' = st_segment_records st"
    "st_generation st' = st_generation st" "st_next_segment_id st' = st_next_segment_id st"
  using assms by (auto simp: apply_create_def Let_def split: sum.splits prod.splits)

lemma apply_op_frame:
  assumes "apply_op seq op st = (r, st')"
  shows "st_immutables st' = st_immutables st" "st_segments st' = st_segments st" "st_next_seq st' = st_next_seq st"
    "st_segment_records st' = st_segment_records st" "st_generation st' = st_generation st"
    "st_next_segment_id st' = st_next_segment_id st"
  using assms by (cases op; auto dest: state_placement_frame apply_create_frame)+

lemma apply_op_active:
  assumes "apply_op seq op st = (r, st')" and "mt_inv (st_active st)"
  shows "mt_inv (st_active st')" "mt_abs (st_active st') = mt_abs (st_active st) ++ op_row seq op"
  using assms by (cases op; auto simp: apply_defs dest: state_placement_frame(1) apply_create_frame(1))+

lemma apply_op_rows:
  assumes "apply_op seq op st = (r, st')" and "mt_inv (st_active st)"
  shows "state_rows st' = state_rows st ++ op_row seq op"
  using apply_op_active(2) [OF assms] apply_op_frame(1) [OF assms(1)] by (simp add: state_rows_def mem_rows_snoc map_add_assoc)

section \<open>Replay follows the live apply\<close>

fun in_memtable :: "placement option \<Rightarrow> bool" where
  "in_memtable (Some (InMemtable g)) = True"
| "in_memtable _ = False"

text \<open>A replica the replay has not moved to the memtable sits where the live directory has it.\<close>

definition mirrors :: "replay_state \<Rightarrow> db_state \<Rightarrow> bool" where
  "mirrors rp st \<longleftrightarrow> mt_inv (rp_active rp) \<and> mt_inv (st_active st)
    \<and> rp_identity rp = st_identity st \<and> rp_replicas rp = st_replicas st \<and> mt_abs (rp_active rp) = state_rows st
    \<and> (\<forall>rid. in_memtable (rp_placements rp rid) \<or> rp_placements rp rid = st_placements st rid)"

text \<open>Room for \<open>n\<close> more operations: the generations the replay hands out stay above those of the
  placements outside the memtable and do not wrap.\<close>

definition flip_room :: "nat \<Rightarrow> replay_state \<Rightarrow> bool" where
  "flip_room n rp \<longleftrightarrow> unat (rp_pgen rp) + n < 2 ^ 64
    \<and> (\<forall>rid p. rp_placements rp rid = Some p \<longrightarrow> in_memtable (Some p) \<or> placement_generation p < rp_pgen rp)"

lemma in_memtable_iff: "in_memtable x \<longleftrightarrow> (\<exists>g. x = Some (InMemtable g))"
  by (cases x rule: in_memtable.cases) auto

lemma word_step: "unat (w :: u64) + Suc n < 2 ^ 64 \<Longrightarrow> unat (w + 1) = unat w + 1 \<and> w < w + 1"
  by (simp add: word_less_nat_alt unat_word_ariths)

lemma replay_flip_ok:
  assumes "flip_room (Suc n) rp"
  shows "\<exists>rp'. replay_flip rid rp = Inr rp' \<and> flip_room n rp' \<and> in_memtable (rp_placements rp' rid)
    \<and> (\<forall>r. r \<noteq> rid \<longrightarrow> rp_placements rp' r = rp_placements rp r)
    \<and> rp_active rp' = rp_active rp \<and> rp_identity rp' = rp_identity rp \<and> rp_replicas rp' = rp_replicas rp"
proof (cases "in_memtable (rp_placements rp rid)")
  case True
  then have "replay_flip rid rp = Inr rp"
    by (auto simp: replay_flip_def replay_object_placement_def in_memtable_iff)
  then show ?thesis using True assms by (auto simp: flip_room_def)
next
  case False
  have w: "rp_pgen rp < rp_pgen rp + 1" "unat (rp_pgen rp + 1) = unat (rp_pgen rp) + 1"
    using word_step [of "rp_pgen rp" n] assms by (auto simp: flip_room_def)
  have low: "placement_generation p < rp_pgen rp" if "rp_placements rp rid = Some p" for p
    using assms False that by (auto simp: flip_room_def)
  have m: "merge_placement rid (InMemtable (rp_pgen rp)) (rp_placements rp) = Inr ((rp_placements rp)(rid \<mapsto> InMemtable (rp_pgen rp)), Applied)"
  proof (cases "rp_placements rp rid")
    case (Some p)
    have "\<not> rp_pgen rp < placement_generation p" "p \<noteq> InMemtable (rp_pgen rp)" using low [OF Some] by auto
    then show ?thesis using Some low [OF Some] by (simp add: merge_placement_def)
  qed (simp add: merge_placement_def)
  have "replay_object_placement rid (rp_placements rp, rp_pending_placements rp, rp_pgen rp)
      = apply_object_placement rid (rp_placements rp, rp_pending_placements rp, rp_pgen rp)"
    using False by (auto simp: replay_object_placement_def split: option.splits placement.splits)
  then have "replay_flip rid rp = Inr (rp\<lparr>rp_placements := (rp_placements rp)(rid \<mapsto> InMemtable (rp_pgen rp)),
      rp_pending_placements := rp_pending_placements rp @ [\<lparr>pr_rid = rid, pr_placement = InMemtable (rp_pgen rp)\<rparr>],
      rp_pgen := rp_pgen rp + 1\<rparr>)"
    using m by (simp add: replay_flip_def apply_object_placement_def Let_def)
  moreover have "placement_generation p < rp_pgen rp + 1"
    if "rp_placements rp r = Some p" "\<not> in_memtable (Some p)" for r p
  proof -
    have "placement_generation p < rp_pgen rp" using assms that by (auto simp: flip_room_def)
    then show ?thesis using w(1) by (rule less_trans)
  qed
  ultimately show ?thesis using w assms by (auto simp: flip_room_def)
qed

lemma replay_arm_row:
  assumes "replay_arm seq op rp = Inr rp'" and "mt_inv (rp_active rp)"
  shows "mt_inv (rp_active rp')" "mt_abs (rp_active rp') = mt_abs (rp_active rp) ++ op_row seq op"
  using assms
  by (cases op; auto simp: apply_defs replay_flip_def rbind_Inr_iff split: prod.splits sum.splits)+

lemma mirrors_object:
  assumes "mirrors rp st" and "flip_room (Suc n) rp" and "op = PutObject rid k v \<or> op = DeleteObject rid k"
    and "apply_op seq op st = (Inr (), st')"
  shows "\<exists>rp'. replay_arm seq op rp = Inr rp' \<and> mirrors rp' st' \<and> flip_room n rp'"
proof -
  define val where "val = (case op of PutObject _ _ v \<Rightarrow> Some v | _ \<Rightarrow> None)"
  let ?rp = "rp\<lparr>rp_active := mt_apply_object k seq val rid (rp_active rp)\<rparr>"
  let ?st = "st\<lparr>st_active := mt_apply_object k seq val rid (st_active st)\<rparr>"
  have arm: "replay_arm seq op rp = replay_flip rid ?rp" and live: "state_placement rid ?st = (Inr (), st')"
    using assms(3,4) by (auto simp: val_def)
  have "flip_room (Suc n) ?rp" using assms(2) by (simp add: flip_room_def)
  then obtain rp' where rp': "replay_flip rid ?rp = Inr rp'" "flip_room n rp'" "in_memtable (rp_placements rp' rid)"
    "\<forall>r. r \<noteq> rid \<longrightarrow> rp_placements rp' r = rp_placements rp r"
    "rp_identity rp' = rp_identity rp" "rp_replicas rp' = rp_replicas rp"
    using replay_flip_ok [of n ?rp rid] by auto
  have inv: "mt_inv (rp_active rp)" "mt_inv (st_active st)" using assms(1) by (auto simp: mirrors_def)
  have "st_placements st' r = st_placements st r" if "r \<noteq> rid" for r
    using live that by (auto simp: state_placement_def apply_object_placement_def merge_placement_def Let_def
        split: option.splits if_splits prod.splits)
  then have "in_memtable (rp_placements rp' r) \<or> rp_placements rp' r = st_placements st' r" for r
    using assms(1) rp'(3,4) by (cases "r = rid") (auto simp: mirrors_def)
  then have place: "\<forall>r. in_memtable (rp_placements rp' r) \<or> rp_placements rp' r = st_placements st' r" by blast
  have "rp_identity rp' = st_identity st'" "rp_replicas rp' = st_replicas st'"
    using assms(1) rp'(5,6) state_placement_frame [OF live] by (simp_all add: mirrors_def)
  moreover have "mt_abs (rp_active rp') = state_rows st'"
    using assms(1) replay_arm_row(2) [OF arm [unfolded rp'(1)] inv(1)] apply_op_rows [OF assms(4) inv(2)]
    by (simp add: mirrors_def)
  ultimately have "mirrors rp' st'"
    using place replay_arm_row(1) [OF arm [unfolded rp'(1)] inv(1)] apply_op_active(1) [OF assms(4) inv(2)]
    by (simp add: mirrors_def)
  then show ?thesis using arm rp' by auto
qed

text \<open>A placement merge succeeds on a replica in the memtable, and then only moves it in the memtable.\<close>

lemma merge_memtable:
  assumes "in_memtable (ps rid)"
  shows "\<exists>ps' o'. merge_placement rid (InMemtable g) ps = Inr (ps', o') \<and> in_memtable (ps' rid) \<and> (\<forall>r. r \<noteq> rid \<longrightarrow> ps' r = ps r)"
  using assms by (auto simp: merge_placement_def in_memtable_iff Let_def)

lemma merge_placement_other:
  "merge_placement rid p ps = Inr (ps', o') \<Longrightarrow> (\<forall>r. r \<noteq> rid \<longrightarrow> ps' r = ps r) \<and> (ps' rid = ps rid \<or> ps' rid = Some p)"
  by (auto simp: merge_placement_def Let_def split: option.splits if_splits)

lemma merge_placement_cong:
  "ps rid = qs rid \<Longrightarrow> merge_placement rid p ps = Inr (ps', o') \<Longrightarrow>
    \<exists>qs'. merge_placement rid p qs = Inr (qs', o') \<and> qs' rid = ps' rid \<and> (\<forall>r. r \<noteq> rid \<longrightarrow> qs' r = qs r)"
  by (auto simp: merge_placement_def Let_def split: option.splits if_splits)

lemma mirrors_create:
  assumes "mirrors rp st" and "flip_room (Suc n) rp" and "apply_create oid lid rid pgen st = (Inr (), st')"
  shows "\<exists>rp'. replay_arm seq (CreateObject oid lid rid pgen) rp = Inr rp' \<and> mirrors rp' st' \<and> flip_room n rp'"
proof -
  obtain identity replicas ps o' where m: "merge_identity (oid, lid) (st_identity st) = Inr identity"
    "merge_replica (lid, LOCAL_NODE_ID, rid) (st_replicas st) = Inr replicas"
    "merge_placement rid (InMemtable pgen) (st_placements st) = Inr (ps, o')"
    and st': "st_identity st' = identity" "st_replicas st' = replicas" "st_placements st' = ps"
    using assms(3) by (auto simp: apply_create_def Let_def split: sum.splits prod.splits)
  note fr = apply_create_frame [OF assms(3)]
  have others: "\<forall>r. r \<noteq> rid \<longrightarrow> ps r = st_placements st r" using merge_placement_other [OF m(3)] by blast
  obtain qs oq where q: "merge_placement rid (InMemtable pgen) (rp_placements rp) = Inr (qs, oq)"
    and qs: "in_memtable (qs rid) \<or> qs rid = ps rid" "\<forall>r. r \<noteq> rid \<longrightarrow> qs r = rp_placements rp r"
  proof (cases "in_memtable (rp_placements rp rid)")
    case True
    then show ?thesis using merge_memtable [of "rp_placements rp" rid pgen] that by blast
  next
    case False
    then have "st_placements st rid = rp_placements rp rid" using assms(1) by (auto simp: mirrors_def)
    from merge_placement_cong [of "st_placements st" rid "rp_placements rp", OF this m(3)] show ?thesis using that by blast
  qed
  define rp' where "rp' = rp\<lparr>rp_identity := identity, rp_pending_identity := rp_pending_identity rp @ [\<lparr>ir_oid = oid, ir_lid = lid\<rparr>],
      rp_replicas := replicas,
      rp_pending_replicas := rp_pending_replicas rp @ [\<lparr>rr_lid = lid, rr_node = LOCAL_NODE_ID, rr_rid = rid\<rparr>],
      rp_placements := qs,
      rp_pending_placements := rp_pending_placements rp @ [\<lparr>pr_rid = rid, pr_placement = InMemtable pgen\<rparr>]\<rparr>"
  have arm: "replay_arm seq (CreateObject oid lid rid pgen) rp = Inr rp'"
    using assms(1) m(1,2) q by (simp add: mirrors_def rp'_def)
  have "in_memtable (qs r) \<or> qs r = ps r" for r
    using qs others assms(1) by (cases "r = rid") (auto simp: mirrors_def)
  moreover have "state_rows st' = state_rows st" using fr by (simp add: state_rows_def)
  ultimately have "mirrors rp' st'" using assms(1) st' fr by (simp add: mirrors_def rp'_def)
  moreover have "in_memtable (Some p) \<or> placement_generation p < rp_pgen rp" if "qs r = Some p" for r p
  proof (cases "r = rid")
    case True
    have "qs rid = rp_placements rp rid \<or> qs rid = Some (InMemtable pgen)" using merge_placement_other [OF q] by blast
    then have "rp_placements rp rid = Some p \<or> p = InMemtable pgen" using that True by auto
    then show ?thesis using assms(2) by (auto simp: flip_room_def)
  next
    case False
    then show ?thesis using that qs(2) assms(2) by (auto simp: flip_room_def)
  qed
  then have "flip_room n rp'" using assms(2) by (auto simp: flip_room_def rp'_def)
  ultimately show ?thesis using arm by blast
qed

lemma mirrors_max: "mirrors (rp\<lparr>rp_max := s\<rparr>) st = mirrors rp st" "flip_room n (rp\<lparr>rp_max := s\<rparr>) = flip_room n rp"
  by (simp_all add: mirrors_def flip_room_def)

lemma mirrors_apply:
  assumes "mirrors rp st" and "flip_room (Suc n) rp" and "apply_op seq op st = (Inr (), st')"
  shows "\<exists>rp'. replay_op seq op rp = Inr rp' \<and> mirrors rp' st' \<and> flip_room n rp'"
proof -
  have inv: "mt_inv (st_active st)" "mt_inv (rp_active rp)" using assms(1) by (simp_all add: mirrors_def)
  have "\<exists>rp'. replay_arm seq op rp = Inr rp' \<and> mirrors rp' st' \<and> flip_room n rp'"
  proof (cases op)
    case (CreateObject oid lid rid pgen)
    then show ?thesis using mirrors_create [OF assms(1,2)] assms(3) by simp
  next
    case (PutObject rid k v)
    show ?thesis by (rule mirrors_object [OF assms(1,2) disjI1 [OF PutObject] assms(3)])
  next
    case (DeleteObject rid k)
    then show ?thesis using mirrors_object [OF assms(1,2) _ assms(3)] by blast
  next
    case (Put k v)
    with assms(1,3) inv show ?thesis using apply_op_rows [OF assms(3) inv(1)] assms(2)
      by (auto simp: mirrors_def flip_room_def apply_defs)
  next
    case (Delete k)
    with assms(1,3) inv show ?thesis using apply_op_rows [OF assms(3) inv(1)] assms(2)
      by (auto simp: mirrors_def flip_room_def apply_defs)
  qed
  then show ?thesis by (auto simp: replay_op_def mirrors_max)
qed

lemma mirrors_apply_ops:
  assumes "mirrors rp st" and "flip_room (n + length ops) rp" and "tfold (apply_op seq) ops st = (Inr (), st')"
  shows "\<exists>rp'. rfold (replay_op seq) ops rp = Inr rp' \<and> mirrors rp' st' \<and> flip_room n rp'"
  using assms
proof (induction ops arbitrary: rp st)
  case (Cons op ops)
  then obtain st1 where st1: "apply_op seq op st = (Inr (), st1)" "tfold (apply_op seq) ops st1 = (Inr (), st')"
    by (auto simp: tbind_Inr_iff)
  obtain rp1 where "replay_op seq op rp = Inr rp1" "mirrors rp1 st1" "flip_room (n + length ops) rp1"
    using mirrors_apply [OF Cons.prems(1) _ st1(1), of "n + length ops"] Cons.prems(2) by auto
  then show ?case using Cons.IH [OF _ _ st1(2)] by auto
qed auto

section \<open>The recoverable databases\<close>

text \<open>\<open>base\<close> is what open has built from the directory before it replays the log.\<close>

definition recoverable :: "digest_fn \<Rightarrow> replay_state \<Rightarrow> nat \<Rightarrow> database \<Rightarrow> bool" where
  "recoverable sha base n d \<longleftrightarrow> (\<exists>fs rp. dx_wal d = wal_of sha fs \<and> (\<forall>g \<in> set fs. frame_ok (fr_ops g))
    \<and> sorted_wrt (<) (map fr_seq fs) \<and> (\<forall>g \<in> set fs. fr_seq g < st_next_seq (dx_state d))
    \<and> replay_ops fs base = Inr rp \<and> mirrors rp (dx_state d) \<and> flip_room n rp)"

lemma recoverable_replays:
  assumes "sha_ok sha" and "recoverable sha base n d"
  shows "\<exists>rp. replay_reader sha replay_op (dx_wal d) base = Inr (rp, length (dx_wal d), length (dx_wal d))
    \<and> rp_identity rp = st_identity (dx_state d) \<and> rp_replicas rp = st_replicas (dx_state d)
    \<and> mt_abs (rp_active rp) = state_rows (dx_state d)"
  using assms replay_wal_of [OF assms(1)] by (auto simp: recoverable_def mirrors_def)

lemma wal_append_Inr:
  "wal_append flt frame d = (Inr (), d') \<Longrightarrow>
    dx_wal d' = dx_wal d @ frame \<and> dx_state d' = dx_state d \<and> dx_dir d' = dx_dir d \<and> dx_config d' = dx_config d"
  by (auto simp: wal_append_def Let_def split: wal_fault.splits if_splits)

lemma write_locked_Committed:
  assumes "write_locked sha flt ops expected d = (Inr (Committed seq b), d')"
  shows "\<exists>frame. seq = st_next_seq (dx_state d) \<and> encode_frame sha seq ops = Inr frame \<and> dx_wal d' = dx_wal d @ frame
    \<and> tfold (apply_op seq) ops ((dx_state d)\<lparr>st_next_seq := seq + 1\<rparr>) = (Inr (), dx_state d') \<and> dx_dir d' = dx_dir d
    \<and> dx_config d' = dx_config d"
proof -
  have "commit_frame sha flt (st_next_seq (dx_state d)) ops d = (Inr (Committed seq b), d')"
    using assms by (auto simp: write_locked_def Let_def split: option.splits if_splits)
  then obtain frame d1 where fr: "encode_frame sha (st_next_seq (dx_state d)) ops = Inr frame"
    and d1: "wal_append flt frame (d\<lparr>dx_state := (dx_state d)\<lparr>st_next_seq := st_next_seq (dx_state d) + 1\<rparr>\<rparr>) = (Inr (), d1)"
    and rest': "(case tfold (apply_op (st_next_seq (dx_state d))) ops (dx_state d1) of
           (Inl e, st) \<Rightarrow> (Inl e, d1\<lparr>dx_state := st\<rparr>)
         | (Inr _, st) \<Rightarrow> (Inr (Committed (st_next_seq (dx_state d))
             (cf_memtable_bytes (dx_config d1) \<le> mt_bytes (st_active st))), d1\<lparr>dx_state := st\<rparr>)) = (Inr (Committed seq b), d')"
    by (auto simp: commit_frame_def Let_def tbind_Inr_iff split: sum.splits)
  obtain r st where t: "tfold (apply_op (st_next_seq (dx_state d))) ops (dx_state d1) = (r, st)" by fastforce
  then have r: "r = Inr ()" "seq = st_next_seq (dx_state d)" "d' = d1\<lparr>dx_state := st\<rparr>"
    using rest' by (auto split: sum.splits)
  then show ?thesis using fr t wal_append_Inr [OF d1] by auto
qed

lemma tfold_apply_next_seq: "tfold (apply_op seq) ops st = (r, st') \<Longrightarrow> st_next_seq st' = st_next_seq st"
proof (induction ops arbitrary: st)
  case (Cons op ops)
  obtain r1 st1 where s1: "apply_op seq op st = (r1, st1)" by fastforce
  then show ?case using Cons apply_op_frame(3) [OF s1] by (cases r1) auto
qed simp

lemma replay_ops_snoc: "replay_ops (fs @ [g]) rp = rbind (replay_ops fs rp) (rfold (replay_op (fr_seq g)) (fr_ops g))"
  by (cases "rfold (\<lambda>g. rfold (replay_op (fr_seq g)) (fr_ops g)) fs rp";
      cases "rfold (replay_op (fr_seq g)) (fr_ops g) (projr (replay_ops fs rp))")
    (simp_all add: replay_ops_def rfold_append)

lemma mirrors_next_seq: "mirrors rp (st\<lparr>st_next_seq := s\<rparr>) = mirrors rp st"
  by (simp add: mirrors_def state_rows_def)

lemma commit_recoverable:
  assumes "recoverable sha base (n + length ops) d" and "list_all op_typed ops"
    and "unat (st_next_seq (dx_state d)) + 1 < 2 ^ 64" and "write_locked sha flt ops expected d = (Inr (Committed seq b), d')"
  shows "recoverable sha base n d'"
proof -
  obtain fs rp where fs: "dx_wal d = wal_of sha fs" "\<forall>g \<in> set fs. frame_ok (fr_ops g)" "sorted_wrt (<) (map fr_seq fs)"
    "\<forall>g \<in> set fs. fr_seq g < st_next_seq (dx_state d)" "replay_ops fs base = Inr rp" "mirrors rp (dx_state d)"
    "flip_room (n + length ops) rp"
    using assms(1) by (auto simp: recoverable_def)
  obtain frame where w: "seq = st_next_seq (dx_state d)" "encode_frame sha seq ops = Inr frame" "dx_wal d' = dx_wal d @ frame"
    and ap: "tfold (apply_op seq) ops ((dx_state d)\<lparr>st_next_seq := seq + 1\<rparr>) = (Inr (), dx_state d')"
    using write_locked_Committed [OF assms(4)] by blast
  let ?g = "\<lparr>fr_seq = seq, fr_ops = ops\<rparr>"
  have g: "frame_ok ops" "frame = frame_bytes sha ?g"
    using w(2) encode_frame_iff [OF assms(2), of sha seq] by (auto simp: frame_bytes_def)
  have "mirrors rp ((dx_state d)\<lparr>st_next_seq := seq + 1\<rparr>)" using fs(6) by (simp add: mirrors_next_seq)
  then obtain rp' where rp': "rfold (replay_op seq) ops rp = Inr rp'" "mirrors rp' (dx_state d')" "flip_room n rp'"
    using mirrors_apply_ops [OF _ fs(7) ap] by blast
  have nx: "st_next_seq (dx_state d') = seq + 1" using tfold_apply_next_seq [OF ap] by simp
  have "seq < seq + 1" using word_step [of seq 0] assms(3) w(1) by simp
  then have "\<forall>g' \<in> set (fs @ [?g]). fr_seq g' < st_next_seq (dx_state d')"
    using fs(4) w(1) nx by (auto dest: less_trans)
  moreover have "dx_wal d' = wal_of sha (fs @ [?g])" using fs(1) w(3) g(2) by (simp add: wal_of_def)
  moreover have "sorted_wrt (<) (map fr_seq (fs @ [?g]))" using fs(3,4) w(1) by (simp add: sorted_wrt_append)
  moreover have "replay_ops (fs @ [?g]) base = Inr rp'" using fs(5) rp'(1) by (simp add: replay_ops_snoc)
  ultimately show ?thesis using fs(2) g(1) rp'(2,3)
    unfolding recoverable_def by (intro exI [of _ "fs @ [?g]"] exI [of _ rp']) simp
qed

section \<open>Open, commit, crash, open\<close>

lemma replay_reader_sound:
  assumes "sha_ok sha" and "replay_reader_loop sha f r (length r) pos lst s = Inr (s', n, m)" and "pos \<le> length r"
  shows "\<exists>fs. (\<forall>g \<in> set fs. frame_ok (fr_ops g)) \<and> seqs_from lst fs \<and> pos \<le> n \<and> n \<le> length r
    \<and> take (n - pos) (drop pos r) = wal_of sha fs \<and> rfold (\<lambda>g. rfold (f (fr_seq g)) (fr_ops g)) fs s = Inr s'"
  using assms
proof (induction sha f r "length r" pos lst s rule: replay_reader_loop.induct)
  case (1 sha f r pos lst s)
  let ?stop = "\<exists>fs. (\<forall>g \<in> set fs. frame_ok (fr_ops g)) \<and> seqs_from lst fs \<and> pos \<le> n \<and> n \<le> length r
    \<and> take (n - pos) (drop pos r) = wal_of sha fs \<and> rfold (\<lambda>g. rfold (f (fr_seq g)) (fr_ops g)) fs s = Inr s'"
  have stop: ?stop if "s' = s" "n = pos"
    using that "1.prems"(3) by (intro exI [of _ "[]"]) (simp add: wal_of_def)
  show ?case
  proof (cases "pos < length r \<and> (\<exists>x. read_frame_bytes r pos (length r) = Some x \<and> body_checks sha (snd x))")
    case False
    then show ?thesis
      using "1.prems"(2) stop by (subst (asm) replay_reader_loop.simps) (auto split: if_splits option.splits)
  next
    case True
    then obtain seq body where pos: "pos < length r" and rd: "read_frame_bytes r pos (length r) = Some (seq, body)"
      and ck: "body_checks sha body" by auto
    have "\<not> seq_regresses lst seq" using "1.prems"(2) pos rd ck
      by (subst (asm) replay_reader_loop.simps) (auto split: if_splits)
    moreover obtain s1 where s1: "walk_payload (f seq) (body_payload body) s = Inr s1"
      and go: "replay_reader_loop sha f r (length r) (pos + length body) (Some seq) s1 = Inr (s', n, m)"
      using "1.prems"(2) pos rd ck calculation by (subst (asm) replay_reader_loop.simps) (auto simp: rbind_Inr_iff)
    moreover obtain ops where ops: "decode_payload (body_payload body) = Inr ops" using walk_payload_Inr [OF s1] by blast
    ultimately have reg: "\<not> seq_regresses lst seq" and s1': "rfold (f seq) ops s = Inr s1"
      and go: "replay_reader_loop sha f r (length r) (pos + length body) (Some seq) s1 = Inr (s', n, m)"
      using walk_payload_decoded [OF ops, of "f seq" s] by simp_all
    let ?g = "\<lparr>fr_seq = seq, fr_ops = ops\<rparr>"
    have "decode_frame sha (drop pos r) = Inr (?g, length body)" using decode_frame_read_Some [OF rd] ck ops by simp
    then obtain t where g: "frame_ok ops" "length body = length (frame_bytes sha ?g)" "drop pos r = frame_bytes sha ?g @ t"
      using decode_frame_ok_iff [OF "1.prems"(1)] by auto
    have "length (drop pos r) = length body + length t" unfolding g(3) using g(2) by simp
    then have le: "pos + length body \<le> length r" using pos by simp
    obtain fs where fs: "\<forall>g \<in> set fs. frame_ok (fr_ops g)" "seqs_from (Some seq) fs" "pos + length body \<le> n" "n \<le> length r"
      "take (n - (pos + length body)) (drop (pos + length body) r) = wal_of sha fs"
      "rfold (\<lambda>g. rfold (f (fr_seq g)) (fr_ops g)) fs s1 = Inr s'"
      using "1.hyps" [OF pos rd refl _ reg s1 "1.prems"(1) go le] ck by auto
    have "drop (pos + length body) r = t" using g(2,3) by (metis add.commute append_eq_conv_conj drop_drop)
    then have "take (n - pos) (drop pos r) = wal_of sha (?g # fs)"
      using fs(3,5) g(2,3) by (simp add: wal_of_def)
    then show ?thesis using fs g(1) reg s1' by (intro exI [of _ "?g # fs"]) simp
  qed
qed

lemma map_of_replace:
  "map_of (map (\<lambda>(n, b). if n = name then (n, bs) else (n, b)) dir) x
    = (if x = name then map_option (\<lambda>_. bs) (map_of dir x) else map_of dir x)"
  by (induction dir) auto

lemma dir_put_lookup [simp]: "map_of (dir_put name bs dir) = (map_of dir)(name \<mapsto> bs)"
  by (cases "map_of dir name") (auto simp: dir_put_def map_of_replace map_add_def fun_eq_iff split: option.splits)

lemma publish_atomic_Inr: "publish_atomic io name bs dir = (Inr x, dir') \<Longrightarrow> dir' = dir_put name bs dir"
  by (auto simp: publish_atomic_def split: option.splits)

lemma read_current_again:
  assumes "sha_ok (en_sha env)" and "en_io env ''read CURRENT'' = None" and "read_current env dir = Inr (cu, dir')"
  shows "read_current env dir' = Inr (cu, dir')"
proof (cases "map_of dir ''CURRENT''")
  case (Some bs)
  then show ?thesis using assms(2,3) by (auto simp: read_current_def rbind_Inr_iff)
next
  case None
  let ?c = "\<lparr>cu_format_version = FORMAT_VERSION, cu_manifest_generation = 1\<rparr>"
  from None assms(2,3) obtain d1 where "cu = ?c" "dir' = dir_put ''CURRENT'' (Current_encode (en_sha env) ?c) d1"
    by (auto simp: read_current_def Let_def split: prod.splits sum.splits dest!: publish_atomic_Inr)
  moreover have "Current_decode (en_sha env) (Current_encode (en_sha env) ?c) = Inr ?c"
    using current_codec [OF assms(1), of "Current_encode (en_sha env) ?c" ?c] by simp
  ultimately show ?thesis using assms(2) by (simp add: read_current_def)
qed

lemma open_base_again:
  assumes "sha_ok (en_sha env)" and "en_io env ''read CURRENT'' = None" and "db_open_base env dir = Inr ob"
  shows "db_open_base env (ob_dir ob) = Inr ob"
proof -
  obtain cu dir' where cu: "read_current env dir = Inr (cu, dir')"
    using assms(3) by (auto simp: db_open_base_def rbind_Inr_iff)
  then have "db_open_base env dir = db_open_base env dir'" "ob_dir ob = dir'"
    using assms(3) read_current_again [OF assms(1,2) cu] by (auto simp: db_open_base_def rbind_Inr_iff Let_def)
  then show ?thesis using assms(3) by simp
qed

lemma flip_room_less: "flip_room (Suc n) rp \<Longrightarrow> flip_room n rp"
  by (simp add: flip_room_def)

lemma flip_room_active: "flip_room n (rp\<lparr>rp_active := m\<rparr>) = flip_room n rp"
  by (simp add: flip_room_def)

lemma replay_op_room:
  assumes "flip_room (Suc n) rp" and "replay_op seq op rp = Inr rp'" and "mt_inv (rp_active rp)"
  shows "flip_room n rp' \<and> mt_inv (rp_active rp') \<and> rp_max rp' = max (rp_max rp) seq"
proof -
  obtain rp1 where rp1: "replay_arm seq op rp = Inr rp1" "rp' = rp1\<lparr>rp_max := max (rp_max rp1) seq\<rparr>"
    using assms(2) by (auto simp: replay_op_def rbind_Inr_iff)
  have "flip_room n rp1 \<and> rp_max rp1 = rp_max rp"
  proof (cases op)
    case (PutObject rid k v)
    then show ?thesis using rp1(1) replay_flip_ok [of n "rp\<lparr>rp_active := mt_apply_object k seq (Some v) rid (rp_active rp)\<rparr>" rid] assms(1)
      by (auto simp: flip_room_def replay_flip_def split: prod.splits sum.splits)
  next
    case (DeleteObject rid k)
    then show ?thesis using rp1(1) replay_flip_ok [of n "rp\<lparr>rp_active := mt_apply_object k seq None rid (rp_active rp)\<rparr>" rid] assms(1)
      by (auto simp: flip_room_def replay_flip_def split: prod.splits sum.splits)
  next
    case (CreateObject oid lid rid pgen)
    then obtain qs oq where q: "merge_placement rid (InMemtable pgen) (rp_placements rp) = Inr (qs, oq)" "rp_placements rp1 = qs"
      "rp_pgen rp1 = rp_pgen rp" "rp_max rp1 = rp_max rp"
      using rp1(1) by (auto simp: rbind_Inr_iff)
    have "in_memtable (Some p) \<or> placement_generation p < rp_pgen rp" if "qs r = Some p" for r p
    proof -
      have "rp_placements rp r = Some p \<or> p = InMemtable pgen" using merge_placement_other [OF q(1)] that by (cases "r = rid") auto
      then show ?thesis using assms(1) by (auto simp: flip_room_def)
    qed
    then show ?thesis using q assms(1) by (auto simp: flip_room_def)
  qed (use rp1(1) assms(1) in \<open>auto simp: flip_room_active intro: flip_room_less\<close>)
  then show ?thesis using rp1 replay_arm_row(1) [OF rp1(1) assms(3)] by (simp add: mirrors_max)
qed

lemma replay_frame_room:
  assumes "flip_room (n + length ops) rp" and "rfold (replay_op seq) ops rp = Inr rp'" and "mt_inv (rp_active rp)" and "ops \<noteq> []"
  shows "flip_room n rp' \<and> mt_inv (rp_active rp') \<and> rp_max rp' = max (rp_max rp) seq"
  using assms
proof (induction ops arbitrary: rp)
  case (Cons op ops)
  then obtain rp1 where rp1: "replay_op seq op rp = Inr rp1" "rfold (replay_op seq) ops rp1 = Inr rp'" by (auto simp: rbind_Inr_iff)
  have "flip_room (n + length ops) rp1 \<and> mt_inv (rp_active rp1) \<and> rp_max rp1 = max (rp_max rp) seq"
    using replay_op_room [OF _ rp1(1) Cons.prems(3), of "n + length ops"] Cons.prems(1) by simp
  then show ?case using Cons.IH [OF _ rp1(2)] rp1(2) by (cases ops) (auto simp: max.assoc)
qed simp

definition ops_count :: "wal_frame list \<Rightarrow> nat" where
  "ops_count fs = sum_list (map (length \<circ> fr_ops) fs)"

lemma replay_ops_room:
  assumes "flip_room (n + ops_count fs) rp" and "replay_ops fs rp = Inr rp'" and "mt_inv (rp_active rp)"
    and "\<forall>g \<in> set fs. frame_ok (fr_ops g)"
  shows "flip_room n rp' \<and> mt_inv (rp_active rp') \<and> rp_max rp \<le> rp_max rp' \<and> (\<forall>g \<in> set fs. fr_seq g \<le> rp_max rp')"
  using assms
proof (induction fs arbitrary: rp)
  case (Cons g fs)
  then obtain rp1 where rp1: "rfold (replay_op (fr_seq g)) (fr_ops g) rp = Inr rp1" "replay_ops fs rp1 = Inr rp'"
    by (auto simp: rbind_Inr_iff replay_ops_def)
  have "fr_ops g \<noteq> []" using Cons.prems(4) by (simp add: frame_ok_def)
  then have 1: "flip_room (n + ops_count fs) rp1 \<and> mt_inv (rp_active rp1) \<and> rp_max rp1 = max (rp_max rp) (fr_seq g)"
    using replay_frame_room [OF _ rp1(1) Cons.prems(3), of "n + ops_count fs"] Cons.prems(1) by (simp add: ops_count_def ac_simps)
  have 2: "flip_room n rp' \<and> mt_inv (rp_active rp') \<and> rp_max rp1 \<le> rp_max rp' \<and> (\<forall>g \<in> set fs. fr_seq g \<le> rp_max rp')"
    using Cons.IH [OF _ rp1(2)] 1 Cons.prems(4) by simp
  then show ?case using 1 by auto
qed (simp add: replay_ops_def ops_count_def)

lemma ops_count_le: "ops_count fs \<le> length (wal_of sha fs)"
proof (induction fs)
  case (Cons g fs)
  have "length (fr_ops g) \<le> length (frame_bytes sha g)"
    using length_ops_le [of "fr_ops g"] by (simp add: frame_bytes_def frame_image_def Let_def length_frame_payload)
  then show ?case using Cons by (simp add: ops_count_def wal_of_def)
qed (simp add: ops_count_def)

lemma recovered_state_simps:
  "st_identity (recovered_state env dir m ck rdrs om rp) = rp_identity rp"
  "st_replicas (recovered_state env dir m ck rdrs om rp) = rp_replicas rp"
  "st_placements (recovered_state env dir m ck rdrs om rp) = rp_placements rp"
  "st_active (recovered_state env dir m ck rdrs om rp) = rp_active rp"
  "st_immutables (recovered_state env dir m ck rdrs om rp) = []"
  "st_segments (recovered_state env dir m ck rdrs om rp) = rdrs"
  "st_segment_records (recovered_state env dir m ck rdrs om rp) = mf_segments m"
  "st_next_seq (recovered_state env dir m ck rdrs om rp) = max (rp_max rp) (max_of (map sr_seq_hi (mf_segments m))) + 1"
  by (simp_all add: recovered_state_def Let_def split_beta)

text \<open>Open establishes the invariant.\<close>

lemma replay_reader_end:
  "replay_reader_loop sha f r fend pos lst s = Inr (s', n, m) \<Longrightarrow> m = fend"
proof (induction sha f r fend pos lst s rule: replay_reader_loop.induct)
  case (1 sha f r fend pos lst s)
  show ?case using "1.prems"
    by (subst (asm) replay_reader_loop.simps)
      (auto simp: rbind_Inr_iff split: if_splits option.splits prod.splits dest: "1.IH")
qed

lemma drop_torn_tail_Inr:
  assumes "replay_reader sha f wal s = Inr (s', consumed, wal_end)" and "drop_torn_tail io consumed wal_end wal = Inr wal'"
  shows "wal' = take consumed wal"
  using assms replay_reader_end [of sha f wal "length wal" 0 None s s' consumed wal_end]
  by (auto simp: drop_torn_tail_def replay_reader_def split: if_splits option.splits)

lemma open_recoverable:
  assumes "sha_ok (en_sha env)" and "db_open_base env dir = Inr ob" and "flip_room (n + length wal) (ob_replay ob)"
    and "db_open env cfg dir wal = Inr d" and "st_next_seq (dx_state d) \<noteq> 0"
  shows "recoverable (en_sha env) (ob_replay ob) n d"
proof -
  let ?sha = "en_sha env"
  obtain rp consumed wal_end where r: "replay_reader ?sha replay_op wal (ob_replay ob) = Inr (rp, consumed, wal_end)"
    and tail: "drop_torn_tail (en_io env) consumed wal_end wal = Inr (dx_wal d)"
    and st: "dx_state d = recovered_state env (ob_dir ob) (ob_manifest ob) (ob_checkpoint ob) (ob_segments ob) (ob_orphan_max ob) rp"
    using assms(2,4) by (auto simp: db_open_def rbind_Inr_iff split: if_splits)
  note d = drop_torn_tail_Inr [OF r tail] st
  obtain fs where fs: "\<forall>g \<in> set fs. frame_ok (fr_ops g)" "sorted_wrt (<) (map fr_seq fs)" "take consumed wal = wal_of ?sha fs"
    "replay_ops fs (ob_replay ob) = Inr rp"
    using replay_reader_sound [OF assms(1), of replay_op wal 0 None "ob_replay ob" rp consumed wal_end] r
    by (auto simp: replay_reader_def seqs_from_None replay_ops_def)
  have inv: "mt_inv (rp_active (ob_replay ob))" using assms(2) by (auto simp: db_open_base_def rbind_Inr_iff Let_def)
  have "ops_count fs \<le> length wal" using ops_count_le [of fs ?sha] fs(3) by (metis length_take min.bounded_iff)
  then have "flip_room (n + ops_count fs) (ob_replay ob)" using assms(3) by (auto simp: flip_room_def)
  from replay_ops_room [OF this fs(4) inv fs(1)]
  have room: "flip_room n rp" "mt_inv (rp_active rp)" "\<forall>g \<in> set fs. fr_seq g \<le> rp_max rp" by auto
  have "mirrors rp (dx_state d)"
    using room(2) unfolding d(2) by (simp add: mirrors_def recovered_state_simps state_rows_def mem_rows_def)
  moreover have "rp_max rp < st_next_seq (dx_state d)"
  proof -
    let ?m = "max (rp_max rp) (max_of (map sr_seq_hi (mf_segments (ob_manifest ob))))"
    have n: "st_next_seq (dx_state d) = ?m + 1" unfolding d(2) by (simp add: recovered_state_simps)
    then have "?m < ?m + 1" using assms(5) by (intro word_succ_less) simp
    then show ?thesis using n by simp
  qed
  ultimately show ?thesis using fs d(1) room unfolding recoverable_def
    by (intro exI [of _ fs] exI [of _ rp]) (auto intro: le_less_trans)
qed

end
