(* ===== verification/DbRecovery.thy ===== *)
theory DbRecovery
  imports DbDurable SegmentProps
begin

text \<open>
  Crash recovery of the database: what was committed after an open is there after the next one, and two
  ways in which it fails: a write that was refused leaves its frame in the log and makes the database
  unopenable, and a failed read of \<^verbatim>\<open>CURRENT\<close> replaces the database by an empty one.
\<close>

section \<open>Runs of committed writes\<close>

primrec commit_all :: "digest_fn \<Rightarrow> (wal_fault \<times> op list) list \<Rightarrow> database \<Rightarrow> database option" where
  "commit_all sha [] d = Some d"
| "commit_all sha (b # bs) d =
    (case write_locked sha (fst b) (snd b) None d of
       (Inr (Committed _ _), d') \<Rightarrow> commit_all sha bs d'
     | _ \<Rightarrow> None)"

definition batch_ops :: "(wal_fault \<times> op list) list \<Rightarrow> nat" where
  "batch_ops bs = sum_list (map (length \<circ> snd) bs)"

lemma tfold_apply_frame:
  "tfold (apply_op seq) ops st = (r, st') \<Longrightarrow> st_segments st' = st_segments st \<and> st_segment_records st' = st_segment_records st"
proof (induction ops arbitrary: st)
  case (Cons op ops)
  obtain r1 st1 where s1: "apply_op seq op st = (r1, st1)" by fastforce
  then show ?case using Cons apply_op_frame(2,4) [OF s1] by (cases r1) auto
qed simp

lemma commit_all_recoverable:
  assumes "recoverable sha base (n + batch_ops bs) d" and "\<forall>b \<in> set bs. list_all op_typed (snd b)"
    and "unat (st_next_seq (dx_state d)) + length bs < 2 ^ 64" and "commit_all sha bs d = Some d'"
  shows "recoverable sha base n d' \<and> dx_dir d' = dx_dir d \<and> st_segments (dx_state d') = st_segments (dx_state d)
    \<and> st_segment_records (dx_state d') = st_segment_records (dx_state d)"
  using assms
proof (induction bs arbitrary: d)
  case (Cons b bs)
  obtain flt ops where b: "b = (flt, ops)" by fastforce
  obtain seq nf d1 where w: "write_locked sha flt ops None d = (Inr (Committed seq nf), d1)" "commit_all sha bs d1 = Some d'"
    using Cons.prems(4) b by (auto split: prod.splits sum.splits write_outcome.splits)
  obtain frame where f: "seq = st_next_seq (dx_state d)"
    "tfold (apply_op seq) ops ((dx_state d)\<lparr>st_next_seq := seq + 1\<rparr>) = (Inr (), dx_state d1)" "dx_dir d1 = dx_dir d"
    using write_locked_Committed [OF w(1)] by blast
  have r1: "recoverable sha base (n + batch_ops bs) d1"
    by (rule commit_recoverable [OF _ _ _ w(1)]) (use Cons.prems(1-3) b in \<open>simp_all add: batch_ops_def ac_simps\<close>)
  have "unat (st_next_seq (dx_state d1)) + length bs < 2 ^ 64"
    using tfold_apply_next_seq [OF f(2)] word_step [of "st_next_seq (dx_state d)" "length bs"] Cons.prems(3) f(1) by simp
  from Cons.IH [OF r1 _ this w(2)] Cons.prems(2) show ?case using f tfold_apply_frame [OF f(2)] by simp
qed (simp add: batch_ops_def)

lemma db_open_simps:
  assumes "db_open_base env dir = Inr ob" and "db_open env cfg dir wal = Inr d"
  shows "dx_dir d = ob_dir ob" "st_segments (dx_state d) = ob_segments ob" "st_segment_records (dx_state d) = mf_segments (ob_manifest ob)"
  using assms by (auto simp: db_open_def rbind_Inr_iff recovered_state_simps split: if_splits)

lemma reopen_recoverable:
  assumes "sha_ok (en_sha env)" and "en_io env ''read CURRENT'' = None" and "db_open_base env dir = Inr ob"
    and "dx_dir d = ob_dir ob" and "recoverable (en_sha env) (ob_replay ob) n d" and "cf_block_target cfg \<noteq> 0"
  shows "\<exists>d'. db_open env cfg (dx_dir d) (dx_wal d) = Inr d' \<and> dx_wal d' = dx_wal d
    \<and> st_segments (dx_state d') = ob_segments ob \<and> st_segment_records (dx_state d') = mf_segments (ob_manifest ob)
    \<and> st_identity (dx_state d') = st_identity (dx_state d) \<and> st_replicas (dx_state d') = st_replicas (dx_state d)
    \<and> state_rows (dx_state d') = state_rows (dx_state d)"
  using open_base_again [OF assms(1-3)] recoverable_replays [OF assms(1,5)] assms(4,6)
  by (auto simp: db_open_def drop_torn_tail_def recovered_state_simps state_rows_def mem_rows_def)

section \<open>A fresh database\<close>

definition demo_iters :: directory_iters where
  "demo_iters = \<lparr>it_identity = \<lambda>_. [], it_replicas = \<lambda>_. [], it_placements = \<lambda>_. []\<rparr>"

definition demo_env :: engine_env where
  "demo_env = \<lparr>en_sha = demo_sha, en_io = \<lambda>_. None, en_iters = demo_iters, en_wal = \<lambda>_. WalOk\<rparr>"

definition demo_dir :: directory where
  "demo_dir = [(''MANIFEST-000001'', Manifest_encode demo_sha fresh_manifest),
    (''CURRENT'', Current_encode demo_sha \<lparr>cu_format_version = FORMAT_VERSION, cu_manifest_generation = 1\<rparr>)]"

definition demo_base :: open_base where
  "demo_base = \<lparr>ob_dir = demo_dir, ob_manifest = fresh_manifest, ob_checkpoint = None, ob_segments = [], ob_orphan_max = 0,
     ob_replay = \<lparr>rp_active = mt_new, rp_identity = Map.empty, rp_replicas = Map.empty, rp_placements = Map.empty,
        rp_pending_identity = [], rp_pending_replicas = [], rp_pending_placements = [], rp_pgen = 1, rp_max = 0\<rparr>\<rparr>"

definition demo_db :: database where
  "demo_db = \<lparr>dx_config = config_new, dx_wal = [],
     dx_state = recovered_state demo_env demo_dir fresh_manifest None [] 0 (ob_replay demo_base),
     dx_dir = demo_dir, dx_fsyncs = 0, dx_wal_fail_next = False, dx_fenced = None, dx_signal = signal_new\<rparr>"

lemma demo_path: "manifest_path 1 = ''MANIFEST-000001''"
  by code_simp

lemma demo_names:
  "log_gens ''IDENTITY-'' demo_dir = []" "log_gens ''REPLICA-'' demo_dir = []" "log_gens ''PLACEMENT-'' demo_dir = []"
  "newest_checkpoint demo_dir 1 = None"
  by (simp_all add: demo_dir_def log_gens_def log_generation_def strip_prefix_def newest_checkpoint_def
      checkpoint_generation_def map_filter_simps)

lemma demo_manifest: "read_manifest demo_sha demo_dir \<lparr>cu_format_version = FORMAT_VERSION, cu_manifest_generation = 1\<rparr> = Inr fresh_manifest"
proof -
  have "manifest_ok fresh_manifest" by (simp add: manifest_ok_def fresh_manifest_def)
  from Manifest_decode_encode [OF demo_sha_ok this]
  show ?thesis
    by (simp add: read_manifest_def demo_path demo_dir_def verify_pair_def validate_manifest_def) (simp add: fresh_manifest_def)
qed

lemma demo_directories:
  "recover_directories demo_sha demo_dir 1 None = Inr (Map.empty, Map.empty)"
  "recover_placements demo_sha demo_dir 1 None = Inr Map.empty"
  "orphan_placement_max_generation demo_sha demo_dir 1 = 0" "load_newest demo_sha demo_dir 1 = Inr None"
  by (simp_all add: recover_directories_def recover_placements_def load_identity_logs_def load_replica_logs_def
      load_placement_logs_def load_logs_def demo_names merge_identities_def merge_replicas_def later_records_def
      orphan_placement_max_generation_def orphan_placement_logs_def orphan_logs_def load_newest_def)

lemma demo_open_base: "db_open_base demo_env [] = Inr demo_base"
proof -
  have "read_current demo_env [] = Inr (\<lparr>cu_format_version = FORMAT_VERSION, cu_manifest_generation = 1\<rparr>, demo_dir)"
    by (simp add: read_current_def demo_env_def publish_atomic_def dir_put_def demo_path demo_dir_def Let_def)
  then show ?thesis
    by (simp add: db_open_base_def demo_manifest demo_directories validate_delta_coverage_def Let_def demo_env_def)
      (simp add: fresh_manifest_def demo_base_def demo_iters_def check_placements_def max_generation_def)
qed

lemma demo_open: "db_open demo_env config_new [] [] = Inr demo_db"
  by (simp add: db_open_def drop_torn_tail_def demo_open_base config_new_def DEFAULT_BLOCK_TARGET_def replay_reader_def replay_reader_loop.simps
      demo_db_def) (simp add: demo_base_def)

lemma demo_state:
  "dx_state demo_db = \<lparr>st_active = mt_new, st_immutables = [], st_segments = [], st_segment_records = [],
     st_l0_count = 0, st_l0_bytes = 0, st_l1_bytes = 0, st_next_seq = 1, st_next_segment_id = 1, st_generation = 1,
     st_identity = Map.empty, st_replicas = Map.empty, st_pending_identity = [], st_pending_replicas = [],
     st_next_logical_id = 1, st_next_replica_id = 1, st_placements = Map.empty, st_pending_placements = [],
     st_next_placement_generation = 1, st_bytes_since_checkpoint = 0,
     st_identity_floor = 0, st_replica_floor = 0, st_placement_floor = 0,
     st_identity_chain = 0, st_replica_chain = 0, st_placement_chain = 0, st_snapshot_pins = {}\<rparr>"
  "dx_wal demo_db = []" "dx_wal_fail_next demo_db = False" "dx_config demo_db = config_new" "dx_fenced demo_db = None"
  "dx_dir demo_db = demo_dir"
proof -
  have "directory_log_bytes demo_dir 0 = 0"
    by (simp add: directory_log_bytes_def demo_dir_def delta_generation_def identity_log_generation_def
        replica_log_generation_def placement_log_generation_def log_generation_def strip_prefix_def)
  then show "dx_state demo_db = \<lparr>st_active = mt_new, st_immutables = [], st_segments = [], st_segment_records = [],
     st_l0_count = 0, st_l0_bytes = 0, st_l1_bytes = 0, st_next_seq = 1, st_next_segment_id = 1, st_generation = 1,
     st_identity = Map.empty, st_replicas = Map.empty, st_pending_identity = [], st_pending_replicas = [],
     st_next_logical_id = 1, st_next_replica_id = 1, st_placements = Map.empty, st_pending_placements = [],
     st_next_placement_generation = 1, st_bytes_since_checkpoint = 0,
     st_identity_floor = 0, st_replica_floor = 0, st_placement_floor = 0,
     st_identity_chain = 0, st_replica_chain = 0, st_placement_chain = 0, st_snapshot_pins = {}\<rparr>"
    by (simp add: demo_db_def recovered_state_def demo_base_def fresh_manifest_def scan_l0_def max_of_def max_generation_def
        demo_env_def demo_iters_def checkpoint_gen_def)
qed (simp_all add: demo_db_def)

section \<open>Properties\<close>

text \<open>C1. Crash recovery. Open a database, commit any batches, crash, open again: the second open
  succeeds and has every row, identity and replica of the database that crashed and the same segments.
  The hypotheses leave room in the sequence numbers and in the placement generations.\<close>

theorem db_crash_recovery:
  assumes "sha_ok (en_sha env)" and "en_io env ''read CURRENT'' = None"
    and "db_open_base env dir = Inr ob" and "db_open env cfg dir wal = Inr d0"
    and "flip_room (batch_ops bs + length wal) (ob_replay ob)" and "st_next_seq (dx_state d0) \<noteq> 0"
    and "unat (st_next_seq (dx_state d0)) + length bs < 2 ^ 64" and "\<forall>b \<in> set bs. list_all op_typed (snd b)"
    and "commit_all (en_sha env) bs d0 = Some d"
  shows "\<exists>d'. db_open env cfg (dx_dir d) (dx_wal d) = Inr d' \<and> st_segments (dx_state d') = st_segments (dx_state d)
    \<and> st_segment_records (dx_state d') = st_segment_records (dx_state d)
    \<and> st_identity (dx_state d') = st_identity (dx_state d) \<and> st_replicas (dx_state d') = st_replicas (dx_state d)
    \<and> state_rows (dx_state d') = state_rows (dx_state d)"
proof -
  note op = db_open_simps [OF assms(3,4)]
  have "recoverable (en_sha env) (ob_replay ob) (0 + batch_ops bs) d0"
    using open_recoverable [OF assms(1,3) _ assms(4,6), of "batch_ops bs"] assms(5) by simp
  from commit_all_recoverable [OF this assms(8,7,9)]
  have d: "recoverable (en_sha env) (ob_replay ob) 0 d" "dx_dir d = ob_dir ob" "st_segments (dx_state d) = ob_segments ob"
    "st_segment_records (dx_state d) = mf_segments (ob_manifest ob)" using op by simp_all
  have "cf_block_target cfg \<noteq> 0" using assms(4) by (auto simp: db_open_def)
  from reopen_recoverable [OF assms(1-3) d(2,1) this] show ?thesis using d(3,4) by auto
qed

definition demo_oid :: object_id where
  "demo_oid = ObjectId (replicate 16 7)"

definition demo_batches :: "(wal_fault \<times> op list) list" where
  "demo_batches = [(WalOk, [Put [1] [2]]),
     (WalOk, [CreateObject demo_oid (LogicalId 1) (ReplicaId 1) 1, PutObject (ReplicaId 1) [3] [4]])]"

lemma encode_frame_typed: "list_all op_typed ops \<Longrightarrow> frame_ok ops \<Longrightarrow> encode_frame sha seq ops = Inr (frame_image sha seq ops)"
  using encode_frame_iff by simp

lemmas commit_simps = write_locked_def commit_frame_def wal_append_def encode_frame_typed frame_ok_def ops_len_def oid_ok_def
  apply_create_def merge_identity_def merge_replica_def merge_placement_def state_placement_def apply_object_placement_def

lemma demo_commits:
  "\<exists>d. commit_all demo_sha demo_batches demo_db = Some d \<and> st_identity (dx_state d) = [demo_oid \<mapsto> LogicalId 1]
    \<and> mt_abs (st_active (dx_state d)) = [([1], 1) \<mapsto> Byte \<lparr>br_value = Some [2]\<rparr>,
        ([3], 2) \<mapsto> Object \<lparr>or_value = Some [4], or_replica_id = ReplicaId 1\<rparr>] \<and> st_immutables (dx_state d) = []"
  by (simp add: demo_batches_def commit_simps demo_state demo_oid_def Let_def apply_defs)

theorem db_crash_recovery_witness:
  "\<exists>d d'. commit_all demo_sha demo_batches demo_db = Some d \<and> db_open demo_env config_new (dx_dir d) (dx_wal d) = Inr d'
    \<and> st_identity (dx_state d') demo_oid = Some (LogicalId 1)
    \<and> state_rows (dx_state d') ([1], 1) = Some (Byte \<lparr>br_value = Some [2]\<rparr>)"
proof -
  obtain d where d: "commit_all demo_sha demo_batches demo_db = Some d" "st_identity (dx_state d) = [demo_oid \<mapsto> LogicalId 1]"
    "mt_abs (st_active (dx_state d)) = [([1], 1) \<mapsto> Byte \<lparr>br_value = Some [2]\<rparr>,
        ([3], 2) \<mapsto> Object \<lparr>or_value = Some [4], or_replica_id = ReplicaId 1\<rparr>]" "st_immutables (dx_state d) = []"
    using demo_commits by blast
  have "\<forall>b \<in> set demo_batches. list_all op_typed (snd b)" by (simp add: demo_batches_def demo_oid_def oid_ok_def)
  moreover have "flip_room (batch_ops demo_batches + length []) (ob_replay demo_base)"
    by (simp add: flip_room_def demo_base_def batch_ops_def demo_batches_def)
  moreover have "commit_all (en_sha demo_env) demo_batches demo_db = Some d" using d(1) by (simp add: demo_env_def)
  ultimately obtain d' where "db_open demo_env config_new (dx_dir d) (dx_wal d) = Inr d'"
    "st_identity (dx_state d') = st_identity (dx_state d)" "state_rows (dx_state d') = state_rows (dx_state d)"
    using db_crash_recovery [OF _ _ demo_open_base demo_open, of demo_batches d]
    by (auto simp: demo_state demo_batches_def demo_env_def demo_sha_ok)
  then show ?thesis using d by (intro exI [of _ d] exI [of _ d']) (simp add: state_rows_def mem_rows_def)
qed




text \<open>C38. Open takes any failure to read \<^verbatim>\<open>CURRENT\<close> for a database that does not exist yet: when the read
  of an existing file fails once, the empty manifest and a \<^verbatim>\<open>CURRENT\<close> that names it are published over the
  old ones, and every later open finds the empty database.\<close>

theorem current_read_failure_resets:
  assumes "sha_ok (en_sha env)" and "en_io env ''read CURRENT'' = Some why" and "en_io env (manifest_path 1) = None"
    and "en_io env ''CURRENT'' = None" and "en_io env' ''read CURRENT'' = None" and "en_sha env' = en_sha env"
  shows "\<exists>cu dir'. read_current env dir = Inr (cu, dir') \<and> read_current env' dir' = Inr (cu, dir')
    \<and> read_manifest (en_sha env) dir' cu = Inr fresh_manifest"
proof -
  let ?c = "\<lparr>cu_format_version = FORMAT_VERSION, cu_manifest_generation = 1\<rparr>"
  let ?d = "dir_put ''CURRENT'' (Current_encode (en_sha env) ?c) (dir_put (manifest_path 1) (Manifest_encode (en_sha env) fresh_manifest) dir)"
  have 1: "read_current env dir = Inr (?c, ?d)" using assms(2-4) by (simp add: read_current_def publish_atomic_def Let_def)
  have "Current_decode (en_sha env) (Current_encode (en_sha env) ?c) = Inr ?c"
    using current_codec [OF assms(1), of "Current_encode (en_sha env) ?c" ?c] by simp
  then have 2: "read_current env' ?d = Inr (?c, ?d)" using assms(5,6) by (simp add: read_current_def)
  have "manifest_ok fresh_manifest" by (simp add: manifest_ok_def fresh_manifest_def)
  from Manifest_decode_encode [OF assms(1) this] have "read_manifest (en_sha env) ?d ?c = Inr fresh_manifest"
    by (simp add: read_manifest_def demo_path verify_pair_def validate_manifest_def) (simp add: fresh_manifest_def)
  with 1 2 show ?thesis by blast
qed

theorem current_read_failure_resets_witness:
  "\<exists>cu dir'. read_current (demo_env\<lparr>en_io := [''read CURRENT'' \<mapsto> ''EIO'']\<rparr>)
      [(''CURRENT'', Current_encode demo_sha \<lparr>cu_format_version = FORMAT_VERSION, cu_manifest_generation = 9\<rparr>)] = Inr (cu, dir')
    \<and> read_current demo_env dir' = Inr (cu, dir') \<and> read_manifest demo_sha dir' cu = Inr fresh_manifest"
  using current_read_failure_resets [of "demo_env\<lparr>en_io := [''read CURRENT'' \<mapsto> ''EIO'']\<rparr>" "''EIO''" demo_env
      "[(''CURRENT'', Current_encode demo_sha \<lparr>cu_format_version = FORMAT_VERSION, cu_manifest_generation = 9\<rparr>)]"]
  by (simp add: demo_env_def demo_sha_ok demo_path)

end
