(* ===== verification/DbFlushProps.thy ===== *)
theory DbFlushProps
  imports DbScan DbRecovery
begin

text \<open>
  What a flush does to the answers of the database: the flushed rows of a memtable form a layer with the
  memtable's answers, a complete flush leaves the point reads unchanged and keeps exactly the frames appended
  since it detached the memtables, and what a read sees that runs between its phases.
\<close>

section \<open>Flushed rows\<close>

definition flushed_rows :: "memtable \<Rightarrow> segment_entry list" where
  "flushed_rows m = reverse_runs (map flush_row (mt_into_entries m))"

lemma reverse_runs_set: "set (reverse_runs es) = set es"
proof (induction es rule: reverse_runs.induct)
  case (2 e es)
  have "set es = set (takeWhile (\<lambda>x. se_key x = se_key e) es) \<union> set (dropWhile (\<lambda>x. se_key x = se_key e) es)"
    by (metis set_append takeWhile_dropWhile_id)
  then show ?case using 2 by auto
qed simp

text \<open>Rows in ascending (key, sequence) order come out in the order that the writer demands.\<close>

lemma reverse_runs_order:
  assumes "sorted_wrt (\<lambda>a b. se_key a < se_key b \<or> se_key a = se_key b \<and> se_seq a < se_seq b) es"
  shows "publish_order (reverse_runs es)"
  using assms
proof (induction es rule: reverse_runs.induct)
  case (2 e es)
  let ?same = "takeWhile (\<lambda>x. se_key x = se_key e) es" and ?later = "dropWhile (\<lambda>x. se_key x = se_key e) es"
  have s: "sorted_wrt (\<lambda>a b. se_key a < se_key b \<or> se_key a = se_key b \<and> se_seq a < se_seq b) (e # ?same @ ?later)"
    using "2.prems" by (simp only: takeWhile_dropWhile_id)
  have same: "\<forall>x \<in> set ?same. se_key x = se_key e" by (auto dest: set_takeWhileD)
  have keys: "se_key x = se_key e" if "x \<in> set (e # ?same)" for x
  proof -
    have "x = e \<or> x \<in> set ?same" using that by simp
    then show ?thesis using same by blast
  qed
  have "sorted_wrt (\<lambda>a b. se_key a < se_key b \<or> se_key a = se_key b \<and> se_seq a < se_seq b) (e # ?same)"
    using s by (simp add: sorted_wrt_append del: takeWhile_dropWhile_id)
  then have "sorted_wrt (\<lambda>a b. entry_before b a) (e # ?same)"
  proof (rule sorted_wrt_mono_rel [rotated])
    fix x y assume in_run: "x \<in> set (e # ?same)" "y \<in> set (e # ?same)"
      and "se_key x < se_key y \<or> se_key x = se_key y \<and> se_seq x < se_seq y"
    then show "entry_before y x" using keys [OF in_run(1)] keys [OF in_run(2)] by (auto simp: entry_before_def)
  qed
  then have "sorted_wrt entry_before (rev (e # ?same))" unfolding sorted_wrt_rev .
  moreover have "entry_before x y" if "x \<in> set (e # ?same)" "y \<in> set (reverse_runs ?later)" for x y
  proof -
    have y: "y \<in> set ?later" using that(2) by (simp add: reverse_runs_set)
    have "?later \<noteq> []"
    proof
      assume "?later = []"
      with y show False by (simp only: list.set empty_iff)
    qed
    then have h: "se_key (hd ?later) \<noteq> se_key e" by (rule hd_dropWhile)
    have le: "se_key e \<le> se_key (hd ?later)" "se_key (hd ?later) \<le> se_key y"
      using s y \<open>?later \<noteq> []\<close> by (cases ?later; auto simp: sorted_wrt_append simp del: takeWhile_dropWhile_id)+
    then have "se_key e < se_key y" using h by simp
    then show ?thesis using keys [OF that(1)] by (simp add: entry_before_def)
  qed
  moreover have "sorted_wrt entry_before (reverse_runs ?later)"
    using 2 s by (simp add: sorted_wrt_append publish_order_def del: takeWhile_dropWhile_id)
  ultimately show ?case unfolding publish_order_def by (simp add: sorted_wrt_append)
qed (simp add: publish_order_def)

lemma flush_row_simps:
  "se_key (flush_row ((k, s), e)) = k" "se_seq (flush_row ((k, s), e)) = s"
  "row_value (flush_row ((k, s), e)) = fst (me_into_parts e)" "se_replica (flush_row ((k, s), e)) = snd (me_into_parts e)"
  by (simp_all add: flush_row_def row_value_def FLAG_PUT_def FLAG_DELETE_def Let_def split: prod.splits option.splits)

lemma flushed_rows_order:
  assumes "mt_inv m"
  shows "publish_order (flushed_rows m)"
proof -
  have "sorted_wrt (\<lambda>a b. se_key (flush_row a) < se_key (flush_row b) \<or> se_key (flush_row a) = se_key (flush_row b)
      \<and> se_seq (flush_row a) < se_seq (flush_row b)) (mt_into_entries m)"
    using mt_entries_sorted [OF assms] by (simp add: mt_into_entries_eq sorted_wrt_map case_prod_unfold flush_row_simps)
  then show ?thesis unfolding flushed_rows_def by (intro reverse_runs_order) (simp add: sorted_wrt_map)
qed

lemma flushed_rows_set:
  assumes "mt_inv m"
  shows "set (flushed_rows m) = {flush_row ((k, s), e) | k s e. mt_abs m (k, s) = Some e}"
  using mt_entries_iff [OF assms] by (force simp: flushed_rows_def reverse_runs_set mt_into_entries_eq)

text \<open>No object row carries the replica id of the byte rows.\<close>

definition rids_ok :: "memtable \<Rightarrow> bool" where
  "rids_ok m \<longleftrightarrow> (\<forall>p r. mt_abs m p = Some (Object r) \<longrightarrow> or_replica_id r \<noteq> ReplicaId 0)"

lemma flushed_byte_rows:
  assumes "mt_inv m" and "rids_ok m"
  shows "x \<in> set (flushed_rows m) \<and> se_key x = k \<and> se_replica x = ReplicaId 0
    \<longleftrightarrow> (\<exists>s b. x = flush_row ((k, s), Byte b) \<and> mt_abs m (k, s) = Some (Byte b))" (is "?l \<longleftrightarrow> ?r")
proof
  assume x: ?l
  then obtain k' s e where e: "x = flush_row ((k', s), e)" "mt_abs m (k', s) = Some e"
    using flushed_rows_set [OF assms(1)] by auto
  then have "k' = k" "snd (me_into_parts e) = ReplicaId 0" using x by (simp_all add: flush_row_simps)
  moreover from this(2) obtain b where "e = Byte b"
    using assms(2) e(2) by (cases e) (auto simp: me_into_parts_def rids_ok_def)
  ultimately show ?r using e by blast
qed (auto simp: flushed_rows_set [OF assms(1)] flush_row_simps me_into_parts_def)

lemma flushed_newest:
  assumes "mt_inv m" and "rids_ok m" and "mt_abs m (k, s) = Some (Byte b)"
  shows "newest_row (flushed_rows m) k (ReplicaId 0) (flush_row ((k, s), Byte b))
    \<longleftrightarrow> (\<forall>s' b'. mt_abs m (k, s') = Some (Byte b') \<longrightarrow> s' \<le> s)"
proof -
  have rows: "x \<in> set (flushed_rows m) \<and> se_key x = k \<and> se_replica x = ReplicaId 0
      \<longleftrightarrow> (\<exists>s b. x = flush_row ((k, s), Byte b) \<and> mt_abs m (k, s) = Some (Byte b))" for x
    by (rule flushed_byte_rows [OF assms(1,2)])
  let ?e = "flush_row ((k, s), Byte b)"
  have "newest_row (flushed_rows m) k (ReplicaId 0) ?e \<longleftrightarrow> (\<forall>x. x \<in> set (flushed_rows m) \<and> se_key x = k \<and> se_replica x = ReplicaId 0
      \<longrightarrow> se_seq x \<le> s)"
    unfolding newest_row_def using rows [of ?e] assms(3) by (auto simp: flush_row_simps)
  also have "\<dots> \<longleftrightarrow> (\<forall>s' b'. mt_abs m (k, s') = Some (Byte b') \<longrightarrow> s' \<le> s)"
    unfolding rows
  proof
    assume a: "\<forall>x. (\<exists>s b. x = flush_row ((k, s), Byte b) \<and> mt_abs m (k, s) = Some (Byte b)) \<longrightarrow> se_seq x \<le> s"
    have "se_seq (flush_row ((k, s'), Byte b')) \<le> s" if "mt_abs m (k, s') = Some (Byte b')" for s' b' using a that by blast
    then show "\<forall>s' b'. mt_abs m (k, s') = Some (Byte b') \<longrightarrow> s' \<le> s" by (simp add: flush_row_simps)
  qed (auto simp: flush_row_simps)
  finally show ?thesis .
qed

lemma flushed_layer:
  assumes "mt_inv m" and "rids_ok m"
  shows "rows_layer (flushed_rows m) = mem_layer m"
proof
  fix k
  have f: "find (matches k (Some (ReplicaId 0))) (flushed_rows m) = Some e \<longleftrightarrow> newest_row (flushed_rows m) k (ReplicaId 0) e" for e
    by (rule find_newest [OF flushed_rows_order [OF assms(1)]])
  show "rows_layer (flushed_rows m) k = mem_layer m k"
  proof (cases "mt_get m k")
    case None
    have "\<not> newest_row (flushed_rows m) k (ReplicaId 0) e" for e
    proof
      assume e: "newest_row (flushed_rows m) k (ReplicaId 0) e"
      then obtain s b where b: "e = flush_row ((k, s), Byte b)" "mt_abs m (k, s) = Some (Byte b)"
        using flushed_byte_rows [OF assms, of e k] by (auto simp: newest_row_def)
      then have "mt_get m k = Some b" unfolding mt_get_iff [OF assms(1)] using e flushed_newest [OF assms b(2)] by blast
      then show False using None by simp
    qed
    then have "find (matches k (Some (ReplicaId 0))) (flushed_rows m) \<noteq> Some e" for e using f by blast
    then have "find (matches k (Some (ReplicaId 0))) (flushed_rows m) = None" by (rule not_Some_eq [THEN iffD1, OF allI])
    then show ?thesis using None by (simp add: rows_layer_def mem_layer_def)
  next
    case (Some b)
    then obtain s where s: "mt_abs m (k, s) = Some (Byte b)" "\<forall>s' b'. mt_abs m (k, s') = Some (Byte b') \<longrightarrow> s' \<le> s"
      using mt_get_iff [OF assms(1)] by blast
    then have "find (matches k (Some (ReplicaId 0))) (flushed_rows m) = Some (flush_row ((k, s), Byte b))"
      unfolding f using flushed_newest [OF assms s(1)] by blast
    then show ?thesis using Some by (simp add: rows_layer_def mem_layer_def flush_row_simps me_into_parts_def)
  qed
qed

section \<open>The phases\<close>

lemma flush_writer_simps:
  "sw_entries (flush_writer bt m) = map flush_row (mt_into_entries m)" "sw_target (flush_writer bt m) = bt"
proof -
  have "sw_entries (fold (\<lambda>x. writer_push (flush_row x)) xs w) = sw_entries w @ map flush_row xs
      \<and> sw_target (fold (\<lambda>x. writer_push (flush_row x)) xs w) = sw_target w" for xs w
    by (induction xs arbitrary: w) (simp_all add: writer_push_def)
  then show "sw_entries (flush_writer bt m) = map flush_row (mt_into_entries m)" "sw_target (flush_writer bt m) = bt"
    by (simp_all add: flush_writer_def writer_new_v4_def writer_new_v2_def)
qed

text \<open>A memtable whose rows stay within the limits of the format.\<close>

definition flush_fits :: "nat \<Rightarrow> memtable \<Rightarrow> bool" where
  "flush_fits bt m \<longleftrightarrow> segment_fits (flush_writer bt m) (flushed_rows m)"

lemma flush_one_Inr:
  assumes "flush_one sha io bt (m, segid) (build, dir) = (Inr (), build', dir')" and "flush_fits bt m"
  shows "\<exists>r. fb_new_segments build' = fb_new_segments build @ [r] \<and> published sha (flush_writer bt m) (flushed_rows m) r"
  using assms
  by (auto simp: flush_one_def Let_def publish_with_anchors_sorted_def flush_writer_simps flushed_rows_def [symmetric]
      published_def flush_fits_def split: sum.splits prod.splits)

lemma flush_ones_Inr:
  assumes "tfold (flush_one sha io bt) xs (build, dir) = (Inr (), build', dir')" and "\<forall>x \<in> set xs. flush_fits bt (fst x)"
  shows "\<exists>rs. fb_new_segments build' = fb_new_segments build @ rs
    \<and> list_all2 (\<lambda>x r. published sha (flush_writer bt (fst x)) (flushed_rows (fst x)) r) xs rs"
  using assms
proof (induction xs arbitrary: build dir)
  case (Cons x xs)
  obtain m segid where x: "x = (m, segid)" by fastforce
  obtain b1 d1 where 1: "flush_one sha io bt x (build, dir) = (Inr (), b1, d1)" "tfold (flush_one sha io bt) xs (b1, d1) = (Inr (), build', dir')"
    using Cons.prems(1) by (auto simp: tbind_Inr_iff)
  obtain r where "fb_new_segments b1 = fb_new_segments build @ [r]" "published sha (flush_writer bt m) (flushed_rows m) r"
    using flush_one_Inr [OF 1(1) [unfolded x]] Cons.prems(2) x by auto
  moreover obtain rs where "fb_new_segments build' = fb_new_segments b1 @ rs"
    "list_all2 (\<lambda>x r. published sha (flush_writer bt (fst x)) (flushed_rows (fst x)) r) xs rs"
    using Cons.IH [OF 1(2)] Cons.prems(2) by auto
  ultimately show ?case using x by (intro exI [of _ "r # rs"]) simp
qed simp

text \<open>What the publication leaves alone: the memtables, the readers, the sequence number, the WAL and the
  configuration.\<close>

definition mem_view :: "database \<Rightarrow> memtable \<times> memtable list \<times> segment_reader list \<times> u64 \<times> bytes \<times> db_config" where
  "mem_view d = (st_active (dx_state d), st_immutables (dx_state d), st_segments (dx_state d), st_next_seq (dx_state d), dx_wal d, dx_config d)"

lemma mem_view_tbind:
  assumes "mem_view (snd r) = v" and "\<And>x s. r = (Inr x, s) \<Longrightarrow> mem_view s = v \<Longrightarrow> mem_view (snd (f x s)) = v"
  shows "mem_view (snd (tbind r f)) = v"
  using assms by (cases r; cases "fst r") (auto simp: tbind_def)

lemma mem_view_publish_file [simp]: "mem_view (snd (publish_file io name bs d)) = mem_view d"
  by (simp add: publish_file_def mem_view_def split: prod.splits)

lemma mem_view_on_state:
  "(\<And>st. st_active (f st) = st_active st \<and> st_immutables (f st) = st_immutables st \<and> st_segments (f st) = st_segments st
    \<and> st_next_seq (f st) = st_next_seq st) \<Longrightarrow> mem_view (on_state f d) = mem_view d"
  by (simp add: on_state_def mem_view_def)

lemma mem_view_logs [simp]:
  "mem_view (snd (publish_identity_log sha io d)) = mem_view d"
  "mem_view (snd (publish_replica_log sha io d)) = mem_view d"
  "mem_view (snd (publish_placement_log sha io d)) = mem_view d"
  by (auto simp: publish_identity_log_def publish_replica_log_def publish_placement_log_def Let_def mem_view_on_state
      intro!: mem_view_tbind)

lemma mem_view_publish_manifest [simp]: "mem_view (snd (publish_manifest sha io records d)) = mem_view d"
  by (auto simp: publish_manifest_def Let_def intro!: mem_view_tbind)

lemma place_anchor_keeps:
  "st_active (snd (tfold place_anchor xs st)) = st_active st \<and> st_immutables (snd (tfold place_anchor xs st)) = st_immutables st
    \<and> st_segments (snd (tfold place_anchor xs st)) = st_segments st \<and> st_next_seq (snd (tfold place_anchor xs st)) = st_next_seq st"
proof (induction xs arbitrary: st)
  case (Cons x xs)
  obtain r st1 where r: "place_anchor x st = (r, st1)" by fastforce
  then have "st_active st1 = st_active st \<and> st_immutables st1 = st_immutables st \<and> st_segments st1 = st_segments st
      \<and> st_next_seq st1 = st_next_seq st"
    by (auto simp: place_anchor_def Let_def split: prod.splits sum.splits)
  then show ?case using r Cons.IH [of st1] by (cases r) (auto simp: tbind_def)
qed simp

lemma mem_view_place_anchors [simp]: "mem_view (snd (place_anchors anchors d)) = mem_view d"
  using place_anchor_keeps [of anchors "dx_state d"]
  by (cases "tfold place_anchor anchors (dx_state d)") (simp add: place_anchors_def mem_view_def)

lemma mem_view_flush_publish [simp]: "mem_view (snd (flush_publish sha io build d)) = mem_view d"
  by (auto simp: flush_publish_def Let_def mem_view_on_state count_records_def intro!: mem_view_tbind)

lemma mem_view_maybe_checkpoint [simp]: "mem_view (snd (maybe_checkpoint sha io it d)) = mem_view d"
  by (auto simp: maybe_checkpoint_def write_checkpoint_def Let_def mem_view_def publish_file_def tbind_def
      split: prod.splits sum.splits)

text \<open>Phase C keeps the frames that were appended after phase A and no others.\<close>

lemma archive_covered_Inr:
  assumes "archive_covered sha io n d = (Inr (), d')"
  shows "dx_wal d' = dx_wal d" and "dx_state d' = dx_state d" and "dx_config d' = dx_config d"
  using assms
  by (auto simp: archive_covered_def wal_read_def wal_call_def publish_file_def Let_def tbind_Inr_iff
      split: option.splits if_splits sum.splits prod.splits)

lemma wal_call_Inr: "wal_call io call f d = (Inr (), d') \<longleftrightarrow> io call = None \<and> d' = f d"
  by (auto simp: wal_call_def split: option.splits)

lemma rewrite_tail_Inr: "rewrite_tail io tail d = (Inr (), d') \<Longrightarrow> d' = d\<lparr>dx_wal := tail\<rparr>"
  by (simp add: rewrite_tail_def tbind_Inr_iff wal_call_Inr split: option.splits)

lemma truncate_wal_Inr:
  assumes "truncate_wal sha io n d = (Inr (), d')"
  shows "dx_wal d' = drop n (dx_wal d)" and "dx_state d' = dx_state d" and "dx_config d' = dx_config d"
proof -
  let ?t = "drop n (dx_wal d)"
  obtain d1 where d1: "archive_covered sha io n d = (Inr (), d1)" "d' = d1\<lparr>dx_wal := ?t\<rparr>"
  proof (cases "?t = []")
    case True
    then show ?thesis using assms that by (auto simp: truncate_wal_def tbind_Inr_iff wal_call_Inr)
  next
    case False
    then show ?thesis using assms that
      by (auto simp: truncate_wal_def wal_read_def tbind_Inr_iff wal_call_Inr dest!: rewrite_tail_Inr)
  qed
  then show "dx_wal d' = ?t" "dx_state d' = dx_state d" "dx_config d' = dx_config d"
    using archive_covered_Inr [OF d1(1)] by simp_all
qed

lemma flush_phase_c_Inr:
  assumes "flush_phase_c sha io it build n d = (Inr (), d')"
  shows "mem_view d' = (st_active (dx_state d), st_immutables (dx_state d), st_segments (dx_state d) @ fb_new_segments build,
    st_next_seq (dx_state d), drop n (dx_wal d), dx_config d)"
proof -
  obtain d1 d2 where 1: "flush_publish sha io build d = (Inr (), d1)" "truncate_wal sha io n d1 = (Inr (), d2)"
    "maybe_checkpoint sha io it (on_state (\<lambda>st. st\<lparr>st_segments := st_segments st @ fb_new_segments build\<rparr>) d2) = (Inr (), d')"
    using assms by (auto simp: flush_phase_c_def Let_def tbind_Inr_iff)
  have "mem_view d1 = mem_view d" using mem_view_flush_publish [of sha io build d] 1(1) by simp
  moreover note truncate_wal_Inr [OF 1(2)]
  moreover have "mem_view d' = mem_view (on_state (\<lambda>st. st\<lparr>st_segments := st_segments st @ fb_new_segments build\<rparr>) d2)"
    using mem_view_maybe_checkpoint [of sha io it "on_state (\<lambda>st. st\<lparr>st_segments := st_segments st @ fb_new_segments build\<rparr>) d2"] 1(3) by simp
  ultimately show ?thesis by (simp add: mem_view_def on_state_def)
qed

lemma flush_phase_b_Inr:
  assumes "flush_phase_b sha io plan d = (Inr build, d')" and "length (fp_segment_ids plan) = length (fp_immutables plan)"
    and "\<forall>m \<in> set (fp_immutables plan). flush_fits (cf_block_target (dx_config d)) m"
  shows "list_all2 (\<lambda>m r. \<exists>w. published sha w (flushed_rows m) r) (fp_immutables plan) (fb_new_segments build)"
    and "mem_view d' = mem_view d"
proof -
  let ?xs = "zip (fp_immutables plan) (fp_segment_ids plan)" and ?bt = "cf_block_target (dx_config d)"
  obtain dir where b: "tfold (flush_one sha io ?bt) ?xs (\<lparr>fb_new_segments = [], fb_records = [], fb_anchors = []\<rparr>, dx_dir d)
      = (Inr (), build, dir)" "d' = d\<lparr>dx_dir := dir\<rparr>"
    using assms(1) by (auto simp: flush_phase_b_def split: prod.splits sum.splits)
  have fits: "\<forall>x \<in> set ?xs. flush_fits ?bt (fst x)" using assms(3) by (auto dest: set_zip_leftD)
  obtain rs where "fb_new_segments build = rs" "list_all2 (\<lambda>x r. published sha (flush_writer ?bt (fst x)) (flushed_rows (fst x)) r) ?xs rs"
    using flush_ones_Inr [OF b(1) fits] by auto
  then have "list_all2 (\<lambda>m r. \<exists>w. published sha w (flushed_rows m) r) (map fst ?xs) (fb_new_segments build)"
    unfolding list.rel_map by (auto elim!: list_all2_mono)
  then show "list_all2 (\<lambda>m r. \<exists>w. published sha w (flushed_rows m) r) (fp_immutables plan) (fb_new_segments build)"
    using assms(2) by (simp add: map_fst_zip)
  show "mem_view d' = mem_view d" by (simp add: b(2) mem_view_def)
qed

lemma flush_phase_a_Inr:
  assumes "flush_phase_a io d = (Inr (Some plan), d')"
  shows "fp_immutables plan = st_immutables (rotate_state (dx_state d))" "length (fp_segment_ids plan) = length (fp_immutables plan)"
    "fp_wal_truncate_len plan = length (dx_wal d)"
    "mem_view d' = (st_active (dx_state d'), [], st_segments (dx_state d), st_next_seq (dx_state d), dx_wal d, dx_config d)"
    "mt_is_empty (st_active (dx_state d'))"
  using assms
  by (auto simp: flush_phase_a_def Let_def rotate_state_def mem_view_def mt_is_empty_def mt_new_def split: if_splits option.splits)

text \<open>The memtables that a flush would write, each within the limits of the format.\<close>

definition flush_ready :: "nat \<Rightarrow> db_state \<Rightarrow> bool" where
  "flush_ready bt st \<longleftrightarrow> (\<forall>m \<in> set (st_immutables (rotate_state st)). mt_inv m \<and> rids_ok m \<and> flush_fits bt m)"

lemma mem_layer_empty: "mt_is_empty m \<Longrightarrow> mem_layer m k = None"
  by (simp add: mem_layer_def mt_is_empty_def mt_get_def bt_get_def)

lemma rotated_layers:
  "find_map (\<lambda>l. l k) (state_layers st ess) = find_map (\<lambda>l. l k) (map mem_layer (rev (st_immutables (rotate_state st))) @ map rows_layer (rev ess))"
  by (simp add: state_layers_def rotate_state_def mem_layer_empty)

text \<open>Other operations may run between the phases: \<open>d2\<close> is the database when the segments are built, \<open>d4\<close>
  when they are published.\<close>

lemma flush_answers:
  assumes "holds_segments sha (dx_state d) ess" and "flush_ready (cf_block_target (dx_config d)) (dx_state d)"
    and "flush_phase_a io d = (Inr (Some plan), d1)" and "dx_config d2 = dx_config d1"
    and "flush_phase_b sha io plan d2 = (Inr build, d3)" and "st_segments (dx_state d4) = st_segments (dx_state d1)"
    and "flush_phase_c sha io it build (fp_wal_truncate_len plan) d4 = (Inr (), d5)"
  defines "new \<equiv> map flushed_rows (st_immutables (rotate_state (dx_state d)))"
  shows "holds_segments sha (dx_state d5) (ess @ new)" and "dx_wal d5 = drop (length (dx_wal d)) (dx_wal d4)"
    and "visible (dx_state d5) (ess @ new) k = (case mem_probe (dx_state d4) k of Some e \<Rightarrow> br_value e | None \<Rightarrow> visible (dx_state d) ess k)"
proof -
  note a = flush_phase_a_Inr [OF assms(3)]
  have cfg: "dx_config d2 = dx_config d" "st_segments (dx_state d4) = st_segments (dx_state d)"
    using a(4) assms(4,6) by (simp_all add: mem_view_def)
  have fits: "\<forall>m \<in> set (fp_immutables plan). flush_fits (cf_block_target (dx_config d2)) m"
    using assms(2) by (simp add: a(1) cfg(1) flush_ready_def)
  note b = flush_phase_b_Inr [OF assms(5) a(2) fits]
  note c = flush_phase_c_Inr [OF assms(7)]
  have view: "st_segments (dx_state d5) = st_segments (dx_state d) @ fb_new_segments build" "dx_wal d5 = drop (length (dx_wal d)) (dx_wal d4)"
    "st_active (dx_state d5) = st_active (dx_state d4)" "st_immutables (dx_state d5) = st_immutables (dx_state d4)"
    using c a(3) cfg(2) by (simp_all add: mem_view_def)
  have "list_all2 (\<lambda>r es. \<exists>w. published sha w es r) (fb_new_segments build) new"
    using b(1) unfolding new_def a(1) by (auto simp: list_all2_conv_all_nth)
  then show "holds_segments sha (dx_state d5) (ess @ new)"
    using assms(1) by (simp add: holds_segments_def view(1) list_all2_appendI)
  show "dx_wal d5 = drop (length (dx_wal d)) (dx_wal d4)" by (rule view(2))
  have new: "map rows_layer new = map mem_layer (st_immutables (rotate_state (dx_state d)))"
    unfolding new_def map_map using assms(2) by (intro map_cong) (auto simp: flush_ready_def flushed_layer)
  then have "map rows_layer (rev (ess @ new)) = map mem_layer (rev (st_immutables (rotate_state (dx_state d)))) @ map rows_layer (rev ess)"
    by (simp add: rev_map [symmetric])
  then have "state_layers (dx_state d5) (ess @ new) = (mem_layer (st_active (dx_state d4)) # map mem_layer (rev (st_immutables (dx_state d4))))
      @ map mem_layer (rev (st_immutables (rotate_state (dx_state d)))) @ map rows_layer (rev ess)"
    by (simp add: state_layers_def view(3,4))
  then have "find_map (\<lambda>l. l k) (state_layers (dx_state d5) (ess @ new)) = (case map_option br_value (mem_probe (dx_state d4) k) of
      Some v \<Rightarrow> Some v | None \<Rightarrow> find_map (\<lambda>l. l k) (state_layers (dx_state d) ess))"
    by (simp only: find_map_append mem_probe_layers rotated_layers)
  then show "visible (dx_state d5) (ess @ new) k = (case mem_probe (dx_state d4) k of Some e \<Rightarrow> br_value e | None \<Rightarrow> visible (dx_state d) ess k)"
    by (simp add: visible_def split: option.splits)
qed

section \<open>A flush that succeeds\<close>

lemma flush_writer_v3: "sw_v3 (flush_writer bt m) = mt_has_identity m"
proof -
  have "sw_v3 (fold (\<lambda>x. writer_push (flush_row x)) xs w) = sw_v3 w" for xs w
    by (induction xs arbitrary: w) (simp_all add: writer_push_def)
  then show ?thesis by (simp add: flush_writer_def writer_new_v4_def writer_new_v2_def)
qed

lemma no_anchors: "\<not> sw_v3 w \<Longrightarrow> anchors_image w k blks a = a"
proof (induction w k blks a rule: anchors_image.induct)
  case (2 w k blk blks a)
  have "fold (anchor_entry w k) xs a = a" for xs
    using "2.prems" by (induction xs) (simp_all add: anchor_entry_def split: prod.splits)
  then show ?case using 2 by simp
qed simp

text \<open>A memtable of byte rows that a segment can hold.\<close>

definition byte_memtable :: "nat \<Rightarrow> memtable \<Rightarrow> bool" where
  "byte_memtable bt m \<longleftrightarrow> mt_inv m \<and> \<not> mt_is_empty m \<and> \<not> mt_has_identity m \<and> flush_fits bt m"

lemma flushed_rows_nonempty:
  assumes "mt_inv m" and "\<not> mt_is_empty m"
  shows "flushed_rows m \<noteq> []"
proof -
  obtain k chain kvs where m: "mt_map m = (k, chain) # kvs"
    using assms(2) by (cases "mt_map m") (auto simp: mt_is_empty_def)
  have "chain \<noteq> []" using assms(1) m by (auto simp: mt_inv_def chain_inv_def)
  then have "mt_into_entries m \<noteq> []" using m by (auto simp: mt_into_entries_def)
  then have "set (flushed_rows m) \<noteq> {}" by (simp add: flushed_rows_def reverse_runs_set)
  then show ?thesis by auto
qed

lemma flush_one_ok:
  assumes "sha_ok sha" and "byte_memtable bt m" and "bt \<noteq> 0"
  shows "\<exists>r. flush_one sha io bt (m, segid) (build, dir) = (case io (segment_path segid) of
      Some why \<Rightarrow> (Inl (Io why), build, dir)
    | None \<Rightarrow> (Inr (), build\<lparr>fb_new_segments := fb_new_segments build @ [r],
        fb_records := fb_records build @ [segment_record_of segid 0 r
          (length (file_image sha (flush_writer bt m) (flushed_rows m)))
          (le_u64 (take 8 (sha (file_image sha (flush_writer bt m) (flushed_rows m)))))]\<rparr>,
        dir_put (segment_path segid) (file_image sha (flush_writer bt m) (flushed_rows m)) dir))
    \<and> published sha (flush_writer bt m) (flushed_rows m) r"
proof -
  let ?w = "flush_writer bt m" and ?es = "flushed_rows m"
  have m: "mt_inv m" "segment_fits ?w ?es" "\<not> sw_v3 ?w" "?es \<noteq> []"
    using assms(2) flushed_rows_nonempty by (simp_all add: byte_memtable_def flush_fits_def flush_writer_v3)
  note order = flushed_rows_order [OF m(1)]
  have t: "sw_target ?w \<noteq> 0" using assms(3) by (simp add: flush_writer_simps)
  note img = publish_image [OF m(2) order m(4) t, of sha]
  obtain r where r: "published sha ?w ?es r" using published_exists [OF assms(1) m(2) order m(4) t] by blast
  then have op: "open_inner sha (file_image sha ?w ?es) = Inr r" unfolding published_def img by simp
  have no: "fold (offer_anchor segid Map.empty) rids table = table" for rids table
    by (induction rids) (simp_all add: offer_anchor_def)
  have pub: "publish_with_anchors_sorted sha ?w = Inr (file_image sha ?w ?es, le_u64 (take 8 (sha (file_image sha ?w ?es))), Map.empty)"
    using img no_anchors [OF m(3)] by (simp add: publish_with_anchors_sorted_def flush_writer_simps flushed_rows_def)
  show ?thesis using r pub op no
    by (intro exI [of _ r]) (simp add: flush_one_def Let_def publish_atomic_def split: option.splits)
qed

lemma flush_ones_ok:
  assumes "sha_ok sha" and "\<forall>x \<in> set xs. byte_memtable bt (fst x)" and "bt \<noteq> 0" and "\<forall>name. io name = None"
  shows "\<exists>build' dir'. tfold (flush_one sha io bt) xs (build, dir) = (Inr (), build', dir') \<and> fb_anchors build' = fb_anchors build"
  using assms(2)
proof (induction xs arbitrary: build dir)
  case (Cons x xs)
  obtain m segid where x: "x = (m, segid)" by fastforce
  obtain b1 d1 where 1: "flush_one sha io bt x (build, dir) = (Inr (), b1, d1)" "fb_anchors b1 = fb_anchors build"
    using flush_one_ok [OF assms(1) _ assms(3), of m io segid build dir] Cons.prems x assms(4) by auto
  obtain b2 d2 where "tfold (flush_one sha io bt) xs (b1, d1) = (Inr (), b2, d2)" "fb_anchors b2 = fb_anchors b1"
    using Cons.IH [of b1 d1] Cons.prems by auto
  then show ?case using 1 by (simp add: tbind_def)
qed simp

text \<open>No directory work is pending, and the covered frames can be archived when the log is retained.\<close>

definition plain_state :: "digest_fn \<Rightarrow> database \<Rightarrow> bool" where
  "plain_state sha d \<longleftrightarrow> st_pending_identity (dx_state d) = [] \<and> st_pending_replicas (dx_state d) = [] \<and> st_pending_placements (dx_state d) = []
    \<and> st_bytes_since_checkpoint (dx_state d) = 0 \<and> cf_block_target (dx_config d) \<noteq> 0
    \<and> (cf_retain_log (dx_config d) \<and> dx_wal d \<noteq> [] \<longrightarrow> (\<exists>x. decode_frame sha (dx_wal d) = Inr x))"

definition published_state :: "segment_record list \<Rightarrow> db_state \<Rightarrow> db_state" where
  "published_state records st = (count_records records st)\<lparr>st_generation := st_generation st + 1\<rparr>"

definition published_files :: "digest_fn \<Rightarrow> db_state \<Rightarrow> directory \<Rightarrow> directory" where
  "published_files sha st dir =
    dir_put ''CURRENT'' (Current_encode sha \<lparr>cu_format_version = FORMAT_VERSION, cu_manifest_generation = st_generation st\<rparr>)
      (dir_put (manifest_path (st_generation st)) (Manifest_encode sha (manifest_of st (st_segment_records st))) dir)"

lemma flush_publish_plain:
  assumes "plain_state sha d" and "fb_anchors build = []" and "\<forall>gen. io (manifest_path gen) = None" and "io ''CURRENT'' = None"
  shows "flush_publish sha io build d = (Inr (), d\<lparr>dx_state := published_state (fb_records build) (dx_state d),
    dx_dir := published_files sha (published_state (fb_records build) (dx_state d)) (dx_dir d)\<rparr>)"
  using assms
  by (simp add: flush_publish_def place_anchors_def Let_def on_state_def count_records_def tbind_def
      publish_identity_log_def publish_replica_log_def publish_placement_log_def plain_state_def publish_manifest_def
      publish_file_def publish_atomic_def published_state_def published_files_def)

lemma truncate_wal_plain:
  assumes "plain_state sha d" and "\<forall>name. io name = None"
  shows "\<exists>dir. truncate_wal sha io (length (dx_wal d)) d = (Inr (), d\<lparr>dx_wal := [], dx_dir := dir\<rparr>)
    \<and> (\<not> cf_retain_log (dx_config d) \<longrightarrow> dir = dx_dir d)"
proof -
  obtain dir where dir: "archive_covered sha io (length (dx_wal d)) d = (Inr (), d\<lparr>dx_dir := dir\<rparr>)"
    "\<not> cf_retain_log (dx_config d) \<longrightarrow> dir = dx_dir d"
  proof (cases "cf_retain_log (dx_config d) \<and> dx_wal d \<noteq> []")
    case True
    then obtain x where "decode_frame sha (dx_wal d) = Inr x" using assms(1) by (auto simp: plain_state_def)
    then show ?thesis using True assms(2) that [of "dir_put (rlog_path (fr_seq (fst x))) (dx_wal d) (dx_dir d)"]
      by (simp add: archive_covered_def wal_read_def wal_call_def tbind_def publish_file_def publish_atomic_def split: prod.splits)
  next
    case False
    then show ?thesis using that [of "dx_dir d"] by (auto simp: archive_covered_def)
  qed
  then show ?thesis using assms(2) by (intro exI [of _ dir]) (simp add: truncate_wal_def wal_call_def tbind_def Let_def)
qed

lemma flush_phase_c_plain:
  assumes "plain_state sha d" and "fb_anchors build = []" and "\<forall>name. io name = None"
  shows "\<exists>dir. flush_phase_c sha io it build (length (dx_wal d)) d = (Inr (), d\<lparr>dx_wal := [], dx_dir := dir,
      dx_state := (published_state (fb_records build) (dx_state d))\<lparr>st_segments := st_segments (dx_state d) @ fb_new_segments build\<rparr>\<rparr>)
    \<and> (\<not> cf_retain_log (dx_config d) \<longrightarrow> dir = published_files sha (published_state (fb_records build) (dx_state d)) (dx_dir d))"
proof -
  let ?st = "published_state (fb_records build) (dx_state d)"
  let ?d = "d\<lparr>dx_state := ?st, dx_dir := published_files sha ?st (dx_dir d)\<rparr>"
  have "plain_state sha ?d" using assms(1) by (simp add: plain_state_def published_state_def count_records_def)
  from truncate_wal_plain [OF this assms(3)] obtain dir where
    "truncate_wal sha io (length (dx_wal d)) ?d = (Inr (), ?d\<lparr>dx_wal := [], dx_dir := dir\<rparr>)"
    "\<not> cf_retain_log (dx_config d) \<longrightarrow> dir = published_files sha ?st (dx_dir d)" by auto
  moreover have "st_bytes_since_checkpoint ?st = 0" "st_segments ?st = st_segments (dx_state d)"
    using assms(1) by (simp_all add: plain_state_def published_state_def count_records_def)
  ultimately show ?thesis using flush_publish_plain [OF assms(1,2), of io] assms(3)
    by (intro exI [of _ dir]) (auto simp: flush_phase_c_def tbind_def Let_def on_state_def maybe_checkpoint_def)
qed

text \<open>With a file system that answers every call, a flush of byte rows succeeds.\<close>

lemma flush_entry_ok:
  assumes "sha_ok sha" and "plain_state sha d" and "\<forall>m \<in> set (st_immutables (rotate_state (dx_state d))). byte_memtable (cf_block_target (dx_config d)) m"
    and "\<forall>name. io name = None"
  shows "\<exists>d'. flush_entry sha io it d = (Inr (), d')"
proof (cases "st_immutables (rotate_state (dx_state d)) = []")
  case True
  then show ?thesis using assms(4) by (simp add: flush_entry_def flush_phase_a_def Let_def tbind_def)
next
  case False
  then obtain plan d1 where a: "flush_phase_a io d = (Inr (Some plan), d1)"
    using assms(4) by (auto simp: flush_phase_a_def Let_def)
  note pa = flush_phase_a_Inr [OF a]
  have cfg: "dx_config d1 = dx_config d" "dx_wal d1 = dx_wal d" using pa(4) by (simp_all add: mem_view_def)
  have "plain_state sha d1" using a assms(2)
    by (auto simp: plain_state_def flush_phase_a_def Let_def rotate_state_def split: option.splits if_splits)
  moreover have rows: "\<forall>x \<in> set (zip (fp_immutables plan) (fp_segment_ids plan)). byte_memtable (cf_block_target (dx_config d1)) (fst x)"
    using assms(3) by (auto simp: cfg pa(1) dest: set_zip_leftD)
  moreover have "cf_block_target (dx_config d1) \<noteq> 0" using assms(2) by (simp add: cfg plain_state_def)
  moreover obtain build dir where b: "tfold (flush_one sha io (cf_block_target (dx_config d1))) (zip (fp_immutables plan) (fp_segment_ids plan))
      (\<lparr>fb_new_segments = [], fb_records = [], fb_anchors = []\<rparr>, dx_dir d1) = (Inr (), build, dir)" "fb_anchors build = []"
    using flush_ones_ok [OF assms(1) calculation(2,3) assms(4), of "\<lparr>fb_new_segments = [], fb_records = [], fb_anchors = []\<rparr>" "dx_dir d1"]
    by auto
  ultimately have "plain_state sha (d1\<lparr>dx_dir := dir\<rparr>)" by (simp add: plain_state_def)
  from flush_phase_c_plain [OF this b(2) assms(4), of it] obtain d2 where
    "flush_phase_c sha io it build (length (dx_wal d1)) (d1\<lparr>dx_dir := dir\<rparr>) = (Inr (), d2)" by auto
  then show ?thesis using a b(1) pa(3) cfg(2) by (simp add: flush_entry_def tbind_def flush_phase_b_def)
qed

section \<open>Properties\<close>

text \<open>A memtable with one row, as the flushes below write it.\<close>

definition put_mem :: "bytes \<Rightarrow> u64 \<Rightarrow> bytes \<Rightarrow> memtable" where
  "put_mem k seq v = mt_apply k seq (Some v) mt_new"

lemma put_mem_simps:
  "mt_inv (put_mem k seq v)" "\<not> mt_is_empty (put_mem k seq v)" "\<not> mt_has_identity (put_mem k seq v)" "rids_ok (put_mem k seq v)"
  "mt_into_entries (put_mem k seq v) = [((k, seq), Byte \<lparr>br_value = Some v\<rparr>)]"
  by (simp_all add: put_mem_def mt_apply_def mt_inv_insert rids_ok_def mt_abs_insert)
    (simp_all add: mt_insert_def mt_new_def bt_get_def bt_put_def mt_is_empty_def mt_has_identity_def mt_into_entries_def
      Let_def)

lemma single_block: "blocks w [e] = [[e]]"
proof -
  have c: "concat (blocks w [e]) = [e]" by (rule concat_blocks) simp
  have n: "\<forall>blk \<in> set (blocks w [e]). blk \<noteq> []" using blocks_nonempty by blast
  from c n show ?thesis
  proof (cases "blocks w [e]")
    case (Cons b bs)
    then have "b = [e]" "concat bs = []" using c n by (auto simp: append_eq_Cons_conv)
    moreover have "bs = []" using Cons n \<open>concat bs = []\<close> by (cases bs) auto
    ultimately show ?thesis using Cons by simp
  qed simp
qed

lemma put_mem_rows: "flushed_rows (put_mem k seq v) = [flush_row ((k, seq), Byte \<lparr>br_value = Some v\<rparr>)]"
  by (simp add: flushed_rows_def put_mem_simps)

lemma put_mem_fits:
  assumes "length k \<le> U16_MAX" and "length v < 2 ^ 24"
  shows "flush_fits bt (put_mem k seq v)"
proof -
  let ?w = "flush_writer bt (put_mem k seq v)"
  have "sw_v3 ?w = False" "writer_ok ?w"
    by (simp_all add: flush_writer_v3 put_mem_simps) (simp add: writer_ok_def flush_writer_def put_mem_simps writer_push_def writer_new_v2_def)
  then show ?thesis using assms
    by (simp add: flush_fits_def put_mem_rows segment_fits_def single_block entry_ok_def block_size_def entry_size_def index_size_def
        BLOOM_BITS_PER_KEY_def flush_row_simps me_into_parts_def U16_MAX_def)
      (simp add: flush_row_def me_into_parts_def)
qed

lemma put_mem_byte: "length k \<le> U16_MAX \<Longrightarrow> length v < 2 ^ 24 \<Longrightarrow> byte_memtable bt (put_mem k seq v)"
  by (simp add: byte_memtable_def put_mem_simps put_mem_fits)

definition put_db :: database where
  "put_db = on_state (\<lambda>st. st\<lparr>st_active := put_mem [1] 1 [2]\<rparr>) demo_db"

lemma put_db_state:
  "st_active (dx_state put_db) = put_mem [1] 1 [2]" "st_immutables (dx_state put_db) = []" "st_segments (dx_state put_db) = []"
  "st_immutables (rotate_state (dx_state put_db)) = [put_mem [1] 1 [2]]" "dx_config put_db = config_new" "dx_wal put_db = []"
  "plain_state sha put_db" "rotate_state (dx_state put_db) = (dx_state put_db)\<lparr>st_active := mt_new, st_immutables := [put_mem [1] 1 [2]]\<rparr>"
  by (simp_all add: put_db_def on_state_def demo_state rotate_state_def put_mem_simps plain_state_def config_new_def DEFAULT_BLOCK_TARGET_def)

lemma put_mem_get: "mt_get (put_mem k seq v) k' = (if k' = k then Some \<lparr>br_value = Some v\<rparr> else None)"
  by (simp add: put_mem_def mt_apply_def mt_get_def mt_insert_def mt_new_def bt_get_def byte_head_def Let_def)

lemma mt_get_new: "mt_get mt_new k = None"
  by (simp add: mt_get_def mt_new_def bt_get_def)

lemma flush_entry_phases:
  assumes "flush_entry sha io it d = (Inr (), d')" and "st_immutables (rotate_state (dx_state d)) \<noteq> []"
  shows "\<exists>plan d1 build d2. flush_phase_a io d = (Inr (Some plan), d1) \<and> flush_phase_b sha io plan d1 = (Inr build, d2)
    \<and> flush_phase_c sha io it build (fp_wal_truncate_len plan) d2 = (Inr (), d')"
  using assms by (auto simp: flush_entry_def tbind_Inr_iff flush_phase_a_def Let_def split: option.splits if_splits)

text \<open>C2. A flush does not change an answer, whatever is written while its segments are built: take a key of
  which neither the segments nor the flushed memtables hold a row with a replica id. If it was written in
  between, it has its newest value after the three phases, otherwise the answer it had before the flush. The
  log keeps exactly the bytes appended after the memtables were detached. (With identity rows of the same key
  the answer can change, since a point read of a segment can miss a byte row behind them.)\<close>

theorem flush_keeps_answers:
  assumes "sha_ok sha" and "holds_segments sha (dx_state d) ess" and "flush_ready (cf_block_target (dx_config d)) (dx_state d)"
    and "flush_phase_a io d = (Inr (Some plan), d1)" and "dx_config d2 = dx_config d1"
    and "flush_phase_b sha io plan d2 = (Inr build, d3)" and "st_segments (dx_state d4) = st_segments (dx_state d1)"
    and "flush_phase_c sha io it build (fp_wal_truncate_len plan) d4 = (Inr (), d5)"
    and "byte_key (ess @ map flushed_rows (st_immutables (rotate_state (dx_state d)))) k"
  shows "get_inner sha (dx_state d5) k = (case mem_probe (dx_state d4) k of
      Some e \<Rightarrow> Inr (br_value e) | None \<Rightarrow> get_inner sha (dx_state d) k)
    \<and> dx_wal d5 = drop (length (dx_wal d)) (dx_wal d4)"
proof -
  note f = flush_answers [OF assms(2-8)]
  have "byte_key ess k" using assms(9) by (auto simp: byte_key_def)
  then show ?thesis
    using get_inner_layers [OF assms(1) f(1) assms(9)] get_inner_layers [OF assms(1,2)] f(2) f(3) [of k]
    by (auto split: option.splits)
qed

theorem flush_keeps_answers_witness:
  "\<exists>plan d1 build d2 d3. flush_phase_a (\<lambda>_. None) put_db = (Inr (Some plan), d1)
    \<and> flush_phase_b demo_sha (\<lambda>_. None) plan d1 = (Inr build, d2)
    \<and> flush_phase_c demo_sha (\<lambda>_. None) demo_iters build (fp_wal_truncate_len plan) d2 = (Inr (), d3)
    \<and> get_inner demo_sha (dx_state d3) [1] = Inr (Some [2])"
proof -
  have rows: "byte_memtable bt (put_mem [1] 1 [2])" for bt by (rule put_mem_byte) (simp_all add: U16_MAX_def)
  obtain d3 where "flush_entry demo_sha (\<lambda>_. None) demo_iters put_db = (Inr (), d3)"
    using flush_entry_ok [OF demo_sha_ok put_db_state(7), of "\<lambda>_. None" demo_iters] rows by (auto simp: put_db_state)
  from flush_entry_phases [OF this] obtain plan d1 build d2 where p: "flush_phase_a (\<lambda>_. None) put_db = (Inr (Some plan), d1)"
    "flush_phase_b demo_sha (\<lambda>_. None) plan d1 = (Inr build, d2)"
    "flush_phase_c demo_sha (\<lambda>_. None) demo_iters build (fp_wal_truncate_len plan) d2 = (Inr (), d3)"
    by (auto simp: put_db_state)
  have ready: "flush_ready (cf_block_target (dx_config put_db)) (dx_state put_db)"
    using rows by (simp add: flush_ready_def put_db_state put_mem_simps byte_memtable_def)
  have b: "mem_view d2 = mem_view d1"
    using flush_phase_b_Inr(2) [OF p(2)] flush_phase_a_Inr [OF p(1)] ready by (simp add: flush_ready_def mem_view_def)
  have hold: "holds_segments demo_sha (dx_state put_db) []" by (simp add: holds_segments_def put_db_state)
  have "byte_key ([] @ map flushed_rows (st_immutables (rotate_state (dx_state put_db)))) [1]"
    by (auto simp: byte_key_def put_db_state put_mem_rows flush_row_simps me_into_parts_def)
  from flush_keeps_answers [OF demo_sha_ok hold ready p(1) refl p(2) _ p(3) this] b
  have "get_inner demo_sha (dx_state d3) [1] = (case mem_probe (dx_state d2) [1] of
      Some e \<Rightarrow> Inr (br_value e) | None \<Rightarrow> get_inner demo_sha (dx_state put_db) [1])"
    by (simp add: mem_view_def)
  moreover have "mem_probe (dx_state d2) [1] = None"
    using b flush_phase_a_Inr(4,5) [OF p(1)] mem_layer_empty [of "st_active (dx_state d1)" "[1]"]
    by (auto simp: mem_view_def mem_probe_def mem_layer_def)
  moreover have "get_inner demo_sha (dx_state put_db) [1] = Inr (Some [2])"
    by (simp add: get_inner_def mem_probe_def put_db_state put_mem_get)
  ultimately show ?thesis using p by auto
qed

text \<open>C34. While a flush builds its segments, reads miss the rows it detached: after phase A a read consults
  only the segments that were attached before, although the documentation says that reads keep seeing a
  rotated memtable. An acknowledged value reads as absent until phase C.\<close>

theorem flush_hides_rows:
  assumes "flush_phase_a io d = (Inr (Some plan), d')"
  shows "get_inner sha (dx_state d') k = probe_segments sha k (rev (st_segments (dx_state d)))"
  using flush_phase_a_Inr(4,5) [OF assms] mem_layer_empty [of "st_active (dx_state d')" k]
  by (auto simp: mem_view_def get_inner_def mem_probe_def mem_layer_def)

theorem flush_hides_rows_witness:
  "\<exists>plan d'. get_inner demo_sha (dx_state put_db) [1] = Inr (Some [2]) \<and> flush_phase_a (\<lambda>_. None) put_db = (Inr (Some plan), d')
    \<and> get_inner demo_sha (dx_state d') [1] = Inr None"
proof -
  obtain plan d' where a: "flush_phase_a (\<lambda>_. None) put_db = (Inr (Some plan), d')"
    by (auto simp: flush_phase_a_def Let_def put_db_state)
  have "get_inner demo_sha (dx_state put_db) [1] = Inr (Some [2])"
    by (simp add: get_inner_def mem_probe_def put_db_state put_mem_get)
  then show ?thesis using a flush_hides_rows [OF a, of demo_sha "[1]"] by (simp add: put_db_state)
qed

end
