(* ===== verification/DbLog.thy ===== *)
theory DbLog
  imports DbRecovery
begin

text \<open>
  Logs that are not clean: a crash in the middle of an append leaves a torn tail, which replay cuts off; a
  failed append leaves the same bytes, but the database keeps running and appends after them.
\<close>

section \<open>Torn tails\<close>

lemma read_frame_bytes_drop:
  "pos \<le> length r \<Longrightarrow> read_frame_bytes r pos (length r) = read_frame_bytes (drop pos r) 0 (length (drop pos r))"
proof -
  assume "pos \<le> length r"
  then have "(pos + n > length r) = (n > length (drop pos r))" for n by auto
  then show ?thesis by (simp only: read_frame_bytes_def drop_drop add_0 drop_0 if_cancel)
qed

text \<open>A proper prefix of a frame never reads as a frame.\<close>

lemma read_frame_prefix:
  assumes "sha_ok sha" and "frame_ok (fr_ops g)" and "k < length (frame_bytes sha g)"
  shows "read_frame_bytes (take k (frame_bytes sha g)) 0 (length (take k (frame_bytes sha g))) = None"
proof (rule ccontr)
  let ?t = "take k (frame_bytes sha g)"
  assume "read_frame_bytes ?t 0 (length ?t) \<noteq> None"
  then obtain seq body where rd: "read_frame_bytes ?t 0 (length ?t) = Some (seq, body)" by auto
  then obtain p ck u where p: "length p < 2 ^ 32" "length ck = 8" "?t = body @ u" "body = frame_head seq (length p) @ p @ ck"
    using read_frame_bytes_SomeD [OF rd] by auto
  let ?n = "4 + ops_len (fr_ops g)"
  have n: "?n < 2 ^ 32" "length (frame_bytes sha g) = 27 + ?n"
    using assms(1,2) by (simp_all add: frame_ok_def frame_bytes_def length_frame_image)
  have "frame_bytes sha g = ?t @ drop k (frame_bytes sha g)" by simp
  then obtain x y where "frame_head (fr_seq g) ?n @ x = frame_head seq (length p) @ y"
    unfolding p(3,4) by (auto simp: frame_bytes_def frame_image_def Let_def)
  from frame_head_inj [OF this n(1) p(1)] have "length p = ?n" by simp
  then have "length body = 27 + ?n" using p(2,4) by simp
  moreover have "length body \<le> k" using p(3) assms(3) by (metis length_append length_take le_add1 min.absorb4 order_less_imp_le)
  ultimately show False using assms(3) n(2) by simp
qed

lemma replay_reader_tail:
  assumes "sha_ok sha" and "frameless sha t" and "read_frame_bytes t 0 (length t) = None"
    and "drop pos r = t" and "pos \<le> length r"
  shows "replay_reader_loop sha f r (length r) pos lst s = Inr (s, pos, length r)"
proof -
  have "find_valid_frame_after sha r pos (length r) = None"
    unfolding find_valid_frame_after_None [OF assms(1)]
  proof (clarsimp simp: list_ex_iff)
    fix i assume i: "pos \<le> i" "i < length r" "is_ok (decode_frame sha (drop i r))"
    then have "drop i r = drop (i - pos) t" using assms(4) by (auto simp: drop_drop)
    moreover have "i - pos < length t" using i assms(4) by auto
    ultimately show False using i(3) assms(2) by (auto simp: frameless_iff)
  qed
  moreover have "read_frame_bytes r pos (length r) = None"
    using read_frame_bytes_drop [OF assms(5)] assms(3,4) by simp
  ultimately show ?thesis by (subst replay_reader_loop.simps) simp
qed

text \<open>Complete frames are replayed, and the walk goes on behind them.\<close>

lemma replay_reader_frames:
  assumes "sha_ok sha" and "\<forall>g \<in> set fs. frame_ok (fr_ops g)" and "seqs_from lst fs"
    and "drop pos r = concat (map (frame_bytes sha) fs) @ t" and "pos \<le> length r"
  shows "\<exists>lst'. replay_reader_loop sha f r (length r) pos lst s =
    rbind (rfold (\<lambda>g. rfold (f (fr_seq g)) (fr_ops g)) fs s) (\<lambda>s. replay_reader_loop sha f r (length r) (length r - length t) lst' s)"
  using assms(2-)
proof (induction fs arbitrary: pos lst s)
  case Nil
  then have "length t = length r - pos" by (metis append_Nil concat.simps(1) length_drop list.map(1))
  then have "pos = length r - length t" using Nil.prems(4) by simp
  then show ?case by (intro exI [of _ lst]) simp
next
  case (Cons g fs)
  have d: "drop pos r = frame_bytes sha g @ concat (map (frame_bytes sha) fs) @ t" using Cons.prems(3) by simp
  have pos: "pos < length r" using d length_frame_bytes_pos [of sha g] by (cases "pos < length r") auto
  have "drop (pos + length (frame_bytes sha g)) r = drop (length (frame_bytes sha g)) (drop pos r)"
    by (simp add: add.commute)
  then have d': "drop (pos + length (frame_bytes sha g)) r = concat (map (frame_bytes sha) fs) @ t" unfolding d by simp
  have "length (drop pos r) = length (frame_bytes sha g) + length (concat (map (frame_bytes sha) fs) @ t)" unfolding d by simp
  then have le: "pos + length (frame_bytes sha g) \<le> length r" using pos by simp
  show ?case
    using replay_reader_step [OF assms(1) _ d pos, of f lst s] Cons.prems(1,2) Cons.IH [OF _ _ d' le]
    by (cases "rfold (f (fr_seq g)) (fr_ops g) s") auto
qed

lemma replay_wal_frames:
  assumes "sha_ok sha" and "\<forall>g \<in> set fs. frame_ok (fr_ops g)" and "sorted_wrt (<) (map fr_seq fs)"
  shows "\<exists>lst. replay_reader sha replay_op (wal_of sha fs @ t) rp = rbind (replay_ops fs rp) (\<lambda>rp.
    replay_reader_loop sha replay_op (wal_of sha fs @ t) (length (wal_of sha fs @ t)) (length (wal_of sha fs)) lst rp)"
  using replay_reader_frames [OF assms(1,2), of None 0 "wal_of sha fs @ t" t replay_op rp] assms(3)
  by (simp add: replay_reader_def replay_ops_def wal_of_def seqs_from_None)

text \<open>What a crash can leave behind the last complete frame: nothing, or a part of the next frame that does not
  contain a frame itself.\<close>

definition torn_tail :: "digest_fn \<Rightarrow> bytes \<Rightarrow> bool" where
  "torn_tail sha t \<longleftrightarrow> frameless sha t \<and> read_frame_bytes t 0 (length t) = None"

lemma torn_tail_prefix:
  assumes "sha_ok sha" and "frame_ok (fr_ops g)" and "k < length (frame_bytes sha g)" and "frameless sha (take k (frame_bytes sha g))"
  shows "torn_tail sha (take k (frame_bytes sha g))"
  using read_frame_prefix [OF assms(1-3)] assms(4) by (simp add: torn_tail_def)

lemma torn_tail_Nil: "torn_tail sha []"
  by (simp add: torn_tail_def frameless_iff read_frame_bytes_def FRAME_HEADER_LEN_def)

lemma replay_wal_torn:
  assumes "sha_ok sha" and "\<forall>g \<in> set fs. frame_ok (fr_ops g)" and "sorted_wrt (<) (map fr_seq fs)" and "torn_tail sha t"
  shows "replay_reader sha replay_op (wal_of sha fs @ t) rp =
    rbind (replay_ops fs rp) (\<lambda>rp. Inr (rp, length (wal_of sha fs), length (wal_of sha fs) + length t))"
proof -
  obtain lst where "replay_reader sha replay_op (wal_of sha fs @ t) rp = rbind (replay_ops fs rp) (\<lambda>rp.
      replay_reader_loop sha replay_op (wal_of sha fs @ t) (length (wal_of sha fs @ t)) (length (wal_of sha fs)) lst rp)"
    using replay_wal_frames [OF assms(1-3)] by blast
  then show ?thesis
    using replay_reader_tail [OF assms(1), of t "length (wal_of sha fs)" "wal_of sha fs @ t" replay_op lst] assms(4)
    by (simp add: torn_tail_def)
qed

section \<open>Damage\<close>

text \<open>No frame with a matching checksum starts at the first of the bytes.\<close>

definition no_frame :: "digest_fn \<Rightarrow> bytes \<Rightarrow> bool" where
  "no_frame sha t \<longleftrightarrow> (case read_frame_bytes t 0 (length t) of None \<Rightarrow> True | Some (seq, body) \<Rightarrow> \<not> body_checks sha body)"

lemma replay_reader_damage:
  assumes "sha_ok sha" and "no_frame sha t" and "is_ok (decode_frame sha (drop i t))" and "i < length t"
    and "drop pos r = t"
  shows "replay_reader_loop sha f r (length r) pos lst s = Inl (Corrupt ''WAL damage with valid frames after'')"
proof -
  have pos: "pos < length r" using assms(4,5) by (cases "pos < length r") auto
  have "is_ok (decode_frame sha (drop (pos + i) r))" using assms(3,5) by (auto simp: add.commute)
  moreover have "pos + i < length r" using assms(4,5) by auto
  ultimately have "find_valid_frame_after sha r pos (length r) \<noteq> None"
    unfolding find_valid_frame_after_None [OF assms(1)] by (auto simp: list_ex_iff intro!: bexI [of _ "pos + i"])
  moreover have "case read_frame_bytes r pos (length r) of None \<Rightarrow> True | Some (seq, body) \<Rightarrow> \<not> body_checks sha body"
    using read_frame_bytes_drop [of pos r] pos assms(2,5) by (simp add: no_frame_def)
  ultimately show ?thesis using pos by (subst replay_reader_loop.simps) (auto split: option.splits)
qed

text \<open>A part of a frame that ends before the sequence number never becomes a frame together with the next one.\<close>

lemma frame_bytes_start: "take 7 (frame_bytes sha g) = [0x41, 0x4B, 0x57, 0x46, 1, 0, 1]"
  by (simp add: frame_bytes_def frame_image_def Let_def frame_head_def WAL_MAGIC_def WAL_FORMAT_VERSION_def FRAME_BATCH_def u16_le_def numeral_2_eq_2)

lemma no_frame_short:
  assumes "0 < k" and "k < 7"
  shows "no_frame sha (take k (frame_bytes sha g) @ frame_bytes sha h @ u)"
proof -
  let ?s = "[0x41, 0x4B, 0x57, 0x46, 1, 0, 1] :: bytes" and ?n = "length (take k (frame_bytes sha g) @ frame_bytes sha h @ u)"
  have g: "take k (frame_bytes sha g) = take k ?s"
    using assms(2) frame_bytes_start [of sha g] by (metis less_imp_le min.absorb1 take_take)
  have h: "frame_bytes sha h = ?s @ drop 7 (frame_bytes sha h)" using frame_bytes_start [of sha h] by (metis append_take_drop_id)
  have "k = 1 \<or> k = 2 \<or> k = 3 \<or> k = 4 \<or> k = 5 \<or> k = 6" using assms by linarith
  then have "read_frame_bytes (take k ?s @ ?s @ x) 0 m = None" for x m
    by (elim disjE) (simp_all add: read_frame_bytes_def FRAME_HEADER_LEN_def WAL_MAGIC_def WAL_FORMAT_VERSION_def FRAME_BATCH_def
        le_u16_def Let_def)
  from this [of "drop 7 (frame_bytes sha h) @ u" ?n] show ?thesis unfolding no_frame_def g by (subst h) simp
qed

text \<open>C37. A failed append poisons the log when the process keeps running. Let a write fail after any part of its
  frame, not empty and not the whole, has reached the file, and let the next write succeed. The part stays in
  the file and the acknowledged frame stands behind it, so a replay of the log, also after more bytes \<open>u\<close> were
  appended, reports damage before a valid frame, and the database does not open again. The one condition is that
  the part and the bytes behind it do not happen to form a frame with a matching checksum, which is impossible
  when the part is shorter than seven bytes.\<close>

theorem failed_append_poisons_log:
  assumes "sha_ok sha" and "recoverable sha base n d" and "\<not> dx_wal_fail_next d" and "list_all op_typed ops"
    and "encode_frame sha (st_next_seq (dx_state d)) ops = Inr frame" and "0 < k" and "k < length frame"
    and "write_locked sha (WriteFails k why) ops None d = (r, d1)"
    and "list_all op_typed ops'" and "write_locked sha flt ops' None d1 = (Inr (Committed seq b), d2)"
    and "k < 7 \<or> no_frame sha (drop (length (dx_wal d)) (dx_wal d2) @ u)"
  shows "r = Inl (Io why) \<and> replay_reader sha replay_op (dx_wal d2 @ u) base = Inl (Corrupt ''WAL damage with valid frames after'')"
proof -
  let ?g = "\<lparr>fr_seq = st_next_seq (dx_state d), fr_ops = ops\<rparr>" and ?h = "\<lparr>fr_seq = seq, fr_ops = ops'\<rparr>"
  obtain fs rp where fs: "dx_wal d = wal_of sha fs" "\<forall>g \<in> set fs. frame_ok (fr_ops g)" "sorted_wrt (<) (map fr_seq fs)"
    "replay_ops fs base = Inr rp"
    using assms(2) by (auto simp: recoverable_def)
  have g: "frame = frame_bytes sha ?g"
    using assms(5) encode_frame_iff [OF assms(4), of sha] by (auto simp: frame_bytes_def)
  have 1: "r = Inl (Io why)" "dx_wal d1 = dx_wal d @ take k frame"
    using assms(3,5,8) by (auto simp: write_locked_def commit_frame_def wal_append_def Let_def tbind_def)
  obtain frame' where w: "encode_frame sha seq ops' = Inr frame'" "dx_wal d2 = dx_wal d1 @ frame'"
    using write_locked_Committed [OF assms(10)] by blast
  have h: "frame_ok ops'" "frame' = frame_bytes sha ?h"
    using w(1) encode_frame_iff [OF assms(9), of sha seq] by (auto simp: frame_bytes_def)
  let ?t = "take k (frame_bytes sha ?g) @ frame_bytes sha ?h @ u"
  have wal: "dx_wal d2 @ u = wal_of sha fs @ ?t" using 1(2) w(2) h(2) fs(1) g by simp
  have nf: "no_frame sha ?t" using assms(6,11) no_frame_short [of k sha ?g ?h u] 1(2) w(2) h(2) g by auto
  have k: "length (take k (frame_bytes sha ?g)) = k" using assms(7) g by simp
  then have "drop k ?t = frame_bytes sha ?h @ u" by simp
  then have ok: "is_ok (decode_frame sha (drop k ?t))" using decode_frame_bytes [OF assms(1), of ?h u] h(1) by simp
  have len: "k < length ?t" using k length_frame_bytes_pos [of sha ?h] unfolding length_append by simp
  obtain lst where "replay_reader sha replay_op (dx_wal d2 @ u) base =
      replay_reader_loop sha replay_op (dx_wal d2 @ u) (length (dx_wal d2 @ u)) (length (wal_of sha fs)) lst rp"
    using replay_wal_frames [OF assms(1) fs(2,3), of ?t base] fs(4) unfolding wal by auto
  moreover have "drop (length (wal_of sha fs)) (dx_wal d2 @ u) = ?t" unfolding wal by simp
  ultimately show ?thesis using 1(1) replay_reader_damage [OF assms(1) nf ok len] by metis
qed

theorem failed_append_poisons_log_witness:
  "\<exists>d1 b d2. write_locked demo_sha (WriteFails 30 ''ENOSPC'') [Put [1] [2]] None demo_db = (Inl (Io ''ENOSPC''), d1)
    \<and> write_locked demo_sha WalOk [Put [3] [4]] None d1 = (Inr (Committed 2 b), d2)
    \<and> db_open demo_env config_new (dx_dir d2) (dx_wal d2) = Inl (Corrupt ''WAL damage with valid frames after'')"
proof -
  let ?f = "frame_image demo_sha 1 [Put [1] [2]]" and ?f' = "frame_image demo_sha 2 [Put [3] [4]]"
  have "\<exists>d1 b d2. write_locked demo_sha (WriteFails 30 ''ENOSPC'') [Put [1] [2]] None demo_db = (Inl (Io ''ENOSPC''), d1)
    \<and> write_locked demo_sha WalOk [Put [3] [4]] None d1 = (Inr (Committed 2 b), d2) \<and> dx_dir d2 = demo_dir \<and> dx_wal d2 = take 30 ?f @ ?f'"
    by (simp add: commit_simps demo_state Let_def apply_defs)
  then obtain d1 b d2 where d: "write_locked demo_sha (WriteFails 30 ''ENOSPC'') [Put [1] [2]] None demo_db = (Inl (Io ''ENOSPC''), d1)"
    "write_locked demo_sha WalOk [Put [3] [4]] None d1 = (Inr (Committed 2 b), d2)" "dx_dir d2 = demo_dir" "dx_wal d2 = take 30 ?f @ ?f'" by blast
  have rec: "recoverable demo_sha (ob_replay demo_base) 0 demo_db"
    using open_recoverable [OF _ demo_open_base _ demo_open, of 0] demo_sha_ok
    by (simp add: demo_env_def demo_state flip_room_def demo_base_def)
  have enc: "encode_frame demo_sha (st_next_seq (dx_state demo_db)) [Put [1] [2]] = Inr ?f" "30 < length ?f"
    by (simp_all add: encode_frame_typed demo_state frame_ok_def ops_len_def length_frame_image demo_sha_ok)
  have "no_frame demo_sha (take 30 ?f @ ?f')" by code_simp
  then have "no_frame demo_sha (drop (length (dx_wal demo_db)) (dx_wal d2) @ [])" using d(4) by (simp add: demo_state)
  from failed_append_poisons_log [OF demo_sha_ok rec _ _ enc(1) _ enc(2) d(1) _ d(2), of "[]"] this
  have r: "replay_reader demo_sha replay_op (dx_wal d2) (ob_replay demo_base) = Inl (Corrupt ''WAL damage with valid frames after'')"
    by (simp add: demo_state)
  have "db_open_base demo_env demo_dir = Inr demo_base"
    using open_base_again [OF _ _ demo_open_base] demo_sha_ok by (simp add: demo_env_def) (simp add: demo_base_def)
  then have "db_open demo_env config_new (dx_dir d2) (dx_wal d2) = Inl (Corrupt ''WAL damage with valid frames after'')"
    using r d(3) by (simp add: db_open_def config_new_def DEFAULT_BLOCK_TARGET_def) (simp add: demo_env_def)
  then show ?thesis using d(1,2) by blast
qed

end
