(* ===== verification/DbFaults.thy ===== *)
theory DbFaults
  imports DbFlushProps DbLog
begin

text \<open>
  A fault at the end of a flush: the file of the log is emptied before the frames that no segment covers are
  written back to it, and the write can stop anywhere.
\<close>

lemma tail_byte_inj [simp]: "tail_byte i = tail_byte j \<longleftrightarrow> i = j"
proof
  assume "tail_byte i = tail_byte j"
  then have "digits_val 0 (dec_digits i) = digits_val 0 (dec_digits j)" by (simp only: tail_byte_def append_same_eq same_append_eq)
  then show "i = j" by (simp only: digits_val_dec option.inject)
qed simp

lemma find_first:
  assumes "P k" and "k < n" and "\<forall>i < k. \<not> P i"
  shows "find P [0..<n] = Some k"
  using assms by (auto simp: find_Some_iff)

lemma truncate_wal_fails:
  assumes "\<forall>call. (\<forall>i. call \<noteq> tail_byte i) \<longrightarrow> io call = None" and "archive_covered sha io n d = (Inr (), d1)"
    and "k < length (dx_wal d) - n" and "io (tail_byte k) = Some why" and "\<forall>i < k. io (tail_byte i) = None"
  shows "truncate_wal sha io n d = (Inl (Io why), d1\<lparr>dx_wal := take k (drop n (dx_wal d))\<rparr>)"
proof -
  have calls: "io ''WAL metadata'' = None" "io ''WAL tail seek'' = None" "io ''WAL tail read'' = None"
    "io ''WAL truncate'' = None" "io ''WAL reset seek'' = None"
    using assms(1) by (simp_all add: tail_byte_def)
  have "find (\<lambda>i. io (tail_byte i) \<noteq> None) [0..<length (drop n (dx_wal d))] = Some k"
    by (rule find_first) (use assms(3-5) in auto)
  moreover have "\<not> length (dx_wal d) \<le> n" using assms(3) by simp
  ultimately show ?thesis using calls assms(2-4)
    by (simp add: truncate_wal_def wal_call_def wal_read_def rewrite_tail_def tbind_def Let_def)
qed

text \<open>C35. The rewrite of the log at the end of a flush is not safe against a failure in the middle. Let \<open>fs\<close>, \<open>g\<close>
  and \<open>gs\<close> be the frames acknowledged since phase A, and let the write that puts them back fail inside \<open>g\<close>. The
  flush returns the error with the new segments not attached, and the file holds only what was written: replay
  recovers the frames \<open>fs\<close> and no other, so \<open>g\<close> and everything acknowledged after it is gone from disk. A process
  that stops at this point leaves the same file. (The torn part of \<open>g\<close> must not contain a frame itself.)\<close>

theorem flush_tail_rewrite_loses:
  assumes "sha_ok sha" and "flush_publish sha io build d = (Inr (), d1)" and "archive_covered sha io n d1 = (Inr (), d2)"
    and "drop n (dx_wal d) = wal_of sha (fs @ g # gs)" and "\<forall>f \<in> set (fs @ [g]). frame_ok (fr_ops f)" and "sorted_wrt (<) (map fr_seq fs)"
    and "\<forall>call. (\<forall>i. call \<noteq> tail_byte i) \<longrightarrow> io call = None"
    and "k < length (frame_bytes sha g)" and "frameless sha (take k (frame_bytes sha g))"
    and "io (tail_byte (length (wal_of sha fs) + k)) = Some why" and "\<forall>i < length (wal_of sha fs) + k. io (tail_byte i) = None"
  shows "\<exists>d'. flush_phase_c sha io it build n d = (Inl (Io why), d') \<and> st_segments (dx_state d') = st_segments (dx_state d)
    \<and> replay_reader sha replay_op (dx_wal d') rp = rbind (replay_ops fs rp) (\<lambda>rp. Inr (rp, length (wal_of sha fs), length (wal_of sha fs) + k))"
proof -
  let ?k = "length (wal_of sha fs) + k" and ?g = "take k (frame_bytes sha g)"
  have pub: "st_segments (dx_state d1) = st_segments (dx_state d)" "dx_wal d1 = dx_wal d"
    using mem_view_flush_publish [of sha io build d] assms(2) by (simp_all add: mem_view_def)
  have tail: "drop n (dx_wal d1) = wal_of sha fs @ frame_bytes sha g @ wal_of sha gs" using assms(4) pub(2) by (simp add: wal_of_def)
  from arg_cong [OF tail, of length] have "?k < length (dx_wal d1) - n" using assms(8) by simp
  from truncate_wal_fails [OF assms(7,3) this assms(10,11)]
  have t: "truncate_wal sha io n d1 = (Inl (Io why), d2\<lparr>dx_wal := wal_of sha fs @ ?g\<rparr>)"
    using assms(8) by (simp add: tail)
  have "st_segments (dx_state d2) = st_segments (dx_state d1)" using archive_covered_Inr(2) [OF assms(3)] by simp
  moreover have "torn_tail sha ?g" by (rule torn_tail_prefix [OF assms(1) _ assms(8,9)]) (use assms(5) in simp)
  from replay_wal_torn [OF assms(1) _ assms(6) this, of rp]
  have "replay_reader sha replay_op (wal_of sha fs @ ?g) rp = rbind (replay_ops fs rp) (\<lambda>rp. Inr (rp, length (wal_of sha fs), ?k))"
    using assms(5,8) by simp
  ultimately show ?thesis using t pub(1) assms(2) by (simp add: flush_phase_c_def tbind_def)
qed

text \<open>A write, phase A, a second write, phase B.\<close>

lemma interrupted_flush:
  "\<exists>b0 d0 plan d1 b d2 build d3. write_locked demo_sha WalOk [Put [1] [2]] None demo_db = (Inr (Committed 1 b0), d0)
    \<and> flush_phase_a (\<lambda>_. None) d0 = (Inr (Some plan), d1)
    \<and> write_locked demo_sha WalOk [Put [3] [4]] None d1 = (Inr (Committed 2 b), d2)
    \<and> flush_phase_b demo_sha (\<lambda>_. None) plan d2 = (Inr build, d3) \<and> length (fb_new_segments build) = 1
    \<and> fb_anchors build = [] \<and> plain_state demo_sha d3 \<and> dx_config d3 = config_new \<and> st_segments (dx_state d3) = []
    \<and> drop (fp_wal_truncate_len plan) (dx_wal d3) = frame_bytes demo_sha \<lparr>fr_seq = 2, fr_ops = [Put [3] [4]]\<rparr>"
proof -
  let ?m = "put_mem [1] 1 [2]" and ?bt = "DEFAULT_BLOCK_TARGET"
  obtain b0 d0 where d0: "write_locked demo_sha WalOk [Put [1] [2]] None demo_db = (Inr (Committed 1 b0), d0)"
    "st_active (dx_state d0) = ?m" "st_immutables (dx_state d0) = []" "st_next_seq (dx_state d0) = 2" "plain_state demo_sha d0"
    "dx_config d0 = config_new" "st_segments (dx_state d0) = []" "\<not> dx_wal_fail_next d0"
    by (simp add: commit_simps demo_state Let_def apply_defs put_mem_def plain_state_def config_new_def DEFAULT_BLOCK_TARGET_def)
  obtain plan d1 where a: "flush_phase_a (\<lambda>_. None) d0 = (Inr (Some plan), d1)" "fp_immutables plan = [?m]" "length (fp_segment_ids plan) = 1"
    "fp_wal_truncate_len plan = length (dx_wal d0)" "dx_wal d1 = dx_wal d0" "plain_state demo_sha d1" "dx_config d1 = config_new"
    "st_next_seq (dx_state d1) = 2" "st_segments (dx_state d1) = []" "\<not> dx_wal_fail_next d1"
    using d0 by (simp add: flush_phase_a_def Let_def rotate_state_def put_mem_simps plain_state_def)
  have "\<exists>b d2. write_locked demo_sha WalOk [Put [3] [4]] None d1 = (Inr (Committed 2 b), d2) \<and> plain_state demo_sha d2
      \<and> dx_config d2 = config_new \<and> st_segments (dx_state d2) = []
      \<and> dx_wal d2 = dx_wal d0 @ frame_bytes demo_sha \<lparr>fr_seq = 2, fr_ops = [Put [3] [4]]\<rparr>"
    using a by (simp add: commit_simps Let_def plain_state_def config_new_def frame_bytes_def)
  then obtain b d2 where w: "write_locked demo_sha WalOk [Put [3] [4]] None d1 = (Inr (Committed 2 b), d2)" "plain_state demo_sha d2"
    "dx_config d2 = config_new" "st_segments (dx_state d2) = []"
    "dx_wal d2 = dx_wal d0 @ frame_bytes demo_sha \<lparr>fr_seq = 2, fr_ops = [Put [3] [4]]\<rparr>" by blast
  obtain i where i: "fp_segment_ids plan = [i]" using a(3) by (cases "fp_segment_ids plan") auto
  have "byte_memtable ?bt ?m" by (rule put_mem_byte) (simp_all add: U16_MAX_def)
  from flush_one_ok [OF demo_sha_ok this, of "\<lambda>_. None" i "\<lparr>fb_new_segments = [], fb_records = [], fb_anchors = []\<rparr>" "dx_dir d2"]
  obtain build dir where "flush_one demo_sha (\<lambda>_. None) ?bt (?m, i) (\<lparr>fb_new_segments = [], fb_records = [], fb_anchors = []\<rparr>, dx_dir d2)
      = (Inr (), build, dir)" "length (fb_new_segments build) = 1" "fb_anchors build = []"
    by (auto simp: DEFAULT_BLOCK_TARGET_def)
  then have "flush_phase_b demo_sha (\<lambda>_. None) plan d2 = (Inr build, d2\<lparr>dx_dir := dir\<rparr>)" "length (fb_new_segments build) = 1" "fb_anchors build = []"
    using w(3) a(2) i by (simp_all add: flush_phase_b_def tbind_def config_new_def)
  then show ?thesis using d0(1) a(1,4) w by (fastforce simp: plain_state_def)
qed

theorem flush_tail_rewrite_loses_witness:
  "\<exists>b0 d0 plan d1 b d2 build d3 d'. write_locked demo_sha WalOk [Put [1] [2]] None demo_db = (Inr (Committed 1 b0), d0)
    \<and> flush_phase_a (\<lambda>_. None) d0 = (Inr (Some plan), d1)
    \<and> write_locked demo_sha WalOk [Put [3] [4]] None d1 = (Inr (Committed 2 b), d2)
    \<and> flush_phase_b demo_sha (\<lambda>_. None) plan d2 = (Inr build, d3) \<and> length (fb_new_segments build) = 1
    \<and> flush_phase_c demo_sha [tail_byte 5 \<mapsto> ''EIO''] demo_iters build (fp_wal_truncate_len plan) d3 = (Inl (Io ''EIO''), d')
    \<and> st_segments (dx_state d') = [] \<and> replay_reader demo_sha replay_op (dx_wal d') (ob_replay demo_base) = Inr (ob_replay demo_base, 0, 5)"
proof -
  let ?io = "[tail_byte 5 \<mapsto> ''EIO'']" and ?g = "\<lparr>fr_seq = 2, fr_ops = [Put [3] [4]]\<rparr>"
  obtain b0 d0 plan d1 b d2 build d3 where run: "write_locked demo_sha WalOk [Put [1] [2]] None demo_db = (Inr (Committed 1 b0), d0)"
    "flush_phase_a (\<lambda>_. None) d0 = (Inr (Some plan), d1)" "write_locked demo_sha WalOk [Put [3] [4]] None d1 = (Inr (Committed 2 b), d2)"
    "flush_phase_b demo_sha (\<lambda>_. None) plan d2 = (Inr build, d3)" "length (fb_new_segments build) = 1"
    and d3: "fb_anchors build = []" "plain_state demo_sha d3" "dx_config d3 = config_new" "st_segments (dx_state d3) = []"
      "drop (fp_wal_truncate_len plan) (dx_wal d3) = frame_bytes demo_sha ?g"
    using interrupted_flush by blast
  obtain p where pub: "flush_publish demo_sha ?io build d3 = (Inr (), p)" "dx_config p = config_new"
    using flush_publish_plain [OF d3(2,1), of ?io] d3(3) by (simp add: tail_byte_def manifest_path_def)
  have arch: "archive_covered demo_sha ?io (fp_wal_truncate_len plan) p = (Inr (), p)"
    using pub(2) by (simp add: archive_covered_def config_new_def)
  have bytes: "\<forall>i < 5. ?io (tail_byte i) = None" by simp
  have g: "5 < length (frame_bytes demo_sha ?g)" "frameless demo_sha (take 5 (frame_bytes demo_sha ?g))" by code_simp+
  from flush_tail_rewrite_loses [OF demo_sha_ok pub(1) arch, of "[]" ?g "[]" 5 "''EIO''" demo_iters "ob_replay demo_base"] d3(4,5) bytes g
  obtain d' where "flush_phase_c demo_sha ?io demo_iters build (fp_wal_truncate_len plan) d3 = (Inl (Io ''EIO''), d')"
    "st_segments (dx_state d') = []" "replay_reader demo_sha replay_op (dx_wal d') (ob_replay demo_base) = Inr (ob_replay demo_base, 0, 5)"
    by (auto simp: wal_of_def frame_ok_def ops_len_def replay_ops_def)
  then show ?thesis using run by blast
qed

end
