(* ===== verification/Handles.thy ===== *)
theory Handles
  imports Placement
begin

text \<open>
  The physical handles of \<^verbatim>\<open>placement/handles.rs\<close>. The registry's placement source is
  live, so every operation takes the source's current answer function as an
  argument. An operation returns the registry it leaves behind next to its result,
  on the error path too. The handle counter is a 64-bit word.
\<close>

section \<open>The registry\<close>

datatype physical_handle = PhysicalHandle (handle_u64: u64)

type_synonym placement_source = "replica_id \<Rightarrow> placement option"

record handle_registry =
  hr_by_handle :: "physical_handle \<rightharpoonup> replica_id \<times> u64"
  hr_by_rid :: "replica_id \<rightharpoonup> physical_handle"
  hr_next :: u64

definition hr_new :: handle_registry where
  "hr_new = \<lparr>hr_by_handle = Map.empty, hr_by_rid = Map.empty, hr_next = 1\<rparr>"

definition hr_retire :: "replica_id \<Rightarrow> handle_registry \<Rightarrow> handle_registry" where
  "hr_retire rid reg =
    (case hr_by_rid reg rid of
       None \<Rightarrow> reg
     | Some h \<Rightarrow> reg\<lparr>hr_by_rid := (hr_by_rid reg)(rid := None), hr_by_handle := (hr_by_handle reg)(h := None)\<rparr>)"

definition hr_current :: "handle_registry \<Rightarrow> replica_id \<Rightarrow> u64 \<Rightarrow> physical_handle option" where
  "hr_current reg rid gen =
    (case hr_by_rid reg rid of
       None \<Rightarrow> None
     | Some h \<Rightarrow>
         (case hr_by_handle reg h of
            None \<Rightarrow> None
          | Some (_, g) \<Rightarrow> if g = gen then Some h else None))"

definition hr_resolve ::
  "placement_source \<Rightarrow> replica_id \<Rightarrow> handle_registry \<Rightarrow> handle_registry \<times> physical_handle option fres" where
  "hr_resolve src rid reg =
    (case src rid of
       None \<Rightarrow> (hr_retire rid reg, Inr None)
     | Some (InMemtable _) \<Rightarrow> (hr_retire rid reg, Inr None)
     | Some (Retired _) \<Rightarrow> (hr_retire rid reg, Inr None)
     | Some (InSegment loc) \<Rightarrow>
         (case hr_current reg rid (pl_generation loc) of
            Some h \<Rightarrow> (reg, Inr (Some h))
          | None \<Rightarrow>
              let reg = hr_retire rid reg;
                  h = PhysicalHandle (hr_next reg);
                  reg = reg\<lparr>hr_next := hr_next reg + 1\<rparr>
              in if hr_by_handle reg h \<noteq> None then (reg, Inl (Corrupt ''physical handle collision''))
                 else (reg\<lparr>hr_by_handle := (hr_by_handle reg)(h \<mapsto> (rid, pl_generation loc)),
                           hr_by_rid := (hr_by_rid reg)(rid \<mapsto> h)\<rparr>, Inr (Some h))))"

fun hr_resolve_many ::
  "placement_source \<Rightarrow> replica_id list \<Rightarrow> handle_registry \<Rightarrow> handle_registry \<times> physical_handle option list fres" where
  "hr_resolve_many src [] reg = (reg, Inr [])"
| "hr_resolve_many src (rid # rids) reg =
    (case hr_resolve src rid reg of
       (reg, Inl e) \<Rightarrow> (reg, Inl e)
     | (reg, Inr h) \<Rightarrow>
         (case hr_resolve_many src rids reg of
            (reg, Inl e) \<Rightarrow> (reg, Inl e)
          | (reg, Inr hs) \<Rightarrow> (reg, Inr (h # hs))))"

definition hr_location :: "placement_source \<Rightarrow> handle_registry \<Rightarrow> physical_handle \<Rightarrow> physical_location fres" where
  "hr_location src reg h =
    (case hr_by_handle reg h of
       None \<Rightarrow> Inl (Stale ''physical handle unknown or retired'')
     | Some (rid, gen) \<Rightarrow>
         (case src rid of
            Some (InSegment loc) \<Rightarrow>
              if pl_generation loc = gen then Inr loc
              else Inl (Stale ''physical handle stale'')
          | _ \<Rightarrow> Inl (Stale ''physical handle stale'')))"

text \<open>A step: a resolve against whatever the source says at that moment. The counter has
  not run out.\<close>

inductive hr_step :: "handle_registry \<Rightarrow> handle_registry \<Rightarrow> bool" where
  resolve_step: "hr_next reg \<noteq> - 1 \<Longrightarrow> hr_resolve src rid reg = (reg', res) \<Longrightarrow> hr_step reg reg'"

inductive_cases hr_stepE: "hr_step reg reg'"

section \<open>Invariant\<close>

definition hr_inv :: "handle_registry \<Rightarrow> bool" where
  "hr_inv reg \<longleftrightarrow> (\<forall>rid h. hr_by_rid reg rid = Some h \<longleftrightarrow> (\<exists>g. hr_by_handle reg h = Some (rid, g)))
     \<and> (\<forall>h. hr_by_handle reg h \<noteq> None \<longrightarrow> handle_u64 h < hr_next reg)"

lemma hr_inv_new: "hr_inv hr_new"
  by (simp add: hr_inv_def hr_new_def)

lemma hr_retire_simps [simp]: "hr_next (hr_retire rid reg) = hr_next reg"
  by (simp add: hr_retire_def split: option.splits)

lemma hr_retire_handles:
  assumes "hr_inv reg"
  shows "hr_by_handle (hr_retire rid reg) h = (case hr_by_handle reg h of
      None \<Rightarrow> None | Some (r, g) \<Rightarrow> if r = rid then None else Some (r, g))"
    and "hr_by_rid (hr_retire rid reg) r = (if r = rid then None else hr_by_rid reg r)"
proof -
  have inv: "hr_by_rid reg r = Some h \<longleftrightarrow> (\<exists>g. hr_by_handle reg h = Some (r, g))" for r h
    using assms by (simp add: hr_inv_def)
  show "hr_by_handle (hr_retire rid reg) h = (case hr_by_handle reg h of
      None \<Rightarrow> None | Some (r, g) \<Rightarrow> if r = rid then None else Some (r, g))"
  proof (cases "hr_by_handle reg h")
    case None
    then show ?thesis by (simp add: hr_retire_def split: option.splits)
  next
    case (Some a)
    then obtain r g where a: "hr_by_handle reg h = Some (r, g)" by (cases a) auto
    then have "hr_by_rid reg r = Some h" using inv by blast
    moreover have "h' \<noteq> h" if "hr_by_rid reg rid = Some h'" "r \<noteq> rid" for h'
      using that inv a by fastforce
    ultimately show ?thesis using a by (auto simp: hr_retire_def split: option.splits)
  qed
  show "hr_by_rid (hr_retire rid reg) r = (if r = rid then None else hr_by_rid reg r)"
    by (simp add: hr_retire_def split: option.splits)
qed

lemma hr_inv_retire:
  assumes "hr_inv reg"
  shows "hr_inv (hr_retire rid reg)"
  using assms unfolding hr_inv_def [of "hr_retire rid reg"] hr_retire_handles [OF assms]
  by (auto simp: hr_inv_def split: option.splits if_splits)

lemma hr_resolve_cases:
  assumes "hr_inv reg"
  obtains "hr_resolve src rid reg = (hr_retire rid reg, Inr None)" "\<nexists>loc. src rid = Some (InSegment loc)"
  | loc h where "src rid = Some (InSegment loc)" "hr_by_rid reg rid = Some h"
      "hr_by_handle reg h = Some (rid, pl_generation loc)" "hr_resolve src rid reg = (reg, Inr (Some h))"
  | loc where "src rid = Some (InSegment loc)" "hr_current reg rid (pl_generation loc) = None"
      "hr_resolve src rid reg = ((hr_retire rid reg)\<lparr>hr_next := hr_next reg + 1,
         hr_by_handle := (hr_by_handle (hr_retire rid reg))(PhysicalHandle (hr_next reg) \<mapsto> (rid, pl_generation loc)),
         hr_by_rid := (hr_by_rid (hr_retire rid reg))(rid \<mapsto> PhysicalHandle (hr_next reg))\<rparr>,
         Inr (Some (PhysicalHandle (hr_next reg))))"
proof -
  have fresh: "hr_by_handle (hr_retire rid reg) (PhysicalHandle (hr_next reg)) = None"
    using hr_inv_retire [OF assms, of rid] unfolding hr_inv_def by fastforce
  show ?thesis
  proof (cases "src rid")
    case None
    then show ?thesis using that(1) by (simp add: hr_resolve_def)
  next
    case (Some p)
    show ?thesis
    proof (cases p)
      case (InSegment loc)
      show ?thesis
      proof (cases "hr_current reg rid (pl_generation loc)")
        case None
        then show ?thesis using that(3) [of loc] Some InSegment fresh by (simp add: hr_resolve_def Let_def)
      next
        case (Some h)
        then obtain r where r: "hr_by_rid reg rid = Some h" "hr_by_handle reg h = Some (r, pl_generation loc)"
          by (auto simp: hr_current_def split: option.splits if_splits)
        then have "r = rid" using assms unfolding hr_inv_def by (metis option.inject prod.inject)
        then show ?thesis using that(2) [of loc h] r \<open>src rid = Some p\<close> InSegment Some by (simp add: hr_resolve_def)
      qed
    qed (use that(1) Some in \<open>simp_all add: hr_resolve_def\<close>)
  qed
qed

lemma hr_inv_resolve:
  assumes "hr_inv reg" and "hr_next reg \<noteq> - 1" and "hr_resolve src rid reg = (reg', res)"
  shows "hr_inv reg'"
  using assms(1)
proof (cases rule: hr_resolve_cases [of reg src rid])
  case 1
  then show ?thesis using hr_inv_retire [OF assms(1)] assms(3) by auto
next
  case (2 loc h)
  then show ?thesis using assms(1,3) by auto
next
  case (3 loc)
  let ?r = "hr_retire rid reg" and ?h = "PhysicalHandle (hr_next reg)"
  have inv: "hr_inv ?r" by (rule hr_inv_retire [OF assms(1)])
  have fresh: "hr_by_handle ?r ?h = None" using inv unfolding hr_inv_def by fastforce
  have none: "hr_by_rid ?r rid = None" by (simp add: hr_retire_handles [OF assms(1)])
  have lt: "hr_next reg < hr_next reg + 1" by (rule word_less_succ [OF assms(2)])
  have "hr_by_rid reg' r = Some h \<longleftrightarrow> (\<exists>g. hr_by_handle reg' h = Some (r, g))" for r h
    using inv fresh none 3(3) assms(3) unfolding hr_inv_def
    by (cases "r = rid"; cases "h = ?h") (auto, metis option.distinct(1))
  moreover have "handle_u64 h < hr_next reg'" if "hr_by_handle reg' h \<noteq> None" for h
  proof (cases "h = ?h")
    case True
    then show ?thesis using lt 3(3) assms(3) by auto
  next
    case False
    then have "hr_by_handle ?r h \<noteq> None" using that 3(3) assms(3) by auto
    then have "handle_u64 h < hr_next ?r" using inv unfolding hr_inv_def by blast
    then show ?thesis using lt 3(3) assms(3) less_trans by auto
  qed
  ultimately show ?thesis by (simp add: hr_inv_def)
qed

lemma hr_resolve_handles:
  assumes "hr_inv reg" and "hr_next reg \<noteq> - 1" and "hr_resolve src rid reg = (reg', res)"
    and "handle_u64 h < hr_next reg"
  shows "hr_by_handle reg' h = None \<or> hr_by_handle reg' h = hr_by_handle reg h"
    and "handle_u64 h < hr_next reg'"
proof -
  have "(hr_by_handle reg' h = None \<or> hr_by_handle reg' h = hr_by_handle reg h) \<and> handle_u64 h < hr_next reg'"
    using assms(1)
  proof (cases rule: hr_resolve_cases [of reg src rid])
    case 1
    then show ?thesis using assms(3,4) by (auto simp: hr_retire_handles [OF assms(1)] split: option.splits)
  next
    case (2 loc h')
    then show ?thesis using assms(3,4) by auto
  next
    case (3 loc)
    have "h \<noteq> PhysicalHandle (hr_next reg)" using assms(4) by auto
    moreover have "handle_u64 h < hr_next reg + 1" using assms(4) word_less_succ [OF assms(2)] less_trans by blast
    ultimately show ?thesis
      using 3(3) assms(3) by (auto simp: hr_retire_handles [OF assms(1)] split: option.splits)
  qed
  then show "hr_by_handle reg' h = None \<or> hr_by_handle reg' h = hr_by_handle reg h" "handle_u64 h < hr_next reg'"
    by auto
qed

lemma hr_steps_handles:
  assumes "hr_step\<^sup>*\<^sup>* reg reg'" and "hr_inv reg" and "handle_u64 h < hr_next reg"
  shows "hr_inv reg' \<and> handle_u64 h < hr_next reg'
    \<and> (hr_by_handle reg' h = None \<or> hr_by_handle reg' h = hr_by_handle reg h)"
  using assms
proof (induction rule: rtranclp_induct)
  case (step y z)
  then have y: "hr_inv y" "handle_u64 h < hr_next y"
    "hr_by_handle y h = None \<or> hr_by_handle y h = hr_by_handle reg h" by auto
  from step.hyps(2) obtain src rid res where r: "hr_next y \<noteq> - 1" "hr_resolve src rid y = (z, res)"
    by (rule hr_stepE)
  show ?case using hr_inv_resolve [OF y(1) r] hr_resolve_handles [OF y(1) r y(2)] y(3) by metis
qed simp

lemma hr_location_iff:
  "hr_location src reg h = Inr loc \<longleftrightarrow>
    (\<exists>rid. hr_by_handle reg h = Some (rid, pl_generation loc) \<and> src rid = Some (InSegment loc))"
  by (auto simp: hr_location_def split: option.splits placement.splits)

lemma hr_location_Inl: "hr_location src reg h = Inl e \<Longrightarrow> \<exists>msg. e = Stale msg"
  by (auto simp: hr_location_def split: option.splits placement.splits if_splits)

text \<open>A replica is settled when resolving it changes nothing.\<close>

lemma hr_resolve_settles:
  assumes "hr_inv reg" and "hr_resolve src rid reg = (reg', Inr h)"
  shows "hr_resolve src rid reg' = (reg', Inr h)"
  using assms(1)
proof (cases rule: hr_resolve_cases [of reg src rid])
  case 1
  have "hr_retire rid (hr_retire rid reg) = hr_retire rid reg"
    using hr_retire_handles(2) [OF assms(1), of rid rid] by (simp add: hr_retire_def [of rid "hr_retire rid reg"])
  then show ?thesis using 1 assms(2) by (auto simp: hr_resolve_def split: option.splits placement.splits)
next
  case (2 loc h')
  then show ?thesis using assms(2) by auto
next
  case (3 loc)
  then show ?thesis using assms(2) by (auto simp: hr_resolve_def hr_current_def)
qed

lemma hr_settled_cong:
  assumes "hr_by_rid reg' rid = hr_by_rid reg rid"
    and "\<And>x. hr_by_rid reg rid = Some x \<Longrightarrow> hr_by_handle reg' x = hr_by_handle reg x"
    and "hr_resolve src rid reg = (reg, Inr h)"
  shows "hr_resolve src rid reg' = (reg', Inr h)"
proof (cases "\<exists>loc. src rid = Some (InSegment loc)")
  case True
  then obtain loc where loc: "src rid = Some (InSegment loc)" by blast
  have cur: "hr_current reg' rid g = hr_current reg rid g" for g
    using assms(1,2) by (auto simp: hr_current_def split: option.splits)
  have "hr_current reg rid (pl_generation loc) \<noteq> None"
  proof
    assume none: "hr_current reg rid (pl_generation loc) = None"
    have "hr_next (fst (hr_resolve src rid reg)) = hr_next reg + 1"
      using none loc by (simp add: hr_resolve_def Let_def)
    then show False using assms(3) by simp
  qed
  then show ?thesis using assms(3) loc cur by (auto simp: hr_resolve_def)
next
  case False
  then have r: "hr_resolve src rid x = (hr_retire rid x, Inr None)" for x
    by (auto simp: hr_resolve_def split: option.splits placement.splits)
  then have "hr_retire rid reg = reg" "h = None" using assms(3) by auto
  have "hr_by_rid reg rid = None"
  proof (rule ccontr)
    assume "hr_by_rid reg rid \<noteq> None"
    then have "hr_by_rid (hr_retire rid reg) rid = None" by (auto simp: hr_retire_def)
    then show False using \<open>hr_retire rid reg = reg\<close> \<open>hr_by_rid reg rid \<noteq> None\<close> by simp
  qed
  then show ?thesis using r \<open>h = None\<close> assms(1) by (simp add: hr_retire_def)
qed

lemma hr_settled_stays:
  assumes "hr_inv reg" and "hr_next reg \<noteq> - 1" and "hr_resolve src rid reg = (reg, Inr h)"
    and "hr_resolve src rid' reg = (reg', res)"
  shows "hr_resolve src rid reg' = (reg', Inr h)"
proof (cases "rid' = rid")
  case True
  then show ?thesis using assms(3,4) by simp
next
  case False
  have "hr_by_rid reg' rid = hr_by_rid reg rid \<and>
      (\<forall>x g. hr_by_rid reg rid = Some x \<longrightarrow> hr_by_handle reg' x = hr_by_handle reg x)"
    using assms(1)
  proof (cases rule: hr_resolve_cases [of reg src rid'])
    case 1
    then show ?thesis using assms(1,4) False
      by (auto simp: hr_retire_handles [OF assms(1)] hr_inv_def split: option.splits)
  next
    case (2 loc h')
    then show ?thesis using assms(4) by auto
  next
    case (3 loc)
    have "x \<noteq> PhysicalHandle (hr_next reg)" if "hr_by_rid reg rid = Some x" for x
      using that assms(1) unfolding hr_inv_def by (metis option.distinct(1) order_less_irrefl physical_handle.sel)
    then show ?thesis using 3(3) assms(1,4) False
      by (auto simp: hr_retire_handles [OF assms(1)] hr_inv_def split: option.splits)
  qed
  then show ?thesis
    using assms(3) hr_settled_cong [of reg' rid reg src] by simp
qed

lemma unat_not_max: "unat (n :: u64) + k < 2 ^ 64 - 1 \<Longrightarrow> n \<noteq> - 1"
  by (auto simp: unsigned_minus_1_eq_mask mask_eq_exp_minus_1)

lemma hr_next_resolve:
  assumes "hr_inv reg" and "hr_resolve src rid reg = (reg', res)"
  shows "unat (hr_next reg') \<le> unat (hr_next reg) + 1"
  using assms(1)
proof (cases rule: hr_resolve_cases [of reg src rid])
  case (3 loc)
  have "unat (hr_next reg + 1) \<le> unat (hr_next reg) + 1" by (simp add: unat_word_ariths(1))
  then show ?thesis using 3(3) assms(2) by auto
qed (use assms(2) in auto)

lemma hr_resolve_ok:
  assumes "hr_inv reg"
  shows "\<exists>reg' r. hr_resolve src rid reg = (reg', Inr r) \<and>
    (case src rid of
       Some (InSegment loc) \<Rightarrow> \<exists>h. r = Some h \<and> hr_by_handle reg' h = Some (rid, pl_generation loc)
     | _ \<Rightarrow> r = None)"
  using assms
  by (cases rule: hr_resolve_cases [of reg src rid]) (auto split: option.splits placement.splits)

lemma hr_resolve_many_ok:
  assumes "hr_inv reg" and "unat (hr_next reg) + length rids < 2 ^ 64 - 1"
  shows "\<exists>reg' hs. hr_resolve_many src rids reg = (reg', Inr hs) \<and> hr_inv reg' \<and> length hs = length rids
    \<and> (\<forall>i < length rids. hr_resolve src (rids ! i) reg' = (reg', Inr (hs ! i)))
    \<and> (\<forall>rid h. hr_resolve src rid reg = (reg, Inr h) \<longrightarrow> hr_resolve src rid reg' = (reg', Inr h))"
  using assms
proof (induction rids arbitrary: reg)
  case (Cons rid rids)
  have nm: "hr_next reg \<noteq> - 1" using Cons.prems(2) by (rule unat_not_max)
  obtain r1 h where r1: "hr_resolve src rid reg = (r1, Inr h)" using hr_resolve_ok [OF Cons.prems(1)] by blast
  have inv1: "hr_inv r1" by (rule hr_inv_resolve [OF Cons.prems(1) nm r1])
  have "unat (hr_next r1) + length rids < 2 ^ 64 - 1"
    using hr_next_resolve [OF Cons.prems(1) r1] Cons.prems(2) by simp
  from Cons.IH [OF inv1 this] obtain reg' hs where
    many: "hr_resolve_many src rids r1 = (reg', Inr hs)" and inv': "hr_inv reg'" and len: "length hs = length rids"
    and each: "\<forall>i < length rids. hr_resolve src (rids ! i) reg' = (reg', Inr (hs ! i))"
    and stay: "\<forall>rid h. hr_resolve src rid r1 = (r1, Inr h) \<longrightarrow> hr_resolve src rid reg' = (reg', Inr h)"
    by blast
  have "hr_resolve src rid r1 = (r1, Inr h)" by (rule hr_resolve_settles [OF Cons.prems(1) r1])
  then have "\<forall>i < length (rid # rids). hr_resolve src ((rid # rids) ! i) reg' = (reg', Inr ((h # hs) ! i))"
    using each stay by (auto simp: less_Suc_eq_0_disj)
  moreover have "hr_resolve src q reg' = (reg', Inr x)" if "hr_resolve src q reg = (reg, Inr x)" for q x
    using stay hr_settled_stays [OF Cons.prems(1) nm that r1] by blast
  ultimately show ?case using r1 many inv' len by simp
qed simp

section \<open>Properties\<close>

text \<open>
  C20. Resolving a replica never fails (the collision branch is unreachable) and is right
  at once: a replica that lives in a segment gets a handle that locates exactly its
  live location, any other replica gets none; the registry invariant is kept.
\<close>

theorem handle_resolve_correct:
  assumes "hr_inv reg" and "hr_next reg \<noteq> - 1"
  shows "\<exists>reg' r. hr_resolve src rid reg = (reg', Inr r) \<and> hr_inv reg' \<and>
    (case src rid of
       Some (InSegment loc) \<Rightarrow> \<exists>h. r = Some h \<and> hr_location src reg' h = Inr loc
     | _ \<Rightarrow> r = None)"
proof -
  obtain reg' r where r: "hr_resolve src rid reg = (reg', Inr r)"
    and c: "case src rid of
       Some (InSegment loc) \<Rightarrow> \<exists>h. r = Some h \<and> hr_by_handle reg' h = Some (rid, pl_generation loc)
     | _ \<Rightarrow> r = None"
    using hr_resolve_ok [OF assms(1)] by blast
  then have "case src rid of
       Some (InSegment loc) \<Rightarrow> \<exists>h. r = Some h \<and> hr_location src reg' h = Inr loc
     | _ \<Rightarrow> r = None"
    by (auto simp: hr_location_iff split: option.splits placement.splits)
  then show ?thesis using r hr_inv_resolve [OF assms r] by blast
qed

theorem handle_resolve_correct_witness:
  "\<exists>reg' h. hr_resolve [ReplicaId 4 \<mapsto> InSegment \<lparr>pl_segment_id = SegmentId 1, pl_block_id = BlockId 0,
        pl_entry_offset = 2, pl_generation = 6\<rparr>] (ReplicaId 4) hr_new = (reg', Inr (Some h))
    \<and> hr_location [ReplicaId 4 \<mapsto> InSegment \<lparr>pl_segment_id = SegmentId 1, pl_block_id = BlockId 0,
        pl_entry_offset = 2, pl_generation = 6\<rparr>] reg' h = Inr \<lparr>pl_segment_id = SegmentId 1, pl_block_id = BlockId 0,
        pl_entry_offset = 2, pl_generation = 6\<rparr>"
proof -
  have "hr_next hr_new \<noteq> - 1" by (simp add: hr_new_def)
  from handle_resolve_correct [OF hr_inv_new this, of "[ReplicaId 4 \<mapsto> InSegment \<lparr>pl_segment_id = SegmentId 1,
      pl_block_id = BlockId 0, pl_entry_offset = 2, pl_generation = 6\<rparr>]" "ReplicaId 4"]
  show ?thesis by auto
qed

text \<open>
  C21. A handle can never locate anything but the replica and the placement generation it
  was issued for: after any number of further resolves against a changing source, its
  location is either that replica's live location at that very generation, or a
  \<^verbatim>\<open>Stale\<close> error. Handles are not reused.
\<close>

theorem handle_never_misdirects:
  assumes "hr_inv reg" and "hr_next reg \<noteq> - 1"
    and "hr_resolve src rid reg = (reg1, Inr (Some h))" and "src rid = Some (InSegment loc)"
    and "hr_step\<^sup>*\<^sup>* reg1 reg2"
  shows "case hr_location src2 reg2 h of
      Inr loc2 \<Rightarrow> src2 rid = Some (InSegment loc2) \<and> pl_generation loc2 = pl_generation loc
    | Inl e \<Rightarrow> \<exists>msg. e = Stale msg"
proof -
  have inv1: "hr_inv reg1" by (rule hr_inv_resolve [OF assms(1-3)])
  have h: "hr_by_handle reg1 h = Some (rid, pl_generation loc)"
    using hr_resolve_ok [OF assms(1), of src rid] assms(3,4) by auto
  then have "handle_u64 h < hr_next reg1" using inv1 unfolding hr_inv_def by (metis option.distinct(1))
  from hr_steps_handles [OF assms(5) inv1 this]
  have "hr_by_handle reg2 h = None \<or> hr_by_handle reg2 h = Some (rid, pl_generation loc)" using h by auto
  then show ?thesis
    using hr_location_Inl [of src2 reg2 h] hr_location_iff [of src2 reg2 h]
    by (auto split: sum.splits)
qed

theorem handle_never_misdirects_witness:
  "\<exists>reg1 h. hr_resolve [ReplicaId 4 \<mapsto> InSegment \<lparr>pl_segment_id = SegmentId 1, pl_block_id = BlockId 0,
        pl_entry_offset = 2, pl_generation = 6\<rparr>] (ReplicaId 4) hr_new = (reg1, Inr (Some h))
    \<and> (case hr_location [ReplicaId 4 \<mapsto> Retired 7] reg1 h of Inr _ \<Rightarrow> False | Inl e \<Rightarrow> \<exists>msg. e = Stale msg)"
proof -
  let ?loc = "\<lparr>pl_segment_id = SegmentId 1, pl_block_id = BlockId 0, pl_entry_offset = 2, pl_generation = 6\<rparr>"
  let ?src = "[ReplicaId 4 \<mapsto> InSegment ?loc]"
  have n: "hr_next hr_new \<noteq> - 1" by (simp add: hr_new_def)
  obtain reg1 h where r: "hr_resolve ?src (ReplicaId 4) hr_new = (reg1, Inr (Some h))"
    by (simp add: hr_resolve_def hr_new_def hr_current_def hr_retire_def Let_def)
  have "case hr_location [ReplicaId 4 \<mapsto> Retired 7] reg1 h of Inr _ \<Rightarrow> False | Inl e \<Rightarrow> \<exists>msg. e = Stale msg"
    using handle_never_misdirects [OF hr_inv_new n r, of ?loc reg1 "[ReplicaId 4 \<mapsto> Retired 7]"]
    by (auto split: sum.splits)
  then show ?thesis using r by blast
qed

text \<open>
  The batch resolve is the elementwise resolve: it succeeds with one answer per
  requested replica, and in the registry it leaves behind every one of those answers
  is what a single resolve returns, without changing the registry again.
\<close>

lemma handle_resolve_many_pointwise:
  assumes "hr_inv reg" and "unat (hr_next reg) + length rids < 2 ^ 64 - 1"
  shows "\<exists>reg' hs. hr_resolve_many src rids reg = (reg', Inr hs) \<and> hr_inv reg' \<and> length hs = length rids
    \<and> (\<forall>i < length rids. hr_resolve src (rids ! i) reg' = (reg', Inr (hs ! i)))"
  using hr_resolve_many_ok [OF assms, of src] by blast

end
