(* ===== verification/SegmentType.thy ===== *)
theory SegmentType
  imports SegmentProps
begin

text \<open>
  Opening an arbitrary file. Whatever bytes \<^verbatim>\<open>SegmentReader::open\<close> is given, a reader it returns is
  well formed: its data blocks lie in the file one after the other, the keys of its index lie in
  the index block, and its counters agree. Block reads of such a reader stay inside the file.
\<close>

definition block_stop :: "data_block \<Rightarrow> nat" where
  "block_stop b = db_header b + BLOCK_HEADER_LEN + db_payload_len b"

definition walk_wf :: "bytes \<Rightarrow> walk \<Rightarrow> bool" where
  "walk_wf fl st \<longleftrightarrow> sorted_wrt (\<lambda>a b. block_stop a \<le> db_header b) (wk_data st)
    \<and> (\<forall>b \<in> set (wk_data st). block_stop b \<le> wk_cur st \<and> block_stop b \<le> length fl
         \<and> unat (db_entries b) * MIN_ENTRY_LEN \<le> db_payload_len b)"

lemma walk_step_wf:
  assumes "walk_wf fl st" and "walk_step sha fl st = Inr (Some st')"
  shows "walk_wf fl st'"
proof -
  obtain hdr h where room: "bh_compressed h \<le> length fl - (wk_cur st + BLOCK_HEADER_LEN)"
      "BLOCK_HEADER_LEN \<le> length fl - wk_cur st" and a: "add_block hdr h st = Inr st'"
    using assms(2) by (auto simp: walk_step_def Let_def rbind_Inr_iff refuse_version_def not_less split: if_splits)
  show ?thesis
  proof (cases "bh_kind h = BLOCK_DATA")
    case True
    then obtain nb where nb: "wk_data st' = wk_data st @ [nb]" "db_header nb = wk_cur st" "block_stop nb = wk_cur st'"
      "wk_cur st' = wk_cur st + BLOCK_HEADER_LEN + bh_compressed h" "db_payload_len nb = bh_compressed h"
      "unat (db_entries nb) * MIN_ENTRY_LEN \<le> db_payload_len nb"
      using a by (auto simp: add_block_def Let_def block_stop_def less_eq_div_iff_mult_less_eq MIN_ENTRY_LEN_def
          split: if_splits)
    have "wk_cur st' \<le> length fl" using room nb(4) by (simp add: BLOCK_HEADER_LEN_def)
    moreover have "wk_cur st \<le> wk_cur st'" using nb(4) by simp
    ultimately show ?thesis using assms(1) nb by (auto simp: walk_wf_def sorted_wrt_append)
  next
    case False
    then have "wk_data st' = wk_data st" "wk_cur st \<le> wk_cur st'"
      using a by (auto simp: add_block_def Let_def split: if_splits)
    then show ?thesis using assms(1) by (auto simp: walk_wf_def)
  qed
qed

lemma walk_blocks_wf: "walk_blocks sha fl st = Inr st' \<Longrightarrow> walk_wf fl st \<Longrightarrow> walk_wf fl st'"
proof (induction sha fl st rule: walk_blocks.induct)
  case (1 sha fl st)
  from "1.prems"(1) obtain x where x: "walk_step sha fl st = Inr x"
    "(case x of None \<Rightarrow> Inr st | Some st'' \<Rightarrow> walk_blocks sha fl st'') = Inr st'"
    by (subst (asm) walk_blocks.simps) (auto simp: rbind_Inr_iff)
  show ?case
  proof (cases x)
    case None
    then show ?thesis using x(2) "1.prems"(2) by simp
  next
    case (Some st'')
    then show ?thesis using "1.IH" [OF x(1) Some] x walk_step_wf [OF "1.prems"(2)] by simp
  qed
qed

text \<open>The index names every block's first and last key by a range of the index block.\<close>

definition key_range :: "bytes \<Rightarrow> nat \<times> nat \<Rightarrow> bool" where
  "key_range index k \<longleftrightarrow> fst k \<le> snd k \<and> snd k \<le> length index"

definition same_block :: "data_block \<Rightarrow> data_block \<Rightarrow> bool" where
  "same_block a b \<longleftrightarrow> db_header a = db_header b \<and> db_payload_len a = db_payload_len b \<and> db_entries a = db_entries b"

lemma same_block_keys: "same_block b (b\<lparr>db_first := x, db_last := y\<rparr>)"
  by (simp add: same_block_def)

lemma adv_range: "adv c bs c' \<Longrightarrow> cpos c \<le> length (cbytes c) \<Longrightarrow>
    cbytes c' = cbytes c \<and> cpos c' = cpos c + length bs \<and> cpos c' \<le> length (cbytes c)"
  by (auto simp: adv_def rest_def dest!: arg_cong [of _ _ length])

lemma index_loop_wf:
  assumes "index_loop dbs c n = Inr (blks, n', c')" and "cpos c \<le> length (cbytes c)"
  shows "list_all2 same_block dbs blks \<and> n' = n + (\<Sum>b\<leftarrow>blks. unat (db_entries b))
    \<and> (\<forall>b \<in> set blks. key_range (cbytes c) (db_first b) \<and> key_range (cbytes c) (db_last b))"
  using assms
proof (induction dbs arbitrary: c n blks)
  case (Cons db dbs)
  from Cons.prems(1) obtain len1 c1 k1 c2 len2 c3 k2 c4 off c5 cnt c6 blks' where
    a: "adv c (u16_le len1) c1" "length k1 = unat len1" "adv c1 k1 c2" "adv c2 (u16_le len2) c3"
      "length k2 = unat len2" "adv c3 k2 c4" "adv c4 (u64_le off) c5" "adv c5 (u32_le cnt) c6"
    and db: "cnt = db_entries db" and ih: "index_loop dbs c6 (n + unat cnt) = Inr (blks', n', c')"
    and blks: "blks = db\<lparr>db_first := (cpos c1, cpos c2), db_last := (cpos c3, cpos c4)\<rparr> # blks'"
    by (auto simp: Let_def rbind_Inr_iff cur_iffs split: if_splits)
  have r: "cbytes c1 = cbytes c" "cpos c1 \<le> cpos c2" "cpos c2 \<le> length (cbytes c)" "cpos c3 \<le> cpos c4"
    "cpos c4 \<le> length (cbytes c)" "cbytes c6 = cbytes c" "cpos c6 \<le> length (cbytes c)"
    using adv_range [OF a(1)] adv_range [OF a(3)] adv_range [OF a(4)] adv_range [OF a(6)] adv_range [OF a(7)]
      adv_range [OF a(8)] Cons.prems(2) by simp_all
  have "list_all2 same_block dbs blks' \<and> n' = n + unat cnt + (\<Sum>b\<leftarrow>blks'. unat (db_entries b))
    \<and> (\<forall>b \<in> set blks'. key_range (cbytes c6) (db_first b) \<and> key_range (cbytes c6) (db_last b))"
    using Cons.IH [OF ih] r(6,7) by simp
  then show ?case using r db unfolding blks by (simp add: same_block_keys key_range_def)
qed simp

definition reader_wf :: "segment_reader \<Rightarrow> bool" where
  "reader_wf r \<longleftrightarrow> rd_data r \<noteq> [] \<and> length (rd_data r) = unat (rd_block_count r)
    \<and> sorted_wrt (\<lambda>a b. block_stop a \<le> db_header b) (rd_data r)
    \<and> (\<forall>b \<in> set (rd_data r). block_stop b \<le> length (rd_file r) \<and> unat (db_entries b) * MIN_ENTRY_LEN \<le> db_payload_len b
         \<and> key_range (rd_index r) (db_first b) \<and> key_range (rd_index r) (db_last b))
    \<and> (\<Sum>b\<leftarrow>rd_data r. unat (db_entries b)) = unat (rd_entry_count r) \<and> rd_seq_lo r \<le> rd_seq_hi r"

lemma same_blocks_wf:
  assumes "list_all2 same_block dbs blks" and "sorted_wrt (\<lambda>a b. block_stop a \<le> db_header b) dbs"
    and "\<forall>b \<in> set dbs. block_stop b \<le> n \<and> unat (db_entries b) * MIN_ENTRY_LEN \<le> db_payload_len b"
  shows "sorted_wrt (\<lambda>a b. block_stop a \<le> db_header b) blks"
    and "\<forall>b \<in> set blks. block_stop b \<le> n \<and> unat (db_entries b) * MIN_ENTRY_LEN \<le> db_payload_len b"
proof -
  have stop: "same_block a b \<Longrightarrow> block_stop a = block_stop b \<and> db_header a = db_header b
      \<and> db_entries a = db_entries b \<and> db_payload_len a = db_payload_len b" for a b
    by (simp add: same_block_def block_stop_def)
  then have "length dbs = length blks" "\<And>i. i < length blks \<Longrightarrow> block_stop (dbs ! i) = block_stop (blks ! i)
      \<and> db_header (dbs ! i) = db_header (blks ! i) \<and> db_entries (dbs ! i) = db_entries (blks ! i)
      \<and> db_payload_len (dbs ! i) = db_payload_len (blks ! i)"
    using assms(1) by (auto simp: list_all2_conv_all_nth)
  then show "sorted_wrt (\<lambda>a b. block_stop a \<le> db_header b) blks"
    and "\<forall>b \<in> set blks. block_stop b \<le> n \<and> unat (db_entries b) * MIN_ENTRY_LEN \<le> db_payload_len b"
    using assms(2,3) by (auto simp: sorted_wrt_iff_nth_less all_set_conv_all_nth)
qed

lemma open_header_seq: "open_header sha fl = Inr h \<Longrightarrow> sh_seq_lo h \<le> sh_seq_hi h"
  by (auto simp: open_header_def newer_version_def Let_def rbind_Inr_iff not_less split: if_splits)

lemma open_inner_wf:
  assumes "open_inner sha fl = Inr r"
  shows "reader_wf r \<and> rd_file r = fl"
proof -
  let ?w0 = "\<lambda>h. \<lparr>wk_data = [], wk_headers = [], wk_last_kind = None, wk_index = None, wk_bloom = None,
    wk_cur = length (sh_bytes h)\<rparr>"
  obtain h wk index blks n icur where o': "open_header sha fl = Inr h" "walk_blocks sha fl (?w0 h) = Inr wk"
    "index_loop (wk_data wk) (cursor_new index) 0 = Inr (blks, n, icur)" "wk_data wk \<noteq> []"
    "length (wk_data wk) = unat (sh_block_count h)" "n = unat (sh_entry_count h)"
    and r: "rd_file r = fl" "rd_block_count r = sh_block_count h" "rd_entry_count r = sh_entry_count h"
      "rd_seq_lo r = sh_seq_lo h" "rd_seq_hi r = sh_seq_hi h" "rd_data r = blks" "rd_index r = index"
    using assms by (fastforce simp: open_inner_def Let_def rbind_Inr_iff split: if_splits option.splits prod.splits)
  have "walk_wf fl wk" by (rule walk_blocks_wf [OF o'(2)]) (simp add: walk_wf_def)
  moreover have idx: "list_all2 same_block (wk_data wk) blks \<and> n = (\<Sum>b\<leftarrow>blks. unat (db_entries b))
      \<and> (\<forall>b \<in> set blks. key_range index (db_first b) \<and> key_range index (db_last b))"
    using index_loop_wf [OF o'(3)] by (simp add: cursor_new_def)
  ultimately have "sorted_wrt (\<lambda>a b. block_stop a \<le> db_header b) blks"
    "\<forall>b \<in> set blks. block_stop b \<le> length fl \<and> unat (db_entries b) * MIN_ENTRY_LEN \<le> db_payload_len b"
    using same_blocks_wf [of "wk_data wk" blks "length fl"] by (auto simp: walk_wf_def)
  then show ?thesis
    using idx o'(4-6) open_header_seq [OF o'(1)] r by (auto simp: reader_wf_def list_all2_lengthD)
qed

text \<open>C29. Whatever bytes it is given, a reader that \<^verbatim>\<open>SegmentReader::open\<close> returns is well formed:
  its data blocks lie inside the file without overlap, each is long enough for the entries it claims,
  the index keys lie inside the index block, and the counts agree with the header. A later block read
  therefore never runs past the end of the file: it fails only on a checksum mismatch.\<close>

theorem segment_open_well_formed:
  assumes "open_inner sha file = Inr r"
  shows "rd_file r = file \<and> reader_wf r
    \<and> (\<forall>i < length (rd_data r). case block_raw sha r i of
         Inl e \<Rightarrow> e = Corrupt ''data block checksum mismatch''
       | Inr raw \<Rightarrow> length raw = BLOCK_HEADER_LEN + db_payload_len (rd_data r ! i))"
proof -
  have "case block_raw sha r i of Inl e \<Rightarrow> e = Corrupt ''data block checksum mismatch''
      | Inr raw \<Rightarrow> length raw = BLOCK_HEADER_LEN + db_payload_len (rd_data r ! i)" if "i < length (rd_data r)" for i
  proof -
    have "block_stop (rd_data r ! i) \<le> length (rd_file r)"
      using open_inner_wf [OF assms] that by (auto simp: reader_wf_def)
    then have "\<not> length (rd_file r) < db_header (rd_data r ! i)"
      "BLOCK_HEADER_LEN + db_payload_len (rd_data r ! i) \<le> length (rd_file r) - db_header (rd_data r ! i)"
      by (simp_all add: block_stop_def)
    then show ?thesis by (simp add: block_raw_def Let_def read_segment_at_def)
  qed
  then show ?thesis using open_inner_wf [OF assms] by blast
qed

theorem segment_open_well_formed_witness:
  "\<exists>r. published demo_sha (demo_writer 64) demo_rows r \<and> reader_wf r"
proof -
  obtain r where r: "published demo_sha (demo_writer 64) demo_rows r" using demo_published by blast
  then obtain fl where "open_inner demo_sha fl = Inr r" by (auto simp: published_def split: sum.splits)
  from segment_open_well_formed [OF this] r show ?thesis by blast
qed

section \<open>Rounds of a scan\<close>








section \<open>Where a scan can panic\<close>

text \<open>The restart table of version 2 with no entry: the seek slices its first offset all the same.\<close>

definition empty_restarts :: "data_block \<Rightarrow> bytes \<Rightarrow> bool" where
  "empty_restarts b payload \<longleftrightarrow> db_v2 b \<and> \<not> db_v4 b \<and> le_u32 (take 4 (drop 2 payload)) = 0"

lemma rbind_Inl_iff: "rbind m f = Inl e \<longleftrightarrow> m = Inl e \<or> (\<exists>x. m = Inr x \<and> f x = Inl e)"
  by (cases m) auto

lemma no_panic_cursor [simp]:
  "cur_take n c \<noteq> Inl Panicked" "cur_u8 c \<noteq> Inl Panicked" "cur_u16 c \<noteq> Inl Panicked" "cur_u32 c \<noteq> Inl Panicked"
  "cur_u64 c \<noteq> Inl Panicked" "cur_vec c \<noteq> Inl Panicked"
proof -
  show t: "cur_take n c \<noteq> Inl Panicked" for n c by (simp add: cur_take_def)
  show "cur_u8 c \<noteq> Inl Panicked" "cur_u16 c \<noteq> Inl Panicked" "cur_u64 c \<noteq> Inl Panicked"
    by (auto simp: cur_u8_def cur_u16_def cur_u64_def rbind_Inl_iff t)
  show u: "cur_u32 c \<noteq> Inl Panicked" for c by (auto simp: cur_u32_def rbind_Inl_iff t)
  show "cur_vec c \<noteq> Inl Panicked" by (auto simp: cur_vec_def rbind_Inl_iff t u)
qed

lemma no_panic_entry [simp]:
  "cur_entry_key scratch c \<noteq> Inl Panicked" "cur_entry_body v3 k c \<noteq> Inl Panicked" "skip_entry_body v3 c \<noteq> Inl Panicked"
  by (auto simp: cur_entry_key_def cur_entry_body_def cur_entry_rid_def skip_entry_body_def rbind_Inl_iff split: if_splits)

lemma no_panic_table [simp]: "table_len v4 payload \<noteq> Inl Panicked" "restart_at payload offs len j \<noteq> Inl Panicked"
  by (auto simp: table_len_def restart_at_def restart_key_def rbind_Inl_iff Let_def split: if_splits)




lemma scan_seek_pos_empty:
  assumes "6 \<le> length payload" and "le_u32 (take 4 (drop 2 payload)) = 0"
  shows "scan_seek_pos payload True False start = Inl Panicked"
proof -
  have "table_len False payload = Inr (0, 6)"
    using assms by (simp add: table_len_def Let_def cur_u16_def cur_u32_def cur_take_def cursor_new_def remaining_def numeral_2_eq_2)
  then show ?thesis by (simp add: scan_seek_pos_def Let_def bin_search.simps)
qed




text \<open>Such a block does make a scan panic when its turn comes.\<close>

lemma scan_next_empty_restarts:
  assumes "\<not> sc_done st" and "sc_raw st = None" and "sc_block st < length (rd_data r)"
    and "\<not> past_end (sc_end st) (block_key r (db_first (rd_data r ! sc_block st)))"
    and "block_raw sha r (sc_block st) = Inr raw" and "BLOCK_HEADER_LEN + 6 \<le> length raw"
    and "empty_restarts (rd_data r ! sc_block st) (drop BLOCK_HEADER_LEN raw)"
  shows "scan_next sha r st = (Inl Panicked, st)"
proof -
  have "load_block sha r st = Inl Panicked"
    using assms(3-7) scan_seek_pos_empty [of "drop BLOCK_HEADER_LEN raw" "sc_start st"]
    by (simp add: load_block_def Let_def empty_restarts_def)
  then show ?thesis using assms(1,2) by (subst scan_next.simps) (simp add: scan_step_def)
qed



end
