(* ===== verification/MergeSource.thy ===== *)
theory MergeSource
  imports Compaction "HOL-Library.Multiset"
begin

text \<open>
  The source of the merge: the heap over the front rows of the segment iterators delivers
  the rows of all inputs in one global publish order.
\<close>

section \<open>The source delivers the rows in order\<close>

text \<open>Iterators \<open>pending\<close> have not been asked for their next row; every other iterator has its
  next row in the heap or is exhausted. \<open>rows\<close> are all rows still to come, in order.\<close>

definition src_inv :: "digest_fn \<Rightarrow> nat set \<Rightarrow> merge_source \<Rightarrow> segment_entry list list \<Rightarrow> segment_entry list \<Rightarrow> bool" where
  "src_inv sha pending src lefts rows \<longleftrightarrow> length lefts = length (ms_iters src)
    \<and> (\<forall>i < length lefts. \<exists>w blks. reader_holds sha w blks (fst (ms_iters src ! i)) \<and> iter_left blks (snd (ms_iters src ! i)) = lefts ! i)
    \<and> (\<forall>i < length lefts. publish_order (lefts ! i))
    \<and> distinct (map he_idx (ms_heap src)) \<and> pending \<inter> he_idx ` set (ms_heap src) = {} \<and> pending \<subseteq> {..<length lefts}
    \<and> (\<forall>h \<in> set (ms_heap src). he_idx h < length lefts \<and> publish_order (he_entry h # lefts ! he_idx h))
    \<and> (\<forall>i < length lefts. i \<notin> pending \<longrightarrow> i \<notin> he_idx ` set (ms_heap src) \<longrightarrow> lefts ! i = [])
    \<and> publish_order rows \<and> mset rows = mset (map he_entry (ms_heap src)) + mset (concat lefts)"

definition src_holds :: "digest_fn \<Rightarrow> nat set \<Rightarrow> merge_source \<Rightarrow> segment_entry list \<Rightarrow> bool" where
  "src_holds sha pending src rows \<longleftrightarrow> (\<exists>lefts. src_inv sha pending src lefts rows)"

lemma mset_concat_update:
  "i < length xss \<Longrightarrow> xss ! i = x # xs \<Longrightarrow> mset (concat (xss[i := xs])) + {#x#} = mset (concat xss)"
proof (induction xss arbitrary: i)
  case (Cons ys xss)
  then show ?case by (cases i) auto
qed simp

lemma advance_src:
  assumes "src_inv sha P src lefts rows" and "i \<in> P"
  shows "\<exists>src'. advance sha i src = Inr src' \<and> src_holds sha (P - {i}) src' rows"
proof -
  have i: "i < length lefts" "length lefts = length (ms_iters src)" "i \<notin> he_idx ` set (ms_heap src)"
    using assms by (auto simp: src_inv_def)
  obtain r it where p: "ms_iters src ! i = (r, it)" by fastforce
  obtain w blks where h: "reader_holds sha w blks r" "iter_left blks it = lefts ! i"
    using assms(1) i(1) p by (auto simp: src_inv_def)
  show ?thesis
  proof (cases "lefts ! i")
    case Nil
    have n: "iter_next sha r it = (Inr None, it)" by (rule iter_next_Nil [OF h(1)]) (simp add: h(2) Nil)
    have "(ms_iters src)[i := (r, it)] = ms_iters src" using p by (metis list_update_id)
    then have "advance sha i src = Inr src" using i n p by (simp add: advance_def)
    moreover have "src_inv sha (P - {i}) src lefts rows" using assms Nil by (auto simp: src_inv_def)
    ultimately show ?thesis by (auto simp: src_holds_def)
  next
    case (Cons e es)
    obtain it' where n: "iter_next sha r it = (Inr (Some e), it')" "iter_left blks it' = es"
      using iter_next_Cons [OF h(1)] h(2) Cons by metis
    let ?src = "src\<lparr>ms_iters := (ms_iters src)[i := (r, it')], ms_heap := \<lparr>he_entry = e, he_idx = i\<rparr> # ms_heap src\<rparr>"
    have a: "advance sha i src = Inr ?src" using i n p by (simp add: advance_def)
    have ord: "publish_order (e # es)" using assms(1) i(1) Cons by (metis src_inv_def)
    have "src_inv sha (P - {i}) ?src (lefts[i := es]) rows"
      unfolding src_inv_def
    proof (intro conjI allI impI ballI)
      show "\<exists>w blks. reader_holds sha w blks (fst (ms_iters ?src ! j)) \<and> iter_left blks (snd (ms_iters ?src ! j)) = lefts[i := es] ! j"
        if "j < length (lefts[i := es])" for j
        using that assms(1) h(1) n(2) i(1,2) by (cases "j = i") (auto simp: src_inv_def)
      show "publish_order (lefts[i := es] ! j)" if "j < length (lefts[i := es])" for j
        using that assms(1) ord i(1) by (cases "j = i") (auto simp: src_inv_def publish_order_Cons)
      show "publish_order (he_entry x # lefts[i := es] ! he_idx x)" if "x \<in> set (ms_heap ?src)" for x
      proof (cases "he_idx x = i")
        case True
        then have "x = \<lparr>he_entry = e, he_idx = i\<rparr>" using that i(3) by auto
        then show ?thesis using ord i(1) by simp
      next
        case False
        then have "x \<in> set (ms_heap src)" using that by auto
        then show ?thesis using assms(1) False by (auto simp: src_inv_def)
      qed
      show "lefts[i := es] ! j = []" if "j < length (lefts[i := es])" "j \<notin> P - {i}" "j \<notin> he_idx ` set (ms_heap ?src)" for j
        using that assms(1) by (cases "j = i") (auto simp: src_inv_def)
      show "mset rows = mset (map he_entry (ms_heap ?src)) + mset (concat (lefts[i := es]))"
        using assms(1) mset_concat_update [OF i(1) Cons] by (simp add: src_inv_def del: mset_concat)
    qed (use assms i in \<open>auto simp: src_inv_def\<close>)
    then show ?thesis using a by (auto simp: src_holds_def)
  qed
qed

lemma merge_start_src:
  assumes "list_all2 (\<lambda>r es. \<exists>w blks. reader_holds sha w blks r \<and> concat blks = es) rs ess"
    and "publish_order rows" and "mset rows = mset (concat ess)"
  shows "\<exists>src. merge_start sha rs = Inr src \<and> src_holds sha {} src rows"
proof -
  let ?src = "\<lparr>ms_iters = map (\<lambda>r. (r, segment_iter_new)) rs, ms_heap = []\<rparr>"
  have n: "length ess = length rs" using assms(1) by (simp add: list_all2_lengthD)
  have at: "\<exists>w blks. reader_holds sha w blks (rs ! i) \<and> concat blks = ess ! i" if "i < length rs" for i
    using assms(1) that n by (auto simp: list_all2_conv_all_nth)
  have "src_inv sha (set [0..<length rs]) ?src ess rows"
    unfolding src_inv_def
  proof (intro conjI allI impI)
    fix i
    assume "i < length ess"
    then show "\<exists>w blks. reader_holds sha w blks (fst (ms_iters ?src ! i)) \<and> iter_left blks (snd (ms_iters ?src ! i)) = ess ! i"
      and "publish_order (ess ! i)"
      using at [of i] n by (auto simp: iter_left_def segment_iter_new_def reader_holds_def)
  qed (use n assms(2,3) in auto)
  then have "src_holds sha (set [0..<length rs]) ?src rows" by (auto simp: src_holds_def)
  moreover have "\<exists>src'. rfold (advance sha) is src = Inr src' \<and> src_holds sha {} src' rows"
    if "src_holds sha (set is) src rows" "distinct is" for "is" src
    using that
  proof (induction "is" arbitrary: src)
    case (Cons i "is")
    then obtain src' where "advance sha i src = Inr src'" "src_holds sha (set (i # is) - {i}) src' rows"
      using advance_src [of sha "set (i # is)" src _ rows i] unfolding src_holds_def by (meson list.set_intros(1))
    moreover have "set (i # is) - {i} = set is" using Cons.prems(2) by auto
    ultimately show ?case using Cons.IH [of src'] Cons.prems(2) by simp
  qed simp
  ultimately show ?thesis by (simp add: merge_start_def)
qed

lemma he_less_weak: "he_less a c \<Longrightarrow> he_less a b \<or> he_less b c"
proof -
  let ?k = "\<lambda>x. se_key (he_entry x)" and ?s = "\<lambda>x. se_seq (he_entry x)"
  assume ac: "he_less a c"
  consider "?k b < ?k a" | "?k c < ?k b" | "?k a = ?k b" "?k b = ?k c"
    using ac unfolding he_less_def by (metis less_le_trans not_less order.antisym)
  then show "he_less a b \<or> he_less b c"
  proof cases
    case 3
    then have "?s a < ?s c \<or> ?s a = ?s c \<and> he_idx a < he_idx c" using ac by (simp add: he_less_def)
    moreover have "?s a < ?s b \<or> ?s a = ?s b \<or> ?s b < ?s a" "he_idx a < he_idx b \<or> he_idx b \<le> he_idx a" by auto
    ultimately show ?thesis using 3 by (auto simp: he_less_def)
  qed (auto simp: he_less_def)
qed

lemma he_less_asym: "he_less a b \<Longrightarrow> \<not> he_less b a"
  unfolding he_less_def by (metis less_asym less_irrefl)

lemma heap_max_greatest: "x \<in> set (h # hs) \<Longrightarrow> \<not> he_less (heap_max h hs) x"
proof (induction hs arbitrary: h x)
  case Nil
  then show ?case by (auto simp: heap_max_def he_less_def)
next
  case (Cons a hs)
  let ?m = "if he_less h a then a else h"
  have eq: "heap_max h (a # hs) = heap_max ?m hs" by (simp add: heap_max_def)
  show ?case
  proof (cases "x \<in> set (?m # hs)")
    case True
    then show ?thesis using Cons.IH unfolding eq by blast
  next
    case False
    then have "\<not> he_less ?m x" using Cons.prems he_less_asym [of h a] by (cases "he_less h a") auto
    moreover have "\<not> he_less (heap_max ?m hs) ?m" by (rule Cons.IH) simp
    ultimately show ?thesis using he_less_weak unfolding eq by blast
  qed
qed

lemma pop_src:
  assumes "src_inv sha {} src lefts rows"
  shows "merge_heap_pop (ms_heap src) = None \<Longrightarrow> rows = []"
    and "merge_heap_pop (ms_heap src) = Some (h, heap) \<Longrightarrow>
      \<exists>rows'. rows = he_entry h # rows' \<and> src_inv sha {he_idx h} (src\<lparr>ms_heap := heap\<rparr>) lefts rows'"
proof -
  have heap: "\<And>x. x \<in> set (ms_heap src) \<Longrightarrow> he_idx x < length lefts \<and> publish_order (he_entry x # lefts ! he_idx x)"
    and idle: "\<And>i. i < length lefts \<Longrightarrow> i \<notin> he_idx ` set (ms_heap src) \<Longrightarrow> lefts ! i = []"
    and rows: "publish_order rows" "mset rows = mset (map he_entry (ms_heap src)) + mset (concat lefts)"
    using assms by (auto simp: src_inv_def)
  have mem: "set rows = he_entry ` set (ms_heap src) \<union> set (concat lefts)"
    using arg_cong [OF rows(2), of set_mset] by (simp del: mset_concat)
  {
    assume "merge_heap_pop (ms_heap src) = None"
    then have "ms_heap src = []" by (cases "ms_heap src") (auto simp: merge_heap_pop_def)
    then have "\<forall>xs \<in> set lefts. xs = []" using idle by (auto simp: in_set_conv_nth)
    then have "set rows = {}" using mem \<open>ms_heap src = []\<close> by auto
    then show "rows = []" by simp
  }
  assume pop: "merge_heap_pop (ms_heap src) = Some (h, heap)"
  then obtain y ys where "ms_heap src = y # ys" by (cases "ms_heap src") (auto simp: merge_heap_pop_def)
  then have h: "h \<in> set (ms_heap src)" "heap = remove1 h (ms_heap src)" "\<And>x. x \<in> set (ms_heap src) \<Longrightarrow> \<not> he_less h x"
    using pop heap_max_in [of y ys] heap_max_greatest [of _ y ys] by (auto simp: merge_heap_pop_def simp del: remove1.simps)
  obtain r0 rows' where r0: "rows = r0 # rows'" using h(1) mem by (cases rows) auto
  have first: "entry_before r0 e \<or> e = r0" if "e \<in> set rows" for e using rows(1) that r0 by (auto simp: publish_order_Cons)
  have asym: "\<not> (entry_before a b \<and> entry_before b a)" for a b by (auto simp: entry_before_def)
  have "he_entry h = r0"
  proof (rule ccontr)
    assume ne: "he_entry h \<noteq> r0"
    have "r0 \<in> he_entry ` set (ms_heap src)"
    proof (rule ccontr)
      assume "r0 \<notin> he_entry ` set (ms_heap src)"
      then obtain xs where "xs \<in> set lefts" "r0 \<in> set xs" using mem r0 by auto
      then obtain i where i: "i < length lefts" "r0 \<in> set (lefts ! i)" by (auto simp: in_set_conv_nth [of xs])
      then obtain x where x: "x \<in> set (ms_heap src)" "he_idx x = i" using idle [of i] by fastforce
      then have "entry_before (he_entry x) r0" using heap [OF x(1)] i(2) by (auto simp: publish_order_Cons)
      then show False using first [of "he_entry x"] mem x(1) asym by auto
    qed
    then obtain x where x: "x \<in> set (ms_heap src)" "he_entry x = r0" by auto
    have "entry_before r0 (he_entry h)" using first [of "he_entry h"] mem h(1) ne by auto
    then have "he_less h x" using x(2) by (auto simp: entry_before_def he_less_def)
    then show False using h(3) x(1) by blast
  qed
  moreover have "src_inv sha {he_idx h} (src\<lparr>ms_heap := heap\<rparr>) lefts rows'"
  proof -
    have "distinct (map he_idx (ms_heap src))" using assms by (simp add: src_inv_def)
    then have d: "inj_on he_idx (set (ms_heap src))" "distinct (ms_heap src)" by (auto simp: distinct_map)
    have hs: "set heap = set (ms_heap src) - {h}" using d(2) h(2) by (simp add: set_remove1_eq)
    have "mset (ms_heap src) = add_mset h (mset heap)" using h(1,2) by simp
    then have "mset (map he_entry (ms_heap src)) = add_mset r0 (mset (map he_entry heap))"
      using \<open>he_entry h = r0\<close> by simp
    then have ms: "mset rows' = mset (map he_entry heap) + mset (concat lefts)" using rows(2) r0 by (simp del: mset_concat)
    have "distinct (map he_idx heap)" using d hs by (auto simp: distinct_map h(2) inj_on_def)
    moreover have "{he_idx h} \<inter> he_idx ` set heap = {}" using d(1) h(1) hs by (auto simp: inj_on_def)
    moreover have "lefts ! i = []" if "i < length lefts" "i \<notin> {he_idx h}" "i \<notin> he_idx ` set heap" for i
      using idle [OF that(1)] that(2,3) hs by (auto simp: image_iff)
    ultimately show ?thesis using assms ms h(1) hs rows(1) r0 heap
      unfolding src_inv_def by (auto simp: publish_order_Cons)
  qed
  ultimately show "\<exists>rows'. rows = he_entry h # rows' \<and> src_inv sha {he_idx h} (src\<lparr>ms_heap := heap\<rparr>) lefts rows'"
    using r0 by blast
qed

text \<open>One step of the source: pop the first row and ask its iterator for the next.\<close>

lemma next_src:
  assumes "src_holds sha {} src rows"
  shows "case merge_heap_pop (ms_heap src) of
      None \<Rightarrow> rows = []
    | Some (h, heap) \<Rightarrow> \<exists>rows' src'. rows = he_entry h # rows'
        \<and> advance sha (he_idx h) (src\<lparr>ms_heap := heap\<rparr>) = Inr src' \<and> src_holds sha {} src' rows'"
proof -
  obtain lefts where inv: "src_inv sha {} src lefts rows" using assms by (auto simp: src_holds_def)
  show ?thesis
  proof (cases "merge_heap_pop (ms_heap src)")
    case None
    then show ?thesis using pop_src(1) [OF inv] by simp
  next
    case (Some p)
    obtain h heap where p: "p = (h, heap)" by fastforce
    obtain rows' where r: "rows = he_entry h # rows'" "src_inv sha {he_idx h} (src\<lparr>ms_heap := heap\<rparr>) lefts rows'"
      using pop_src(2) [OF inv] Some p by blast
    then show ?thesis using advance_src [OF r(2), of "he_idx h"] Some p by auto
  qed
qed

lemma drain_run_src:
  assumes "src_holds sha {} src rows" and "run \<noteq> []"
  defines "same \<equiv> \<lambda>e. se_key e = se_key (hd run)"
  shows "\<exists>src'. drain_run sha src run = Inr (src', run @ takeWhile same rows) \<and> src_holds sha {} src' (dropWhile same rows)"
  using assms(1,2) unfolding same_def
proof (induction rows arbitrary: src run)
  case Nil
  then have "merge_heap_pop (ms_heap src) = None" using next_src [OF Nil(1)] by (auto split: option.splits)
  then show ?case using Nil by (subst drain_run.simps) simp
next
  case (Cons e rows)
  then obtain h heap src' where n: "merge_heap_pop (ms_heap src) = Some (h, heap)" "e = he_entry h"
    "advance sha (he_idx h) (src\<lparr>ms_heap := heap\<rparr>) = Inr src'" "src_holds sha {} src' rows"
    using next_src [OF Cons.prems(1)] by (auto split: option.splits)
  show ?case
  proof (cases "se_key e = se_key (hd run)")
    case True
    then show ?thesis using Cons.IH [OF n(4), of "run @ [e]"] Cons.prems(2) n by (subst drain_run.simps) simp
  next
    case False
    then show ?thesis using Cons.prems(1) n by (subst drain_run.simps) simp
  qed
qed

end
