(* ===== verification/CompactMerge.thy ===== *)
theory CompactMerge
  imports MergeSource
begin

text \<open>
  What the merge of \<^verbatim>\<open>compaction.rs\<close> publishes, as a function of the ordered rows of its inputs.
\<close>

section \<open>Chunks\<close>

text \<open>An upper bound of what a row adds to a block, to the index and to the Bloom filter; rows and
  chunk caps for which every chunk stays within the limits of the format.\<close>

definition row_weight :: "segment_entry \<Rightarrow> nat" where
  "row_weight e = 2 * length (se_key e) + length (se_value e) + 64"

definition cap_ok :: "nat \<Rightarrow> segment_entry list \<Rightarrow> bool" where
  "cap_ok chunk_bytes rows \<longleftrightarrow> (\<forall>e \<in> set rows. length (se_key e) \<le> U16_MAX \<and> entry_bytes e \<le> 2 ^ 29)
    \<and> (if chunk_bytes = 0 then (\<Sum>e\<leftarrow>rows. row_weight e) < 2 ^ 32 else chunk_bytes \<le> 2 ^ 29)"

definition rows_fit :: "segment_entry list \<Rightarrow> bool" where
  "rows_fit es \<longleftrightarrow> (\<forall>e \<in> set es. entry_ok True e) \<and> (\<Sum>e\<leftarrow>es. row_weight e) < 2 ^ 32"

definition writer_plain :: "nat \<Rightarrow> segment_writer \<Rightarrow> segment_entry list \<Rightarrow> bool" where
  "writer_plain target w es \<longleftrightarrow> sw_target w = target \<and> sw_v2 w \<and> (sw_v3 w \<longleftrightarrow> sw_v4 w)
    \<and> (\<forall>e \<in> set es. se_replica e \<noteq> ReplicaId 0 \<longrightarrow> sw_v4 w)"

lemma sum_list_member: "x \<in> set xs \<Longrightarrow> f x \<le> (\<Sum>x\<leftarrow>xs. f x :: nat)"
  by (induction xs) auto

lemma sum_list_map_concat: "(\<Sum>x\<leftarrow>concat xss. f x) = (\<Sum>xs\<leftarrow>xss. \<Sum>x\<leftarrow>xs. f x :: nat)"
  by (induction xss) simp_all

lemma block_size_weight: "es \<noteq> [] \<Longrightarrow> block_size w es \<le> (\<Sum>e\<leftarrow>es. row_weight e)"
proof -
  have e: "8 + entry_size v3 0 e + 10 \<le> row_weight e" for v3 e by (simp add: entry_size_def row_weight_def)
  assume "es \<noteq> []"
  then obtain x xs where es: "es = x # xs" by (cases es) auto
  have "(\<Sum>e\<leftarrow>xs. 8 + entry_size (sw_v3 w) 0 e) \<le> (\<Sum>e\<leftarrow>xs. row_weight e)"
    by (rule sum_list_mono) (simp add: entry_size_def row_weight_def)
  then show ?thesis using e [of "sw_v3 w" x] by (simp add: block_size_def es)
qed

lemma index_weight: "blk \<noteq> [] \<Longrightarrow> 16 + length (se_key (hd blk)) + length (se_key (last blk)) \<le> (\<Sum>e\<leftarrow>blk. row_weight e)"
proof -
  assume "blk \<noteq> []"
  then obtain x xs where blk: "blk = x # xs" by (cases blk) auto
  show ?thesis
  proof (cases "xs = []")
    case False
    then have "last xs \<in> set xs" by simp
    then have "row_weight (last xs) \<le> (\<Sum>e\<leftarrow>xs. row_weight e)" by (rule sum_list_member)
    then show ?thesis using False by (simp add: blk row_weight_def)
  qed (simp add: blk row_weight_def)
qed

lemma rows_fit_segment:
  assumes "rows_fit es" and "writer_plain target w es" and "es \<noteq> []"
  shows "segment_fits w es"
proof -
  have total: "(\<Sum>blk\<leftarrow>blocks w es. \<Sum>e\<leftarrow>blk. row_weight e) = (\<Sum>e\<leftarrow>es. row_weight e)"
    using sum_list_map_concat [of row_weight "blocks w es"] concat_blocks [OF assms(3), of w] by simp
  have ne: "blk \<noteq> []" if "blk \<in> set (blocks w es)" for blk using blocks_nonempty [OF assms(3) that] .
  have "index_size (blocks w es) \<le> (\<Sum>blk\<leftarrow>blocks w es. \<Sum>e\<leftarrow>blk. row_weight e)"
    unfolding index_size_def by (rule sum_list_mono) (rule index_weight [OF ne])
  moreover have "block_size w blk < 2 ^ 32" if "blk \<in> set (blocks w es)" for blk
  proof -
    have "block_size w blk \<le> (\<Sum>e\<leftarrow>blk. row_weight e)" by (rule block_size_weight [OF ne [OF that]])
    also have "\<dots> \<le> (\<Sum>blk\<leftarrow>blocks w es. \<Sum>e\<leftarrow>blk. row_weight e)"
      by (rule sum_list_member [OF that])
    finally show ?thesis using assms(1) total by (simp add: rows_fit_def)
  qed
  moreover have "10 * length es \<le> (\<Sum>e\<leftarrow>es. row_weight e)"
    by (induction es) (auto simp: row_weight_def)
  moreover have "entry_ok (sw_v3 w) e" if "e \<in> set es" for e
    using assms(1,2) that by (auto simp: rows_fit_def writer_plain_def entry_ok_def)
  ultimately show ?thesis using assms(1,2) total
    by (auto simp: segment_fits_def writer_ok_def writer_plain_def rows_fit_def BLOOM_BITS_PER_KEY_def)
qed

lemma row_weight_bytes: "row_weight e \<le> 4 * entry_bytes e"
  by (simp add: row_weight_def entry_bytes_def)

lemma weight_bytes: "(\<Sum>e\<leftarrow>es. row_weight e) \<le> 4 * (\<Sum>e\<leftarrow>es. entry_bytes e)"
proof (induction es)
  case (Cons e es)
  then show ?case using row_weight_bytes [of e] by simp
qed simp

lemma cap_ok_append: "cap_ok cb (xs @ ys) \<Longrightarrow> cap_ok cb xs"
  by (auto simp: cap_ok_def split: if_splits)

lemma publish_order_append: "publish_order (xs @ ys) \<Longrightarrow> publish_order xs \<and> publish_order ys"
  by (simp add: publish_order_def sorted_wrt_append)

lemma publish_ok:
  assumes "sha_ok sha" and "rows_fit es" and "writer_plain target w es" and "es \<noteq> []" and "publish_order es" and "target \<noteq> 0"
  shows "\<exists>file checksum anchors r. publish_sorted_entries sha w es = Inr (file, checksum, anchors)
    \<and> open_inner sha file = Inr r \<and> published sha w es r"
proof -
  have t: "sw_target w \<noteq> 0" using assms(3,6) by (simp add: writer_plain_def)
  note f = rows_fit_segment [OF assms(2-4)]
  obtain r where r: "published sha w es r" using published_exists [OF assms(1) f assms(5,4) t] by blast
  then show ?thesis by (auto simp: published_def split: sum.splits)
qed

text \<open>A cap is kept up to single rows that exceed it.\<close>

definition within :: "nat \<Rightarrow> segment_entry list \<Rightarrow> bool" where
  "within cb es \<longleftrightarrow> cb = 0 \<or> length es \<le> 1 \<or> (\<Sum>e\<leftarrow>es. entry_bytes e) \<le> cb"

text \<open>A sink after the rows \<open>out\<close>: the published \<open>parts\<close>, then the rows in the writer.\<close>

definition buffered ::
    "nat \<Rightarrow> nat \<Rightarrow> segment_writer \<Rightarrow> nat \<Rightarrow> segment_entry list list \<Rightarrow> segment_entry list \<Rightarrow> bool" where
  "buffered target cb w len parts out \<longleftrightarrow> out = concat parts @ sw_entries w \<and> writer_plain target w (sw_entries w)
    \<and> rows_fit (sw_entries w) \<and> len = (\<Sum>e\<leftarrow>sw_entries w. entry_bytes e) \<and> within cb (sw_entries w)
    \<and> (\<forall>es \<in> set parts. es \<noteq> [] \<and> within cb es) \<and> (cb = 0 \<longrightarrow> parts = [])"

lemma buffered_ready:
  assumes "buffered target cb w len parts out" and "publish_order out" and "0 < len"
  shows "writer_plain target w (sw_entries w)" and "rows_fit (sw_entries w)" and "sw_entries w \<noteq> []" and "publish_order (sw_entries w)"
    and "0 < cb \<Longrightarrow> buffered target cb (w\<lparr>sw_entries := []\<rparr>) 0 (parts @ [sw_entries w]) out"
proof -
  have out: "out = concat parts @ sw_entries w" using assms(1) by (simp add: buffered_def)
  show "publish_order (sw_entries w)" using assms(2) publish_order_append [of "concat parts"] unfolding out by simp
  have "len = (\<Sum>e\<leftarrow>sw_entries w. entry_bytes e)" using assms(1) by (simp add: buffered_def)
  then show ne: "sw_entries w \<noteq> []" using assms(3) by (cases "sw_entries w") simp_all
  show "writer_plain target w (sw_entries w)" "rows_fit (sw_entries w)" using assms(1) by (simp_all add: buffered_def)
  show "0 < cb \<Longrightarrow> buffered target cb (w\<lparr>sw_entries := []\<rparr>) 0 (parts @ [sw_entries w]) out"
    using assms(1) ne by (simp add: buffered_def writer_plain_def rows_fit_def within_def)
qed

lemma push_row_fits:
  assumes "rows_fit es" and "cap_ok cb (out @ [e])" and "cb = 0 \<Longrightarrow> \<exists>xs. out = xs @ es"
    and "0 < cb \<Longrightarrow> es \<noteq> [] \<Longrightarrow> (\<Sum>x\<leftarrow>es. entry_bytes x) + entry_bytes e \<le> cb"
  shows "rows_fit (es @ [e])"
proof -
  have e: "length (se_key e) \<le> U16_MAX" "entry_bytes e \<le> 2 ^ 29" using assms(2) by (auto simp: cap_ok_def)
  then have ok: "entry_ok True e" by (simp add: entry_ok_def entry_bytes_def)
  have "(\<Sum>x\<leftarrow>es @ [e]. row_weight x) < 2 ^ 32"
  proof (cases "cb = 0")
    case True
    then obtain xs where "out = xs @ es" using assms(3) by blast
    then show ?thesis using assms(2) True by (simp add: cap_ok_def)
  next
    case False
    have "(\<Sum>x\<leftarrow>es @ [e]. entry_bytes x) \<le> 2 ^ 29"
    proof (cases "es = []")
      case False
      then show ?thesis using assms(4) \<open>cb \<noteq> 0\<close> assms(2) by (simp add: cap_ok_def)
    qed (use e in simp)
    then show ?thesis by (intro le_less_trans [OF weight_bytes]) simp
  qed
  then show ?thesis using assms(1) ok by (simp add: rows_fit_def)
qed

lemma buffered_push:
  assumes "buffered target cb w len parts out" and "cap_ok cb (out @ [e])"
    and "\<not> (0 < cb \<and> 0 < len \<and> cb < len + entry_bytes e)"
    and "w' = writer_push e (if se_replica e \<noteq> ReplicaId 0 then enable_v4 w else w)"
  shows "buffered target cb w' (len + entry_bytes e) parts (out @ [e])"
proof -
  let ?es = "sw_entries w"
  have inv: "out = concat parts @ ?es" "rows_fit ?es" "writer_plain target w ?es" "len = (\<Sum>x\<leftarrow>?es. entry_bytes x)"
    "within cb ?es" "\<forall>es \<in> set parts. es \<noteq> [] \<and> within cb es" "cb = 0 \<longrightarrow> parts = []"
    using assms(1) by (simp_all add: buffered_def)
  have room: "(\<Sum>x\<leftarrow>?es. entry_bytes x) + entry_bytes e \<le> cb" if "0 < cb" "?es \<noteq> []"
  proof -
    have "0 < len" using inv(4) that(2) by (cases ?es) (auto simp: entry_bytes_def)
    then have "len + entry_bytes e \<le> cb" using assms(3) that(1) by simp
    then show ?thesis unfolding inv(4) .
  qed
  have "rows_fit (?es @ [e])"
    by (rule push_row_fits [OF inv(2) assms(2)]) (use inv(1) room in auto)
  moreover have "within cb (?es @ [e])" using room by (cases "?es = []") (auto simp: within_def)
  moreover have "sw_entries w' = ?es @ [e]" by (simp add: assms(4) writer_push_def enable_v4_def)
  moreover have "writer_plain target w' (?es @ [e])"
    using inv(3) by (auto simp: assms(4) writer_plain_def writer_push_def enable_v4_def)
  ultimately show ?thesis using inv by (simp add: buffered_def)
qed

text \<open>What the live and the archive sink share: \<open>flush\<close> publishes the rows of the writer and empties
  it, \<open>put\<close> replaces the writer and the byte count.\<close>

locale chunk_sink =
  fixes writer :: "'s \<Rightarrow> segment_writer" and len :: "'s \<Rightarrow> nat"
    and put :: "segment_writer \<Rightarrow> nat \<Rightarrow> 's \<Rightarrow> 's"
    and flush :: "digest_fn \<Rightarrow> 's \<Rightarrow> u64 \<Rightarrow> ('s \<times> u64) fres"
    and holds :: "digest_fn \<Rightarrow> 's \<Rightarrow> segment_entry list list \<Rightarrow> bool"
  assumes put: "writer (put w l s) = w" "len (put w l s) = l" "holds sha (put w l s) parts = holds sha s parts"
    and flush: "publish_sorted_entries sha (writer s) (sw_entries (writer s)) = Inr (file, checksum, anchors) \<Longrightarrow>
      published sha (writer s) (sw_entries (writer s)) r \<Longrightarrow> open_inner sha file = Inr r \<Longrightarrow>
      writer_plain target (writer s) (sw_entries (writer s)) \<Longrightarrow> holds sha s parts \<Longrightarrow>
      \<exists>s' n'. flush sha s n = Inr (s', n') \<and> writer s' = (writer s)\<lparr>sw_entries := []\<rparr> \<and> len s' = 0
        \<and> holds sha s' (parts @ [sw_entries (writer s)])"
begin

lemma flush_ok:
  assumes "sha_ok sha" and "target \<noteq> 0" and "holds sha s parts" and "buffered target cb (writer s) (len s) parts out"
    and "publish_order out" and "0 < len s"
  shows "\<exists>s' n'. flush sha s n = Inr (s', n') \<and> holds sha s' (parts @ [sw_entries (writer s)])
    \<and> writer s' = (writer s)\<lparr>sw_entries := []\<rparr> \<and> len s' = 0"
proof -
  note ready = buffered_ready(1-4) [OF assms(4-6)]
  obtain fl checksum anchors r where p: "publish_sorted_entries sha (writer s) (sw_entries (writer s)) = Inr (fl, checksum, anchors)"
    "open_inner sha fl = Inr r" "published sha (writer s) (sw_entries (writer s)) r"
    using publish_ok [OF assms(1) ready(2,1,3,4) assms(2)] by blast
  from flush [OF p(1,3,2) ready(1) assms(3)] show ?thesis by blast
qed

lemma push_ok:
  assumes "sha_ok sha" and "target \<noteq> 0" and "holds sha s parts" and "buffered target cb (writer s) (len s) parts out"
    and "publish_order out" and "cap_ok cb (out @ [e])"
    and full: "full \<longleftrightarrow> 0 < cb \<and> 0 < len s \<and> cb < len s + entry_bytes e"
  shows "\<exists>s1 n1 w' parts'. (if full then flush sha s n else Inr (s, n)) = Inr (s1, n1)
    \<and> w' = writer_push e (if se_replica e \<noteq> ReplicaId 0 then enable_v4 (writer s1) else writer s1)
    \<and> holds sha (put w' (len s1 + entry_bytes e) s1) parts' \<and> buffered target cb w' (len s1 + entry_bytes e) parts' (out @ [e])"
proof -
  obtain s1 n1 parts1 where one: "(if full then flush sha s n else Inr (s, n)) = Inr (s1, n1)" "holds sha s1 parts1"
    "buffered target cb (writer s1) (len s1) parts1 out" "\<not> (0 < cb \<and> 0 < len s1 \<and> cb < len s1 + entry_bytes e)"
  proof (cases full)
    case True
    obtain s1 n1 where f: "flush sha s n = Inr (s1, n1)" "holds sha s1 (parts @ [sw_entries (writer s)])"
      "writer s1 = (writer s)\<lparr>sw_entries := []\<rparr>" "len s1 = 0"
      using flush_ok [OF assms(1-5)] True full by blast
    moreover have "buffered target cb (writer s1) (len s1) (parts @ [sw_entries (writer s)]) out"
      using buffered_ready(5) [OF assms(4,5)] True full f(3,4) by simp
    ultimately show ?thesis using that True by simp
  next
    case False
    then show ?thesis using that [of s n parts] assms(3,4) full by simp
  qed
  let ?w = "writer_push e (if se_replica e \<noteq> ReplicaId 0 then enable_v4 (writer s1) else writer s1)"
  have "buffered target cb ?w (len s1 + entry_bytes e) parts1 (out @ [e])"
    by (rule buffered_push [OF one(3) assms(6) one(4) refl])
  then show ?thesis using one(1,2) put(3) by blast
qed

end

section \<open>The two sinks\<close>

text \<open>A published chunk: the file, its reader and the anchors of the rows \<open>es\<close>.\<close>

definition chunk_of :: "digest_fn \<Rightarrow> live_chunk \<Rightarrow> segment_entry list \<Rightarrow> bool" where
  "chunk_of sha c es \<longleftrightarrow> (\<exists>w target file. writer_plain target w es \<and> published sha w es (lc_reader c)
    \<and> publish_sorted_entries sha w es = Inr (file, lc_checksum c, lc_anchors c) \<and> lc_size c = word_of_nat (length file))"

definition live_put :: "segment_writer \<Rightarrow> nat \<Rightarrow> live_sink \<Rightarrow> live_sink" where
  "live_put w n sink = sink\<lparr>ls_len := n, ls_writer := w\<rparr>"

interpretation live: chunk_sink ls_writer ls_len live_put publish_chunk "\<lambda>sha sink. list_all2 (chunk_of sha) (ls_chunks sink)"
proof
  show "ls_writer (live_put w l s) = w" "ls_len (live_put w l s) = l"
    "list_all2 (chunk_of sha) (ls_chunks (live_put w l s)) parts = list_all2 (chunk_of sha) (ls_chunks s) parts"
    for w l s sha parts by (simp_all add: live_put_def)
next
  fix sha and s :: live_sink and fl checksum anchors r target parts n
  let ?w = "ls_writer s" and ?es = "sw_entries (ls_writer s)"
  assume p: "publish_sorted_entries sha ?w ?es = Inr (fl, checksum, anchors)" "published sha ?w ?es r" "open_inner sha fl = Inr r"
    and w: "writer_plain target ?w ?es" and held: "list_all2 (chunk_of sha) (ls_chunks s) parts"
  let ?c = "\<lparr>lc_id = n, lc_reader = r, lc_size = word_of_nat (length fl), lc_checksum = checksum, lc_anchors = anchors\<rparr>"
  let ?s = "s\<lparr>ls_writer := ?w\<lparr>sw_entries := []\<rparr>, ls_len := 0, ls_chunks := ls_chunks s @ [?c]\<rparr>"
  have "publish_chunk sha s n = Inr (?s, n + 1)"
    using p(1,3) by (simp add: publish_chunk_def publish_with_anchors_sorted_staged_def)
  moreover have "chunk_of sha ?c ?es" unfolding chunk_of_def
    by (rule exI [of _ ?w], rule exI [of _ target], rule exI [of _ fl]) (use w p in simp)
  then have "list_all2 (chunk_of sha) (ls_chunks ?s) (parts @ [?es])"
    using held by (auto intro: list_all2_appendI)
  moreover have "ls_writer ?s = ?w\<lparr>sw_entries := []\<rparr>" "ls_len ?s = 0" by simp_all
  ultimately show "\<exists>s' n'. publish_chunk sha s n = Inr (s', n') \<and> ls_writer s' = ?w\<lparr>sw_entries := []\<rparr> \<and> ls_len s' = 0
      \<and> list_all2 (chunk_of sha) (ls_chunks s') (parts @ [?es])" by blast
qed

text \<open>An archive file of the rows \<open>es\<close>.\<close>

definition archive_of :: "digest_fn \<Rightarrow> string \<times> bytes \<Rightarrow> segment_entry list \<Rightarrow> bool" where
  "archive_of sha f es \<longleftrightarrow> (\<exists>w r checksum anchors. published sha w es r
    \<and> publish_sorted_entries sha w es = Inr (snd f, checksum, anchors))"

definition archive_put :: "segment_writer \<Rightarrow> nat \<Rightarrow> archive_sink \<Rightarrow> archive_sink" where
  "archive_put w n sink = sink\<lparr>as_len := n, as_writer := w\<rparr>"

definition archive_flush :: "digest_fn \<Rightarrow> archive_sink \<Rightarrow> u64 \<Rightarrow> (archive_sink \<times> u64) fres" where
  "archive_flush sha sink next_id =
    (let (sink, aid, next_id) = archive_id sink next_id in
     rbind (publish_archive_chunk sha sink aid) (\<lambda>sink. Inr (sink\<lparr>as_chunk := as_chunk sink + 1\<rparr>, next_id)))"

interpretation arch: chunk_sink as_writer as_len archive_put archive_flush "\<lambda>sha sink. list_all2 (archive_of sha) (as_files sink)"
proof
  show "as_writer (archive_put w l s) = w" "as_len (archive_put w l s) = l"
    "list_all2 (archive_of sha) (as_files (archive_put w l s)) parts = list_all2 (archive_of sha) (as_files s) parts"
    for w l s sha parts by (simp_all add: archive_put_def)
next
  fix sha and s :: archive_sink and fl checksum anchors r target parts n
  let ?w = "as_writer s" and ?es = "sw_entries (as_writer s)"
  assume p: "publish_sorted_entries sha ?w ?es = Inr (fl, checksum, anchors)" "published sha ?w ?es r"
    and held: "list_all2 (archive_of sha) (as_files s) parts"
  obtain s1 aid n1 where a: "archive_id s n = (s1, aid, n1)" by (metis prod_cases3)
  have s1: "as_writer s1 = ?w" "as_files s1 = as_files s" using a by (auto simp: archive_id_def split: option.splits)
  let ?f = "(archive_name aid (as_chunk s1), fl)"
  let ?s = "s1\<lparr>as_writer := ?w\<lparr>sw_entries := []\<rparr>, as_len := 0, as_files := as_files s @ [?f], as_chunk := as_chunk s1 + 1\<rparr>"
  have "archive_flush sha s n = Inr (?s, n1)"
    using p(1) s1 by (simp add: archive_flush_def a publish_archive_chunk_def publish_with_anchors_sorted_staged_def)
  moreover have "archive_of sha ?f ?es" using p by (auto simp: archive_of_def)
  then have "list_all2 (archive_of sha) (as_files ?s) (parts @ [?es])" using held by (auto intro: list_all2_appendI)
  moreover have "as_writer ?s = ?w\<lparr>sw_entries := []\<rparr>" "as_len ?s = 0" by simp_all
  ultimately show "\<exists>s' n'. archive_flush sha s n = Inr (s', n') \<and> as_writer s' = ?w\<lparr>sw_entries := []\<rparr> \<and> as_len s' = 0
      \<and> list_all2 (archive_of sha) (as_files s') (parts @ [?es])" by blast
qed

definition live_holds :: "digest_fn \<Rightarrow> nat \<Rightarrow> nat \<Rightarrow> live_sink \<Rightarrow> segment_entry list \<Rightarrow> bool" where
  "live_holds sha target cb sink out \<longleftrightarrow> (\<exists>parts. list_all2 (chunk_of sha) (ls_chunks sink) parts
    \<and> buffered target cb (ls_writer sink) (ls_len sink) parts out)"

definition archive_holds :: "digest_fn \<Rightarrow> nat \<Rightarrow> nat \<Rightarrow> archive_sink \<Rightarrow> segment_entry list \<Rightarrow> bool" where
  "archive_holds sha target cb sink out \<longleftrightarrow> (\<exists>parts. list_all2 (archive_of sha) (as_files sink) parts
    \<and> buffered target cb (as_writer sink) (as_len sink) parts out)"

lemma push_live_ok:
  assumes "sha_ok sha" and "target \<noteq> 0" and "live_holds sha target cb sink out" and "publish_order out" and "cap_ok cb (out @ [e])"
  shows "\<exists>sink' n'. push_live sha cb e (sink, n) = Inr (sink', n') \<and> live_holds sha target cb sink' (out @ [e])"
proof -
  obtain parts where "list_all2 (chunk_of sha) (ls_chunks sink) parts" "buffered target cb (ls_writer sink) (ls_len sink) parts out"
    using assms(3) by (auto simp: live_holds_def)
  from live.push_ok [OF assms(1,2) this assms(4,5) refl, of n] obtain s1 n1 w' parts' where
    one: "(if 0 < cb \<and> 0 < ls_len sink \<and> cb < ls_len sink + entry_bytes e then publish_chunk sha sink n else Inr (sink, n)) = Inr (s1, n1)"
      "w' = writer_push e (if se_replica e \<noteq> ReplicaId 0 then enable_v4 (ls_writer s1) else ls_writer s1)"
      "list_all2 (chunk_of sha) (ls_chunks (live_put w' (ls_len s1 + entry_bytes e) s1)) parts'"
      "buffered target cb w' (ls_len s1 + entry_bytes e) parts' (out @ [e])"
    by blast
  have "push_live sha cb e (sink, n) = Inr (live_put w' (ls_len s1 + entry_bytes e) s1, n1)"
    using one(1) by (simp add: push_live_def Let_def one(2) live_put_def)
  then show ?thesis using one(3,4) by (auto simp: live_holds_def live.put)
qed

lemma push_archive_ok:
  assumes "sha_ok sha" and "target \<noteq> 0" and "archive_holds sha target cb sink out" and "publish_order out" and "cap_ok cb (out @ [e])"
  shows "\<exists>sink' n'. push_archive sha cb e (sink, n) = Inr (sink', n') \<and> archive_holds sha target cb sink' (out @ [e])"
proof -
  obtain parts where "list_all2 (archive_of sha) (as_files sink) parts" "buffered target cb (as_writer sink) (as_len sink) parts out"
    using assms(3) by (auto simp: archive_holds_def)
  from arch.push_ok [OF assms(1,2) this assms(4,5) refl, of n] obtain s1 n1 w' parts' where
    one: "(if 0 < cb \<and> 0 < as_len sink \<and> cb < as_len sink + entry_bytes e then archive_flush sha sink n else Inr (sink, n)) = Inr (s1, n1)"
      "w' = writer_push e (if se_replica e \<noteq> ReplicaId 0 then enable_v4 (as_writer s1) else as_writer s1)"
      "list_all2 (archive_of sha) (as_files (archive_put w' (as_len s1 + entry_bytes e) s1)) parts'"
      "buffered target cb w' (as_len s1 + entry_bytes e) parts' (out @ [e])"
    by blast
  have "push_archive sha cb e (sink, n) = Inr (archive_put w' (as_len s1 + entry_bytes e) s1, n1)"
    using one(1) unfolding archive_flush_def by (simp add: push_archive_def Let_def one(2) archive_put_def)
  then show ?thesis using one(3,4) by (auto simp: archive_holds_def arch.put)
qed

section \<open>Runs\<close>

text \<open>The rows of a run that a deduplication with the replicas \<open>G\<close> lets through.\<close>

fun fresh_rows :: "replica_id set \<Rightarrow> segment_entry list \<Rightarrow> segment_entry list" where
  "fresh_rows G [] = []"
| "fresh_rows G (e # es) = (if se_replica e \<in> G then fresh_rows G es else e # fresh_rows (insert (se_replica e) G) es)"

definition tombstone :: "segment_entry \<Rightarrow> bool" where
  "tombstone e \<longleftrightarrow> se_flags e AND FLAG_DELETE \<noteq> 0"

lemma grouped_scan_fresh: "snd (grouped_scan xs rid) \<longleftrightarrow> rid \<notin> set xs"
  by (induction xs) (auto split: prod.splits)

lemma dedup_fresh:
  assumes "dedup us rid st = (fresh, st')" and "G = (if us then set (mg_set st) else set (mg_grouped st))"
  shows "fresh \<longleftrightarrow> rid \<notin> G" and "(if us then set (mg_set st') else set (mg_grouped st')) = insert rid G"
    and "mg_live st' = mg_live st"
  using assms grouped_scan_fresh [of "mg_grouped st" rid]
  by (auto simp: dedup_def Let_def split: if_splits prod.splits)

text \<open>What keeping rows leaves alone, and what it counts.\<close>

definition same_rest :: "merge_state \<Rightarrow> merge_state \<Rightarrow> bool" where
  "same_rest st st' \<longleftrightarrow> mg_seen st' = mg_seen st \<and> co_entries_in (mg_stats st') = co_entries_in (mg_stats st)
    \<and> co_segments_in (mg_stats st') = co_segments_in (mg_stats st)"

definition kept :: "bool \<Rightarrow> nat \<Rightarrow> merge_state \<Rightarrow> merge_state \<Rightarrow> bool" where
  "kept us n st st' \<longleftrightarrow> same_rest st st' \<and> mg_archive st' = mg_archive st
    \<and> co_entries_archived (mg_stats st') = co_entries_archived (mg_stats st)
    \<and> co_entries_out (mg_stats st') = co_entries_out (mg_stats st) + word_of_nat n
    \<and> (if us then mg_grouped st' = mg_grouped st else mg_set st' = mg_set st)"

lemma kept_refl: "kept us 0 st st"
  by (simp add: kept_def same_rest_def)

lemma kept_trans: "kept us m st st1 \<Longrightarrow> kept us n st1 st2 \<Longrightarrow> kept us (m + n) st st2"
  by (simp add: kept_def same_rest_def)

lemma dedup_kept: "dedup us rid st = (fresh, st') \<Longrightarrow> kept us 0 st st'"
  by (auto simp: dedup_def Let_def kept_def same_rest_def split: if_splits prod.splits)

abbreviation "live_of G run \<equiv> filter (\<lambda>e. \<not> tombstone e) (fresh_rows G run)"

lemma keep_rows_ok:
  assumes "sha_ok sha" and "target \<noteq> 0" and "live_holds sha target cb (mg_live st) out"
    and "publish_order (out @ live_of G run)" and "cap_ok cb (out @ live_of G run)"
    and "G = (if us then set (mg_set st) else set (mg_grouped st))"
  shows "\<exists>st'. rfold (keep_entry sha cb us) run st = Inr st' \<and> live_holds sha target cb (mg_live st') (out @ live_of G run)
    \<and> kept us (length (live_of G run)) st st'"
  using assms(3-6)
proof (induction run arbitrary: st out G)
  case Nil
  then show ?case by (simp add: kept_refl)
next
  case (Cons e run)
  obtain fresh st1 where d: "dedup us (se_replica e) st = (fresh, st1)" by fastforce
  note df = dedup_fresh [OF d Cons.prems(4)] and kept = dedup_kept [OF d]
  define G1 where "G1 = insert (se_replica e) G"
  have G1: "G1 = (if us then set (mg_set st1) else set (mg_grouped st1))" using df(2) by (simp add: G1_def)
  show ?case
  proof (cases "fresh \<and> \<not> tombstone e")
    case False
    have step: "keep_entry sha cb us e st = Inr st1" using False d by (auto simp: keep_entry_def tombstone_def)
    have lv: "live_of G (e # run) = live_of G1 run" using False df(1) by (auto simp: G1_def insert_absorb)
    have "live_holds sha target cb (mg_live st1) out" using Cons.prems(1) df(3) by simp
    from Cons.IH [OF this Cons.prems(2,3) [unfolded lv] G1] obtain st' where
      "rfold (keep_entry sha cb us) run st1 = Inr st'" "live_holds sha target cb (mg_live st') (out @ live_of G1 run)"
      "kept us (length (live_of G1 run)) st1 st'" by blast
    then show ?thesis unfolding lv using step kept_trans [OF kept] by (auto simp: rbind_def)
  next
    case True
    have "se_replica e \<notin> G" using True df(1) by blast
    then have lv: "live_of G (e # run) = e # live_of G1 run" using True by (simp add: G1_def)
    have split: "out @ live_of G (e # run) = (out @ [e]) @ live_of G1 run" unfolding lv by simp
    have ord: "publish_order out" "cap_ok cb (out @ [e])"
      using Cons.prems(2,3) publish_order_append [of out] cap_ok_append [of cb "out @ [e]"] unfolding split by auto
    have "live_holds sha target cb (mg_live st1) out" using Cons.prems(1) df(3) by simp
    from push_live_ok [OF assms(1,2) this ord] obtain live n where
      p: "push_live sha cb e (mg_live st1, mg_next st1) = Inr (live, n)" "live_holds sha target cb live (out @ [e])" by blast
    define st2 where "st2 = st1\<lparr>mg_live := live, mg_next := n,
      mg_stats := (mg_stats st1)\<lparr>co_entries_out := co_entries_out (mg_stats st1) + 1\<rparr>\<rparr>"
    have step: "keep_entry sha cb us e st = Inr st2" using True d p(1) by (simp add: keep_entry_def tombstone_def st2_def)
    have k2: "kept us 1 st1 st2" by (simp add: kept_def same_rest_def st2_def)
    have "live_holds sha target cb (mg_live st2) (out @ [e])" using p(2) by (simp add: st2_def)
    moreover have "G1 = (if us then set (mg_set st2) else set (mg_grouped st2))" using G1 by (simp add: st2_def)
    ultimately obtain st' where "rfold (keep_entry sha cb us) run st2 = Inr st'"
      "live_holds sha target cb (mg_live st') ((out @ [e]) @ live_of G1 run)" "kept us (length (live_of G1 run)) st2 st'"
      using Cons.IH [of st2 "out @ [e]" G1] Cons.prems(2,3) unfolding split by blast
    then show ?thesis unfolding split unfolding lv using step kept_trans [OF kept_trans [OF kept k2]] by (auto simp: rbind_def)
  qed
qed

definition archived_so_far :: "digest_fn \<Rightarrow> nat \<Rightarrow> nat \<Rightarrow> archive_sink option \<Rightarrow> segment_entry list \<Rightarrow> bool" where
  "archived_so_far sha target cb x out \<longleftrightarrow> (case x of None \<Rightarrow> out = [] | Some sink \<Rightarrow> archive_holds sha target cb sink out)"

definition moved :: "nat \<Rightarrow> merge_state \<Rightarrow> merge_state \<Rightarrow> bool" where
  "moved n st st' \<longleftrightarrow> same_rest st st' \<and> mg_live st' = mg_live st \<and> mg_grouped st' = mg_grouped st \<and> mg_set st' = mg_set st
    \<and> co_entries_out (mg_stats st') = co_entries_out (mg_stats st)
    \<and> co_entries_archived (mg_stats st') = co_entries_archived (mg_stats st) + word_of_nat n"

lemma archive_sink_empty: "archive_holds sha target cb (archive_sink_new target) []"
  by (auto simp: archive_holds_def archive_sink_new_def buffered_def writer_new_v2_def writer_plain_def rows_fit_def within_def
      intro: exI [of _ "[]"])

lemma archive_rows_ok:
  assumes "sha_ok sha" and "target \<noteq> 0" and "archived_so_far sha target cb (mg_archive st) out"
    and "publish_order (out @ run)" and "cap_ok cb (out @ run)"
  shows "\<exists>st'. rfold (archive_entry sha target cb) run st = Inr st' \<and> archived_so_far sha target cb (mg_archive st') (out @ run)
    \<and> moved (length run) st st'"
  using assms(3-5)
proof (induction run arbitrary: st out)
  case Nil
  then show ?case by (simp add: moved_def same_rest_def)
next
  case (Cons e run)
  let ?sink = "case mg_archive st of None \<Rightarrow> archive_sink_new target | Some sink \<Rightarrow> sink"
  have holds: "archive_holds sha target cb ?sink out"
    using Cons.prems(1) archive_sink_empty by (auto simp: archived_so_far_def split: option.splits)
  have split: "out @ e # run = (out @ [e]) @ run" by simp
  have ord: "publish_order out" "cap_ok cb (out @ [e])"
    using Cons.prems(2,3) publish_order_append [of out] cap_ok_append [of cb "out @ [e]"] unfolding split by auto
  obtain sink n where p: "push_archive sha cb e (?sink, mg_next st) = Inr (sink, n)" "archive_holds sha target cb sink (out @ [e])"
    using push_archive_ok [OF assms(1,2) holds ord] by blast
  define st1 where "st1 = st\<lparr>mg_archive := Some sink, mg_next := n,
    mg_stats := (mg_stats st)\<lparr>co_entries_archived := co_entries_archived (mg_stats st) + 1\<rparr>\<rparr>"
  have step: "archive_entry sha target cb e st = Inr st1" using p(1) by (simp add: archive_entry_def Let_def st1_def)
  have "archived_so_far sha target cb (mg_archive st1) (out @ [e])" using p(2) by (simp add: archived_so_far_def st1_def)
  then obtain st' where st': "rfold (archive_entry sha target cb) run st1 = Inr st'"
    "archived_so_far sha target cb (mg_archive st') ((out @ [e]) @ run)" "moved (length run) st1 st'"
    using Cons.IH [of st1 "out @ [e]"] Cons.prems(2,3) unfolding split by blast
  have "moved (length (e # run)) st st'" using st'(3) by (simp add: moved_def same_rest_def st1_def)
  then show ?case using step st'(1,2) unfolding split by (auto simp: rbind_def)
qed

section \<open>The rows that stay\<close>

text \<open>The rows compaction keeps: of every kept key the newest row of each replica, unless it is a tombstone.\<close>

definition live_rows :: "(bytes \<Rightarrow> retention) \<Rightarrow> segment_entry list \<Rightarrow> segment_entry list" where
  "live_rows policy rows =
    filter (\<lambda>e. policy (se_key e) = Keep \<and> newest_row rows (se_key e) (se_replica e) e \<and> \<not> tombstone e) rows"

definition archive_rows :: "(bytes \<Rightarrow> retention) \<Rightarrow> segment_entry list \<Rightarrow> segment_entry list" where
  "archive_rows policy rows = filter (\<lambda>e. policy (se_key e) = Archive) rows"

lemma live_rows_append:
  assumes "\<forall>a \<in> set xs. \<forall>b \<in> set ys. se_key a \<noteq> se_key b"
  shows "live_rows policy (xs @ ys) = live_rows policy xs @ live_rows policy ys"
proof -
  have "newest_row (xs @ ys) (se_key e) rid e \<longleftrightarrow> newest_row xs (se_key e) rid e" if "e \<in> set xs" for e rid
  proof -
    have "\<forall>y \<in> set ys. se_key y \<noteq> se_key e" using assms that by fastforce
    then show ?thesis using that by (auto simp: newest_row_def)
  qed
  moreover have "newest_row (xs @ ys) (se_key e) rid e \<longleftrightarrow> newest_row ys (se_key e) rid e" if "e \<in> set ys" for e rid
  proof -
    have "\<forall>x \<in> set xs. se_key x \<noteq> se_key e" using assms that by fastforce
    then show ?thesis using that by (auto simp: newest_row_def)
  qed
  ultimately show ?thesis by (simp add: live_rows_def cong: filter_cong)
qed

lemma fresh_rows_newest:
  assumes "publish_order run" and "\<forall>e \<in> set run. se_key e = key"
  shows "fresh_rows G run = filter (\<lambda>e. se_replica e \<notin> G \<and> newest_row run (se_key e) (se_replica e) e) run"
  using assms
proof (induction run arbitrary: G)
  case (Cons e run)
  have e: "e \<notin> set run" using Cons.prems(1) by (auto simp: publish_order_Cons entry_before_def)
  have new: "newest_row (e # run) (se_key x) (se_replica x) x \<longleftrightarrow> se_replica x \<noteq> se_replica e \<and> newest_row run (se_key x) (se_replica x) x"
    if "x \<in> set run" for x
    using newest_row_Cons [OF Cons.prems(1), of "se_key x" "se_replica x" x] Cons.prems(2) that e by auto
  have "newest_row (e # run) (se_key e) (se_replica e) e" using newest_row_Cons [OF Cons.prems(1)] by simp
  moreover have "publish_order run" using Cons.prems(1) by (simp add: publish_order_Cons)
  note IH = Cons.IH [OF this]
  moreover have "filter (\<lambda>x. se_replica x \<notin> G' \<and> newest_row run (se_key x) (se_replica x) x) run
      = filter (\<lambda>x. se_replica x \<notin> G \<and> newest_row (e # run) (se_key x) (se_replica x) x) run"
    if "G' = insert (se_replica e) G" for G'
    using new that by (intro filter_cong) auto
  ultimately show ?case using Cons.prems(2) by (cases "se_replica e \<in> G") (auto simp: insert_absorb)
qed simp

lemma live_rows_run:
  assumes "publish_order run" and "\<forall>e \<in> set run. se_key e = key"
  shows "live_rows policy run = (if policy key = Keep then live_of {} run else [])"
  using fresh_rows_newest [OF assms, of "{}"] assms(2) by (auto simp: live_rows_def filter_empty_conv intro!: filter_cong)

section \<open>The loop\<close>

text \<open>The state after the rows \<open>xs\<close>, which end with a complete run.\<close>

definition merge_inv :: "digest_fn \<Rightarrow> (bytes \<Rightarrow> retention) \<Rightarrow> nat \<Rightarrow> nat \<Rightarrow> nat \<Rightarrow> merge_state \<Rightarrow> segment_entry list \<Rightarrow> bool" where
  "merge_inv sha policy target cb n st xs \<longleftrightarrow> live_holds sha target cb (mg_live st) (live_rows policy xs)
    \<and> archived_so_far sha target cb (mg_archive st) (archive_rows policy xs)
    \<and> set (mg_seen st) = se_replica ` set xs - {ReplicaId 0} \<and> distinct (mg_seen st) \<and> mg_grouped st = [] \<and> mg_set st = []
    \<and> co_segments_in (mg_stats st) = word_of_nat n \<and> co_entries_in (mg_stats st) = word_of_nat (length xs)
    \<and> co_entries_out (mg_stats st) = word_of_nat (length (live_rows policy xs))
    \<and> co_entries_archived (mg_stats st) = word_of_nat (length (archive_rows policy xs))"

lemma merge_init_inv: "merge_inv sha policy target cb n (merge_init target n next_id) []"
  by (auto simp: merge_inv_def merge_init_def live_holds_def buffered_def writer_new_v2_def writer_plain_def rows_fit_def
      within_def archived_so_far_def live_rows_def archive_rows_def intro: exI [of _ "[]"])

lemma note_seen_set: "set (note_seen run seen) = set seen \<union> (se_replica ` set run - {ReplicaId 0})"
  unfolding note_seen_def by (induction run arbitrary: seen) auto

lemma note_seen_distinct: "distinct seen \<Longrightarrow> distinct (note_seen run seen)"
  unfolding note_seen_def by (induction run arbitrary: seen) auto

lemma order_filter: "publish_order xs \<Longrightarrow> publish_order (filter P xs)"
  by (simp add: publish_order_def sorted_wrt_filter)

lemma cap_ok_filter: "cap_ok cb xs \<Longrightarrow> cap_ok cb (filter P xs)"
proof -
  have "(\<Sum>e\<leftarrow>filter P xs. row_weight e) \<le> (\<Sum>e\<leftarrow>xs. row_weight e)" by (induction xs) auto
  then show "cap_ok cb xs \<Longrightarrow> cap_ok cb (filter P xs)" by (auto simp: cap_ok_def split: if_splits)
qed

lemma merge_run_ok:
  assumes "sha_ok sha" and "target \<noteq> 0" and "merge_inv sha policy target cb n st xs" and "run \<noteq> []"
    and "\<forall>e \<in> set run. se_key e = se_key (hd run)" and "\<forall>e \<in> set xs. se_key e \<noteq> se_key (hd run)"
    and "publish_order (xs @ run)" and "cap_ok cb (xs @ run)"
  shows "\<exists>st'. merge_run sha policy target cb run st = Inr st' \<and> merge_inv sha policy target cb n st' (xs @ run)"
proof -
  let ?us = "DEDUP_CROSSOVER < length run"
  define st0 where "st0 = st\<lparr>mg_seen := note_seen run (mg_seen st),
    mg_stats := (mg_stats st)\<lparr>co_entries_in := co_entries_in (mg_stats st) + word_of_nat (length run)\<rparr>\<rparr>"
  have run: "publish_order run" using publish_order_append [OF assms(7)] by simp
  have apart: "\<forall>a \<in> set xs. \<forall>b \<in> set run. se_key a \<noteq> se_key b" using assms(5,6) by simp
  have lr: "live_rows policy (xs @ run) = live_rows policy xs @ (if policy (se_key (hd run)) = Keep then live_of {} run else [])"
    unfolding live_rows_append [OF apart] live_rows_run [OF run assms(5)] ..
  have ar: "archive_rows policy (xs @ run) = archive_rows policy xs @ (if policy (se_key (hd run)) = Archive then run else [])"
    using assms(5) by (auto simp: archive_rows_def filter_id_conv filter_empty_conv)
  have ok: "publish_order (live_rows policy (xs @ run))" "cap_ok cb (live_rows policy (xs @ run))"
    "publish_order (archive_rows policy (xs @ run))" "cap_ok cb (archive_rows policy (xs @ run))"
    using order_filter [OF assms(7)] cap_ok_filter [OF assms(8)] by (auto simp: live_rows_def archive_rows_def)
  have seen: "set (mg_seen st0) = se_replica ` set (xs @ run) - {ReplicaId 0}" "distinct (mg_seen st0)"
    using assms(3) by (auto simp: st0_def note_seen_set merge_inv_def note_seen_distinct)
  have inv0: "live_holds sha target cb (mg_live st0) (live_rows policy xs)"
    "archived_so_far sha target cb (mg_archive st0) (archive_rows policy xs)" "mg_grouped st0 = []" "mg_set st0 = []"
    "co_segments_in (mg_stats st0) = word_of_nat n" "co_entries_in (mg_stats st0) = word_of_nat (length (xs @ run))"
    "co_entries_out (mg_stats st0) = word_of_nat (length (live_rows policy xs))"
    "co_entries_archived (mg_stats st0) = word_of_nat (length (archive_rows policy xs))"
    using assms(3) by (simp_all add: st0_def merge_inv_def)
  define finish where "finish = (\<lambda>st :: merge_state. st\<lparr>mg_grouped := [], mg_set := (if ?us then [] else mg_set st)\<rparr>)"
  have fin: "merge_inv sha policy target cb n (finish st1) (xs @ run)"
    if "live_holds sha target cb (mg_live st1) (live_rows policy (xs @ run))"
      "archived_so_far sha target cb (mg_archive st1) (archive_rows policy (xs @ run))" "same_rest st0 st1"
      "\<not> ?us \<Longrightarrow> mg_set st1 = mg_set st0"
      "co_entries_out (mg_stats st1) = word_of_nat (length (live_rows policy (xs @ run)))"
      "co_entries_archived (mg_stats st1) = word_of_nat (length (archive_rows policy (xs @ run)))" for st1
    using that seen inv0(4-6) by (simp add: merge_inv_def finish_def same_rest_def)
  show ?thesis
  proof (cases "policy (se_key (hd run))")
    case Keep
    have G: "{} = (if ?us then set (mg_set st0) else set (mg_grouped st0))" using inv0(3,4) by simp
    from Keep obtain st1 where st1: "rfold (keep_entry sha cb ?us) run st0 = Inr st1"
      "live_holds sha target cb (mg_live st1) (live_rows policy (xs @ run))" "kept ?us (length (live_of {} run)) st0 st1"
      using keep_rows_ok [OF assms(1,2) inv0(1) _ _ G] ok(1,2) unfolding lr by auto
    have "merge_run sha policy target cb run st = Inr (finish st1)"
      using st1(1) Keep by (simp add: merge_run_def Let_def st0_def [symmetric] finish_def)
    moreover have "merge_inv sha policy target cb n (finish st1) (xs @ run)"
      by (rule fin [OF st1(2)]) (use st1(3) inv0(2,7,8) Keep in \<open>auto simp: kept_def ar lr\<close>)
    ultimately show ?thesis by blast
  next
    case Drop
    then have "merge_run sha policy target cb run st = Inr (finish st0)"
      by (simp add: merge_run_def Let_def st0_def [symmetric] finish_def)
    moreover have "merge_inv sha policy target cb n (finish st0) (xs @ run)"
      by (rule fin) (use inv0(1,2,7,8) Drop in \<open>auto simp: ar lr same_rest_def\<close>)
    ultimately show ?thesis by blast
  next
    case Archive
    have "archive_rows policy (xs @ run) = archive_rows policy xs @ run" using Archive ar by simp
    then obtain st1 where st1: "rfold (archive_entry sha target cb) run st0 = Inr st1"
      "archived_so_far sha target cb (mg_archive st1) (archive_rows policy (xs @ run))" "moved (length run) st0 st1"
      using archive_rows_ok [OF assms(1,2) inv0(2), of run] ok(3,4) by auto
    have "merge_run sha policy target cb run st = Inr (finish st1)"
      using st1(1) Archive by (simp add: merge_run_def Let_def st0_def [symmetric] finish_def)
    moreover have "merge_inv sha policy target cb n (finish st1) (xs @ run)"
      by (rule fin [OF _ st1(2)]) (use st1(3) inv0(1,7,8) Archive in \<open>auto simp: moved_def ar lr\<close>)
    ultimately show ?thesis by blast
  qed
qed

lemma dropWhile_shorter: "length (dropWhile P xs) \<le> length xs"
  by (induction xs) auto

lemma run_rest_keys:
  assumes "publish_order (e # rows)" and "b \<in> set (dropWhile (\<lambda>x. se_key x = se_key e) rows)"
  shows "se_key e < se_key b"
  using assms
proof (induction rows)
  case (Cons x rows)
  have ord: "publish_order (e # rows)" "\<forall>y \<in> set rows. se_key x \<le> se_key y" "se_key e \<le> se_key x"
    using Cons.prems(1) by (auto simp: publish_order_Cons entry_before_def)
  show ?case
  proof (cases "se_key x = se_key e")
    case True
    then show ?thesis using Cons.IH [OF ord(1)] Cons.prems(2) by simp
  next
    case False
    then show ?thesis using Cons.prems(2) ord(2,3) by auto
  qed
qed simp

lemma merge_loop_ok:
  assumes "sha_ok sha" and "target \<noteq> 0" and "src_holds sha {} src rows" and "merge_inv sha policy target cb n st xs"
    and "\<forall>a \<in> set xs. \<forall>b \<in> set rows. se_key a \<noteq> se_key b" and "publish_order (xs @ rows)" and "cap_ok cb (xs @ rows)"
  shows "\<exists>st'. merge_loop sha policy target cb src st = Inr st' \<and> merge_inv sha policy target cb n st' (xs @ rows)"
  using assms(3-7)
proof (induction "length rows" arbitrary: rows src st xs rule: less_induct)
  case less
  show ?case
  proof (cases rows)
    case Nil
    then have "merge_heap_pop (ms_heap src) = None" using next_src [OF less.prems(1)] by (auto split: option.splits)
    then show ?thesis using less.prems(2) Nil by (subst merge_loop.simps) simp
  next
    case (Cons e rows1)
    then obtain h heap src1 where n: "merge_heap_pop (ms_heap src) = Some (h, heap)" "e = he_entry h"
      "advance sha (he_idx h) (src\<lparr>ms_heap := heap\<rparr>) = Inr src1" "src_holds sha {} src1 rows1"
      using next_src [OF less.prems(1)] by (auto split: option.splits)
    let ?same = "\<lambda>x. se_key x = se_key e"
    define run rows2 where "run = e # takeWhile ?same rows1" and "rows2 = dropWhile ?same rows1"
    have rows: "rows = run @ rows2" by (simp add: run_def rows2_def Cons)
    obtain src2 where dr: "drain_run sha src1 [e] = Inr (src2, run)" "src_holds sha {} src2 rows2"
      using drain_run_src [OF n(4), of "[e]"] by (auto simp: run_def rows2_def)
    have key: "\<forall>x \<in> set run. se_key x = se_key (hd run)" by (auto simp: run_def dest: set_takeWhileD)
    have split: "xs @ rows = (xs @ run) @ rows2" by (simp add: rows)
    have ord: "publish_order (xs @ run)" "cap_ok cb (xs @ run)" "publish_order (run @ rows2)"
      using less.prems(4,5) publish_order_append [of "xs @ run" rows2] publish_order_append [of xs "run @ rows2"]
        cap_ok_append [of cb "xs @ run" rows2] unfolding split by auto
    have later: "se_key e < se_key b" if "b \<in> set rows2" for b
      using run_rest_keys [of e rows1 b] ord(3) that by (simp add: run_def rows2_def)
    obtain st1 where st1: "merge_run sha policy target cb run st = Inr st1" "merge_inv sha policy target cb n st1 (xs @ run)"
      using merge_run_ok [OF assms(1,2) less.prems(2) _ key _ ord(1,2)] less.prems(3) by (auto simp: run_def Cons)
    have "\<exists>st'. merge_loop sha policy target cb src2 st1 = Inr st' \<and> merge_inv sha policy target cb n st' ((xs @ run) @ rows2)"
    proof (rule less.hyps [OF _ dr(2) st1(2)])
      show "length rows2 < length rows" using dropWhile_shorter [of ?same rows1] by (simp add: rows2_def Cons le_imp_less_Suc)
      show "\<forall>a \<in> set (xs @ run). \<forall>b \<in> set rows2. se_key a \<noteq> se_key b"
      proof (intro ballI)
        fix a b
        assume "a \<in> set (xs @ run)" and b: "b \<in> set rows2"
        then consider "a \<in> set xs" | "a \<in> set run" by auto
        then show "se_key a \<noteq> se_key b"
        proof cases
          case 1
          then show ?thesis using less.prems(3) b by (simp add: rows)
        next
          case 2
          then have "se_key a = se_key (hd run)" using key by blast
          then show ?thesis using later [OF b] by (simp add: run_def)
        qed
      qed
    qed (use less.prems(4,5) in \<open>simp_all only: split\<close>)
    then show ?thesis using n dr st1 unfolding split by (subst merge_loop.simps) (auto simp: rbind_def)
  qed
qed

section \<open>The end of the merge\<close>

lemma buffered_rest:
  assumes "buffered target cb w len parts out" and "\<not> 0 < len"
  shows "out = concat parts"
proof -
  have "(\<Sum>e\<leftarrow>sw_entries w. entry_bytes e) = 0" using assms by (simp add: buffered_def)
  then have "sw_entries w = []" by (cases "sw_entries w") (auto simp: entry_bytes_def)
  then show ?thesis using assms(1) by (simp add: buffered_def)
qed

lemma buffered_parts:
  assumes "buffered target cb w len parts out"
  shows "out = concat (parts @ [sw_entries w])" and "sw_entries w \<noteq> [] \<Longrightarrow> \<forall>es \<in> set (parts @ [sw_entries w]). es \<noteq> [] \<and> within cb es"
    and "\<forall>es \<in> set parts. es \<noteq> [] \<and> within cb es" and "cb = 0 \<longrightarrow> parts = []"
  using assms by (simp_all add: buffered_def)

lemma finish_live_ok:
  assumes "sha_ok sha" and "target \<noteq> 0" and "live_holds sha target cb (mg_live st) out" and "publish_order out"
  shows "\<exists>st' parts. finish_live sha st = Inr st' \<and> list_all2 (chunk_of sha) (ls_chunks (mg_live st')) parts \<and> concat parts = out
    \<and> ((\<forall>es \<in> set parts. es \<noteq> [] \<and> within cb es) \<and> (cb = 0 \<longrightarrow> length parts \<le> 1)) \<and> mg_archive st' = mg_archive st \<and> mg_seen st' = mg_seen st \<and> mg_stats st' = mg_stats st"
proof -
  let ?s = "mg_live st"
  obtain parts where h: "list_all2 (chunk_of sha) (ls_chunks ?s) parts" "buffered target cb (ls_writer ?s) (ls_len ?s) parts out"
    using assms(3) by (auto simp: live_holds_def)
  show ?thesis
  proof (cases "0 < ls_len ?s")
    case True
    obtain s' n' where f: "publish_chunk sha ?s (mg_next st) = Inr (s', n')"
      "list_all2 (chunk_of sha) (ls_chunks s') (parts @ [sw_entries (ls_writer ?s)])"
      using live.flush_ok [OF assms(1,2) h assms(4) True] by blast
    have "finish_live sha st = Inr (st\<lparr>mg_live := s', mg_next := n'\<rparr>)" using True f(1) by (simp add: finish_live_def)
    then show ?thesis
      using f(2) buffered_parts(1,2,4) [OF h(2)] buffered_ready(3) [OF h(2) assms(4) True]
      by (intro exI [of _ "st\<lparr>mg_live := s', mg_next := n'\<rparr>"] exI [of _ "parts @ [sw_entries (ls_writer ?s)]"]) simp
  next
    case False
    then have "finish_live sha st = Inr st" by (simp add: finish_live_def)
    then show ?thesis using h(1) buffered_rest [OF h(2) False] buffered_parts(3,4) [OF h(2)]
      by (intro exI [of _ st] exI [of _ parts]) simp
  qed
qed

definition archive_files :: "merge_state \<Rightarrow> (string \<times> bytes) list" where
  "archive_files st = (case mg_archive st of None \<Rightarrow> [] | Some sink \<Rightarrow> as_files sink)"

lemma finish_archive_ok:
  assumes "sha_ok sha" and "target \<noteq> 0" and "archived_so_far sha target cb (mg_archive st) out" and "publish_order out"
  shows "\<exists>st' parts. finish_archive sha st = Inr st' \<and> list_all2 (archive_of sha) (archive_files st') parts \<and> concat parts = out
    \<and> (\<forall>es \<in> set parts. es \<noteq> [] \<and> within cb es) \<and> mg_live st' = mg_live st \<and> mg_seen st' = mg_seen st \<and> mg_stats st' = mg_stats st"
proof (cases "mg_archive st")
  case None
  then show ?thesis using assms(3)
    by (intro exI [of _ st] exI [of _ "[]"]) (simp add: finish_archive_def archived_so_far_def archive_files_def)
next
  case (Some s)
  obtain parts where h: "list_all2 (archive_of sha) (as_files s) parts" "buffered target cb (as_writer s) (as_len s) parts out"
    using assms(3) Some by (auto simp: archived_so_far_def archive_holds_def)
  show ?thesis
  proof (cases "0 < as_len s")
    case True
    obtain s' n' where f: "archive_flush sha s (mg_next st) = Inr (s', n')"
      "list_all2 (archive_of sha) (as_files s') (parts @ [sw_entries (as_writer s)])"
      using arch.flush_ok [OF assms(1,2) h assms(4) True] by blast
    obtain s1 aid n1 where a: "archive_id s (mg_next st) = (s1, aid, n1)" by (metis prod_cases3)
    obtain s2 where s2: "publish_archive_chunk sha s1 aid = Inr s2" "as_files s2 = as_files s'"
      using f(1) a by (auto simp: archive_flush_def rbind_Inr_iff)
    have "finish_archive sha st = Inr (st\<lparr>mg_archive := Some s2, mg_next := n1\<rparr>)"
      using Some True a s2(1) by (simp add: finish_archive_def)
    then show ?thesis
      using f(2) s2(2) buffered_parts(1,2) [OF h(2)] buffered_ready(3) [OF h(2) assms(4) True]
      by (intro exI [of _ "st\<lparr>mg_archive := Some s2, mg_next := n1\<rparr>"] exI [of _ "parts @ [sw_entries (as_writer s)]"])
        (simp add: archive_files_def)
  next
    case False
    then have "finish_archive sha st = Inr st" using Some by (simp add: finish_archive_def)
    then show ?thesis using Some h(1) buffered_rest [OF h(2) False] buffered_parts(3) [OF h(2)]
      by (intro exI [of _ st] exI [of _ parts]) (simp add: archive_files_def)
  qed
qed

end
