(* ===== verification/CompactionProps.thy ===== *)
theory CompactionProps
  imports CompactMerge
begin

text \<open>
  The contract of a compaction: what the published chunks, the archive and the relocation
  set contain, for any retention policy.
\<close>

section \<open>The merge as a whole\<close>

definition merged :: "digest_fn \<Rightarrow> nat \<Rightarrow> (bytes \<Rightarrow> retention) \<Rightarrow> segment_entry list \<Rightarrow> merge_state \<Rightarrow> segment_entry list list \<Rightarrow> bool" where
  "merged sha cb policy rows st parts \<longleftrightarrow> list_all2 (chunk_of sha) (ls_chunks (mg_live st)) parts
    \<and> concat parts = live_rows policy rows \<and> (\<forall>es \<in> set parts. es \<noteq> [] \<and> within cb es)
    \<and> (cb = 0 \<longrightarrow> length parts \<le> 1) \<and> set (mg_seen st) = se_replica ` set rows - {ReplicaId 0}"

lemma merged_published:
  assumes "merged sha cb policy rows st parts"
  shows "list_all2 (\<lambda>c es. \<exists>w. published sha w es (lc_reader c)) (ls_chunks (mg_live st)) parts"
proof (rule list_all2_mono)
  show "list_all2 (chunk_of sha) (ls_chunks (mg_live st)) parts" using assms by (simp add: merged_def)
qed (auto simp: chunk_of_def)

lemma merge_ok:
  assumes "sha_ok sha" and "target \<noteq> 0" and "list_all2 (\<lambda>r es. \<exists>w. published sha w es r) inputs ess"
    and "publish_order rows" and "mset rows = mset (concat ess)" and "cap_ok cb rows"
  shows "\<exists>st parts aparts. merge_segments sha inputs target cb next_id policy
      = Inr (st, relocations (mg_seen st) (ls_chunks (mg_live st)))
    \<and> merged sha cb policy rows st parts
    \<and> list_all2 (archive_of sha) (archive_files st) aparts \<and> concat aparts = archive_rows policy rows
    \<and> co_segments_in (mg_stats st) = word_of_nat (length inputs) \<and> co_segments_out (mg_stats st) = word_of_nat (length parts)
    \<and> co_entries_in (mg_stats st) = word_of_nat (length rows)
    \<and> co_entries_out (mg_stats st) = word_of_nat (length (live_rows policy rows))
    \<and> co_entries_archived (mg_stats st) = word_of_nat (length (archive_rows policy rows))
    \<and> co_rids_seen (mg_stats st) = word_of_nat (card (se_replica ` set rows - {ReplicaId 0}))"
proof -
  have "list_all2 (\<lambda>r es. \<exists>w blks. reader_holds sha w blks r \<and> concat blks = es) inputs ess"
    using assms(3) by (rule list_all2_mono) (use published_holds(1,4) [OF assms(1)] in blast)
  then obtain src where src: "merge_start sha inputs = Inr src" "src_holds sha {} src rows"
    using merge_start_src [OF _ assms(4,5)] by blast
  let ?st0 = "merge_init target (length inputs) next_id"
  obtain st1 where st1: "merge_loop sha policy target cb src ?st0 = Inr st1" "merge_inv sha policy target cb (length inputs) st1 rows"
    using merge_loop_ok [OF assms(1,2) src(2) merge_init_inv] assms(4,6) by simp blast
  have ord: "publish_order (live_rows policy rows)" "publish_order (archive_rows policy rows)"
    using order_filter [OF assms(4)] by (simp_all add: live_rows_def archive_rows_def)
  have inv: "live_holds sha target cb (mg_live st1) (live_rows policy rows)"
    "archived_so_far sha target cb (mg_archive st1) (archive_rows policy rows)"
    "set (mg_seen st1) = se_replica ` set rows - {ReplicaId 0}" "distinct (mg_seen st1)"
    using st1(2) by (simp_all add: merge_inv_def)
  obtain st2 parts where st2: "finish_live sha st1 = Inr st2" "list_all2 (chunk_of sha) (ls_chunks (mg_live st2)) parts"
    "concat parts = live_rows policy rows" "(\<forall>es \<in> set parts. es \<noteq> [] \<and> within cb es) \<and> (cb = 0 \<longrightarrow> length parts \<le> 1)"
    "mg_archive st2 = mg_archive st1" "mg_seen st2 = mg_seen st1" "mg_stats st2 = mg_stats st1"
    using finish_live_ok [OF assms(1,2) inv(1) ord(1)] by blast
  obtain st3 aparts where st3: "finish_archive sha st2 = Inr st3" "list_all2 (archive_of sha) (archive_files st3) aparts"
    "concat aparts = archive_rows policy rows" "mg_live st3 = mg_live st2" "mg_seen st3 = mg_seen st2" "mg_stats st3 = mg_stats st2"
    using finish_archive_ok [OF assms(1,2) _ ord(2), of cb st2] inv(2) st2(5) by auto
  define st4 where "st4 = st3\<lparr>mg_stats := (mg_stats st3)\<lparr>co_segments_out := word_of_nat (length (ls_chunks (mg_live st3))),
    co_rids_seen := word_of_nat (length (mg_seen st3))\<rparr>\<rparr>"
  have "merge_finish sha st1 = Inr st4" using st2(1) st3(1) by (simp add: merge_finish_def st4_def)
  then have "merge_segments sha inputs target cb next_id policy = Inr (st4, relocations (mg_seen st4) (ls_chunks (mg_live st4)))"
    using src(1) st1(1) by (simp add: merge_segments_def)
  moreover have "merged sha cb policy rows st4 parts"
    using st2(2-4,6) st3(4,5) inv(3) by (simp add: merged_def st4_def)
  moreover have "length (mg_seen st3) = card (se_replica ` set rows - {ReplicaId 0})"
    using distinct_card [OF inv(4)] inv(3) st2(6) st3(5) by simp
  moreover have "archive_files st4 = archive_files st3" by (simp add: archive_files_def st4_def)
  moreover have "length (ls_chunks (mg_live st3)) = length parts" using st2(2) st3(4) by (simp add: list_all2_lengthD)
  ultimately show ?thesis using st1(2) st2(7) st3(2,3,6)
    by (intro exI [of _ st4] exI [of _ parts] exI [of _ aparts]) (simp add: st4_def merge_inv_def)
qed

section \<open>Relocation\<close>

lemma anchors_plain: "\<not> sw_v3 w \<Longrightarrow> anchors_image w k blks a = a"
proof (induction w k blks a rule: anchors_image.induct)
  case (2 w k blk blks a)
  have "fold (anchor_entry w k) xs a = a" for xs using 2(2) by (induction xs) (auto simp: anchor_entry_def split_beta)
  then show ?case using 2 by simp
qed simp

lemma chunk_anchors:
  assumes "sha_ok sha" and "chunk_of sha c es" and "rid \<noteq> ReplicaId 0"
  shows "case lc_anchors c rid of
      None \<Rightarrow> \<forall>e \<in> set es. se_replica e \<noteq> rid
    | Some an \<Rightarrow> \<exists>e \<in> set es. se_replica e = rid \<and> se_seq e = sa_seq an
        \<and> (\<forall>e' \<in> set es. se_replica e' = rid \<longrightarrow> se_seq e' \<le> se_seq e)
        \<and> get_entry_at sha (lc_reader c) (se_key e) rid (bid_u32 (sa_block an)) (sa_offset an) = Inr (Some e)"
proof -
  obtain w target fl where w: "writer_plain target w es" "published sha w es (lc_reader c)"
    "publish_sorted_entries sha w es = Inr (fl, lc_checksum c, lc_anchors c)"
    using assms(2) by (auto simp: chunk_of_def)
  show ?thesis
  proof (cases "sw_v4 w")
    case True
    then show ?thesis by (rule anchors_exact [OF assms(1) w(2) _ assms(3) w(3)])
  next
    case False
    then have "\<not> sw_v3 w" "\<forall>e \<in> set es. se_replica e = ReplicaId 0" using w(1) by (auto simp: writer_plain_def)
    moreover have "lc_anchors c = anchors_image w 0 (blocks w es) Map.empty"
      using w(3) publish_image [OF published_holds(6,3,2,5) [OF assms(1) w(2)], of sha] by simp
    ultimately show ?thesis using assms(3) anchors_plain by simp
  qed
qed

definition anchored :: "digest_fn \<Rightarrow> live_chunk set \<Rightarrow> segment_entry set \<Rightarrow> replica_id
    \<Rightarrow> (u64 \<times> segment_id \<times> block_id \<times> u32) option \<Rightarrow> bool" where
  "anchored sha chunks rows rid x \<longleftrightarrow> (case x of
      None \<Rightarrow> \<forall>e \<in> rows. se_replica e \<noteq> rid
    | Some (best, sid, b, o') \<Rightarrow> \<exists>c \<in> chunks. \<exists>e \<in> rows. sid = SegmentId (lc_id c) \<and> se_replica e = rid \<and> se_seq e = best
        \<and> (\<forall>e' \<in> rows. se_replica e' = rid \<longrightarrow> se_seq e' \<le> best)
        \<and> get_entry_at sha (lc_reader c) (se_key e) rid (bid_u32 b) o' = Inr (Some e))"

lemma anchored_here:
  assumes "c \<in> C" and "e \<in> R" and "se_replica e = rid" and "\<forall>e' \<in> R. se_replica e' = rid \<longrightarrow> se_seq e' \<le> se_seq e"
    and "get_entry_at sha (lc_reader c) (se_key e) rid (bid_u32 b) o' = Inr (Some e)"
  shows "anchored sha C R rid (Some (se_seq e, SegmentId (lc_id c), b, o'))"
  using assms by (auto simp: anchored_def)

lemma anchored_more:
  assumes "anchored sha C R rid x" and "C \<subseteq> C'"
    and "\<forall>e \<in> S. se_replica e = rid \<longrightarrow> (case x of None \<Rightarrow> False | Some (best, _) \<Rightarrow> se_seq e \<le> best)"
  shows "anchored sha C' (R \<union> S) rid x"
proof (cases x)
  case None
  then show ?thesis using assms by (auto simp: anchored_def)
next
  case (Some y)
  then obtain b o' c e where x: "x = Some (se_seq e, SegmentId (lc_id c), b, o')" and c: "c \<in> C" "e \<in> R" "se_replica e = rid"
    "\<forall>e' \<in> R. se_replica e' = rid \<longrightarrow> se_seq e' \<le> se_seq e"
    "get_entry_at sha (lc_reader c) (se_key e) rid (bid_u32 b) o' = Inr (Some e)"
    using assms(1) by (cases y) (auto simp: anchored_def)
  show ?thesis unfolding x by (rule anchored_here) (use c assms(2,3) x in auto)
qed

lemma anchor_chunk_step:
  assumes "sha_ok sha" and "chunk_of sha c es" and "rid \<noteq> ReplicaId 0" and "anchored sha C R rid (a rid)"
  shows "anchored sha (insert c C) (R \<union> set es) rid (anchor_chunk c a rid)"
proof (cases "lc_anchors c rid")
  case None
  then have "\<forall>e \<in> set es. se_replica e \<noteq> rid" using chunk_anchors [OF assms(1-3)] by simp
  moreover have "anchor_chunk c a rid = a rid" using None by (simp add: anchor_chunk_def)
  ultimately show ?thesis using anchored_more [OF assms(4), of "insert c C" "set es"] by auto
next
  case (Some an)
  then obtain e where e: "e \<in> set es" "se_replica e = rid" "sa_seq an = se_seq e"
    "\<forall>e' \<in> set es. se_replica e' = rid \<longrightarrow> se_seq e' \<le> se_seq e"
    "get_entry_at sha (lc_reader c) (se_key e) rid (bid_u32 (sa_block an)) (sa_offset an) = Inr (Some e)"
    using chunk_anchors [OF assms(1-3)] by auto
  let ?new = "Some (sa_seq an, SegmentId (lc_id c), sa_block an, sa_offset an)"
  have new: "anchored sha (insert c C) (R \<union> set es) rid ?new" if "\<forall>e' \<in> R. se_replica e' = rid \<longrightarrow> se_seq e' \<le> se_seq e"
    unfolding e(3) by (rule anchored_here) (use e that in auto)
  show ?thesis
  proof (cases "a rid")
    case None
    then have "\<forall>e' \<in> R. se_replica e' \<noteq> rid" using assms(4) by (simp add: anchored_def)
    moreover have "anchor_chunk c a rid = ?new" using Some None by (simp add: anchor_chunk_def)
    ultimately show ?thesis using new by auto
  next
    case old: (Some x)
    obtain best y where x: "x = (best, y)" by (cases x)
    have best: "\<forall>e' \<in> R. se_replica e' = rid \<longrightarrow> se_seq e' \<le> best"
      using assms(4) old x by (auto simp: anchored_def split: prod.splits)
    show ?thesis
    proof (cases "sa_seq an \<le> best")
      case True
      then have "anchor_chunk c a rid = a rid" using Some old x by (simp add: anchor_chunk_def)
      moreover have "\<forall>e' \<in> set es. se_replica e' = rid \<longrightarrow> se_seq e' \<le> best"
        using e(4) True unfolding e(3) by (auto intro: order_trans)
      ultimately show ?thesis using anchored_more [OF assms(4), of "insert c C" "set es"] old x by auto
    next
      case False
      then have "anchor_chunk c a rid = ?new" using Some old x by (simp add: anchor_chunk_def)
      moreover have "\<forall>e' \<in> R. se_replica e' = rid \<longrightarrow> se_seq e' \<le> se_seq e"
        using best False unfolding e(3) by (auto intro: order_trans)
      ultimately show ?thesis using new by simp
    qed
  qed
qed

lemma anchor_chunks:
  assumes "sha_ok sha" and "rid \<noteq> ReplicaId 0" and "list_all2 (chunk_of sha) chunks parts"
  shows "anchored sha C R rid (a rid) \<Longrightarrow> anchored sha (C \<union> set chunks) (R \<union> set (concat parts)) rid (fold anchor_chunk chunks a rid)"
  using assms(3)
proof (induction chunks parts arbitrary: C R a rule: list_all2_induct)
  case (Cons c chunks es parts)
  have "anchored sha (insert c C) (R \<union> set es) rid (anchor_chunk c a rid)"
    by (rule anchor_chunk_step [where a = a]) (use assms(1,2) Cons in auto)
  from Cons.IH [where a = "anchor_chunk c a", OF this] show ?case by (simp add: Un_assoc Un_insert_right)
qed simp

section \<open>Properties\<close>

text \<open>The sources of a merge: open segments with the rows \<open>ess\<close>, which are \<open>rows\<close> in publish order.\<close>

definition merge_inputs :: "digest_fn \<Rightarrow> segment_reader list \<Rightarrow> segment_entry list \<Rightarrow> bool" where
  "merge_inputs sha inputs rows \<longleftrightarrow> (\<exists>ess. list_all2 (\<lambda>r es. \<exists>w. published sha w es r) inputs ess
    \<and> publish_order rows \<and> mset rows = mset (concat ess))"

text \<open>C31. Compaction succeeds on any published inputs without a repeated (key, sequence) pair and within
  the size limits. The live chunks, read in order, hold exactly the rows to keep: for every key the policy
  keeps, the newest row of each replica unless it is a tombstone, in publish order. The archive files
  hold every row of every archived key, tombstones included, and the statistics count the rows.\<close>

theorem compaction_contents:
  assumes "sha_ok sha" and "target \<noteq> 0" and "merge_inputs sha inputs rows" and "cap_ok cb rows"
  shows "\<exists>st relocs parts aparts. merge_segments sha inputs target cb next_id policy = Inr (st, relocs)
    \<and> list_all2 (\<lambda>c es. \<exists>w. published sha w es (lc_reader c)) (ls_chunks (mg_live st)) parts
    \<and> concat parts = live_rows policy rows
    \<and> list_all2 (archive_of sha) (archive_files st) aparts \<and> concat aparts = archive_rows policy rows
    \<and> co_entries_in (mg_stats st) = word_of_nat (length rows)
    \<and> co_entries_out (mg_stats st) = word_of_nat (length (live_rows policy rows))
    \<and> co_entries_archived (mg_stats st) = word_of_nat (length (archive_rows policy rows))
    \<and> co_rids_seen (mg_stats st) = word_of_nat (card (se_replica ` set rows - {ReplicaId 0}))"
proof -
  obtain ess where ess: "list_all2 (\<lambda>r es. \<exists>w. published sha w es r) inputs ess" "publish_order rows" "mset rows = mset (concat ess)"
    using assms(3) by (auto simp: merge_inputs_def)
  obtain st parts aparts where m: "merge_segments sha inputs target cb next_id policy = Inr (st, relocations (mg_seen st) (ls_chunks (mg_live st)))"
    "merged sha cb policy rows st parts"
    and rest: "list_all2 (archive_of sha) (archive_files st) aparts" "concat aparts = archive_rows policy rows"
    "co_entries_in (mg_stats st) = word_of_nat (length rows)"
    "co_entries_out (mg_stats st) = word_of_nat (length (live_rows policy rows))"
    "co_entries_archived (mg_stats st) = word_of_nat (length (archive_rows policy rows))"
    "co_rids_seen (mg_stats st) = word_of_nat (card (se_replica ` set rows - {ReplicaId 0}))"
    using merge_ok [OF assms(1,2) ess assms(4), of next_id policy] by (elim exE conjE) (rule that)
  have "list_all2 (\<lambda>c es. \<exists>w. published sha w es (lc_reader c)) (ls_chunks (mg_live st)) parts" "concat parts = live_rows policy rows"
    using m(2) merged_published [OF m(2)] by (simp_all add: merged_def)
  then show ?thesis using m(1) rest
    by (intro exI [of _ st] exI [of _ "relocations (mg_seen st) (ls_chunks (mg_live st))"] exI [of _ parts] exI [of _ aparts]) simp
qed

lemma demo_inputs: "published demo_sha (demo_writer 64) demo_rows r \<Longrightarrow> merge_inputs demo_sha [r] demo_rows"
  unfolding merge_inputs_def using demo_order by (intro exI [of _ "[demo_rows]"]) auto

lemma demo_cap: "cb \<le> 2 ^ 29 \<Longrightarrow> cap_ok cb demo_rows"
  by (simp add: cap_ok_def demo_rows_def demo_row_def entry_bytes_def row_weight_def U16_MAX_def)

lemma demo_live: "live_rows keep_all demo_rows = [demo_row [7] 3 5, demo_row [7] 2 0, demo_row [9] 4 0]"
  by (simp add: live_rows_def demo_rows_def demo_row_def keep_all_def newest_row_def tombstone_def word_le_nat_alt)

theorem compaction_contents_witness:
  "\<exists>r st relocs parts. published demo_sha (demo_writer 64) demo_rows r
    \<and> merge_segments demo_sha [r] 64 0 8 keep_all = Inr (st, relocs)
    \<and> concat parts = [demo_row [7] 3 5, demo_row [7] 2 0, demo_row [9] 4 0]
    \<and> list_all2 (\<lambda>c es. \<exists>w. published demo_sha w es (lc_reader c)) (ls_chunks (mg_live st)) parts"
proof -
  obtain r where r: "published demo_sha (demo_writer 64) demo_rows r" using demo_published by blast
  have "cap_ok 0 demo_rows" by (rule demo_cap) simp
  from compaction_contents [OF demo_sha_ok _ demo_inputs [OF r] this, of 64 8 keep_all, simplified]
  obtain st relocs parts where "merge_segments demo_sha [r] 64 0 8 keep_all = Inr (st, relocs)"
    "list_all2 (\<lambda>c es. \<exists>w. published demo_sha w es (lc_reader c)) (ls_chunks (mg_live st)) parts"
    "concat parts = live_rows keep_all demo_rows" by (elim exE conjE) (rule that)
  then show ?thesis using r by (intro exI [of _ r] exI [of _ st] exI [of _ relocs] exI [of _ parts]) (simp only: demo_live)
qed

text \<open>C32. The relocation set names exactly the replicas with a row in the inputs. A replica none of whose
  rows stays live is marked as retired; any other is mapped to a chunk, block and offset from which
  \<^verbatim>\<open>get_entry_at\<close> reads the replica's newest surviving row.\<close>

theorem compaction_relocations:
  assumes "sha_ok sha" and "target \<noteq> 0" and "merge_inputs sha inputs rows" and "cap_ok cb rows" and "rid \<noteq> ReplicaId 0"
  shows "\<exists>st relocs. merge_segments sha inputs target cb next_id policy = Inr (st, relocs)
    \<and> (case relocs rid of
         None \<Rightarrow> \<forall>e \<in> set rows. se_replica e \<noteq> rid
       | Some None \<Rightarrow> (\<exists>e \<in> set rows. se_replica e = rid) \<and> (\<forall>e \<in> set (live_rows policy rows). se_replica e \<noteq> rid)
       | Some (Some (sid, b, o')) \<Rightarrow> \<exists>c \<in> set (ls_chunks (mg_live st)). \<exists>e \<in> set (live_rows policy rows).
           sid = SegmentId (lc_id c) \<and> se_replica e = rid
           \<and> (\<forall>e' \<in> set (live_rows policy rows). se_replica e' = rid \<longrightarrow> se_seq e' \<le> se_seq e)
           \<and> get_entry_at sha (lc_reader c) (se_key e) rid (bid_u32 b) o' = Inr (Some e))"
proof -
  obtain ess where ess: "list_all2 (\<lambda>r es. \<exists>w. published sha w es r) inputs ess" "publish_order rows" "mset rows = mset (concat ess)"
    using assms(3) by (auto simp: merge_inputs_def)
  obtain st parts where m: "merge_segments sha inputs target cb next_id policy = Inr (st, relocations (mg_seen st) (ls_chunks (mg_live st)))"
    "merged sha cb policy rows st parts"
    using merge_ok [OF assms(1,2) ess assms(4), of next_id policy] by blast
  then have parts: "list_all2 (chunk_of sha) (ls_chunks (mg_live st)) parts" "concat parts = live_rows policy rows"
    and seen: "rid \<in> set (mg_seen st) \<longleftrightarrow> (\<exists>e \<in> set rows. se_replica e = rid)"
    using assms(5) by (auto simp: merged_def)
  let ?a = "fold anchor_chunk (ls_chunks (mg_live st)) Map.empty rid"
  have "anchored sha {} {} rid (Map.empty rid)" by (simp add: anchored_def)
  from anchor_chunks [OF assms(1,5) parts(1) this] have a: "anchored sha (set (ls_chunks (mg_live st))) (set (live_rows policy rows)) rid ?a"
    using parts(2) by simp
  have "(case relocations (mg_seen st) (ls_chunks (mg_live st)) rid of
         None \<Rightarrow> \<forall>e \<in> set rows. se_replica e \<noteq> rid
       | Some None \<Rightarrow> (\<exists>e \<in> set rows. se_replica e = rid) \<and> (\<forall>e \<in> set (live_rows policy rows). se_replica e \<noteq> rid)
       | Some (Some (sid, b, o')) \<Rightarrow> \<exists>c \<in> set (ls_chunks (mg_live st)). \<exists>e \<in> set (live_rows policy rows).
           sid = SegmentId (lc_id c) \<and> se_replica e = rid
           \<and> (\<forall>e' \<in> set (live_rows policy rows). se_replica e' = rid \<longrightarrow> se_seq e' \<le> se_seq e)
           \<and> get_entry_at sha (lc_reader c) (se_key e) rid (bid_u32 b) o' = Inr (Some e))"
  proof (cases "rid \<in> set (mg_seen st)")
    case False
    then show ?thesis using seen by (simp add: relocations_def)
  next
    case True
    then show ?thesis using seen a by (cases ?a) (auto simp: relocations_def anchored_def split: prod.splits)
  qed
  then show ?thesis using m(1) by blast
qed

theorem compaction_relocations_witness:
  "\<exists>r st relocs sid b o'. published demo_sha (demo_writer 64) demo_rows r
    \<and> merge_segments demo_sha [r] 64 0 8 keep_all = Inr (st, relocs) \<and> relocs (ReplicaId 5) = Some (Some (sid, b, o'))
    \<and> (\<exists>c \<in> set (ls_chunks (mg_live st)). sid = SegmentId (lc_id c)
        \<and> get_entry_at demo_sha (lc_reader c) [7] (ReplicaId 5) (bid_u32 b) o' = Inr (Some (demo_row [7] 3 5)))"
proof -
  obtain r where r: "published demo_sha (demo_writer 64) demo_rows r" using demo_published by blast
  let ?rid = "ReplicaId 5" and ?e = "demo_row [7] 3 5"
  have "cap_ok 0 demo_rows" by (rule demo_cap) simp
  note c = compaction_relocations [OF demo_sha_ok _ demo_inputs [OF r] this, of 64 ?rid 8 keep_all]
  have e: "?e \<in> set demo_rows" "?e \<in> set (live_rows keep_all demo_rows)" "se_replica ?e = ?rid" "se_key ?e = [7]"
    unfolding demo_live by (simp_all add: demo_rows_def demo_row_def)
  have only: "x = ?e" if "x \<in> set (live_rows keep_all demo_rows)" "se_replica x = ?rid" for x
    using that unfolding demo_live by (auto simp: demo_row_def)
  obtain st relocs where m: "merge_segments demo_sha [r] 64 0 8 keep_all = Inr (st, relocs)"
    and w: "case relocs ?rid of
         None \<Rightarrow> \<forall>e \<in> set demo_rows. se_replica e \<noteq> ?rid
       | Some None \<Rightarrow> (\<exists>e \<in> set demo_rows. se_replica e = ?rid) \<and> (\<forall>e \<in> set (live_rows keep_all demo_rows). se_replica e \<noteq> ?rid)
       | Some (Some (sid, b, o')) \<Rightarrow> \<exists>c \<in> set (ls_chunks (mg_live st)). \<exists>e \<in> set (live_rows keep_all demo_rows).
           sid = SegmentId (lc_id c) \<and> se_replica e = ?rid
           \<and> (\<forall>e' \<in> set (live_rows keep_all demo_rows). se_replica e' = ?rid \<longrightarrow> se_seq e' \<le> se_seq e)
           \<and> get_entry_at demo_sha (lc_reader c) (se_key e) ?rid (bid_u32 b) o' = Inr (Some e)"
    using c by auto
  obtain sid b o' c x where x: "relocs ?rid = Some (Some (sid, b, o'))" "c \<in> set (ls_chunks (mg_live st))" "sid = SegmentId (lc_id c)"
    "x \<in> set (live_rows keep_all demo_rows)" "se_replica x = ?rid"
    "get_entry_at demo_sha (lc_reader c) (se_key x) ?rid (bid_u32 b) o' = Inr (Some x)"
    using w e(1-3) by (auto split: option.splits prod.splits)
  then show ?thesis using r m only [OF x(4,5)] e(4) by (metis (no_types, lifting))
qed

text \<open>With a chunk cap every published chunk is non-empty and its estimated size exceeds the cap only
  when it is a single row; without a cap there is at most one chunk. Across chunks the rows ascend in
  publish order.\<close>

lemma compaction_chunks_bounded:
  assumes "sha_ok sha" and "target \<noteq> 0" and "merge_inputs sha inputs rows" and "cap_ok cb rows"
  shows "\<exists>st relocs parts. merge_segments sha inputs target cb next_id policy = Inr (st, relocs)
    \<and> list_all2 (\<lambda>c es. \<exists>w. published sha w es (lc_reader c)) (ls_chunks (mg_live st)) parts
    \<and> (\<forall>es \<in> set parts. es \<noteq> [] \<and> (cb = 0 \<or> length es = 1 \<or> (\<Sum>e\<leftarrow>es. entry_bytes e) \<le> cb))
    \<and> (cb = 0 \<longrightarrow> length parts \<le> 1) \<and> publish_order (concat parts)"
proof -
  obtain ess where ess: "list_all2 (\<lambda>r es. \<exists>w. published sha w es r) inputs ess" "publish_order rows" "mset rows = mset (concat ess)"
    using assms(3) by (auto simp: merge_inputs_def)
  obtain st parts where m: "merge_segments sha inputs target cb next_id policy = Inr (st, relocations (mg_seen st) (ls_chunks (mg_live st)))"
    "merged sha cb policy rows st parts"
    using merge_ok [OF assms(1,2) ess assms(4), of next_id policy] by (elim exE conjE) (rule that)
  have "\<forall>es \<in> set parts. es \<noteq> [] \<and> (cb = 0 \<or> length es = 1 \<or> (\<Sum>e\<leftarrow>es. entry_bytes e) \<le> cb)"
  proof
    fix es
    assume "es \<in> set parts"
    then have "es \<noteq> []" "within cb es" using m(2) by (auto simp: merged_def)
    moreover have "length es \<le> 1 \<Longrightarrow> length es = 1" using calculation(1) by (cases es) auto
    ultimately show "es \<noteq> [] \<and> (cb = 0 \<or> length es = 1 \<or> (\<Sum>e\<leftarrow>es. entry_bytes e) \<le> cb)" by (auto simp: within_def)
  qed
  moreover have "cb = 0 \<longrightarrow> length parts \<le> 1" "publish_order (concat parts)"
    using m(2) order_filter [OF ess(2)] by (simp_all add: merged_def live_rows_def)
  ultimately show ?thesis using m(1) merged_published [OF m(2)]
    by (intro exI [of _ st] exI [of _ "relocations (mg_seen st) (ls_chunks (mg_live st))"] exI [of _ parts]) simp
qed

lemma singletons_concat: "\<forall>es \<in> set parts. length es = 1 \<Longrightarrow> parts = map (\<lambda>e. [e]) (concat parts)"
  by (induction parts) (auto simp: length_Suc_conv)

text \<open>C33. The chunks of a merge may share a key: the rows two replicas wrote under one key can end up
  in neighbouring chunks, although the module documentation calls the chunks non-overlapping.\<close>

theorem compaction_chunks_overlap:
  "\<exists>r st relocs c1 c2 c3. published demo_sha (demo_writer 64) demo_rows r
    \<and> merge_segments demo_sha [r] 64 1 8 keep_all = Inr (st, relocs) \<and> ls_chunks (mg_live st) = [c1, c2, c3]
    \<and> segment_versions demo_sha (lc_reader c1) [7] = Inr [demo_row [7] 3 5]
    \<and> segment_versions demo_sha (lc_reader c2) [7] = Inr [demo_row [7] 2 0]"
proof -
  obtain r where r: "published demo_sha (demo_writer 64) demo_rows r" using demo_published by blast
  obtain ess where ess: "list_all2 (\<lambda>r es. \<exists>w. published demo_sha w es r) [r] ess" "publish_order demo_rows"
    "mset demo_rows = mset (concat ess)"
    using demo_inputs [OF r] by (auto simp: merge_inputs_def)
  have cap: "cap_ok 1 demo_rows" by (rule demo_cap) simp
  obtain st parts where m: "merge_segments demo_sha [r] 64 1 8 keep_all = Inr (st, relocations (mg_seen st) (ls_chunks (mg_live st)))"
    "merged demo_sha 1 keep_all demo_rows st parts"
    using merge_ok [OF demo_sha_ok _ ess cap, of 64 8 keep_all] by auto
  have "length es = 1" if "es \<in> set parts" for es
    using m(2) that by (cases es) (auto simp: merged_def within_def entry_bytes_def)
  then have "parts = map (\<lambda>e. [e]) (live_rows keep_all demo_rows)"
    using singletons_concat [of parts] m(2) by (simp add: merged_def)
  then have parts: "parts = [[demo_row [7] 3 5], [demo_row [7] 2 0], [demo_row [9] 4 0]]" by (simp add: demo_live)
  then obtain c1 c2 c3 w1 w2 where c: "ls_chunks (mg_live st) = [c1, c2, c3]"
    "published demo_sha w1 [demo_row [7] 3 5] (lc_reader c1)" "published demo_sha w2 [demo_row [7] 2 0] (lc_reader c2)"
    using merged_published [OF m(2)] by (auto simp: list_all2_Cons2)
  have "segment_versions demo_sha (lc_reader c) [7] = Inr [e]" if "published demo_sha w [e] (lc_reader c)" "se_key e = [7]" for c w e
    using segment_versions_reads [OF published_holds(1) [OF demo_sha_ok that(1)]] published_holds(4) [OF demo_sha_ok that(1)] that(2)
    by simp
  from this [OF c(2)] this [OF c(3)] show ?thesis using r m(1) c(1) by (auto simp: demo_row_def)
qed

end
